(* ===== verification/Prelude.thy ===== *)
theory Prelude
  imports Main "HOL-Library.Word"
begin

unbundle bit_operations_syntax

text \<open>
  Shared vocabulary of the development.

  \<^item> The C integer types of the kernel as machine words (\<open>u8\<close>, \<open>u16\<close>, \<open>u32\<close>).
  \<^item> \<open>fault\<close>: everything that stops the kernel from executing the next statement (a page
    fault, \<open>halt()\<close>, a dereferenced null pointer, an index outside an array).  A fallible
    operation returns \<open>fault + 'a\<close>, and \<open>kbind\<close> sequences two of them.
  \<^item> \<open>kfor\<close>: the counting loop \<open>for (i = 0; i < n; i++) body\<close> over a fallible body.
  \<^item> Lemmas on aligned addresses and on page numbers that the memory components share.

  The collections \<open>kernel_defs\<close> (executable definitions a witness evaluates), \<open>frame\<close>
  (what an operation leaves alone) and \<open>align\<close> (facts on aligned words) carry the
  component proofs.
\<close>

section \<open>Machine integers\<close>

type_synonym u8 = "8 word"
type_synonym u16 = "16 word"
type_synonym u32 = "32 word"

named_theorems kernel_defs "definitions that a concrete evaluation unfolds"
named_theorems frame "state components that an operation leaves unchanged"
named_theorems align "facts on aligned addresses"

section \<open>Faults and sequencing\<close>

datatype fault =
    PageFault u32
  | Halted
  | NullDeref
  | OutOfBounds
  | BadShift
  | OutOfFuel
  | Spins
  | DivideError

type_synonym 'a res = "fault + 'a"

definition kbind :: "'a res \<Rightarrow> ('a \<Rightarrow> 'b res) \<Rightarrow> 'b res" where
  "kbind m f = (case m of Inl e \<Rightarrow> Inl e | Inr x \<Rightarrow> f x)"

fun kfor :: "nat \<Rightarrow> (nat \<Rightarrow> 's \<Rightarrow> 's res) \<Rightarrow> 's \<Rightarrow> 's res" where
  "kfor 0 body s = Inr s"
| "kfor (Suc n) body s = kbind (kfor n body s) (body n)"

section \<open>Pages and alignment\<close>

definition PAGE_SIZE :: u32 where
  "PAGE_SIZE = 4096"

definition PALIGNDOWN :: "u32 \<Rightarrow> u32" where
  "PALIGNDOWN addr = addr AND NOT (PAGE_SIZE - 1)"

definition PALIGNUP :: "u32 \<Rightarrow> u32" where
  "PALIGNUP addr = (addr + PAGE_SIZE - 1) AND NOT (PAGE_SIZE - 1)"

section \<open>Lemmas\<close>

subsection \<open>Sequencing\<close>

lemma kbind_Inl [simp]: "kbind (Inl e) f = Inl e"
  by (simp add: kbind_def)

lemma kbind_Inr [simp]: "kbind (Inr x) f = f x"
  by (simp add: kbind_def)

lemma kbind_Inr_iff: "kbind m f = Inr y \<longleftrightarrow> (\<exists>x. m = Inr x \<and> f x = Inr y)"
  by (cases m) auto

lemma kbind_InrE: "kbind m f = Inr y \<Longrightarrow> (\<And>x. m = Inr x \<Longrightarrow> f x = Inr y \<Longrightarrow> P) \<Longrightarrow> P"
  by (auto simp: kbind_Inr_iff)

lemma kbind_Inl_iff: "kbind m f = Inl e \<longleftrightarrow> m = Inl e \<or> (\<exists>x. m = Inr x \<and> f x = Inl e)"
  by (cases m) auto

lemma kbind_assoc: "kbind (kbind m f) g = kbind m (\<lambda>x. kbind (f x) g)"
  by (cases m) auto

lemma kbind_cong [fundef_cong]:
  "m = m' \<Longrightarrow> (\<And>x. m' = Inr x \<Longrightarrow> f x = f' x) \<Longrightarrow> kbind m f = kbind m' f'"
  by (cases m') auto

lemma kfor_invariant:
  assumes "kfor n body s = Inr s'" and "P 0 s"
    and "\<And>i t t'. i < n \<Longrightarrow> P i t \<Longrightarrow> body i t = Inr t' \<Longrightarrow> P (Suc i) t'"
  shows "P n s'"
  using assms
proof (induction n arbitrary: s')
  case 0
  then show ?case by simp
next
  case (Suc n)
  from Suc.prems(1) obtain t where t: "kfor n body s = Inr t" "body n t = Inr s'"
    by (auto simp: kbind_Inr_iff)
  have "P n t"
    by (rule Suc.IH [OF t(1) Suc.prems(2)]) (use Suc.prems(3) in auto)
  with t(2) Suc.prems(3) show ?case by blast
qed

lemma kfor_keeps:
  assumes "kfor n body s = Inr s'" and "P s" and "\<And>i t t'. i < n \<Longrightarrow> P t \<Longrightarrow> body i t = Inr t' \<Longrightarrow> P t'"
  shows "P s'"
  by (rule kfor_invariant [OF assms(1), where P = "\<lambda>_. P"]) (use assms(2,3) in auto)

lemma kfor_cong:
  assumes "P s" and "\<And>i t. i < n \<Longrightarrow> P t \<Longrightarrow> body i t = body' i t"
    and "\<And>i t t'. i < n \<Longrightarrow> P t \<Longrightarrow> body' i t = Inr t' \<Longrightarrow> P t'"
  shows "kfor n body s = kfor n body' s"
  using assms(2,3)
proof (induction n)
  case (Suc n)
  have "kfor n body s = kfor n body' s"
    by (rule Suc.IH) (use Suc.prems in \<open>metis less_SucI\<close>)+
  moreover have "P t" if "kfor n body' s = Inr t" for t
    by (rule kfor_keeps [where P = P, OF that assms(1)]) (use Suc.prems(2) in \<open>metis less_SucI\<close>)
  ultimately show ?case using Suc.prems(1) by (auto intro!: kbind_cong)
qed simp

text \<open>The loop runs to its end when the body succeeds in every state the invariant allows.\<close>

lemma kfor_total:
  assumes "P 0 s"
    and "\<And>i t. i < n \<Longrightarrow> P i t \<Longrightarrow> \<exists>t'. body i t = Inr t' \<and> P (Suc i) t'"
  shows "\<exists>s'. kfor n body s = Inr s' \<and> P n s'"
  using assms
proof (induction n)
  case 0
  then show ?case by simp
next
  case (Suc n)
  then obtain t where "kfor n body s = Inr t" "P n t" by fastforce
  moreover from this Suc.prems(2) obtain t' where "body n t = Inr t'" "P (Suc n) t'"
    by blast
  ultimately show ?case by auto
qed

subsection \<open>Masks and shifts read as division\<close>

text \<open>
  Address arithmetic is carried out on \<open>unat\<close>: masking with \<open>0xfff\<close> is \<open>mod 4096\<close>,
  masking with \<open>0xfffff000\<close> rounds down to a multiple of 4096, and the two indices of a
  virtual address are quotients.
\<close>

lemma mask12: "(0xfff :: u32) = mask 12"
  by (simp add: mask_eq_exp_minus_1)

lemma mask12_not: "(0xfffff000 :: u32) = NOT (mask 12)"
  by (simp add: mask_eq_exp_minus_1)

lemma mask10: "(0x3ff :: u32) = mask 10"
  by (simp add: mask_eq_exp_minus_1)

lemma mask2: "(3 :: u32) = mask 2"
  by (simp add: mask_eq_exp_minus_1)

lemma unat_and_fff [align]: "unat (a AND 0xfff :: u32) = unat a mod 4096"
  unfolding mask12 take_bit_eq_mask [symmetric] by (simp add: take_bit_eq_mod unat_mod)

lemma unat_and_3 [align]: "unat (a AND 3 :: u32) = unat a mod 4"
  unfolding mask2 take_bit_eq_mask [symmetric] by (simp add: take_bit_eq_mod unat_mod)

lemma page_offset_sum: "(a AND 0xfffff000) + (a AND 0xfff :: u32) = a"
  unfolding mask12_not mask12
  by (subst disjunctive_add_eq_or) (auto intro!: bit_word_eqI simp: bit_simps)

lemma unat_page [align]: "unat (a AND 0xfffff000 :: u32) = unat a div 4096 * 4096"
proof -
  have "a AND 0xfffff000 = a - (a AND 0xfff)"
    using page_offset_sum [of a] by (metis add_diff_cancel_right')
  moreover have "a AND 0xfff \<le> a" by (rule word_and_le2)
  ultimately show ?thesis by (simp add: unat_sub unat_and_fff minus_mod_eq_div_mult)
qed

lemma unat_drop22 [align]: "unat (drop_bit 22 (a :: u32)) = unat a div 4194304"
  by (simp add: drop_bit_eq_div unat_div)

lemma unat_drop12 [align]: "unat (drop_bit 12 (a :: u32)) = unat a div 4096"
  by (simp add: drop_bit_eq_div unat_div)

lemma unat_and_3ff [align]: "unat (a AND 0x3ff :: u32) = unat a mod 1024"
  unfolding mask10 take_bit_eq_mask [symmetric] by (simp add: take_bit_eq_mod unat_mod)

lemma unat_add_no_wrap: "unat a + unat b < 2 ^ 32 \<Longrightarrow> unat (a + b :: u32) = unat a + unat b"
  by (simp add: unat_word_ariths)

lemma u32_eq_iff: "(a :: u32) = b \<longleftrightarrow> unat a = unat b"
  by (simp add: word_unat_eq_iff)

lemma unat_u32_less: "unat (a :: u32) < 4294967296"
  using unsigned_less [of a, where 'a = nat] by simp

lemma unat_u16_less: "unat (a :: u16) < 65536"
proof -
  have "unat a < 2 ^ LENGTH(16)" by (rule unsigned_less)
  then show ?thesis by simp
qed

subsection \<open>Page alignment\<close>

lemma PALIGNDOWN_eq: "PALIGNDOWN a = a AND 0xfffff000"
proof -
  have "NOT (4096 - 1 :: u32) = 0xfffff000" by simp
  then show ?thesis unfolding PALIGNDOWN_def PAGE_SIZE_def by (rule arg_cong)
qed

lemma unat_PALIGNDOWN [align]: "unat (PALIGNDOWN a) = unat a div 4096 * 4096"
  by (simp add: PALIGNDOWN_eq unat_page)

lemma PALIGNDOWN_idem [simp]: "PALIGNDOWN (PALIGNDOWN a) = PALIGNDOWN a"
  by (simp add: u32_eq_iff unat_PALIGNDOWN)

lemma PALIGNUP_eq: "PALIGNUP a = PALIGNDOWN (a + 4095)"
proof -
  have "a + 4096 - 1 = a + 4095" by simp
  then show ?thesis unfolding PALIGNUP_def PALIGNDOWN_def PAGE_SIZE_def by (rule arg_cong)
qed

text \<open>
  Rounding up gives the least page boundary at or above the address, unless the address lies
  in the last page of the address space: there the addition wraps and the result is 0.
\<close>

lemma unat_PALIGNUP:
  "unat (PALIGNUP a) = (unat a + 4095) mod 4294967296 div 4096 * 4096"
  by (simp add: PALIGNUP_eq unat_PALIGNDOWN unat_word_ariths)

definition page_aligned :: "u32 \<Rightarrow> bool" where
  "page_aligned a \<longleftrightarrow> a AND 0xfff = 0"

lemma page_aligned_unat [align]: "page_aligned a \<longleftrightarrow> unat a mod 4096 = 0"
  by (simp add: page_aligned_def u32_eq_iff unat_and_fff)

lemma page_aligned_PALIGNDOWN [simp]: "page_aligned (PALIGNDOWN a)"
  by (simp add: align)

lemma page_aligned_page [simp]: "page_aligned (a AND 0xfffff000)"
  by (simp add: align)

lemma PALIGNDOWN_aligned: "page_aligned a \<Longrightarrow> PALIGNDOWN a = a"
  by (auto simp: align u32_eq_iff)

lemma page_alignedE:
  assumes "page_aligned a"
  obtains k where "unat a = 4096 * k" and "k < 1048576"
proof -
  from assms obtain k where k: "unat a = 4096 * k"
    unfolding page_aligned_unat by auto
  with unat_u32_less [of a] have "k < 1048576" by simp
  with k show ?thesis by (rule that)
qed

lemma page_add_offset:
  assumes "page_aligned p" and "off < 0x1000"
  shows "unat (p + off) = unat p + unat off" and "(p + off) AND 0xfffff000 = p"
    and "(p + off) AND 0xfff = off"
proof -
  have off: "unat off < 4096" using assms(2) by (simp add: word_less_nat_alt)
  obtain k where k: "unat p = 4096 * k" "k < 1048576"
    using assms(1) by (rule page_alignedE)
  have "unat p + unat off < 2 ^ 32" using k off by simp
  then show sum: "unat (p + off) = unat p + unat off" by (rule unat_add_no_wrap)
  show "(p + off) AND 0xfffff000 = p"
    using k off by (simp add: u32_eq_iff unat_page sum)
  show "(p + off) AND 0xfff = off"
    using k off by (simp add: u32_eq_iff unat_and_fff sum)
qed

text \<open>Four-byte alignment: the bytes of two different aligned words are different bytes.\<close>

definition aligned4 :: "u32 \<Rightarrow> bool" where
  "aligned4 a \<longleftrightarrow> a AND 3 = 0"

lemma aligned4_unat [align]: "aligned4 a \<longleftrightarrow> unat a mod 4 = 0"
  by (simp add: aligned4_def u32_eq_iff unat_and_3)

lemma aligned4E:
  assumes "aligned4 a"
  obtains k where "unat a = 4 * k" and "k < 1073741824"
proof -
  from assms obtain k where k: "unat a = 4 * k"
    unfolding aligned4_unat by auto
  with unat_u32_less [of a] have "k < 1073741824" by simp
  with k show ?thesis by (rule that)
qed

lemma page_aligned_aligned4: "page_aligned a \<Longrightarrow> aligned4 a"
  by (erule page_alignedE) (simp add: aligned4_unat)

lemma aligned4_add: "aligned4 a \<Longrightarrow> aligned4 b \<Longrightarrow> aligned4 (a + b)"
proof -
  assume "aligned4 a" "aligned4 b"
  then have "4 dvd unat a + unat b" by (auto simp: aligned4_unat)
  then show ?thesis
    by (simp add: aligned4_unat unat_word_ariths mod_mod_cancel dvd_imp_mod_0)
qed

lemma aligned4_mult4 [simp]: "aligned4 (4 * a)"
  by (simp add: aligned4_unat unat_word_ariths mod_mod_cancel)

lemma aligned4_byte:
  assumes "aligned4 a" and "i < 4"
  shows "unat (a + i) = unat a + unat i"
proof -
  have "unat i < 4" using assms(2) by (simp add: word_less_nat_alt)
  moreover obtain k where "unat a = 4 * k" "k < 1073741824"
    using assms(1) by (rule aligned4E)
  ultimately have "unat a + unat i < 2 ^ 32" by simp
  then show ?thesis by (rule unat_add_no_wrap)
qed

lemma aligned4_bytes_disjoint:
  assumes "aligned4 a" and "aligned4 b" and "a \<noteq> b" and "i < 4" and "j < 4"
  shows "a + i \<noteq> b + j"
proof
  assume "a + i = b + j"
  then have "unat a + unat i = unat b + unat j"
    using assms by (metis aligned4_byte)
  moreover have "unat i < 4" "unat j < 4"
    using assms(4,5) by (simp_all add: word_less_nat_alt)
  ultimately have "unat a = unat b"
    using assms(1,2) unfolding aligned4_unat by presburger
  with assms(3) show False by (simp add: u32_eq_iff)
qed

end
