(* ===== verification/Machine.thy ===== *)
theory Machine
  imports Prelude
begin

unbundle bit_operations_syntax

text \<open>
  The i386 as the kernel's C code sees it.

  \<^item> \<open>mmu\<close>: physical memory as bytes and the page-directory register.  \<open>translate\<close> is the
    processor's two-level page walk for a ring-0 access with \<open>CR0.WP = 0\<close> and
    \<open>CR4.PSE = 0\<close> (the kernel never sets either), so only the present bits matter; the
    accessed and dirty bits the processor writes back and the TLB are left out.
  \<^item> \<open>vload32\<close>, \<open>vstore32\<close> and the byte versions: what dereferencing a C pointer does,
    byte by byte through the page walk, with \<open>PageFault\<close> for an unmapped byte.
  \<^item> \<open>ioport\<close>: the port space; writes are recorded in order, and the values a device
    answers with are an input stream per port.
  \<^item> The address macros of \<^verbatim>\<open>include/kernel/vm.h\<close>.

  The main result is the self map: with the last page-directory entry pointing at the page
  directory, the windows at \<open>KERN_PDIR_ADDR\<close> and \<open>KERN_PTABS_ADDR\<close> are exactly the current
  page directory and page tables.
\<close>

section \<open>Definitions\<close>

subsection \<open>Physical memory\<close>

definition load32 :: "(u32 \<Rightarrow> u8) \<Rightarrow> u32 \<Rightarrow> u32" where
  "load32 m a =
     ucast (m a) OR push_bit 8 (ucast (m (a + 1)))
       OR push_bit 16 (ucast (m (a + 2))) OR push_bit 24 (ucast (m (a + 3)))"

definition store32 :: "(u32 \<Rightarrow> u8) \<Rightarrow> u32 \<Rightarrow> u32 \<Rightarrow> (u32 \<Rightarrow> u8)" where
  "store32 m a v =
     m(a := ucast v, a + 1 := ucast (drop_bit 8 v),
       a + 2 := ucast (drop_bit 16 v), a + 3 := ucast (drop_bit 24 v))"

record mmu =
  mem :: "u32 \<Rightarrow> u8"
  cr3 :: u32

subsection \<open>Addresses (vm.h)\<close>

definition KERN_VOFF :: u32 where "KERN_VOFF = 0xe0000000"
definition KERN_PDIR_ADDR :: u32 where "KERN_PDIR_ADDR = 0xfffff000"
definition KERN_PTABS_ADDR :: u32 where "KERN_PTABS_ADDR = 0xffc00000"

definition PTE_P :: u32 where "PTE_P = 1"
definition PTE_W :: u32 where "PTE_W = 2"
definition PTE_U :: u32 where "PTE_U = 4"
definition PTE_T :: u32 where "PTE_T = 8"
definition PTE_C :: u32 where "PTE_C = 16"
definition PDE_P :: u32 where "PDE_P = 1"
definition PDE_W :: u32 where "PDE_W = 2"
definition PDE_U :: u32 where "PDE_U = 4"

definition vm_pdir_idx :: "u32 \<Rightarrow> u32" where
  "vm_pdir_idx vaddr = drop_bit 22 vaddr"

definition vm_ptab_idx :: "u32 \<Rightarrow> u32" where
  "vm_ptab_idx vaddr = drop_bit 12 vaddr AND 0x3ff"

text \<open>The addresses of \<open>pdir[i]\<close> and of \<open>ptab[j]\<close>, the latter in the table of directory entry \<open>i\<close>.\<close>

definition pdir_slot :: "u32 \<Rightarrow> u32" where
  "pdir_slot i = KERN_PDIR_ADDR + 4 * i"

definition ptab_slot :: "u32 \<Rightarrow> u32 \<Rightarrow> u32" where
  "ptab_slot i j = KERN_PTABS_ADDR + 4 * (0x400 * i) + 4 * j"

definition p2v :: "u32 \<Rightarrow> u32" where
  "p2v addr = addr + KERN_VOFF"

definition v2p :: "u32 \<Rightarrow> u32" where
  "v2p addr = addr - KERN_VOFF"

definition set_cr3 :: "u32 \<Rightarrow> mmu \<Rightarrow> mmu" where
  "set_cr3 pdir s = s\<lparr>cr3 := pdir\<rparr>"

definition get_cr3 :: "mmu \<Rightarrow> u32" where
  "get_cr3 s = cr3 s"

subsection \<open>The page walk\<close>

definition pd_base :: "mmu \<Rightarrow> u32" where
  "pd_base s = cr3 s AND 0xfffff000"

definition pde_of :: "mmu \<Rightarrow> u32 \<Rightarrow> u32" where
  "pde_of s i = load32 (mem s) (pd_base s + 4 * i)"

definition pte_of :: "mmu \<Rightarrow> u32 \<Rightarrow> u32 \<Rightarrow> u32" where
  "pte_of s i j = load32 (mem s) ((pde_of s i AND 0xfffff000) + 4 * j)"

definition translate :: "mmu \<Rightarrow> u32 \<Rightarrow> u32 res" where
  "translate s v =
     (if pde_of s (vm_pdir_idx v) AND PDE_P = 0 then Inl (PageFault v)
      else if pte_of s (vm_pdir_idx v) (vm_ptab_idx v) AND PTE_P = 0 then Inl (PageFault v)
      else Inr ((pte_of s (vm_pdir_idx v) (vm_ptab_idx v) AND 0xfffff000) + (v AND 0xfff)))"

subsection \<open>Dereferencing pointers\<close>

definition vload8 :: "mmu \<Rightarrow> u32 \<Rightarrow> u8 res" where
  "vload8 s a = kbind (translate s a) (\<lambda>p. Inr (mem s p))"

definition vstore8 :: "mmu \<Rightarrow> u32 \<Rightarrow> u8 \<Rightarrow> mmu res" where
  "vstore8 s a b = kbind (translate s a) (\<lambda>p. Inr (s\<lparr>mem := (mem s)(p := b)\<rparr>))"

definition vload32 :: "mmu \<Rightarrow> u32 \<Rightarrow> u32 res" where
  "vload32 s a =
     kbind (vload8 s a) (\<lambda>b0. kbind (vload8 s (a + 1)) (\<lambda>b1.
     kbind (vload8 s (a + 2)) (\<lambda>b2. kbind (vload8 s (a + 3)) (\<lambda>b3.
       Inr (ucast b0 OR push_bit 8 (ucast b1)
         OR push_bit 16 (ucast b2) OR push_bit 24 (ucast b3))))))"

definition vstore32 :: "mmu \<Rightarrow> u32 \<Rightarrow> u32 \<Rightarrow> mmu res" where
  "vstore32 s a v =
     kbind (translate s a) (\<lambda>p0. kbind (translate s (a + 1)) (\<lambda>p1.
     kbind (translate s (a + 2)) (\<lambda>p2. kbind (translate s (a + 3)) (\<lambda>p3.
       Inr (s\<lparr>mem := (mem s)(p0 := ucast v, p1 := ucast (drop_bit 8 v),
                    p2 := ucast (drop_bit 16 v), p3 := ucast (drop_bit 24 v))\<rparr>)))))"

definition mmio_read32 :: "mmu \<Rightarrow> u32 \<Rightarrow> u32 res" where
  "mmio_read32 s addr = vload32 s addr"

definition mmio_write32 :: "mmu \<Rightarrow> u32 \<Rightarrow> u32 \<Rightarrow> mmu res" where
  "mmio_write32 s addr v = vstore32 s addr v"

subsection \<open>Ports\<close>

record ioport =
  out_log :: "(u16 \<times> u32) list"
  in_val :: "u16 \<Rightarrow> nat \<Rightarrow> u32"
  in_pos :: "u16 \<Rightarrow> nat"

definition outb :: "u16 \<Rightarrow> u8 \<Rightarrow> ioport \<Rightarrow> ioport" where
  "outb port data io = io\<lparr>out_log := out_log io @ [(port, ucast data)]\<rparr>"

definition outl :: "u16 \<Rightarrow> u32 \<Rightarrow> ioport \<Rightarrow> ioport" where
  "outl port data io = io\<lparr>out_log := out_log io @ [(port, data)]\<rparr>"

definition inl :: "u16 \<Rightarrow> ioport \<Rightarrow> u32 \<times> ioport" where
  "inl port io =
     (in_val io port (in_pos io port), io\<lparr>in_pos := (in_pos io)(port := Suc (in_pos io port))\<rparr>)"

definition inb :: "u16 \<Rightarrow> ioport \<Rightarrow> u8 \<times> ioport" where
  "inb port io = (let (v, io') = inl port io in (ucast v, io'))"

section \<open>Lemmas\<close>

lemmas flag_defs = PTE_P_def PTE_W_def PTE_U_def PTE_T_def PTE_C_def PDE_P_def PDE_W_def PDE_U_def
lemmas addr_defs = KERN_VOFF_def KERN_PDIR_ADDR_def KERN_PTABS_ADDR_def

lemma mod8_cases: "(n :: nat) < 32 \<Longrightarrow> n < 8 \<or> (8 \<le> n \<and> n < 16) \<or> (16 \<le> n \<and> n < 24) \<or> 24 \<le> n"
  by linarith

lemma load32_store32 [simp]: "load32 (store32 m a v) a = v"
proof (rule bit_word_eqI)
  fix n assume "n < LENGTH(32)"
  then have "n < 32" by simp
  then show "bit (load32 (store32 m a v) a) n \<longleftrightarrow> bit v n"
    using mod8_cases [of n] by (auto simp: load32_def store32_def bit_simps)
qed

lemma store32_other: "p \<notin> {a, a + 1, a + 2, a + 3} \<Longrightarrow> store32 m a v p = m p"
  by (simp add: store32_def)

lemma load32_cong:
  "m a = m' a \<Longrightarrow> m (a + 1) = m' (a + 1) \<Longrightarrow> m (a + 2) = m' (a + 2) \<Longrightarrow> m (a + 3) = m' (a + 3)
    \<Longrightarrow> load32 m a = load32 m' a"
  by (simp add: load32_def)

lemma load32_store32_other:
  assumes "aligned4 a" and "aligned4 b" and "a \<noteq> b"
  shows "load32 (store32 m a v) b = load32 m b"
proof -
  have ne: "b + j \<noteq> a + i" if "i < 4" "j < 4" for i j
    using assms that by (intro aligned4_bytes_disjoint) auto
  have "store32 m a v (b + j) = m (b + j)" if "j < 4" for j
    using ne [of 0 j] ne [of 1 j] ne [of 2 j] ne [of 3 j] that by (simp add: store32_def)
  from this [of 0] this [of 1] this [of 2] this [of 3] show ?thesis
    by (intro load32_cong) simp_all
qed

subsection \<open>The page walk depends on the page only\<close>

lemma unat_vm_pdir_idx [align]: "unat (vm_pdir_idx v) = unat v div 4096 div 1024"
  by (simp add: vm_pdir_idx_def unat_drop22 div_mult2_eq [symmetric])

lemma unat_vm_ptab_idx [align]: "unat (vm_ptab_idx v) = unat v div 4096 mod 1024"
  by (simp add: vm_ptab_idx_def unat_and_3ff unat_drop12)

lemma vm_pdir_idx_less: "vm_pdir_idx v < 1024"
  using unat_u32_less [of v] by (simp add: word_less_nat_alt unat_vm_pdir_idx)

lemma vm_ptab_idx_less: "vm_ptab_idx v < 1024"
  by (simp add: word_less_nat_alt unat_vm_ptab_idx)

text \<open>The pair of indices of an address is its page number.\<close>

lemma same_page_iff:
  "a AND 0xfffff000 = b AND 0xfffff000 \<longleftrightarrow>
     vm_pdir_idx a = vm_pdir_idx b \<and> vm_ptab_idx a = vm_ptab_idx b"
proof -
  have "a AND 0xfffff000 = b AND 0xfffff000 \<longleftrightarrow> unat a div 4096 = unat b div 4096"
    by (simp add: u32_eq_iff unat_page)
  also have "\<dots> \<longleftrightarrow> vm_pdir_idx a = vm_pdir_idx b \<and> vm_ptab_idx a = vm_ptab_idx b"
    by (metis div_mult_mod_eq u32_eq_iff unat_vm_pdir_idx unat_vm_ptab_idx)
  finally show ?thesis .
qed

lemma aligned4_same_page:
  assumes "aligned4 a" and "i < 4"
  shows "(a + i) AND 0xfffff000 = a AND 0xfffff000" and "(a + i) AND 0xfff = (a AND 0xfff) + i"
proof -
  obtain k where k: "unat a = 4 * k" "k < 1073741824" using assms(1) by (rule aligned4E)
  have i: "unat i < 4" using assms(2) by (simp add: word_less_nat_alt)
  have sum: "unat (a + i) = 4 * k + unat i" using aligned4_byte [OF assms] k by simp
  have "(4 * k + unat i) div 4 = k" using i by simp
  then have "(4 * k + unat i) div (4 * 1024) = 4 * k div (4 * 1024)"
    by (simp only: div_mult2_eq nonzero_mult_div_cancel_left)
  then have d: "(4 * k + unat i) div 4096 = 4 * k div 4096" by simp
  then show "(a + i) AND 0xfffff000 = a AND 0xfffff000"
    by (simp add: u32_eq_iff unat_page sum k)
  have m: "(4 * k + unat i) mod 4096 = 4 * k mod 4096 + unat i"
    using d div_mult_mod_eq [of "4 * k + unat i" 4096] div_mult_mod_eq [of "4 * k" 4096]
    by linarith
  have "unat (a AND 0xfff) + unat i < 2 ^ 32" using i by (simp add: unat_and_fff)
  then have "unat ((a AND 0xfff) + i) = 4 * k mod 4096 + unat i"
    by (simp only: unat_add_no_wrap unat_and_fff k)
  then show "(a + i) AND 0xfff = (a AND 0xfff) + i"
    by (simp add: u32_eq_iff unat_and_fff sum m)
qed

lemma translate_aligned4:
  assumes "translate s a = Inr p" and "aligned4 a" and "i < 4"
  shows "translate s (a + i) = Inr (p + i)"
proof -
  have "vm_pdir_idx (a + i) = vm_pdir_idx a \<and> vm_ptab_idx (a + i) = vm_ptab_idx a"
    using aligned4_same_page(1) [OF assms(2,3)] same_page_iff by blast
  with assms(1) show ?thesis
    by (auto simp: translate_def aligned4_same_page(2) [OF assms(2,3)] add.assoc
        split: if_splits)
qed

lemma translate_same_page:
  assumes "translate s a = Inr p" and "b AND 0xfffff000 = a AND 0xfffff000"
  shows "translate s b = Inr ((p AND 0xfffff000) + (b AND 0xfff))"
proof -
  have idx: "vm_pdir_idx b = vm_pdir_idx a" "vm_ptab_idx b = vm_ptab_idx a"
    using assms(2) same_page_iff by auto
  let ?e = "pte_of s (vm_pdir_idx a) (vm_ptab_idx a)"
  have "p = (?e AND 0xfffff000) + (a AND 0xfff)"
    using assms(1) by (auto simp: translate_def split: if_splits)
  moreover have "a AND 0xfff < 0x1000"
    by (simp add: word_less_nat_alt unat_and_fff)
  ultimately have "p AND 0xfffff000 = ?e AND 0xfffff000"
    by (simp add: page_add_offset(2))
  with assms(1) show ?thesis
    by (auto simp: translate_def idx split: if_splits)
qed

lemma translate_aligned:
  assumes "translate s a = Inr p" and "aligned4 a"
  shows "aligned4 p"
proof -
  let ?e = "pte_of s (vm_pdir_idx a) (vm_ptab_idx a)"
  have "p = (?e AND 0xfffff000) + (a AND 0xfff)"
    using assms(1) by (auto simp: translate_def split: if_splits)
  moreover have "aligned4 (a AND 0xfff)"
    using assms(2) by (simp add: aligned4_unat unat_and_fff mod_mod_cancel)
  ultimately show ?thesis
    by (simp add: aligned4_add page_aligned_aligned4)
qed

subsection \<open>Word access through the walk\<close>

lemma vload32_aligned:
  assumes "translate s a = Inr p" and "aligned4 a"
  shows "vload32 s a = Inr (load32 (mem s) p)"
  using translate_aligned4 [OF assms, of 1] translate_aligned4 [OF assms, of 2]
    translate_aligned4 [OF assms, of 3] assms(1)
  by (simp add: vload32_def vload8_def load32_def)

lemma vstore32_aligned:
  assumes "translate s a = Inr p" and "aligned4 a"
  shows "vstore32 s a v = Inr (s\<lparr>mem := store32 (mem s) p v\<rparr>)"
  using translate_aligned4 [OF assms, of 1] translate_aligned4 [OF assms, of 2]
    translate_aligned4 [OF assms, of 3] assms(1)
  by (simp add: vstore32_def store32_def)

lemma vload32_fault: "translate s a = Inl e \<Longrightarrow> vload32 s a = Inl e"
  by (simp add: vload32_def vload8_def)

lemma vstore32_fault: "translate s a = Inl e \<Longrightarrow> vstore32 s a v = Inl e"
  by (simp add: vstore32_def)

lemma cr3_vstore32 [frame]: "vstore32 s a v = Inr s' \<Longrightarrow> cr3 s' = cr3 s"
  by (auto simp: vstore32_def kbind_Inr_iff)

lemma cr3_vstore8 [frame]: "vstore8 s a b = Inr s' \<Longrightarrow> cr3 s' = cr3 s"
  by (auto simp: vstore8_def kbind_Inr_iff)

subsection \<open>The self map\<close>

definition selfmap :: "mmu \<Rightarrow> bool" where
  "selfmap s \<longleftrightarrow> pde_of s 1023 AND PDE_P \<noteq> 0 \<and> pde_of s 1023 AND 0xfffff000 = pd_base s"

lemma unat_mult4: "(i :: u32) < 1024 \<Longrightarrow> unat (4 * i) = 4 * unat i"
  by (simp add: word_less_nat_alt unat_word_ariths)

lemma unat_ptab_slot:
  assumes "i < 1024" and "j < 1024"
  shows "unat (ptab_slot i j) = 4290772992 + 4096 * unat i + 4 * unat j"
proof -
  have ij: "unat i < 1024" "unat j < 1024" using assms by (simp_all add: word_less_nat_alt)
  have i: "unat (4 * (0x400 * i)) = 4096 * unat i" using ij by (simp add: unat_word_ariths)
  have s1: "unat (KERN_PTABS_ADDR + 4 * (0x400 * i)) = 4290772992 + 4096 * unat i"
    using ij i by (subst unat_add_no_wrap) (simp_all add: addr_defs)
  have "unat (KERN_PTABS_ADDR + 4 * (0x400 * i)) + unat (4 * j) < 2 ^ 32"
    unfolding s1 unat_mult4 [OF assms(2)] using ij by simp
  then show ?thesis
    unfolding ptab_slot_def by (simp only: unat_add_no_wrap s1 unat_mult4 [OF assms(2)])
qed

lemma pdir_slot_eq: "i < 1024 \<Longrightarrow> pdir_slot i = ptab_slot 1023 i"
  by (simp add: pdir_slot_def ptab_slot_def addr_defs)

lemma ptab_slot_idx:
  assumes "i < 1024" and "j < 1024"
  shows "vm_pdir_idx (ptab_slot i j) = 1023" and "vm_ptab_idx (ptab_slot i j) = i"
    and "ptab_slot i j AND 0xfff = 4 * j" and "aligned4 (ptab_slot i j)"
proof -
  have ij: "unat i < 1024" "unat j < 1024" using assms by (simp_all add: word_less_nat_alt)
  have d: "(4290772992 + 4096 * unat i + 4 * unat j) div 4096 = 1047552 + unat i"
    using ij by simp
  have m: "(4290772992 + 4096 * unat i + 4 * unat j) mod 4096 = 4 * unat j"
  proof -
    have "4290772992 + 4096 * unat i + 4 * unat j = 4 * unat j + 4096 * (1047552 + unat i)"
      by simp
    then have "(4290772992 + 4096 * unat i + 4 * unat j) mod 4096 = 4 * unat j mod 4096"
      by (simp only: mod_mult_self2)
    with ij show ?thesis by simp
  qed
  have m2: "(1047552 + unat i) mod 1024 = unat i"
    using ij mod_mult_self1 [of "unat i" 1023 1024] by (simp add: add.commute)
  show "vm_pdir_idx (ptab_slot i j) = 1023"
    using ij by (simp add: u32_eq_iff unat_vm_pdir_idx unat_ptab_slot assms d)
  show "vm_ptab_idx (ptab_slot i j) = i"
    using ij by (simp add: u32_eq_iff unat_vm_ptab_idx unat_ptab_slot assms d m2)
  show "ptab_slot i j AND 0xfff = 4 * j"
    using ij by (simp add: u32_eq_iff unat_and_fff unat_ptab_slot assms m unat_mult4)
  show "aligned4 (ptab_slot i j)"
    by (simp add: aligned4_unat unat_ptab_slot assms)
qed

lemma translate_ptab_slot:
  assumes "selfmap s" and "i < 1024" and "j < 1024"
  shows "translate s (ptab_slot i j) =
    (if pde_of s i AND PDE_P = 0 then Inl (PageFault (ptab_slot i j))
     else Inr ((pde_of s i AND 0xfffff000) + 4 * j))"
proof -
  have "pte_of s 1023 i = pde_of s i"
    using assms(1) by (simp add: pte_of_def selfmap_def pde_of_def)
  then show ?thesis
    using assms by (simp add: translate_def ptab_slot_idx selfmap_def flag_defs)
qed

lemma translate_pdir_slot:
  assumes "selfmap s" and "i < 1024"
  shows "translate s (pdir_slot i) = Inr (pd_base s + 4 * i)"
  using assms translate_ptab_slot [of s 1023 i] by (simp add: pdir_slot_eq selfmap_def)

subsection \<open>Writing page-table entries\<close>

lemma page_aligned_pd_base [simp]: "page_aligned (pd_base s)"
  by (simp add: pd_base_def)

lemma mult4_less: "(j :: u32) < 1024 \<Longrightarrow> 4 * j < 0x1000"
  by (simp add: word_less_nat_alt unat_mult4)

lemma entry_inject:
  assumes "page_aligned p" and "page_aligned q" and "i < 1024" and "j < 1024"
  shows "p + 4 * i = q + 4 * j \<longleftrightarrow> p = q \<and> i = j"
proof
  assume eq: "p + 4 * i = q + 4 * j"
  note i = page_add_offset [OF assms(1) mult4_less [OF assms(3)]]
    and j = page_add_offset [OF assms(2) mult4_less [OF assms(4)]]
  have "p = q" using i(2) j(2) eq by simp
  moreover have "4 * i = 4 * j" using i(3) j(3) eq by simp
  then have "i = j" using assms(3,4) unat_mult4 by (metis mult_cancel1 u32_eq_iff zero_neq_numeral)
  ultimately show "p = q \<and> i = j" ..
qed simp

lemma aligned4_entry: "page_aligned p \<Longrightarrow> aligned4 (p + 4 * i)"
  by (simp add: aligned4_add page_aligned_aligned4)

lemma load32_store_entry:
  assumes "page_aligned p" and "page_aligned q" and "i < 1024" and "j < 1024"
  shows "load32 (store32 m (p + 4 * i) v) (q + 4 * j)
    = (if p = q \<and> i = j then v else load32 m (q + 4 * j))"
proof (cases "p = q \<and> i = j")
  case False
  then have "p + 4 * i \<noteq> q + 4 * j" using entry_inject [OF assms] by simp
  then show ?thesis
    unfolding if_not_P [OF False]
    by (intro load32_store32_other aligned4_entry assms)
qed auto

definition set_pde :: "mmu \<Rightarrow> u32 \<Rightarrow> u32 \<Rightarrow> mmu" where
  "set_pde s i v = s\<lparr>mem := store32 (mem s) (pd_base s + 4 * i) v\<rparr>"

definition set_pte :: "mmu \<Rightarrow> u32 \<Rightarrow> u32 \<Rightarrow> u32 \<Rightarrow> mmu" where
  "set_pte s i j v = s\<lparr>mem := store32 (mem s) ((pde_of s i AND 0xfffff000) + 4 * j) v\<rparr>"

lemma pd_base_set [simp]: "pd_base (set_pde s i v) = pd_base s" "pd_base (set_pte s i j v) = pd_base s"
  by (simp_all add: pd_base_def set_pde_def set_pte_def)

lemma cr3_set [simp]: "cr3 (set_pde s i v) = cr3 s" "cr3 (set_pte s i j v) = cr3 s"
  by (simp_all add: set_pde_def set_pte_def)

lemma pde_of_set_pde:
  "i < 1024 \<Longrightarrow> k < 1024 \<Longrightarrow> pde_of (set_pde s i v) k = (if k = i then v else pde_of s k)"
  using load32_store_entry [of "pd_base s" "pd_base s" i k "mem s" v]
  by (auto simp: pde_of_def set_pde_def pd_base_def)

lemma vstore32_pdir_slot:
  assumes "selfmap s" and "i < 1024"
  shows "vstore32 s (pdir_slot i) v = Inr (set_pde s i v)"
  using vstore32_aligned [OF translate_pdir_slot [OF assms]] assms(2)
  by (simp add: set_pde_def pdir_slot_eq ptab_slot_idx)

lemma vload32_pdir_slot:
  assumes "selfmap s" and "i < 1024"
  shows "vload32 s (pdir_slot i) = Inr (pde_of s i)"
  using vload32_aligned [OF translate_pdir_slot [OF assms]] assms(2)
  by (simp add: pde_of_def pdir_slot_eq ptab_slot_idx)

lemma vstore32_ptab_slot:
  assumes "selfmap s" and "i < 1024" and "j < 1024" and "pde_of s i AND PDE_P \<noteq> 0"
  shows "vstore32 s (ptab_slot i j) v = Inr (set_pte s i j v)"
proof -
  have "translate s (ptab_slot i j) = Inr ((pde_of s i AND 0xfffff000) + 4 * j)"
    using translate_ptab_slot [OF assms(1-3)] assms(4) by simp
  then show ?thesis
    using vstore32_aligned ptab_slot_idx(4) [OF assms(2,3)] by (simp add: set_pte_def)
qed

lemma vload32_ptab_slot:
  assumes "selfmap s" and "i < 1024" and "j < 1024" and "pde_of s i AND PDE_P \<noteq> 0"
  shows "vload32 s (ptab_slot i j) = Inr (pte_of s i j)"
proof -
  have "translate s (ptab_slot i j) = Inr ((pde_of s i AND 0xfffff000) + 4 * j)"
    using translate_ptab_slot [OF assms(1-3)] assms(4) by simp
  then show ?thesis
    using vload32_aligned ptab_slot_idx(4) [OF assms(2,3)] by (simp add: pte_of_def)
qed

lemma ptab_slot_unmapped:
  assumes "selfmap s" and "i < 1024" and "j < 1024" and "pde_of s i AND PDE_P = 0"
  shows "vload32 s (ptab_slot i j) = Inl (PageFault (ptab_slot i j))"
    and "vstore32 s (ptab_slot i j) v = Inl (PageFault (ptab_slot i j))"
  using translate_ptab_slot [OF assms(1-3)] assms(4) vload32_fault vstore32_fault by simp_all

subsection \<open>Well-formed address spaces\<close>

text \<open>
  The current page directory maps itself, no page table is the page directory, and different
  directory entries have different page tables.
\<close>

definition table_of :: "mmu \<Rightarrow> u32 \<Rightarrow> u32" where
  "table_of s i = pde_of s i AND 0xfffff000"

definition has_table :: "mmu \<Rightarrow> u32 \<Rightarrow> bool" where
  "has_table s i \<longleftrightarrow> i < 1023 \<and> pde_of s i AND PDE_P \<noteq> 0"

definition pt_ok :: "mmu \<Rightarrow> bool" where
  "pt_ok s \<longleftrightarrow> selfmap s \<and>
     (\<forall>i. has_table s i \<longrightarrow> table_of s i \<noteq> pd_base s) \<and>
     (\<forall>i j. has_table s i \<and> has_table s j \<and> table_of s i = table_of s j \<longrightarrow> i = j)"

lemma pt_ok_selfmap: "pt_ok s \<Longrightarrow> selfmap s"
  by (simp add: pt_ok_def)

lemma page_aligned_table_of [simp]: "page_aligned (table_of s i)"
  by (simp add: table_of_def)

lemma pte_of_table: "pte_of s i j = load32 (mem s) (table_of s i + 4 * j)"
  by (simp add: pte_of_def table_of_def)

lemma less_1023: "(i :: u32) < 1023 \<Longrightarrow> i < 1024" "(i :: u32) < 1024 \<Longrightarrow> i \<noteq> 1023 \<Longrightarrow> i < 1023"
  by (simp_all add: word_less_nat_alt u32_eq_iff)

text \<open>Writing a page-table entry changes no directory entry and no other table entry.\<close>

lemma mem_set_pte: "mem (set_pte s i j v) = store32 (mem s) (table_of s i + 4 * j) v"
  by (simp add: set_pte_def table_of_def)

lemma pde_of_set_pte:
  assumes "pt_ok s" and "has_table s i" and "j < 1024" and "k < 1024"
  shows "pde_of (set_pte s i j v) k = pde_of s k"
proof -
  have "table_of s i \<noteq> pd_base s" using assms(1,2) by (simp add: pt_ok_def)
  then show ?thesis
    using load32_store_entry [of "table_of s i" "pd_base s" j k "mem s" v] assms(3,4)
    by (simp add: pde_of_def mem_set_pte)
qed

lemma has_table_set_pte:
  "pt_ok s \<Longrightarrow> has_table s i \<Longrightarrow> j < 1024 \<Longrightarrow> has_table (set_pte s i j v) k = has_table s k"
  by (auto simp: has_table_def pde_of_set_pte less_1023)

lemma pte_of_set_pte:
  assumes "pt_ok s" and "has_table s i" and "j < 1024" and "has_table s k" and "l < 1024"
  shows "pte_of (set_pte s i j v) k l = (if k = i \<and> l = j then v else pte_of s k l)"
proof -
  have k: "k < 1024" using assms(4) by (simp add: has_table_def less_1023)
  have t: "table_of (set_pte s i j v) k = table_of s k"
    using pde_of_set_pte [OF assms(1-3) k] by (simp add: table_of_def)
  have eq: "table_of s i = table_of s k \<longleftrightarrow> i = k" using assms(1,2,4) by (auto simp: pt_ok_def)
  show ?thesis
    using load32_store_entry [of "table_of s i" "table_of s k" j l "mem s" v] assms(3,5) eq
    by (auto simp: pte_of_table t mem_set_pte)
qed

lemma pt_ok_set_pte:
  assumes "pt_ok s" and "has_table s i" and "j < 1024"
  shows "pt_ok (set_pte s i j v)"
proof -
  note p = pde_of_set_pte [OF assms]
  have t: "table_of (set_pte s i j v) k = table_of s k" if "k < 1024" for k
    using p [OF that] by (simp add: table_of_def)
  have lt: "k < 1024" if "has_table s k" for k using that by (simp add: has_table_def less_1023)
  show ?thesis
    using assms(1) p [of 1023] t lt
    unfolding pt_ok_def selfmap_def by (simp add: has_table_set_pte [OF assms]) metis
qed

text \<open>Writing a directory entry: the tables keep their contents.\<close>

lemma table_of_set_pde:
  "i < 1024 \<Longrightarrow> k < 1024 \<Longrightarrow>
    table_of (set_pde s i v) k = (if k = i then v AND 0xfffff000 else table_of s k)"
  by (simp add: table_of_def pde_of_set_pde)

lemma has_table_set_pde:
  "i < 1023 \<Longrightarrow> has_table (set_pde s i v) k =
    (if k = i then v AND PDE_P \<noteq> 0 else has_table s k)"
  by (auto simp: has_table_def pde_of_set_pde less_1023)

lemma pte_of_set_pde:
  assumes "i < 1024" and "l < 1024" and "table_of (set_pde s i v) k \<noteq> pd_base s"
  shows "pte_of (set_pde s i v) k l = load32 (mem s) (table_of (set_pde s i v) k + 4 * l)"
proof -
  have "mem (set_pde s i v) = store32 (mem s) (pd_base s + 4 * i) v" by (simp add: set_pde_def)
  then show ?thesis
    using load32_store_entry [of "pd_base s" "table_of (set_pde s i v) k" i l "mem s" v] assms
    by (simp add: pte_of_table)
qed

lemma pt_ok_set_pde:
  assumes "pt_ok s" and "i < 1023" and "v AND 0xfffff000 \<noteq> pd_base s"
    and "\<And>k. has_table s k \<Longrightarrow> k \<noteq> i \<Longrightarrow> table_of s k \<noteq> v AND 0xfffff000"
  shows "pt_ok (set_pde s i v)"
proof -
  have i: "i < 1024" "i \<noteq> 1023" using assms(2) by (auto simp: less_1023)
  have lt: "k < 1024" if "has_table s k" for k using that by (simp add: has_table_def less_1023)
  have t: "table_of (set_pde s i v) k = (if k = i then v AND 0xfffff000 else table_of s k)"
    if "k = i \<or> has_table s k" for k
    using that table_of_set_pde i(1) lt by blast
  have ht: "m = i \<or> has_table s m" if "has_table (set_pde s i v) m" for m
    using that unfolding has_table_set_pde [OF assms(2)] by metis
  have "pde_of (set_pde s i v) 1023 = pde_of s 1023"
    using i by (simp add: pde_of_set_pde)
  then have "selfmap (set_pde s i v)"
    using pt_ok_selfmap [OF assms(1)] by (simp add: selfmap_def)
  moreover have "table_of (set_pde s i v) k \<noteq> pd_base s" if "has_table (set_pde s i v) k" for k
    using ht [OF that] t [of k] assms(1,3) unfolding pt_ok_def by metis
  moreover have "k = l" if "has_table (set_pde s i v) k" "has_table (set_pde s i v) l"
      "table_of (set_pde s i v) k = table_of (set_pde s i v) l" for k l
  proof -
    have inj: "has_table s m \<Longrightarrow> has_table s n \<Longrightarrow> table_of s m = table_of s n \<Longrightarrow> m = n" for m n
      using assms(1) unfolding pt_ok_def by blast
    note th = ht [OF that(1)] ht [OF that(2)]
    show ?thesis
    proof (cases "k = i"; cases "l = i")
      assume "k = i" "l \<noteq> i"
      with th t [of k] t [of l] that(3) have "table_of s l = v AND 0xfffff000" by metis
      with assms(4) [of l] th \<open>l \<noteq> i\<close> show ?thesis by blast
    next
      assume "k \<noteq> i" "l = i"
      with th t [of k] t [of l] that(3) have "table_of s k = v AND 0xfffff000" by metis
      with assms(4) [of k] th \<open>k \<noteq> i\<close> show ?thesis by blast
    next
      assume "k \<noteq> i" "l \<noteq> i"
      with th t [of k] t [of l] that(3) show ?thesis by (metis inj)
    qed simp
  qed
  ultimately show ?thesis by (simp add: pt_ok_def)
qed

text \<open>The physical bytes the page walk reads.\<close>

definition walk_bytes :: "mmu \<Rightarrow> u32 set" where
  "walk_bytes s = {p. p AND 0xfffff000 = pd_base s} \<union>
     {p. \<exists>i < 1024. pde_of s i AND PDE_P \<noteq> 0 \<and> p AND 0xfffff000 = table_of s i}"

subsection \<open>A small address space\<close>

text \<open>
  The address space the witnesses run on: page directory at frame 0 with its self map, and
  one page table at \<open>0x1000\<close> that maps the virtual pages \<open>0x2000\<close> and \<open>0x3000\<close> to the frames
  \<open>0x5000\<close> and \<open>0x6000\<close>.
\<close>

definition demo_mmu :: mmu where
  "demo_mmu = \<lparr>mem = store32 (store32 (store32 (store32 (\<lambda>_. 0)
      (0 + 4 * 0) 0x1003) (0 + 4 * 1023) 3) (0x1000 + 4 * 2) 0x5003) (0x1000 + 4 * 3) 0x6003,
    cr3 = 0\<rparr>"

lemma demo_load:
  assumes "page_aligned q" and "j < 1024"
  shows "load32 (mem demo_mmu) (q + 4 * j) =
    (if 0x1000 = q \<and> 3 = j then 0x6003 else if 0x1000 = q \<and> 2 = j then 0x5003
     else if 0 = q \<and> 1023 = j then 3 else if 0 = q \<and> 0 = j then 0x1003 else 0)"
proof -
  have al: "page_aligned 0" "page_aligned 0x1000" by (simp_all add: page_aligned_def)
  have z: "load32 (\<lambda>_. 0) a = 0" for a by (simp add: load32_def)
  have b: "(3 :: u32) < 1024" "(2 :: u32) < 1024" "(1023 :: u32) < 1024" "(0 :: u32) < 1024"
    by simp_all
  note e = load32_store_entry [OF al(2) assms(1) b(1) assms(2)]
    load32_store_entry [OF al(2) assms(1) b(2) assms(2)]
    load32_store_entry [OF al(1) assms(1) b(3) assms(2)]
    load32_store_entry [OF al(1) assms(1) b(4) assms(2)]
  show ?thesis
    unfolding demo_mmu_def mmu.select_convs e z by (rule refl)
qed

lemma demo_pd_base: "pd_base demo_mmu = 0"
  by (simp add: pd_base_def demo_mmu_def)

lemma demo_pde:
  "i < 1024 \<Longrightarrow> pde_of demo_mmu i = (if i = 1023 then 3 else if i = 0 then 0x1003 else 0)"
  using demo_load [of 0 i] by (simp add: pde_of_def demo_pd_base page_aligned_def)

lemma demo_pte:
  "j < 1024 \<Longrightarrow> pte_of demo_mmu 0 j = (if j = 3 then 0x6003 else if j = 2 then 0x5003 else 0)"
  using demo_load [of "0x1000" j] by (simp add: pte_of_def demo_pde page_aligned_def)

lemma demo_pt_ok: "pt_ok demo_mmu"
  unfolding pt_ok_def selfmap_def
  by (auto simp: has_table_def table_of_def demo_pde demo_pd_base flag_defs less_1023
      split: if_splits)

lemma demo_walk_bytes:
  "p \<in> walk_bytes demo_mmu \<longleftrightarrow> p AND 0xfffff000 = 0 \<or> p AND 0xfffff000 = 0x1000"
  unfolding walk_bytes_def
  by (auto simp: table_of_def demo_pde demo_pd_base flag_defs split: if_splits
      intro: exI [of _ 0])

lemma demo_translate_page:
  assumes "off < 0x1000"
  shows "translate demo_mmu (0x2000 + off) = Inr (0x5000 + off)"
    and "translate demo_mmu (0x3000 + off) = Inr (0x6000 + off)"
proof -
  have b: "translate demo_mmu 0x2000 = Inr 0x5000" "translate demo_mmu 0x3000 = Inr 0x6000"
    by (simp_all add: translate_def vm_pdir_idx_def vm_ptab_idx_def demo_pde demo_pte flag_defs)
  have al: "page_aligned 0x2000" "page_aligned 0x3000" by (simp_all add: page_aligned_def)
  show "translate demo_mmu (0x2000 + off) = Inr (0x5000 + off)"
    using translate_same_page [OF b(1), of "0x2000 + off"] page_add_offset [OF al(1) assms] by simp
  show "translate demo_mmu (0x3000 + off) = Inr (0x6000 + off)"
    using translate_same_page [OF b(2), of "0x3000 + off"] page_add_offset [OF al(2) assms] by simp
qed

end
