(* ===== verification/Pmm.thy ===== *)
theory Pmm
  imports Machine
begin

unbundle bit_operations_syntax

text \<open>
  The physical memory manager, \<^verbatim>\<open>kernel/pm.c\<close>.

  The state is the bitmap (32768 words, one bit per 4 KiB page) and the start of the page
  pool, a kernel virtual address.  \<open>pm_used s n\<close> abstracts the bitmap to "page \<open>n\<close> is
  handed out" and \<open>pm_page s n\<close> is the physical address of page \<open>n\<close>.

  Shown: \<open>pm_alloc\<close> returns the first free page and marks exactly that page, or null when
  every page is used; \<open>pm_alloc_cont\<close> returns a run of free pages inside one bitmap word and
  marks exactly that run, or null when no word has such a run; pages have different
  addresses; \<open>pm_init\<close> starts with everything free; what \<open>pm_free\<close> really clears.  The
  locale \<open>frame_source\<close> is what clients rely on, and \<open>pm_alloc\<close> is an instance of it.
\<close>

section \<open>Definitions\<close>

record pm =
  pm_bitmap :: "nat \<Rightarrow> u32"
  pm_page_pool :: u32

definition PM_BITMAP_NMEMB :: nat where
  "PM_BITMAP_NMEMB = 32768"

subsection \<open>pm\_alloc\<close>

text \<open>The inner loop of \<open>pm_alloc\<close>, which has no bound of its own.\<close>

function pm_find_bit :: "u32 \<Rightarrow> nat \<Rightarrow> nat res" where
  "pm_find_bit w b =
     (if 32 \<le> b then Inl BadShift
      else if w AND push_bit b 1 = 0 then Inr b
      else pm_find_bit w (Suc b))"
  by pat_completeness auto
termination
  by (relation "measure (\<lambda>(w, b). 32 - b)") auto

definition pm_page_addr :: "pm \<Rightarrow> nat \<Rightarrow> nat \<Rightarrow> u32" where
  "pm_page_addr s idx b = pm_page_pool s + (of_nat (idx * 4 * 8 + b)) * PAGE_SIZE"

function pm_alloc_from :: "nat \<Rightarrow> pm \<Rightarrow> (u32 \<times> pm) res" where
  "pm_alloc_from idx s =
     (if idx < PM_BITMAP_NMEMB then
        (if pm_bitmap s idx \<noteq> - 1 then
           kbind (pm_find_bit (pm_bitmap s idx) 0) (\<lambda>b.
             Inr (v2p (pm_page_addr s idx b),
                  s\<lparr>pm_bitmap := (pm_bitmap s)(idx := pm_bitmap s idx OR push_bit b 1)\<rparr>))
         else pm_alloc_from (Suc idx) s)
      else Inr (0, s))"
  by pat_completeness auto
termination
  by (relation "measure (\<lambda>(idx, s). PM_BITMAP_NMEMB - idx)") auto

definition pm_alloc :: "pm \<Rightarrow> (u32 \<times> pm) res" where
  "pm_alloc s = pm_alloc_from 0 s"

subsection \<open>pm\_alloc\_cont\<close>

text \<open>The inner loop: slide the mask left until it meets only free pages.\<close>

function pm_cont_scan :: "u32 \<Rightarrow> nat \<Rightarrow> u32 \<Rightarrow> nat \<Rightarrow> (u32 \<times> nat) option" where
  "pm_cont_scan w lim msk i =
     (if lim < i then None
      else if w AND msk = 0 then Some (msk, i)
      else pm_cont_scan w lim (push_bit 1 msk) (Suc i))"
  by pat_completeness auto
termination
  by (relation "measure (\<lambda>(w, lim, msk, i). Suc lim - i)") auto

function pm_alloc_cont_from :: "nat \<Rightarrow> nat \<Rightarrow> pm \<Rightarrow> (u32 \<times> pm) res" where
  "pm_alloc_cont_from idx page_num s =
     (if idx < PM_BITMAP_NMEMB then
        (if pm_bitmap s idx \<noteq> - 1 then
           (if page_num = 0 then Inl BadShift
            else
              (case pm_cont_scan (pm_bitmap s idx) (32 - page_num)
                      (drop_bit (32 - page_num) (- 1)) 0 of
                 Some (msk, shift) \<Rightarrow>
                   Inr (v2p (pm_page_addr s idx shift),
                        s\<lparr>pm_bitmap := (pm_bitmap s)(idx := pm_bitmap s idx OR msk)\<rparr>)
               | None \<Rightarrow> pm_alloc_cont_from (Suc idx) page_num s))
         else pm_alloc_cont_from (Suc idx) page_num s)
      else Inr (0, s))"
  by pat_completeness auto
termination
  by (relation "measure (\<lambda>(idx, n, s). PM_BITMAP_NMEMB - idx)") auto

definition pm_alloc_cont :: "nat \<Rightarrow> pm \<Rightarrow> (u32 \<times> pm) res" where
  "pm_alloc_cont page_num s =
     (if page_num > 32 then Inr (0, s) else pm_alloc_cont_from 0 page_num s)"

subsection \<open>pm\_free\<close>

definition pm_free :: "u32 \<Rightarrow> pm \<Rightarrow> pm res" where
  "pm_free addr s =
     (let addr = PALIGNDOWN addr;
          idx = unat ((addr - pm_page_pool s) div PAGE_SIZE div 32);
          b = unat ((addr - pm_page_pool s) div PAGE_SIZE mod 32)
      in if idx < PM_BITMAP_NMEMB then
           Inr (s\<lparr>pm_bitmap := (pm_bitmap s)(idx := pm_bitmap s idx AND NOT (push_bit b 1))\<rparr>)
         else Inl OutOfBounds)"

subsection \<open>pm\_init\<close>

text \<open>One entry of the memory map the boot loader leaves in \<open>struct kern_bootinfo\<close>.\<close>

record memory_map_entry =
  base_low :: u32
  base_high :: u32
  len_low :: u32
  len_high :: u32
  mtype :: u32
  acpi_ext :: u32

definition pm_init_step :: "memory_map_entry \<Rightarrow> u32 \<times> u32 \<Rightarrow> u32 \<times> u32" where
  "pm_init_step e acc =
     (let (max_size, pool) = acc in
      if max_size \<le> len_low e then (len_low e, PALIGNUP (p2v (base_low e))) else (max_size, pool))"

definition pm_init :: "memory_map_entry list \<Rightarrow> pm \<Rightarrow> (u32 \<times> pm) res" where
  "pm_init memory_map s =
     (if length memory_map < 16 then Inl OutOfBounds
      else let (max_size, pool) = fold pm_init_step (take 16 memory_map) (0, pm_page_pool s);
               s' = \<lparr>pm_bitmap = (\<lambda>_. 0), pm_page_pool = pool\<rparr>
           in Inr (v2p pool, s'))"

subsection \<open>The abstract view\<close>

definition PM_NPAGES :: nat where
  "PM_NPAGES = 1048576"

definition pm_used :: "pm \<Rightarrow> nat \<Rightarrow> bool" where
  "pm_used s n \<longleftrightarrow> bit (pm_bitmap s (n div 32)) (n mod 32)"

definition pm_page :: "pm \<Rightarrow> nat \<Rightarrow> u32" where
  "pm_page s n = v2p (pm_page_pool s + of_nat n * PAGE_SIZE)"

declare pm_find_bit.simps [simp del] pm_alloc_from.simps [simp del]
  pm_cont_scan.simps [simp del] pm_alloc_cont_from.simps [simp del]

section \<open>Lemmas\<close>

subsection \<open>pm\_alloc finds the first free page\<close>

lemma word_full_iff: "(w :: u32) = - 1 \<longleftrightarrow> (\<forall>b < 32. bit w b)"
proof
  assume h: "\<forall>b < 32. bit w b"
  show "w = - 1" by (rule bit_word_eqI) (use h in \<open>simp add: bit_simps\<close>)
qed (simp add: bit_simps)

lemma bit_clear_iff: "(w :: u32) AND 2 ^ b = 0 \<longleftrightarrow> \<not> bit w b"
  by (simp add: bit_iff_and_push_bit_not_eq_0)

lemma pm_find_bit_first:
  assumes "\<not> bit w b" and "b < 32" and "c \<le> b" and "\<forall>i. c \<le> i \<and> i < b \<longrightarrow> bit w i"
  shows "pm_find_bit w c = Inr b"
  using assms
proof (induction w c rule: pm_find_bit.induct)
  case (1 w c)
  show ?case
  proof (cases "c = b")
    case True
    with "1.prems" show ?thesis by (simp add: pm_find_bit.simps [of w b] bit_clear_iff)
  next
    case False
    with "1.prems" have "c < b" "bit w c" by auto
    with "1" show ?thesis by (simp add: pm_find_bit.simps [of w c] bit_clear_iff)
  qed
qed

lemma pm_find_bit_ok:
  assumes "w \<noteq> - 1"
  obtains b where "pm_find_bit w 0 = Inr b" and "b < 32" and "\<not> bit w b" and "\<forall>i < b. bit w i"
proof -
  have ex: "\<exists>b. b < 32 \<and> \<not> bit w b" using assms by (auto simp: word_full_iff)
  define b where "b = (LEAST b. b < 32 \<and> \<not> bit w b)"
  have b: "b < 32" "\<not> bit w b" using LeastI_ex [OF ex] by (auto simp: b_def)
  have low: "\<forall>i < b. bit w i" using not_less_Least b(1) by (metis b_def less_trans)
  have "pm_find_bit w 0 = Inr b"
    by (rule pm_find_bit_first) (use b low in auto)
  with b low show ?thesis by (rule_tac that)
qed

lemma bit_set_bit: "b < 32 \<Longrightarrow> bit (w OR 2 ^ b :: u32) i \<longleftrightarrow> bit w i \<or> i = b"
  by (auto simp: bit_simps)

lemma pm_used_set:
  assumes "b < 32"
  shows "pm_used (s\<lparr>pm_bitmap := (pm_bitmap s)(idx := pm_bitmap s idx OR push_bit b 1)\<rparr>) m
    \<longleftrightarrow> pm_used s m \<or> m = idx * 32 + b"
proof -
  have "m = idx * 32 + b \<longleftrightarrow> m div 32 = idx \<and> m mod 32 = b"
    using assms by (metis div_mult_mod_eq div_mult_self3 div_less add_cancel_right_right
        mod_less mod_mult_self3 zero_neq_numeral)
  then show ?thesis by (auto simp: pm_used_def bit_set_bit assms)
qed

lemma pm_page_pm_page_addr: "v2p (pm_page_addr s idx b) = pm_page s (idx * 32 + b)"
  by (simp add: pm_page_def pm_page_addr_def mult.commute)

lemma pm_used_word_full:
  "pm_bitmap s idx = - 1 \<longleftrightarrow> (\<forall>b < 32. pm_used s (idx * 32 + b))"
  by (simp add: word_full_iff pm_used_def)

text \<open>
  The search from word \<open>idx\<close>, all of whose predecessors are full: it returns the first free
  page.
\<close>

lemma pm_alloc_from_first:
  assumes "\<not> pm_used s n" and "n < PM_NPAGES" and "\<forall>m < n. pm_used s m" and "idx \<le> n div 32"
  shows "pm_alloc_from idx s =
    Inr (pm_page s n, s\<lparr>pm_bitmap := (pm_bitmap s)
           (n div 32 := pm_bitmap s (n div 32) OR push_bit (n mod 32) 1)\<rparr>)"
  using assms
proof (induction idx s rule: pm_alloc_from.induct)
  case (1 idx s)
  have lt: "idx < PM_BITMAP_NMEMB"
    using "1.prems"(2,4) by (simp add: PM_BITMAP_NMEMB_def PM_NPAGES_def)
  show ?case
  proof (cases "idx = n div 32")
    case True
    have nz: "\<not> bit (pm_bitmap s idx) (n mod 32)"
      using "1.prems"(1) True by (simp add: pm_used_def)
    have low: "bit (pm_bitmap s idx) i" if "i < n mod 32" for i
    proof -
      have "idx * 32 + i < n" using that True by (metis div_mult_mod_eq nat_add_left_cancel_less)
      with "1.prems"(3) have "pm_used s (idx * 32 + i)" by blast
      moreover have "i < 32" using that by (meson less_trans mod_less_divisor zero_less_numeral)
      ultimately show ?thesis by (simp add: pm_used_def)
    qed
    have "n mod 32 < 32" by simp
    with nz have full: "pm_bitmap s idx \<noteq> - 1" using word_full_iff by blast
    have "pm_find_bit (pm_bitmap s idx) 0 = Inr (n mod 32)"
      by (rule pm_find_bit_first) (use nz low in auto)
    then show ?thesis
      using lt full True by (simp add: pm_alloc_from.simps [of "n div 32" s] pm_page_pm_page_addr fun_upd_def)
  next
    case False
    with "1.prems"(4) have less: "Suc idx \<le> n div 32" by simp
    have "\<forall>b < 32. pm_used s (idx * 32 + b)"
    proof (intro allI impI)
      fix b :: nat assume "b < 32"
      then have "idx * 32 + b < n div 32 * 32" using less by simp
      also have "\<dots> \<le> n" by simp
      finally show "pm_used s (idx * 32 + b)" using "1.prems"(3) by blast
    qed
    then have "pm_bitmap s idx = - 1" by (simp add: pm_used_word_full)
    with "1.IH" lt less "1.prems" show ?thesis by (simp add: pm_alloc_from.simps [of idx s])
  qed
qed

lemma pm_alloc_from_none:
  assumes "\<forall>m < PM_NPAGES. pm_used s m"
  shows "pm_alloc_from idx s = Inr (0, s)"
  using assms
proof (induction idx s rule: pm_alloc_from.induct)
  case (1 idx s)
  have "pm_bitmap s idx = - 1" if "idx < PM_BITMAP_NMEMB"
    using "1.prems" that by (auto simp: pm_used_word_full PM_NPAGES_def PM_BITMAP_NMEMB_def)
  with "1" show ?case by (simp add: pm_alloc_from.simps [of idx s])
qed

lemma pm_alloc_first:
  assumes "\<not> pm_used s n" and "n < PM_NPAGES" and "\<forall>m < n. pm_used s m"
  obtains s' where "pm_alloc s = Inr (pm_page s n, s')" and "pm_page_pool s' = pm_page_pool s"
    and "\<And>m. pm_used s' m \<longleftrightarrow> pm_used s m \<or> m = n"
proof -
  let ?s' = "s\<lparr>pm_bitmap := (pm_bitmap s)
           (n div 32 := pm_bitmap s (n div 32) OR push_bit (n mod 32) 1)\<rparr>"
  have "pm_alloc s = Inr (pm_page s n, ?s')"
    unfolding pm_alloc_def by (rule pm_alloc_from_first [OF assms]) simp
  moreover have "pm_used ?s' m \<longleftrightarrow> pm_used s m \<or> m = n" for m
    using pm_used_set [of "n mod 32" s "n div 32" m] by simp
  ultimately show ?thesis using that [of ?s'] by simp
qed

subsection \<open>Pages have different addresses\<close>

lemma pm_page_inject:
  assumes "pm_page s n = pm_page s m" and "n < PM_NPAGES" and "m < PM_NPAGES"
  shows "n = m"
proof -
  have "(of_nat n * PAGE_SIZE :: u32) = of_nat m * PAGE_SIZE"
    using assms(1) by (simp add: pm_page_def v2p_def)
  then have "(n * 4096) mod 4294967296 = (m * 4096) mod 4294967296"
    by (simp add: u32_eq_iff PAGE_SIZE_def unat_word_ariths mod_simps unat_of_nat take_bit_eq_mod)
  with assms(2,3) show ?thesis by (simp add: PM_NPAGES_def)
qed

lemma pm_page_phys: "pm_page s n = pm_page_pool s + of_nat n * PAGE_SIZE + 0x20000000"
  by (simp add: pm_page_def v2p_def KERN_VOFF_def)

lemma pm_page_aligned: "page_aligned (pm_page_pool s) \<Longrightarrow> page_aligned (pm_page s n)"
proof -
  assume "page_aligned (pm_page_pool s)"
  then have "4096 dvd unat (pm_page_pool s)" by (auto simp: page_aligned_unat)
  then have "4096 dvd unat (pm_page_pool s) + n * 4096 + 536870912" by simp
  moreover have "unat (pm_page s n)
      = (unat (pm_page_pool s) + n * 4096 + 536870912) mod 4294967296"
    by (simp add: pm_page_phys PAGE_SIZE_def unat_word_ariths mod_simps unat_of_nat take_bit_eq_mod)
  ultimately show ?thesis
    by (simp add: page_aligned_unat mod_mod_cancel dvd_imp_mod_0)
qed

subsection \<open>pm\_alloc\_cont\<close>

lemma bit_run_mask: "j + n \<le> 32 \<Longrightarrow> bit (push_bit j (mask n) :: u32) b \<longleftrightarrow> j \<le> b \<and> b < j + n"
  by (auto simp: bit_simps)

lemma run_free_iff:
  assumes "j + n \<le> 32"
  shows "w AND push_bit j (mask n) = (0 :: u32) \<longleftrightarrow> (\<forall>b. j \<le> b \<and> b < j + n \<longrightarrow> \<not> bit w b)"
  using assms by (simp add: bit_eq_iff bit_and_iff bit_run_mask) (meson order_less_le_trans)

definition run_free :: "u32 \<Rightarrow> nat \<Rightarrow> nat \<Rightarrow> bool" where
  "run_free w n j \<longleftrightarrow> (\<forall>b. j \<le> b \<and> b < j + n \<longrightarrow> \<not> bit w b)"

lemma pm_cont_scan_spec:
  assumes "n \<le> 32"
  shows "(case pm_cont_scan w (32 - n) (push_bit i (mask n)) i of
      None \<Rightarrow> \<forall>k. i \<le> k \<and> k + n \<le> 32 \<longrightarrow> \<not> run_free w n k
    | Some (msk, j) \<Rightarrow> msk = push_bit j (mask n) \<and> j + n \<le> 32 \<and> run_free w n j)"
proof (induction "32 - n + 1 - i" arbitrary: i)
  case 0
  then have "32 - n < i" by simp
  with assms show ?case by (auto simp: pm_cont_scan.simps)
next
  case (Suc d)
  then have i: "\<not> 32 - n < i" and i32: "i + n \<le> 32" using assms by auto
  show ?case
  proof (cases "w AND push_bit i (mask n) = 0")
    case True
    then have "run_free w n i" using i32 by (simp add: run_free_iff run_free_def)
    with True i i32 show ?thesis by (simp add: pm_cont_scan.simps)
  next
    case False
    then have nf: "\<not> run_free w n i" using i32 by (simp add: run_free_iff run_free_def)
    have step: "pm_cont_scan w (32 - n) (push_bit i (mask n)) i =
        pm_cont_scan w (32 - n) (push_bit (Suc i) (mask n)) (Suc i)"
      using False i by (simp add: pm_cont_scan.simps [of w _ _ i] push_bit_push_bit)
    have "k = i \<or> Suc i \<le> k" if "i \<le> k" for k using that by auto
    then show ?thesis
      using Suc.hyps(1) [of "Suc i"] Suc.hyps(2) nf unfolding step
      by (fastforce split: option.splits)
  qed
qed

lemma pm_used_set_run:
  assumes "j + n \<le> 32"
  shows "pm_used (s\<lparr>pm_bitmap := (pm_bitmap s)(idx := pm_bitmap s idx OR push_bit j (mask n))\<rparr>) m
    \<longleftrightarrow> pm_used s m \<or> (idx * 32 + j \<le> m \<and> m < idx * 32 + j + n)"
proof -
  have m: "m = m div 32 * 32 + m mod 32" "m mod 32 < 32" by simp_all
  have "idx * 32 + j \<le> m \<and> m < idx * 32 + j + n
      \<longleftrightarrow> m div 32 = idx \<and> j \<le> m mod 32 \<and> m mod 32 < j + n"
  proof
    assume h: "idx * 32 + j \<le> m \<and> m < idx * 32 + j + n"
    then have "idx * 32 \<le> m" "m < (idx + 1) * 32" using assms by auto
    then have "m div 32 = idx" by (simp add: div_nat_eqI)
    with h m(1) show "m div 32 = idx \<and> j \<le> m mod 32 \<and> m mod 32 < j + n" by linarith
  next
    assume "m div 32 = idx \<and> j \<le> m mod 32 \<and> m mod 32 < j + n"
    with m(1) show "idx * 32 + j \<le> m \<and> m < idx * 32 + j + n" by linarith
  qed
  then show ?thesis
    by (auto simp: pm_used_def bit_or_iff bit_run_mask [OF assms])
qed

lemma run_free_used: "j + n \<le> 32 \<Longrightarrow>
  run_free (pm_bitmap s idx) n j \<longleftrightarrow> (\<forall>b < n. \<not> pm_used s (idx * 32 + j + b))"
proof -
  assume jn: "j + n \<le> 32"
  have "pm_used s (idx * 32 + j + b) \<longleftrightarrow> bit (pm_bitmap s idx) (j + b)" if "b < n" for b
    using that jn by (simp add: pm_used_def add.assoc)
  moreover have "(\<forall>b. j \<le> b \<and> b < j + n \<longrightarrow> \<not> bit w b) \<longleftrightarrow> (\<forall>b < n. \<not> bit w (j + b))"
    for w :: u32 by (metis add_less_cancel_left le_add1 le_iff_add)
  ultimately show ?thesis by (auto simp: run_free_def)
qed

text \<open>The outcome of the search, from word \<open>idx\<close> on.\<close>

definition cont_result :: "nat \<Rightarrow> nat \<Rightarrow> pm \<Rightarrow> (u32 \<times> pm) res \<Rightarrow> bool" where
  "cont_result idx n s r \<longleftrightarrow>
     (r = Inr (0, s) \<and>
        (\<forall>k j. idx \<le> k \<and> k < PM_BITMAP_NMEMB \<and> j + n \<le> 32 \<longrightarrow>
           (\<exists>b < n. pm_used s (k * 32 + j + b))))
     \<or> (\<exists>k j s'. k < PM_BITMAP_NMEMB \<and> j + n \<le> 32 \<and>
          r = Inr (pm_page s (k * 32 + j), s') \<and> pm_page_pool s' = pm_page_pool s \<and>
          (\<forall>b < n. \<not> pm_used s (k * 32 + j + b)) \<and>
          (\<forall>m. pm_used s' m \<longleftrightarrow> pm_used s m \<or> (k * 32 + j \<le> m \<and> m < k * 32 + j + n)))"

lemma cont_result_skip:
  assumes "cont_result (Suc idx) n s r"
    and "\<And>j. j + n \<le> 32 \<Longrightarrow> \<exists>b < n. pm_used s (idx * 32 + j + b)"
  shows "cont_result idx n s r"
  using assms unfolding cont_result_def
  by (elim disjE) (metis le_neq_implies_less Suc_leI, blast)

lemma pm_alloc_cont_from_result:
  assumes "0 < n" and "n \<le> 32"
  shows "cont_result idx n s (pm_alloc_cont_from idx n s)"
  using assms
proof (induction idx n s rule: pm_alloc_cont_from.induct)
  case (1 idx n s)
  let ?w = "pm_bitmap s idx"
  have m0: "drop_bit (32 - n) (- 1 :: u32) = push_bit 0 (mask n)"
    by (rule bit_word_eqI) (use "1.prems" in \<open>auto simp: bit_simps\<close>)
  note step = pm_alloc_cont_from.simps [of idx n s]
  show ?case
  proof (cases "idx < PM_BITMAP_NMEMB")
    case False
    then show ?thesis unfolding step cont_result_def by (intro disjI1) auto
  next
    case lt: True
    show ?thesis
    proof (cases "?w = - 1")
      case True
      then have "\<exists>b < n. pm_used s (idx * 32 + j + b)" if "j + n \<le> 32" for j
        using "1.prems" that pm_used_word_full [of s idx]
        by (intro exI [of _ 0]) (simp add: add.assoc)
      with True lt "1" show ?thesis by (simp add: step cont_result_skip)
    next
      case nfull: False
      show ?thesis
      proof (cases "pm_cont_scan ?w (32 - n) (push_bit 0 (mask n)) 0")
        case None
        then have "\<not> run_free ?w n k" if "k + n \<le> 32" for k
          using pm_cont_scan_spec [OF "1.prems"(2), where w = ?w and i = 0] that by simp
        then have "\<exists>b < n. pm_used s (idx * 32 + j + b)" if "j + n \<le> 32" for j
          using that run_free_used by blast
        with None lt nfull "1" m0 show ?thesis by (simp add: step cont_result_skip)
      next
        case (Some x)
        then obtain msk j where x: "x = (msk, j)" by (cases x)
        have sp: "msk = push_bit j (mask n)" "j + n \<le> 32" "run_free ?w n j"
          using pm_cont_scan_spec [OF "1.prems"(2), where w = ?w and i = 0] Some x by simp_all
        let ?s' = "s\<lparr>pm_bitmap := (pm_bitmap s)(idx := ?w OR push_bit j (mask n))\<rparr>"
        have "pm_alloc_cont_from idx n s = Inr (pm_page s (idx * 32 + j), ?s')"
          using Some x sp lt nfull "1.prems" m0 by (simp add: step pm_page_pm_page_addr)
        then show ?thesis
          unfolding cont_result_def
          using lt sp pm_used_set_run [OF sp(2), of s idx] run_free_used [OF sp(2), of s idx]
          by (intro disjI2 exI [of _ idx] exI [of _ j] exI [of _ ?s']) simp
      qed
    qed
  qed
qed

subsection \<open>pm\_free\<close>

lemma u32_page_index:
  "unat ((of_nat k * 0x1000 :: u32) div PAGE_SIZE) = k mod 1048576"
proof -
  have "unat (of_nat k * 0x1000 :: u32) = (k * 4096) mod 4294967296"
    by (simp add: unat_word_ariths mod_simps unat_of_nat take_bit_eq_mod)
  also have "\<dots> = (k mod 1048576) * 4096"
    using mult_mod_left [of k 1048576 4096] by simp
  finally show ?thesis by (simp add: PAGE_SIZE_def unat_div)
qed

text \<open>
  Clearing by an address \<open>k\<close> pages above the pool start, where \<open>k\<close> counts modulo the
  number of pages of the address space.
\<close>

lemma pm_free_offset:
  assumes "page_aligned (pm_page_pool s)" and "addr = pm_page_pool s + of_nat k * 0x1000"
  obtains s' where "pm_free addr s = Inr s'" and "pm_page_pool s' = pm_page_pool s"
    and "\<And>m. pm_used s' m \<longleftrightarrow> pm_used s m \<and> m \<noteq> k mod PM_NPAGES"
proof -
  let ?i = "k mod 1048576"
  have "4096 dvd unat (pm_page_pool s) + k * 4096"
    using assms(1) by (auto simp: page_aligned_unat)
  then have "page_aligned addr"
    by (simp add: assms(2) page_aligned_unat unat_word_ariths mod_simps unat_of_nat
        take_bit_eq_mod mod_mod_cancel dvd_imp_mod_0)
  then have al: "PALIGNDOWN addr = addr" by (rule PALIGNDOWN_aligned)
  have off: "addr - pm_page_pool s = of_nat k * 0x1000" by (simp add: assms(2))
  have idx: "unat ((addr - pm_page_pool s) div PAGE_SIZE div 32) = ?i div 32"
    and b: "unat ((addr - pm_page_pool s) div PAGE_SIZE mod 32) = ?i mod 32"
    unfolding off by (simp_all add: unat_div unat_mod u32_page_index [unfolded unat_div])
  let ?s' = "s\<lparr>pm_bitmap := (pm_bitmap s)(?i div 32 := pm_bitmap s (?i div 32)
               AND NOT (push_bit (?i mod 32) 1))\<rparr>"
  have lt: "?i div 32 < PM_BITMAP_NMEMB"
    using mod_less_divisor [of 1048576 k] by (simp add: PM_BITMAP_NMEMB_def)
  have "pm_free addr s = Inr ?s'"
    using lt by (simp only: pm_free_def Let_def al idx b if_True)
  moreover have "pm_used ?s' m \<longleftrightarrow> pm_used s m \<and> m \<noteq> k mod PM_NPAGES" for m
  proof -
    have "m = ?i \<longleftrightarrow> m div 32 = ?i div 32 \<and> m mod 32 = ?i mod 32"
      by (metis div_mult_mod_eq)
    moreover have "m mod 32 < 32" by simp
    ultimately show ?thesis by (auto simp: pm_used_def bit_simps PM_NPAGES_def)
  qed
  ultimately show ?thesis using that [of ?s'] by simp
qed

subsection \<open>pm\_init\<close>

lemma pm_init_step_eq:
  "pm_init_step e (m, p) =
     (if m \<le> len_low e then (len_low e, PALIGNUP (p2v (base_low e))) else (m, p))"
  by (simp add: pm_init_step_def)

lemma fold_pm_init_step:
  assumes "es \<noteq> []"
  shows "\<exists>i < length es. fold pm_init_step es (0, p) =
      (len_low (es ! i), PALIGNUP (p2v (base_low (es ! i))))
    \<and> (\<forall>j < length es. len_low (es ! j) \<le> len_low (es ! i))
    \<and> (\<forall>j. i < j \<and> j < length es \<longrightarrow> len_low (es ! j) < len_low (es ! i))"
  using assms
proof (induction es rule: rev_nonempty_induct)
  case (single e)
  then show ?case by (simp add: pm_init_step_def)
next
  case (snoc e es)
  then obtain i where i: "i < length es"
    "fold pm_init_step es (0, p) = (len_low (es ! i), PALIGNUP (p2v (base_low (es ! i))))"
    "\<forall>j < length es. len_low (es ! j) \<le> len_low (es ! i)"
    "\<forall>j. i < j \<and> j < length es \<longrightarrow> len_low (es ! j) < len_low (es ! i)" by blast
  show ?case
  proof (cases "len_low (es ! i) \<le> len_low e")
    case True
    have "len_low (es ! j) \<le> len_low e" if "j < length es" for j
      using that i(3) True order_trans by blast
    with True i show ?thesis
      by (intro exI [of _ "length es"]) (auto simp: pm_init_step_eq nth_append less_Suc_eq)
  next
    case False
    with i show ?thesis
      by (intro exI [of _ i]) (auto simp: pm_init_step_eq nth_append less_Suc_eq)
  qed
qed

section \<open>The interface clients use\<close>

text \<open>Successive allocations, as \<open>vm_alloc_pages_at\<close> and the process table make them.\<close>

fun alloc_many :: "('s \<Rightarrow> (u32 \<times> 's) res) \<Rightarrow> nat \<Rightarrow> 's \<Rightarrow> (u32 list \<times> 's) res" where
  "alloc_many alloc 0 s = Inr ([], s)"
| "alloc_many alloc (Suc k) s =
     kbind (alloc s) (\<lambda>(p, s1). kbind (alloc_many alloc k s1) (\<lambda>(ps, s2). Inr (p # ps, s2)))"

locale frame_source =
  fixes alloc :: "'s \<Rightarrow> (u32 \<times> 's) res"
    and used :: "'s \<Rightarrow> nat \<Rightarrow> bool"
    and page :: "'s \<Rightarrow> nat \<Rightarrow> u32"
    and npages :: nat
  assumes alloc_free: "\<exists>n < npages. \<not> used s n \<Longrightarrow>
      \<exists>m s'. m < npages \<and> \<not> used s m \<and> alloc s = Inr (page s m, s') \<and>
        (\<forall>k. used s' k \<longleftrightarrow> used s k \<or> k = m) \<and> page s' = page s"
    and alloc_full: "\<forall>n < npages. used s n \<Longrightarrow> alloc s = Inr (0, s)"
    and page_inject: "page s m = page s n \<Longrightarrow> m < npages \<Longrightarrow> n < npages \<Longrightarrow> m = n"
begin

lemma alloc_total: "\<exists>r. alloc s = Inr r"
  using alloc_free [of s] alloc_full [of s] by blast

lemma alloc_many_frames:
  assumes "finite F" and "k \<le> card F" and "\<forall>n \<in> F. n < npages \<and> \<not> used s n"
  shows "\<exists>ns s'. alloc_many alloc k s = Inr (map (page s) ns, s') \<and> length ns = k \<and>
    distinct ns \<and> (\<forall>n \<in> set ns. n < npages \<and> \<not> used s n) \<and>
    (\<forall>n. used s' n \<longleftrightarrow> used s n \<or> n \<in> set ns) \<and> page s' = page s"
  using assms
proof (induction k arbitrary: s F)
  case 0
  then show ?case by simp
next
  case (Suc k)
  then have "F \<noteq> {}" by auto
  with Suc.prems(3) have "\<exists>n < npages. \<not> used s n" by blast
  then obtain m s1 where m: "m < npages" "\<not> used s m" "alloc s = Inr (page s m, s1)"
    "\<forall>k. used s1 k \<longleftrightarrow> used s k \<or> k = m" "page s1 = page s"
    using alloc_free by blast
  have "k \<le> card (F - {m})"
    using Suc.prems(1,2) by (cases "m \<in> F") auto
  moreover have "\<forall>n \<in> F - {m}. n < npages \<and> \<not> used s1 n" using Suc.prems(3) m(4) by simp
  ultimately obtain ns s2 where ns: "alloc_many alloc k s1 = Inr (map (page s1) ns, s2)"
    "length ns = k" "distinct ns" "\<forall>n \<in> set ns. n < npages \<and> \<not> used s1 n"
    "\<forall>n. used s2 n \<longleftrightarrow> used s1 n \<or> n \<in> set ns" "page s2 = page s1"
    using Suc.IH [of "F - {m}" s1] Suc.prems(1) by auto
  have "m \<notin> set ns" using ns(4) m(4) by blast
  with m ns show ?case by (intro exI [of _ "m # ns"] exI [of _ s2]) auto
qed

lemma alloc_many_distinct:
  assumes "finite F" and "k \<le> card F" and "\<forall>n \<in> F. n < npages \<and> \<not> used s n"
    and "alloc_many alloc k s = Inr (ps, s')"
  shows "distinct ps" and "length ps = k"
proof -
  obtain ns where ns: "ps = map (page s) ns" "length ns = k" "distinct ns"
    "\<forall>n \<in> set ns. n < npages"
    using alloc_many_frames [OF assms(1-3)] assms(4) by auto
  have "inj_on (page s) (set ns)"
    by (rule inj_onI) (use ns(4) page_inject in blast)
  with ns show "distinct ps" and "length ps = k" by (simp_all add: distinct_map)
qed

end

lemma pm_page_cong: "pm_page_pool s' = pm_page_pool s \<Longrightarrow> pm_page s' = pm_page s"
  by (rule ext) (simp add: pm_page_def)

interpretation pmf: frame_source pm_alloc pm_used pm_page PM_NPAGES
proof unfold_locales
  fix s
  assume ex: "\<exists>n < PM_NPAGES. \<not> pm_used s n"
  define n where "n = (LEAST n. n < PM_NPAGES \<and> \<not> pm_used s n)"
  have n: "n < PM_NPAGES" "\<not> pm_used s n" using LeastI_ex [OF ex] by (auto simp: n_def)
  have low: "\<forall>m < n. pm_used s m" using not_less_Least n(1) by (metis n_def less_trans)
  obtain s' where "pm_alloc s = Inr (pm_page s n, s')" "pm_page_pool s' = pm_page_pool s"
    "\<And>m. pm_used s' m \<longleftrightarrow> pm_used s m \<or> m = n"
    using pm_alloc_first [OF n(2,1) low] by blast
  with n show "\<exists>m s'. m < PM_NPAGES \<and> \<not> pm_used s m \<and> pm_alloc s = Inr (pm_page s m, s') \<and>
      (\<forall>k. pm_used s' k \<longleftrightarrow> pm_used s k \<or> k = m) \<and> pm_page s' = pm_page s"
    using pm_page_cong by blast
next
  fix s assume "\<forall>n < PM_NPAGES. pm_used s n"
  then show "pm_alloc s = Inr (0, s)" unfolding pm_alloc_def by (rule pm_alloc_from_none)
qed (rule pm_page_inject)

section \<open>Properties\<close>

text \<open>
  C21. \<open>pm_alloc\<close> always returns.  If every page is handed out it returns null and changes
  nothing; otherwise it returns the address of the lowest-numbered free page and marks that
  page, and no other, as used.
\<close>

theorem pm_alloc_correct:
  "((\<forall>n < PM_NPAGES. pm_used s n) \<and> pm_alloc s = Inr (0, s)) \<or>
   (\<exists>n s'. n < PM_NPAGES \<and> \<not> pm_used s n \<and> (\<forall>m < n. pm_used s m) \<and>
      pm_alloc s = Inr (pm_page s n, s') \<and> pm_page_pool s' = pm_page_pool s \<and>
      (\<forall>m. pm_used s' m \<longleftrightarrow> pm_used s m \<or> m = n))"
proof (cases "\<forall>n < PM_NPAGES. pm_used s n")
  case True
  then show ?thesis by (simp add: pmf.alloc_full)
next
  case False
  then have ex: "\<exists>n. n < PM_NPAGES \<and> \<not> pm_used s n" by blast
  define n where "n = (LEAST n. n < PM_NPAGES \<and> \<not> pm_used s n)"
  have n: "n < PM_NPAGES" "\<not> pm_used s n" using LeastI_ex [OF ex] by (auto simp: n_def)
  have "\<forall>m < n. pm_used s m" using not_less_Least n(1) by (metis n_def less_trans)
  with n pm_alloc_first [OF n(2,1)] show ?thesis by metis
qed

definition pm_fresh :: pm where
  "pm_fresh = \<lparr>pm_bitmap = (\<lambda>_. 0), pm_page_pool = 0xe0400000\<rparr>"

lemma pm_used_fresh: "\<not> pm_used pm_fresh n"
  by (simp add: pm_used_def pm_fresh_def)

theorem pm_alloc_correct_witness:
  "\<exists>s'. pm_alloc pm_fresh = Inr (0x400000, s') \<and> (\<forall>m. pm_used s' m \<longleftrightarrow> m = 0)"
proof -
  have "\<not> (\<forall>n < PM_NPAGES. pm_used pm_fresh n)"
    by (simp add: pm_used_fresh PM_NPAGES_def exI [of _ 0])
  then obtain n s' where n: "\<forall>m < n. pm_used pm_fresh m"
    "pm_alloc pm_fresh = Inr (pm_page pm_fresh n, s')"
    "\<forall>m. pm_used s' m \<longleftrightarrow> pm_used pm_fresh m \<or> m = n"
    using pm_alloc_correct [of pm_fresh] by blast
  then have "n = 0" using pm_used_fresh by blast
  moreover have "pm_page pm_fresh 0 = 0x400000"
    by (simp add: pm_page_def pm_fresh_def v2p_def KERN_VOFF_def)
  ultimately show ?thesis using n pm_used_fresh by auto
qed

text \<open>
  C36. \<open>pm_alloc_cont\<close> for 1 to 32 pages either finds a run of free pages inside one bitmap
  word and marks exactly that run, or returns null, and then no bitmap word has such a run.
\<close>

theorem pm_alloc_cont_correct:
  assumes "0 < n" and "n \<le> 32"
  shows "cont_result 0 n s (pm_alloc_cont n s)"
  using pm_alloc_cont_from_result [OF assms, of 0 s] assms by (simp add: pm_alloc_cont_def)

theorem pm_alloc_cont_correct_witness:
  "cont_result 0 4 pm_fresh (pm_alloc_cont 4 pm_fresh)"
  using pm_alloc_cont_correct [of 4 pm_fresh] by simp

text \<open>
  Successive allocations never hand out a page twice: as long as enough pages are free,
  \<open>k\<close> calls of \<open>pm_alloc\<close> succeed and return \<open>k\<close> different addresses.
\<close>

theorem pm_alloc_many_distinct:
  assumes "finite F" and "k \<le> card F" and "\<forall>n \<in> F. n < PM_NPAGES \<and> \<not> pm_used s n"
  shows "\<exists>ps s'. alloc_many pm_alloc k s = Inr (ps, s') \<and> length ps = k \<and> distinct ps"
  using pmf.alloc_many_frames [OF assms] pmf.alloc_many_distinct [OF assms] by blast

theorem pm_alloc_many_distinct_witness:
  "\<exists>ps s'. alloc_many pm_alloc 5 pm_fresh = Inr (ps, s') \<and> length ps = 5 \<and> distinct ps"
  by (rule pm_alloc_many_distinct [of "{0..<5}"]) (auto simp: pm_used_fresh PM_NPAGES_def)

text \<open>
  C37. \<open>pm_free\<close> subtracts the kernel virtual address of the pool from the physical address
  that \<open>pm_alloc\<close> returned.  Freeing the address of page \<open>n\<close> therefore clears the bit of
  page \<open>n + 131072\<close> (modulo the number of pages) and leaves page \<open>n\<close> allocated; only the
  kernel virtual alias \<open>p2v\<close> of that address releases page \<open>n\<close>.
\<close>

theorem pm_free_clears:
  assumes "page_aligned (pm_page_pool s)" and "n < PM_NPAGES"
  shows "\<exists>s' t'. pm_free (pm_page s n) s = Inr s' \<and>
    (\<forall>m. pm_used s' m \<longleftrightarrow> pm_used s m \<and> m \<noteq> (n + 131072) mod PM_NPAGES) \<and>
    pm_free (p2v (pm_page s n)) s = Inr t' \<and>
    (\<forall>m. pm_used t' m \<longleftrightarrow> pm_used s m \<and> m \<noteq> n)"
proof -
  have a: "pm_page s n = pm_page_pool s + of_nat (n + 131072) * 0x1000"
    by (simp add: pm_page_phys PAGE_SIZE_def distrib_right)
  have b: "p2v (pm_page s n) = pm_page_pool s + of_nat n * 0x1000"
    by (simp add: pm_page_def v2p_def p2v_def PAGE_SIZE_def)
  obtain s' where s': "pm_free (pm_page s n) s = Inr s'" "pm_page_pool s' = pm_page_pool s"
    "\<And>m. pm_used s' m \<longleftrightarrow> pm_used s m \<and> m \<noteq> (n + 131072) mod PM_NPAGES"
    by (rule pm_free_offset [OF assms(1) a]) (rule that)
  obtain t' where t': "pm_free (p2v (pm_page s n)) s = Inr t'" "pm_page_pool t' = pm_page_pool s"
    "\<And>m. pm_used t' m \<longleftrightarrow> pm_used s m \<and> m \<noteq> n mod PM_NPAGES"
    by (rule pm_free_offset [OF assms(1) b]) (rule that)
  show ?thesis
    by (rule exI [of _ s'], rule exI [of _ t']) (use s' t' assms(2) in simp)
qed

theorem pm_free_clears_witness:
  "\<exists>s'. pm_free (pm_page pm_fresh 7) (pm_fresh\<lparr>pm_bitmap := (\<lambda>_. - 1)\<rparr>) = Inr s' \<and> pm_used s' 7"
proof -
  let ?s = "pm_fresh\<lparr>pm_bitmap := (\<lambda>_. - 1)\<rparr>"
  have "page_aligned (pm_page_pool ?s)" by (simp add: pm_fresh_def page_aligned_def)
  moreover have "(7 :: nat) < PM_NPAGES" by (simp add: PM_NPAGES_def)
  ultimately obtain s' where "pm_free (pm_page ?s 7) ?s = Inr s'"
    "\<forall>m. pm_used s' m \<longleftrightarrow> pm_used ?s m \<and> m \<noteq> (7 + 131072) mod PM_NPAGES"
    using pm_free_clears [of ?s 7] by blast
  moreover have "pm_used ?s 7" by (simp add: pm_used_def bit_simps)
  moreover have "pm_page ?s = pm_page pm_fresh" by (rule pm_page_cong) simp
  ultimately show ?thesis by (simp add: PM_NPAGES_def)
qed

text \<open>
  \<open>pm_init\<close> starts the pool at the page boundary above the base of the last longest
  entry among the 16 of the memory map, whatever that entry's type is, and every page is
  free afterwards.
\<close>

theorem pm_init_correct:
  assumes "16 \<le> length mm"
  shows "\<exists>i s'. i < 16 \<and> pm_init mm s = Inr (v2p (pm_page_pool s'), s') \<and>
    pm_page_pool s' = PALIGNUP (p2v (base_low (mm ! i))) \<and>
    (\<forall>j < 16. len_low (mm ! j) \<le> len_low (mm ! i)) \<and>
    (\<forall>j. i < j \<and> j < 16 \<longrightarrow> len_low (mm ! j) < len_low (mm ! i)) \<and>
    (\<forall>n. \<not> pm_used s' n)"
proof -
  have "take 16 mm \<noteq> []" and len: "length (take 16 mm) = 16" using assms by auto
  from fold_pm_init_step [OF this(1), of "pm_page_pool s"] obtain i where i: "i < 16"
    "fold pm_init_step (take 16 mm) (0, pm_page_pool s) =
      (len_low (mm ! i), PALIGNUP (p2v (base_low (mm ! i))))"
    "\<forall>j < 16. len_low (mm ! j) \<le> len_low (mm ! i)"
    "\<forall>j. i < j \<and> j < 16 \<longrightarrow> len_low (mm ! j) < len_low (mm ! i)"
    unfolding len by auto
  show ?thesis
    by (rule exI [of _ i],
        rule exI [of _ "\<lparr>pm_bitmap = (\<lambda>_. 0), pm_page_pool = PALIGNUP (p2v (base_low (mm ! i)))\<rparr>"])
      (use i assms in \<open>simp add: pm_init_def pm_used_def\<close>)
qed

theorem pm_init_correct_witness:
  "\<exists>s'. pm_init (replicate 16 \<lparr>base_low = 0x100000, base_high = 0, len_low = 0x1000, len_high = 0,
      mtype = 1, acpi_ext = 0\<rparr>) pm_fresh = Inr (v2p (pm_page_pool s'), s') \<and> \<not> pm_used s' 0"
  using pm_init_correct [of "replicate 16 \<lparr>base_low = 0x100000, base_high = 0, len_low = 0x1000,
      len_high = 0, mtype = 1, acpi_ext = 0\<rparr>" pm_fresh]
  by (metis length_replicate order_refl)

end
