(* ===== verification/Libc.thy ===== *)
theory Libc
  imports Machine
begin

unbundle bit_operations_syntax

text \<open>
  The string and memory routines the kernel carries itself (\<^verbatim>\<open>kernel/kernel.c\<close>) and their
  user-space copies (\<^verbatim>\<open>lib/libc\<close>).

  \<open>memset\<close> and \<open>memcpy\<close> move bytes one by one through the page walk and stop at the first
  unmapped byte.  The string routines read a buffer, a list of bytes; reading past its end is
  \<open>OutOfBounds\<close>.  Shown: \<open>memcpy\<close> transfers the bytes and changes nothing else, under the
  disjointness C itself asks for; \<open>strcmp\<close> decides equality of C strings and orders them;
  \<open>strlen\<close> counts the terminator.
\<close>

section \<open>Definitions\<close>

fun memset :: "u32 \<Rightarrow> u8 \<Rightarrow> nat \<Rightarrow> mmu \<Rightarrow> mmu res" where
  "memset dst ch 0 s = Inr s"
| "memset dst ch (Suc len) s = kbind (vstore8 s dst ch) (\<lambda>s'. memset (dst + 1) ch len s')"

fun memcpy :: "u32 \<Rightarrow> u32 \<Rightarrow> nat \<Rightarrow> mmu \<Rightarrow> mmu res" where
  "memcpy dst src 0 s = Inr s"
| "memcpy dst src (Suc len) s =
     kbind (vload8 s src) (\<lambda>b. kbind (vstore8 s dst b) (\<lambda>s'. memcpy (dst + 1) (src + 1) len s'))"

text \<open>\<open>ret\<close> is incremented by the loop condition also when it meets the terminator.\<close>

fun strlen_from :: "u8 list \<Rightarrow> nat \<Rightarrow> nat res" where
  "strlen_from [] ret = Inl OutOfBounds"
| "strlen_from (c # cs) ret = (if c \<noteq> 0 then strlen_from cs (Suc ret) else Inr (Suc ret))"

definition strlen :: "u8 list \<Rightarrow> nat res" where
  "strlen s = strlen_from s 0"

fun strcmp :: "u8 list \<Rightarrow> u8 list \<Rightarrow> int res" where
  "strcmp (c1 # s1) (c2 # s2) =
     (if c1 = c2 then (if c1 = 0 then Inr 0 else strcmp s1 s2) else Inr (uint c1 - uint c2))"
| "strcmp _ _ = Inl OutOfBounds"

definition streq :: "u8 list \<Rightarrow> u8 list \<Rightarrow> bool res" where
  "streq s1 s2 = kbind (strcmp s1 s2) (\<lambda>r. Inr (r = 0))"

text \<open>The user-space \<open>strlen\<close> of \<^verbatim>\<open>lib/libc\<close> is a stub.\<close>

definition user_strlen :: "u8 list \<Rightarrow> nat res" where
  "user_strlen s = Inr 4"

text \<open>
  The user-space \<open>memcpy\<close> and \<open>memset\<close> with their results: the start of the destination, and the
  address behind the last byte written.
\<close>

fun user_memset :: "u32 \<Rightarrow> u8 \<Rightarrow> nat \<Rightarrow> mmu \<Rightarrow> (u32 \<times> mmu) res" where
  "user_memset str ch 0 s = Inr (str, s)"
| "user_memset str ch (Suc len) s = kbind (vstore8 s str ch) (\<lambda>s. user_memset (str + 1) ch len s)"

definition user_memcpy :: "u32 \<Rightarrow> u32 \<Rightarrow> nat \<Rightarrow> mmu \<Rightarrow> (u32 \<times> mmu) res" where
  "user_memcpy dst src len s = kbind (memcpy dst src len s) (\<lambda>s. Inr (dst, s))"

text \<open>The string a buffer holds: the bytes before the first zero.\<close>

definition cstr :: "u8 list \<Rightarrow> u8 list" where
  "cstr bs = takeWhile (\<lambda>b. b \<noteq> 0) bs"

section \<open>Lemmas\<close>

subsection \<open>Strings\<close>

lemma uint_u8_eq_iff: "uint (a :: u8) = uint b \<longleftrightarrow> a = b" "uint (a :: u8) = 0 \<longleftrightarrow> a = 0"
  by (simp_all add: word_uint_eq_iff)

lemma uint_u8_pos: "(a :: u8) \<noteq> 0 \<Longrightarrow> 0 < uint a"
  by (metis uint_u8_eq_iff(2) unsigned_greater_eq order_le_less)

lemma cstr_Cons: "cstr (b # bs) = (if b = 0 then [] else b # cstr bs)"
  by (simp add: cstr_def)

lemma user_memset_eq: "user_memset str ch len s = kbind (memset str ch len s) (\<lambda>s. Inr (str + of_nat len, s))"
proof (induction len arbitrary: str s)
  case (Suc len)
  then show ?case by (cases "vstore8 s str ch") (simp_all add: add.commute add.left_commute)
qed simp

lemma strlen_from_terminated: "0 \<in> set bs \<Longrightarrow> strlen_from bs n = Inr (n + length (cstr bs) + 1)"
  by (induction bs arbitrary: n) (auto simp: cstr_Cons)

lemma strcmp_terminated:
  assumes "0 \<in> set s1" and "0 \<in> set s2"
  shows "\<exists>r. strcmp s1 s2 = Inr r \<and> (r = 0 \<longleftrightarrow> cstr s1 = cstr s2)"
  using assms
  by (induction s1 s2 rule: strcmp.induct) (auto simp: cstr_Cons uint_u8_eq_iff)

text \<open>The sign of the result is the order of the first different characters.\<close>

lemma strcmp_order:
  assumes "0 \<in> set s1" and "0 \<in> set s2" and "strcmp s1 s2 = Inr r"
  shows "r < 0 \<longleftrightarrow> (cstr s1, cstr s2) \<in> lexord {(a, b). a < b}"
    and "0 < r \<longleftrightarrow> (cstr s2, cstr s1) \<in> lexord {(a, b). a < b}"
  using assms
  by (induction s1 s2 rule: strcmp.induct)
    (auto simp: cstr_Cons word_less_def uint_u8_pos split: if_splits)

lemma streq_terminated:
  assumes "0 \<in> set s1" and "0 \<in> set s2"
  shows "streq s1 s2 = Inr (cstr s1 = cstr s2)"
  using strcmp_terminated [OF assms] by (auto simp: streq_def)

subsection \<open>Memory outside the page tables\<close>

lemma load32_page_cong:
  assumes "page_aligned p" and "i < 1024" and "\<And>q. q AND 0xfffff000 = p \<Longrightarrow> m q = m' q"
  shows "load32 m (p + 4 * i) = load32 m' (p + 4 * i)"
proof -
  have al: "aligned4 (p + 4 * i)" by (rule aligned4_entry [OF assms(1)])
  have pg: "(p + 4 * i + k) AND 0xfffff000 = p" if "k < 4" for k
    using aligned4_same_page(1) [OF al that] page_add_offset(2) [OF assms(1) mult4_less [OF assms(2)]]
    by simp
  show ?thesis
    using pg [of 0] pg [of 1] pg [of 2] pg [of 3] by (intro load32_cong assms(3)) simp_all
qed

lemma translate_frame:
  assumes "\<And>p. p \<in> walk_bytes s \<Longrightarrow> m' p = mem s p"
  shows "translate (s\<lparr>mem := m'\<rparr>) v = translate s v"
    and "walk_bytes (s\<lparr>mem := m'\<rparr>) = walk_bytes s"
proof -
  let ?s' = "s\<lparr>mem := m'\<rparr>"
  have pd: "pd_base ?s' = pd_base s" by (simp add: pd_base_def)
  have e: "pde_of ?s' i = pde_of s i" if "i < 1024" for i
    using load32_page_cong [of "pd_base s" i m' "mem s"] assms that
    by (simp add: pde_of_def pd walk_bytes_def)
  have t: "pte_of ?s' i j = pte_of s i j"
    if "i < 1024" "j < 1024" "pde_of s i AND PDE_P \<noteq> 0" for i j
  proof -
    have "table_of ?s' i = table_of s i" using e that by (simp add: table_of_def)
    then show ?thesis
      using load32_page_cong [of "table_of s i" j m' "mem s"] assms that
      by (auto simp: pte_of_table walk_bytes_def)
  qed
  show "translate ?s' v = translate s v"
    using e [OF vm_pdir_idx_less, of v] t [OF vm_pdir_idx_less vm_ptab_idx_less, of v]
    by (simp add: translate_def)
  show "walk_bytes ?s' = walk_bytes s"
    using e by (auto simp: walk_bytes_def pd table_of_def)
qed

lemma vstore8_frame:
  assumes "translate s a = Inr p" and "p \<notin> walk_bytes s"
  shows "vstore8 s a b = Inr (s\<lparr>mem := (mem s)(p := b)\<rparr>)"
    and "translate (s\<lparr>mem := (mem s)(p := b)\<rparr>) v = translate s v"
    and "walk_bytes (s\<lparr>mem := (mem s)(p := b)\<rparr>) = walk_bytes s"
proof -
  have "((mem s)(p := b)) q = mem s q" if "q \<in> walk_bytes s" for q
    using that assms(2) by (metis fun_upd_apply)
  note fr = translate_frame [of s "(mem s)(p := b)", OF this]
  show "translate (s\<lparr>mem := (mem s)(p := b)\<rparr>) v = translate s v" by (rule fr(1))
  show "walk_bytes (s\<lparr>mem := (mem s)(p := b)\<rparr>) = walk_bytes s" by (rule fr(2))
qed (simp add: vstore8_def assms)

text \<open>
  The copy: \<open>D i\<close> and \<open>S i\<close> are the physical bytes behind \<open>dst + i\<close> and \<open>src + i\<close>.
\<close>

lemma memcpy_bytes:
  assumes "\<And>i. i < len \<Longrightarrow> translate s (dst + of_nat i) = Inr (D i)"
    and "\<And>i. i < len \<Longrightarrow> translate s (src + of_nat i) = Inr (S i)"
    and "\<And>i. i < len \<Longrightarrow> D i \<notin> walk_bytes s"
    and "\<And>i j. i < len \<Longrightarrow> j < len \<Longrightarrow> D i \<noteq> S j"
    and "inj_on D {..<len}"
  shows "\<exists>m'. memcpy dst src len s = Inr (s\<lparr>mem := m'\<rparr>) \<and>
    (\<forall>i < len. m' (D i) = mem s (S i)) \<and> (\<forall>p. p \<notin> D ` {..<len} \<longrightarrow> m' p = mem s p)"
  using assms
proof (induction len arbitrary: s dst src D S)
  case 0
  then show ?case by (intro exI [of _ "mem s"]) simp
next
  case (Suc len)
  let ?s1 = "s\<lparr>mem := (mem s)(D 0 := mem s (S 0))\<rparr>"
  have d0: "translate s dst = Inr (D 0)" and s0: "translate s src = Inr (S 0)"
    using Suc.prems(1,2) [of 0] by simp_all
  note st = vstore8_frame [OF d0 Suc.prems(3) [of 0, OF zero_less_Suc]]
  have one: "memcpy dst src (Suc len) s = memcpy (dst + 1) (src + 1) len ?s1"
    using st(1) by (simp add: vload8_def s0)
  have sh: "a + 1 + of_nat i = a + of_nat (Suc i)" for a :: u32 and i by simp
  have "\<exists>m'. memcpy (dst + 1) (src + 1) len ?s1 = Inr (?s1\<lparr>mem := m'\<rparr>) \<and>
      (\<forall>i < len. m' (D (Suc i)) = mem ?s1 (S (Suc i))) \<and>
      (\<forall>p. p \<notin> (D \<circ> Suc) ` {..<len} \<longrightarrow> m' p = mem ?s1 p)"
    unfolding comp_def
  proof (rule Suc.IH)
    show "inj_on (\<lambda>x. D (Suc x)) {..<len}"
      using Suc.prems(5) by (auto simp: inj_on_def)
  qed (use Suc.prems(1-4) in \<open>simp_all only: sh st(2,3) Suc_less_eq not_False_eq_True\<close>)
  then obtain m' where m': "memcpy (dst + 1) (src + 1) len ?s1 = Inr (s\<lparr>mem := m'\<rparr>)"
    "\<forall>i < len. m' (D (Suc i)) = mem ?s1 (S (Suc i))"
    "\<forall>p. p \<notin> (D \<circ> Suc) ` {..<len} \<longrightarrow> m' p = mem ?s1 p" by auto
  have src: "mem ?s1 (S (Suc i)) = mem s (S (Suc i))" if "i < len" for i
    using Suc.prems(4) [of 0 "Suc i"] that by auto
  have "D 0 \<notin> (D \<circ> Suc) ` {..<len}" using Suc.prems(5) by (auto simp: inj_on_def)
  then have h0: "m' (D 0) = mem s (S 0)" using m'(3) by simp
  have "m' (D i) = mem s (S i)" if "i < Suc len" for i
    using that h0 m'(2) src by (cases i) auto
  moreover have "m' p = mem s p" if "p \<notin> D ` {..<Suc len}" for p
  proof -
    have "p \<noteq> D 0" and "p \<notin> (D \<circ> Suc) ` {..<len}" using that by auto
    with m'(3) show ?thesis by simp
  qed
  ultimately show ?case using one m'(1) by (intro exI [of _ m']) simp
qed

text \<open>\<open>memset\<close> fills the bytes behind the range and leaves the rest of memory alone.\<close>

lemma memset_bytes:
  assumes "\<And>i. i < len \<Longrightarrow> translate s (dst + of_nat i) = Inr (D i)"
    and "\<And>i. i < len \<Longrightarrow> D i \<notin> walk_bytes s"
  shows "memset dst ch len s = Inr (s\<lparr>mem := (\<lambda>p. if p \<in> D ` {..<len} then ch else mem s p)\<rparr>)"
  using assms
proof (induction len arbitrary: s dst D)
  case 0
  then show ?case by simp
next
  case (Suc len)
  let ?s1 = "s\<lparr>mem := (mem s)(D 0 := ch)\<rparr>"
  have d0: "translate s dst = Inr (D 0)" using Suc.prems(1) [of 0] by simp
  note st = vstore8_frame [OF d0 Suc.prems(2) [of 0, OF zero_less_Suc]]
  have sh: "a + 1 + of_nat i = a + of_nat (Suc i)" for a :: u32 and i by simp
  have "memset (dst + 1) ch len ?s1 =
      Inr (?s1\<lparr>mem := (\<lambda>p. if p \<in> (\<lambda>i. D (Suc i)) ` {..<len} then ch else mem ?s1 p)\<rparr>)"
    by (rule Suc.IH) (use Suc.prems in \<open>simp_all only: sh st(2,3) Suc_less_eq not_False_eq_True\<close>)
  moreover have "(\<lambda>p. if p \<in> (\<lambda>i. D (Suc i)) ` {..<len} then ch else mem ?s1 p)
      = (\<lambda>p. if p \<in> D ` {..<Suc len} then ch else mem s p)"
    unfolding lessThan_Suc_eq_insert_0 by (auto simp: image_image)
  ultimately show ?case by (simp add: st(1))
qed

end
