(* ===== verification/Vmm.thy ===== *)
theory Vmm
  imports Pmm Libc
begin

unbundle bit_operations_syntax

text \<open>
  The virtual memory manager, \<^verbatim>\<open>kernel/vm.c\<close>: the kernel edits the page tables of the
  current address space through the self map, and takes page tables and pages from the
  physical memory manager.

  The state is the MMU and the physical memory manager.  Every access of the C code to
  \<open>pdir[...]\<close> and \<open>ptab[...]\<close> is a load or store through the page walk, so a missing page
  table is a page fault here as well.  \<open>halt()\<close> ends the run with \<open>Halted\<close>.  The TLB is not
  modelled: \<open>vm_flush_page\<close> has no effect on this state.

  Shown: \<open>map_page\<close> adds exactly the requested page to the address space when its page table
  exists, and halts exactly on a conflicting mapping; what a fresh page table makes visible;
  \<open>unmap_page\<close> removes exactly one page; \<open>vm_get_phys_mapping\<close> agrees with the processor's
  page walk; \<open>map_pages\<close> and \<open>vm_alloc_pages_at\<close> map every page of the range.
\<close>

section \<open>Definitions\<close>

record vms =
  vmmu :: mmu
  vpm :: pm

subsection \<open>Single pages\<close>

definition map_page :: "u32 \<Rightarrow> u32 \<Rightarrow> u32 \<Rightarrow> vms \<Rightarrow> vms res" where
  "map_page paddr vaddr flags s =
     (let paddr = PALIGNDOWN paddr; vaddr = PALIGNDOWN vaddr;
          pdir = pdir_slot (vm_pdir_idx vaddr);
          ptab = ptab_slot (vm_pdir_idx vaddr) (vm_ptab_idx vaddr);
          flags = flags OR (PTE_P OR PTE_W)
      in kbind (vload32 (vmmu s) pdir) (\<lambda>pde.
         if pde AND PDE_P \<noteq> 0 then
           kbind (vload32 (vmmu s) ptab) (\<lambda>pte.
             if pte AND PTE_P \<noteq> 0 then
               (if pte AND 0xfffff000 \<noteq> paddr AND 0xfffff000 then Inl Halted
                else if pte AND 0x1f \<noteq> flags AND 0x1f then Inl Halted
                else Inr s)
             else
               kbind (vstore32 (vmmu s) pdir (pde OR flags)) (\<lambda>m1.
               kbind (vstore32 m1 ptab (paddr OR flags)) (\<lambda>m2.
                 Inr (s\<lparr>vmmu := m2\<rparr>))))
         else
           kbind (pm_alloc (vpm s)) (\<lambda>(new_ptab, pm').
           kbind (vstore32 (vmmu s) pdir (new_ptab OR flags)) (\<lambda>m1.
           kbind (vstore32 m1 ptab (paddr OR flags)) (\<lambda>m2.
             Inr (s\<lparr>vmmu := m2, vpm := pm'\<rparr>))))))"

definition unmap_page :: "u32 \<Rightarrow> vms \<Rightarrow> vms res" where
  "unmap_page vaddr s =
     (let vaddr = PALIGNDOWN vaddr in
      kbind (vstore32 (vmmu s) (ptab_slot (vm_pdir_idx vaddr) (vm_ptab_idx vaddr)) 0)
        (\<lambda>m'. Inr (s\<lparr>vmmu := m'\<rparr>)))"

definition vm_get_phys_mapping :: "u32 \<Rightarrow> vms \<Rightarrow> u32 res" where
  "vm_get_phys_mapping vaddr s =
     (let page_offset = vaddr AND 0xfff; vaddr = PALIGNDOWN vaddr in
      kbind (vload32 (vmmu s) (ptab_slot (vm_pdir_idx vaddr) (vm_ptab_idx vaddr)))
        (\<lambda>pte. Inr ((pte AND NOT 0x3ff) + page_offset)))"

definition vm_change_page_attrs :: "u32 \<Rightarrow> u32 \<Rightarrow> vms \<Rightarrow> vms res" where
  "vm_change_page_attrs vaddr new_flags s =
     (let vaddr = PALIGNDOWN vaddr;
          pte = ptab_slot (vm_pdir_idx vaddr) (vm_ptab_idx vaddr)
      in kbind (vload32 (vmmu s) pte) (\<lambda>e.
         kbind (vstore32 (vmmu s) pte ((e AND NOT 0x3ff) OR new_flags)) (\<lambda>m'.
           Inr (s\<lparr>vmmu := m'\<rparr>))))"

subsection \<open>Ranges\<close>

definition npages_of :: "u32 \<Rightarrow> nat" where
  "npages_of sz = unat (sz div PAGE_SIZE + (if 0 < sz mod PAGE_SIZE then 1 else 0))"

definition page_at :: "u32 \<Rightarrow> nat \<Rightarrow> u32" where
  "page_at addr i = addr + of_nat i * PAGE_SIZE"

definition map_pages :: "u32 \<Rightarrow> u32 \<Rightarrow> u32 \<Rightarrow> u32 \<Rightarrow> vms \<Rightarrow> vms res" where
  "map_pages paddr vaddr flags sz s =
     (if sz = 0 then Inr s
      else let paddr = PALIGNDOWN paddr; vaddr = PALIGNDOWN vaddr in
        kfor (npages_of sz) (\<lambda>i. map_page (page_at paddr i) (page_at vaddr i) flags) s)"

definition unmap_pages :: "u32 \<Rightarrow> u32 \<Rightarrow> vms \<Rightarrow> vms res" where
  "unmap_pages vaddr sz s =
     (if sz = 0 then Inr s
      else let vaddr = PALIGNDOWN vaddr in
        kfor (npages_of sz) (\<lambda>i. unmap_page (page_at vaddr i)) s)"

definition vm_alloc_pages_at :: "u32 \<Rightarrow> u32 \<Rightarrow> u32 \<Rightarrow> vms \<Rightarrow> vms res" where
  "vm_alloc_pages_at vaddr flags sz s =
     (if sz = 0 then Inr s
      else let vaddr = PALIGNDOWN vaddr in
        kfor (npages_of sz) (\<lambda>i s.
          kbind (pm_alloc (vpm s)) (\<lambda>(physical_page, pm').
            map_page physical_page (page_at vaddr i) flags (s\<lparr>vpm := pm'\<rparr>))) s)"

definition vm_change_pages_attrs :: "u32 \<Rightarrow> u32 \<Rightarrow> u32 \<Rightarrow> vms \<Rightarrow> vms res" where
  "vm_change_pages_attrs vaddr new_flags bytes s =
     (let vaddr = PALIGNDOWN vaddr in
      kfor (npages_of bytes) (\<lambda>i. vm_change_page_attrs (page_at vaddr i) new_flags) s)"

subsection \<open>Page directories\<close>

definition new_pdir :: "vms \<Rightarrow> (u32 \<times> vms) res" where
  "new_pdir s =
     kbind (pm_alloc (vpm s)) (\<lambda>(pdir, pm').
       if pdir = 0 then Inr (0, s\<lparr>vpm := pm'\<rparr>)
       else kbind (memset pdir 0 4096 (vmmu s)) (\<lambda>m'. Inr (pdir, s\<lparr>vmmu := m', vpm := pm'\<rparr>)))"

definition copy_pdir_entry :: "u32 \<Rightarrow> nat \<Rightarrow> mmu \<Rightarrow> mmu res" where
  "copy_pdir_entry pdir i s =
     kbind (vload32 s (pdir_slot (of_nat i))) (\<lambda>pde.
       if pde AND PDE_P \<noteq> 0 then
         (if pde AND PDE_U = 0 then vstore32 s (pdir + 4 * of_nat i) pde else Inr s)
       else Inr s)"

definition vm_copy_kernel_pdir :: "vms \<Rightarrow> (u32 \<times> vms) res" where
  "vm_copy_kernel_pdir s =
     kbind (pm_alloc (vpm s)) (\<lambda>(pdir, pm').
       if pdir = 0 then Inr (0, s\<lparr>vpm := pm'\<rparr>)
       else
         kbind (map_page pdir pdir 0 (s\<lparr>vpm := pm'\<rparr>)) (\<lambda>s1.
         kbind (memset pdir 0 4096 (vmmu s1)) (\<lambda>m1.
         kbind (kfor 1024 (copy_pdir_entry pdir) m1) (\<lambda>m2.
         kbind (vstore32 m2 (pdir + 4 * 1023) (pdir OR PDE_P OR PDE_W)) (\<lambda>m3.
           Inr (pdir, s1\<lparr>vmmu := m3\<rparr>))))))"

definition vm_init :: "u32" where
  "vm_init = KERN_PDIR_ADDR"

section \<open>Lemmas\<close>

subsection \<open>The walk after an entry is written\<close>

lemma translate_set_pte:
  assumes "pt_ok s" and "has_table s i" and "j < 1024" and "vm_pdir_idx v \<noteq> 1023"
  shows "translate (set_pte s i j e) v =
    (if vm_pdir_idx v = i \<and> vm_ptab_idx v = j
     then (if e AND PTE_P = 0 then Inl (PageFault v) else Inr ((e AND 0xfffff000) + (v AND 0xfff)))
     else translate s v)"
proof (cases "pde_of s (vm_pdir_idx v) AND PDE_P = 0")
  case True
  with assms(2) have "vm_pdir_idx v \<noteq> i" by (auto simp: has_table_def)
  with True show ?thesis
    by (simp add: translate_def pde_of_set_pte [OF assms(1-3) vm_pdir_idx_less])
next
  case False
  then have ht: "has_table s (vm_pdir_idx v)"
    using assms(4) vm_pdir_idx_less [of v] by (simp add: has_table_def less_1023)
  show ?thesis
    unfolding translate_def pde_of_set_pte [OF assms(1-3) vm_pdir_idx_less]
      pte_of_set_pte [OF assms(1-3) ht vm_ptab_idx_less]
    using False by auto
qed

lemma pte_of_set_pde_other:
  assumes "pt_ok s" and "i < 1023" and "has_table s k" and "l < 1024"
    and "k = i \<Longrightarrow> e AND 0xfffff000 = table_of s i"
  shows "pte_of (set_pde s i e) k l = pte_of s k l"
proof -
  have lt: "i < 1024" "k < 1024" using assms(2,3) by (simp_all add: has_table_def less_1023)
  have t: "table_of (set_pde s i e) k = table_of s k"
    using table_of_set_pde [OF lt, of s e] assms(5) by simp
  have "table_of s k \<noteq> pd_base s" using assms(1,3) by (simp add: pt_ok_def)
  then show ?thesis using pte_of_set_pde [OF lt(1) assms(4), of s e k] by (simp add: t pte_of_table)
qed

text \<open>Changing the flag bits of a present directory entry does not move any page.\<close>

lemma translate_set_pde_flags:
  assumes "pt_ok s" and "has_table s i" and "e AND 0xfffff000 = table_of s i"
    and "e AND PDE_P \<noteq> 0" and "vm_pdir_idx v \<noteq> 1023"
  shows "translate (set_pde s i e) v = translate s v"
proof -
  have i: "i < 1023" "i < 1024" "pde_of s i AND PDE_P \<noteq> 0"
    using assms(2) by (simp_all add: has_table_def less_1023)
  have "pte_of (set_pde s i e) (vm_pdir_idx v) (vm_ptab_idx v)
      = pte_of s (vm_pdir_idx v) (vm_ptab_idx v)"
    if "pde_of s (vm_pdir_idx v) AND PDE_P \<noteq> 0"
    using that assms(3,5) vm_pdir_idx_less [of v]
    by (intro pte_of_set_pde_other [OF assms(1) i(1)] vm_ptab_idx_less)
      (auto simp: has_table_def less_1023)
  then show ?thesis
    using i(3) assms(4)
    by (auto simp: translate_def pde_of_set_pde [OF i(2) vm_pdir_idx_less])
qed

text \<open>
  A new page table: the addresses below other directory entries keep their translation, and
  those below this entry are translated by whatever words the new table's frame holds.
\<close>

lemma translate_set_pde_new:
  assumes "pt_ok s" and "i < 1023" and "e AND PDE_P \<noteq> 0"
    and "e AND 0xfffff000 \<noteq> pd_base s" and "vm_pdir_idx v \<noteq> 1023"
  shows "translate (set_pde s i e) v =
    (if vm_pdir_idx v \<noteq> i then translate s v
     else let w = load32 (mem s) ((e AND 0xfffff000) + 4 * vm_ptab_idx v) in
       if w AND PTE_P = 0 then Inl (PageFault v) else Inr ((w AND 0xfffff000) + (v AND 0xfff)))"
proof -
  have i: "i < 1024" using assms(2) by (simp add: less_1023)
  have pd: "pde_of (set_pde s i e) (vm_pdir_idx v) =
      (if vm_pdir_idx v = i then e else pde_of s (vm_pdir_idx v))"
    by (rule pde_of_set_pde [OF i vm_pdir_idx_less])
  show ?thesis
  proof (cases "vm_pdir_idx v = i")
    case True
    have "table_of (set_pde s i e) i = e AND 0xfffff000" using table_of_set_pde [OF i i] by simp
    then have "pte_of (set_pde s i e) i (vm_ptab_idx v)
        = load32 (mem s) ((e AND 0xfffff000) + 4 * vm_ptab_idx v)"
      using pte_of_set_pde [OF i vm_ptab_idx_less, of s e i v] assms(4) by simp
    with True pd assms(3) show ?thesis by (simp add: translate_def)
  next
    case False
    have "pte_of (set_pde s i e) (vm_pdir_idx v) (vm_ptab_idx v)
        = pte_of s (vm_pdir_idx v) (vm_ptab_idx v)"
      if "pde_of s (vm_pdir_idx v) AND PDE_P \<noteq> 0"
      using that assms(5) False vm_pdir_idx_less [of v]
      by (intro pte_of_set_pde_other [OF assms(1,2)] vm_ptab_idx_less)
        (auto simp: has_table_def less_1023)
    with False pd show ?thesis by (auto simp: translate_def)
  qed
qed

subsection \<open>map\_page, case by case\<close>

lemma idx_PALIGNDOWN [simp]:
  "vm_pdir_idx (PALIGNDOWN v) = vm_pdir_idx v" "vm_ptab_idx (PALIGNDOWN v) = vm_ptab_idx v"
proof -
  have "PALIGNDOWN v AND 0xfffff000 = v AND 0xfffff000"
    by (simp add: PALIGNDOWN_eq and.assoc)
  then show "vm_pdir_idx (PALIGNDOWN v) = vm_pdir_idx v" "vm_ptab_idx (PALIGNDOWN v) = vm_ptab_idx v"
    using same_page_iff by blast+
qed

definition low_flags :: "u32 \<Rightarrow> bool" where
  "low_flags f \<longleftrightarrow> f AND 0xfffff000 = 0"

definition entry_flags :: "u32 \<Rightarrow> u32" where
  "entry_flags f = f OR (PTE_P OR PTE_W)"

lemma entry_flags_page: "low_flags f \<Longrightarrow> (x OR entry_flags f) AND 0xfffff000 = x AND 0xfffff000"
  by (simp add: low_flags_def entry_flags_def flag_defs bit.conj_disj_distrib2)

lemma entry_flags_present: "(x OR entry_flags f) AND 1 \<noteq> 0"
proof -
  have "bit ((x OR entry_flags f) AND 1) 0" by (simp add: entry_flags_def flag_defs bit_simps)
  then show ?thesis by (metis bit_0_eq bot_apply bot_bool_def)
qed

text \<open>The page table of the address exists.\<close>

lemma map_page_existing_table:
  assumes "pt_ok (vmmu s)" and "has_table (vmmu s) (vm_pdir_idx v)" and "low_flags f"
  defines "i \<equiv> vm_pdir_idx v" and "j \<equiv> vm_ptab_idx v"
  shows "map_page p v f s =
    (let pte = pte_of (vmmu s) i j in
     if pte AND PTE_P \<noteq> 0 then
       (if pte AND 0xfffff000 = PALIGNDOWN p \<and> pte AND 0x1f = entry_flags f AND 0x1f
        then Inr s else Inl Halted)
     else Inr (s\<lparr>vmmu := set_pte (set_pde (vmmu s) i (pde_of (vmmu s) i OR entry_flags f)) i j
             (PALIGNDOWN p OR entry_flags f)\<rparr>))"
proof -
  let ?m = "vmmu s" and ?e = "pde_of (vmmu s) i OR entry_flags f"
  have lt: "i < 1023" "i < 1024" "j < 1024"
    using assms(2) vm_ptab_idx_less by (simp_all add: i_def j_def has_table_def less_1023)
  have pr: "pde_of ?m i AND PDE_P \<noteq> 0" using assms(2) by (simp add: has_table_def i_def)
  note sm = pt_ok_selfmap [OF assms(1)]
  note ld = vload32_pdir_slot [OF sm lt(2)] vload32_ptab_slot [OF sm lt(2,3) pr]
  have t: "?e AND 0xfffff000 = table_of ?m i"
    using entry_flags_page [OF assms(3)] by (simp add: table_of_def)
  have ok: "pt_ok (set_pde ?m i ?e)"
    using assms(1,2) t by (intro pt_ok_set_pde [OF assms(1) lt(1)]) (auto simp: pt_ok_def i_def)
  have st1: "vstore32 ?m (pdir_slot i) ?e = Inr (set_pde ?m i ?e)"
    by (rule vstore32_pdir_slot [OF sm lt(2)])
  have "pde_of (set_pde ?m i ?e) i AND PDE_P \<noteq> 0"
    using entry_flags_present by (simp add: pde_of_set_pde [OF lt(2,2)] flag_defs)
  then have st2: "vstore32 (set_pde ?m i ?e) (ptab_slot i j) x = Inr (set_pte (set_pde ?m i ?e) i j x)"
    for x by (rule vstore32_ptab_slot [OF pt_ok_selfmap [OF ok] lt(2,3)])
  have al: "PALIGNDOWN p AND 0xfffff000 = PALIGNDOWN p" by (simp add: PALIGNDOWN_eq and.assoc)
  show ?thesis
    using pr ld st1 st2 al
    by (simp add: map_page_def Let_def i_def [symmetric] j_def [symmetric] entry_flags_def)
qed

text \<open>The page table does not exist yet and the frame \<open>t\<close> becomes the new one.\<close>

lemma map_page_new_table:
  assumes "pt_ok (vmmu s)" and "vm_pdir_idx v \<noteq> 1023"
    and "pde_of (vmmu s) (vm_pdir_idx v) AND PDE_P = 0" and "low_flags f"
    and "pm_alloc (vpm s) = Inr (t, pm')" and "page_aligned t" and "t \<noteq> pd_base (vmmu s)"
    and "\<And>k. has_table (vmmu s) k \<Longrightarrow> table_of (vmmu s) k \<noteq> t"
  defines "i \<equiv> vm_pdir_idx v" and "j \<equiv> vm_ptab_idx v"
  shows "map_page p v f s = Inr (s\<lparr>vmmu := set_pte (set_pde (vmmu s) i (t OR entry_flags f)) i j
             (PALIGNDOWN p OR entry_flags f), vpm := pm'\<rparr>)"
    and "pt_ok (set_pde (vmmu s) i (t OR entry_flags f))"
    and "has_table (set_pde (vmmu s) i (t OR entry_flags f)) i"
proof -
  let ?m = "vmmu s" and ?e = "t OR entry_flags f"
  have lt: "i < 1023" "i < 1024" "j < 1024"
    using assms(2) vm_pdir_idx_less [of v] vm_ptab_idx_less [of v]
    by (simp_all add: i_def j_def less_1023)
  note sm = pt_ok_selfmap [OF assms(1)]
  have "t AND 0xfffff000 = t"
    using PALIGNDOWN_aligned [OF assms(6)] by (simp add: PALIGNDOWN_eq)
  then have te: "?e AND 0xfffff000 = t" using entry_flags_page [OF assms(4)] by simp
  show ok: "pt_ok (set_pde ?m i ?e)"
    using assms(7,8) te by (intro pt_ok_set_pde [OF assms(1) lt(1)]) auto
  have pr: "pde_of (set_pde ?m i ?e) i AND PDE_P \<noteq> 0"
    using entry_flags_present by (simp add: pde_of_set_pde [OF lt(2,2)] flag_defs)
  then show "has_table (set_pde ?m i ?e) i" using lt(1) by (simp add: has_table_def)
  have st: "vstore32 (set_pde ?m i ?e) (ptab_slot i j) x = Inr (set_pte (set_pde ?m i ?e) i j x)" for x
    by (rule vstore32_ptab_slot [OF pt_ok_selfmap [OF ok] lt(2,3) pr])
  show "map_page p v f s = Inr (s\<lparr>vmmu := set_pte (set_pde ?m i ?e) i j
             (PALIGNDOWN p OR entry_flags f), vpm := pm'\<rparr>)"
    using assms(3,5) st vload32_pdir_slot [OF sm lt(2)] vstore32_pdir_slot [OF sm lt(2)]
    by (simp add: map_page_def Let_def i_def [symmetric] j_def [symmetric] entry_flags_def)
qed

subsection \<open>The effect on the address space\<close>

lemma page_or_flags:
  "low_flags f \<Longrightarrow> (PALIGNDOWN p OR entry_flags f) AND 0xfffff000 = PALIGNDOWN p"
  using entry_flags_page [of f "PALIGNDOWN p"] by (simp add: PALIGNDOWN_eq and.assoc)

lemma walk_bytes_cong:
  assumes "pd_base m' = pd_base m"
    and "\<And>i. i < 1024 \<Longrightarrow> (pde_of m' i AND PDE_P = 0) = (pde_of m i AND PDE_P = 0)"
    and "\<And>i. i < 1024 \<Longrightarrow> table_of m' i = table_of m i"
  shows "walk_bytes m' = walk_bytes m"
  unfolding walk_bytes_def using assms by auto

lemma walk_bytes_set_pte:
  assumes "pt_ok m" and "has_table m i" and "j < 1024"
  shows "walk_bytes (set_pte m i j e) = walk_bytes m"
  by (rule walk_bytes_cong) (simp_all add: pde_of_set_pte [OF assms] table_of_def)

lemma page_store_frame:
  assumes "page_aligned pd" and "i < 1024" and "q AND 0xfffff000 \<noteq> pd"
  shows "store32 f (pd + 4 * i) v q = f q"
proof -
  have al: "aligned4 (pd + 4 * i)" by (rule aligned4_entry [OF assms(1)])
  have "(pd + 4 * i + k) AND 0xfffff000 = pd" if "k < 4" for k
    using aligned4_same_page(1) [OF al that] page_add_offset(2) [OF assms(1) mult4_less [OF assms(2)]]
    by simp
  from this [of 0] this [of 1] this [of 2] this [of 3] assms(3)
  have "q \<noteq> pd + 4 * i" "q \<noteq> pd + 4 * i + 1" "q \<noteq> pd + 4 * i + 2" "q \<noteq> pd + 4 * i + 3"
    by auto
  then show ?thesis by (intro store32_other) simp
qed

text \<open>Entries are written inside the page tables only.\<close>

lemma mem_set_outside:
  assumes "q \<notin> walk_bytes m"
  shows "i < 1024 \<Longrightarrow> mem (set_pde m i e) q = mem m q"
    and "has_table m i \<Longrightarrow> j < 1024 \<Longrightarrow> mem (set_pte m i j e) q = mem m q"
proof -
  have "q AND 0xfffff000 \<noteq> pd_base m" using assms by (simp add: walk_bytes_def)
  then show "i < 1024 \<Longrightarrow> mem (set_pde m i e) q = mem m q"
    using page_store_frame [of "pd_base m" i q "mem m" e] by (simp add: set_pde_def)
  assume ht: "has_table m i" and j: "j < 1024"
  then have "q AND 0xfffff000 \<noteq> table_of m i"
    using assms less_1023(1) [of i] by (auto simp: walk_bytes_def has_table_def)
  then show "mem (set_pte m i j e) q = mem m q"
    using page_store_frame [of "table_of m i" j q "mem m" e] j by (simp add: mem_set_pte)
qed

lemma set_pde_keeps_table:
  assumes "pt_ok m" and "has_table m i" and "low_flags f"
  defines "m1 \<equiv> set_pde m i (pde_of m i OR entry_flags f)"
  shows "pt_ok m1" and "has_table m1 k = has_table m k"
    and "vm_pdir_idx w \<noteq> 1023 \<Longrightarrow> translate m1 w = translate m w"
    and "walk_bytes m1 = walk_bytes m"
proof -
  let ?e = "pde_of m i OR entry_flags f"
  have i: "i < 1023" using assms(2) by (simp add: has_table_def)
  have t: "?e AND 0xfffff000 = table_of m i"
    using entry_flags_page [OF assms(3)] by (simp add: table_of_def)
  have pr: "?e AND PDE_P \<noteq> 0" using entry_flags_present by (simp add: flag_defs)
  show "pt_ok m1"
    unfolding m1_def using assms(1,2) t
    by (intro pt_ok_set_pde [OF assms(1) i]) (auto simp: pt_ok_def)
  show "has_table m1 k = has_table m k"
    unfolding m1_def using assms(2) pr by (auto simp: has_table_set_pde [OF i])
  show "vm_pdir_idx w \<noteq> 1023 \<Longrightarrow> translate m1 w = translate m w"
    unfolding m1_def by (rule translate_set_pde_flags [OF assms(1,2) t pr])
  have i': "i < 1024" using i by (rule less_1023(1))
  show "walk_bytes m1 = walk_bytes m"
    unfolding m1_def using assms(2) pr t
    by (intro walk_bytes_cong)
      (auto simp: pde_of_set_pde [OF i'] table_of_set_pde [OF i'] has_table_def)
qed

text \<open>A page is absent when the walk stops at its page-table entry.\<close>

lemma pte_absent_iff:
  assumes "has_table m (vm_pdir_idx v)"
  shows "pte_of m (vm_pdir_idx v) (vm_ptab_idx v) AND PTE_P = 0
    \<longleftrightarrow> translate m v = Inl (PageFault v)"
  using assms by (auto simp: translate_def has_table_def)

lemma map_page_absent:
  assumes "pt_ok (vmmu s)" and "has_table (vmmu s) (vm_pdir_idx v)" and "low_flags f"
    and "translate (vmmu s) v = Inl (PageFault v)"
  obtains s' where "map_page p v f s = Inr s'" and "vpm s' = vpm s" and "pt_ok (vmmu s')"
    and "cr3 (vmmu s') = cr3 (vmmu s)"
    and "\<And>k. has_table (vmmu s') k = has_table (vmmu s) k"
    and "walk_bytes (vmmu s') = walk_bytes (vmmu s)"
    and "\<And>w. vm_pdir_idx w \<noteq> 1023 \<Longrightarrow> translate (vmmu s') w =
        (if w AND 0xfffff000 = v AND 0xfffff000 then Inr (PALIGNDOWN p + (w AND 0xfff))
         else translate (vmmu s) w)"
    and "\<And>q. q \<notin> walk_bytes (vmmu s) \<Longrightarrow> mem (vmmu s') q = mem (vmmu s) q"
    and "\<And>d l. has_table (vmmu s) d \<Longrightarrow> l < 1024 \<Longrightarrow> \<not> (d = vm_pdir_idx v \<and> l = vm_ptab_idx v) \<Longrightarrow>
      pte_of (vmmu s') d l = pte_of (vmmu s) d l"
proof -
  define i where "i = vm_pdir_idx v"
  define j where "j = vm_ptab_idx v"
  define m1 where "m1 = set_pde (vmmu s) i (pde_of (vmmu s) i OR entry_flags f)"
  define s' where "s' = s\<lparr>vmmu := set_pte m1 i j (PALIGNDOWN p OR entry_flags f)\<rparr>"
  have ht0: "has_table (vmmu s) i" using assms(2) by (simp add: i_def)
  note m1 = set_pde_keeps_table [OF assms(1) ht0 assms(3), folded m1_def]
  have ht: "has_table m1 i" using ht0 m1(2) by simp
  have j: "j < 1024" by (simp add: j_def vm_ptab_idx_less)
  have pr: "(PALIGNDOWN p OR entry_flags f) AND PTE_P \<noteq> 0"
    using entry_flags_present by (simp add: flag_defs)
  have eq: "map_page p v f s = Inr s'"
    using map_page_existing_table [OF assms(1,2,3), of p] pte_absent_iff [OF assms(2)] assms(4)
    by (simp add: s'_def m1_def i_def j_def)
  have ok: "pt_ok (vmmu s')" using pt_ok_set_pte [OF m1(1) ht j] by (simp add: s'_def)
  have ht': "has_table (vmmu s') k = has_table (vmmu s) k" for k
    using has_table_set_pte [OF m1(1) ht j] m1(2) by (simp add: s'_def)
  have tr: "translate (vmmu s') w =
      (if w AND 0xfffff000 = v AND 0xfffff000 then Inr (PALIGNDOWN p + (w AND 0xfff))
       else translate (vmmu s) w)" if "vm_pdir_idx w \<noteq> 1023" for w
    using translate_set_pte [OF m1(1) ht j that, of "PALIGNDOWN p OR entry_flags f"] m1(3) [OF that]
      pr page_or_flags [OF assms(3)] same_page_iff [of w v]
    by (simp add: s'_def i_def j_def)
  have wb: "walk_bytes (vmmu s') = walk_bytes (vmmu s)"
    using walk_bytes_set_pte [OF m1(1) ht j] m1(4) by (simp add: s'_def)
  have out: "mem (vmmu s') q = mem (vmmu s) q" if "q \<notin> walk_bytes (vmmu s)" for q
    using mem_set_outside(2) [of q m1 i j] mem_set_outside(1) [OF that, of i] that m1(4) ht j ht0
      less_1023(1) [of i] by (simp add: s'_def m1_def has_table_def)
  have pt: "pte_of (vmmu s') d l = pte_of (vmmu s) d l"
    if d: "has_table (vmmu s) d" "l < 1024" "\<not> (d = vm_pdir_idx v \<and> l = vm_ptab_idx v)" for d l
  proof -
    have "i < 1023" using ht0 by (simp add: has_table_def)
    moreover have "(pde_of (vmmu s) i OR entry_flags f) AND 0xfffff000 = table_of (vmmu s) i"
      using entry_flags_page [OF assms(3)] by (simp add: table_of_def)
    ultimately have "pte_of m1 d l = pte_of (vmmu s) d l"
      unfolding m1_def by (intro pte_of_set_pde_other [OF assms(1) _ d(1,2)])
    moreover have "has_table m1 d" using d(1) m1(2) by simp
    ultimately show ?thesis
      using pte_of_set_pte [OF m1(1) ht j _ d(2), of d] d(3) by (simp add: s'_def i_def j_def)
  qed
  show ?thesis
    by (rule that [OF eq _ ok _ ht' wb tr out pt]) (simp_all add: s'_def m1_def)
qed

subsection \<open>Ranges of pages\<close>

lemma page_at_inject:
  assumes "page_at a i = page_at a j" and "i < 1048576" and "j < 1048576"
  shows "i = j"
proof -
  have "(of_nat i * PAGE_SIZE :: u32) = of_nat j * PAGE_SIZE"
    using assms(1) by (simp add: page_at_def)
  then have "(i * 4096) mod 4294967296 = (j * 4096) mod 4294967296"
    by (simp add: u32_eq_iff PAGE_SIZE_def unat_word_ariths mod_simps unat_of_nat take_bit_eq_mod)
  with assms(2,3) show ?thesis by simp
qed

lemma page_aligned_page_at: "page_aligned a \<Longrightarrow> page_aligned (page_at a i)"
proof -
  assume "page_aligned a"
  then have "4096 dvd unat a + i * 4096" by (auto simp: page_aligned_unat)
  then show ?thesis
    by (simp add: page_at_def page_aligned_unat PAGE_SIZE_def unat_word_ariths mod_simps
        unat_of_nat take_bit_eq_mod mod_mod_cancel dvd_imp_mod_0)
qed

lemma page_of_page_at: "page_aligned a \<Longrightarrow> page_at a i AND 0xfffff000 = page_at a i"
  using PALIGNDOWN_aligned [OF page_aligned_page_at] by (simp add: PALIGNDOWN_eq)

lemma npages_of_unat: "npages_of sz = unat sz div 4096 + (if unat sz mod 4096 = 0 then 0 else 1)"
proof -
  have d: "unat (sz div PAGE_SIZE) = unat sz div 4096" by (simp add: unat_div PAGE_SIZE_def)
  have m: "0 < sz mod PAGE_SIZE \<longleftrightarrow> unat sz mod 4096 \<noteq> 0"
    by (simp add: word_less_nat_alt unat_mod PAGE_SIZE_def)
  have "unat sz div 4096 + 1 < 2 ^ 32" using unat_u32_less [of sz] by simp
  then show ?thesis
    unfolding npages_of_def m
    using unat_add_no_wrap [of "sz div PAGE_SIZE" 1] d by simp
qed

lemma npages_of_le: "npages_of sz \<le> 1048576"
proof -
  have "unat sz div 4096 < 1048576" using unat_u32_less [of sz] by (simp add: less_mult_imp_div_less)
  then show ?thesis by (simp add: npages_of_unat)
qed

lemma map_pages_kfor:
  "map_pages pa va f sz s = kfor (npages_of sz)
     (\<lambda>i. map_page (page_at (PALIGNDOWN pa) i) (page_at (PALIGNDOWN va) i) f) s"
  by (simp add: map_pages_def Let_def npages_of_unat)

lemma unmap_pages_kfor:
  "unmap_pages va sz s = kfor (npages_of sz) (\<lambda>i. unmap_page (page_at (PALIGNDOWN va) i)) s"
  by (simp add: unmap_pages_def Let_def npages_of_unat)

text \<open>Mapping a run of absent pages whose page tables exist.\<close>

lemma map_range:
  assumes "pt_ok (vmmu s)" and "low_flags f" and "page_aligned va" and "page_aligned pa"
    and "n \<le> 1048576"
    and "\<And>k. k < n \<Longrightarrow> has_table (vmmu s) (vm_pdir_idx (page_at va k))"
    and "\<And>k. k < n \<Longrightarrow> translate (vmmu s) (page_at va k) = Inl (PageFault (page_at va k))"
  shows "\<exists>s'. kfor n (\<lambda>i. map_page (page_at pa i) (page_at va i) f) s = Inr s' \<and>
    pt_ok (vmmu s') \<and> vpm s' = vpm s \<and> walk_bytes (vmmu s') = walk_bytes (vmmu s) \<and>
    (\<forall>w. vm_pdir_idx w \<noteq> 1023 \<longrightarrow>
      (\<forall>k < n. w AND 0xfffff000 = page_at va k \<longrightarrow>
         translate (vmmu s') w = Inr (page_at pa k + (w AND 0xfff))) \<and>
      ((\<forall>k < n. w AND 0xfffff000 \<noteq> page_at va k) \<longrightarrow>
         translate (vmmu s') w = translate (vmmu s) w))"
proof -
  define P where "P i t \<longleftrightarrow> pt_ok (vmmu t) \<and> vpm t = vpm s \<and>
    walk_bytes (vmmu t) = walk_bytes (vmmu s) \<and> (\<forall>d. has_table (vmmu t) d = has_table (vmmu s) d) \<and>
    (\<forall>w. vm_pdir_idx w \<noteq> 1023 \<longrightarrow>
      (\<forall>k < i. w AND 0xfffff000 = page_at va k \<longrightarrow>
         translate (vmmu t) w = Inr (page_at pa k + (w AND 0xfff))) \<and>
      ((\<forall>k < i. w AND 0xfffff000 \<noteq> page_at va k) \<longrightarrow>
         translate (vmmu t) w = translate (vmmu s) w))" for i and t :: vms
  have "\<exists>s'. kfor n (\<lambda>i. map_page (page_at pa i) (page_at va i) f) s = Inr s' \<and> P n s'"
  proof (rule kfor_total)
    show "P 0 s" using assms(1) by (simp add: P_def)
  next
    fix i t assume i: "i < n" and P: "P i t"
    let ?v = "page_at va i"
    have ht: "has_table (vmmu t) (vm_pdir_idx ?v)" using P assms(6) [OF i] by (simp add: P_def)
    then have d: "vm_pdir_idx ?v \<noteq> 1023" by (auto simp: has_table_def)
    have ne: "page_at va i \<noteq> page_at va k" if "k < i" for k
      using that i assms(5) page_at_inject [of va i k] by auto
    have "translate (vmmu t) ?v = Inl (PageFault ?v)"
      using P d ne assms(7) [OF i] page_of_page_at [OF assms(3)] unfolding P_def by metis
    then obtain t' where t': "map_page (page_at pa i) ?v f t = Inr t'" "vpm t' = vpm t"
      "pt_ok (vmmu t')" "\<And>k. has_table (vmmu t') k = has_table (vmmu t) k"
      "walk_bytes (vmmu t') = walk_bytes (vmmu t)"
      "\<And>w. vm_pdir_idx w \<noteq> 1023 \<Longrightarrow> translate (vmmu t') w =
        (if w AND 0xfffff000 = ?v AND 0xfffff000 then Inr (PALIGNDOWN (page_at pa i) + (w AND 0xfff))
         else translate (vmmu t) w)"
      using map_page_absent [OF _ ht assms(2), of "page_at pa i"] P unfolding P_def by metis
    have pg: "?v AND 0xfffff000 = ?v" "PALIGNDOWN (page_at pa i) = page_at pa i"
      using page_of_page_at [OF assms(3)] PALIGNDOWN_aligned [OF page_aligned_page_at [OF assms(4)]]
      by simp_all
    have "P (Suc i) t'"
      unfolding P_def
    proof (intro conjI allI impI)
      fix w k assume w: "vm_pdir_idx w \<noteq> 1023" and k: "k < Suc i" "w AND 0xfffff000 = page_at va k"
      show "translate (vmmu t') w = Inr (page_at pa k + (w AND 0xfff))"
      proof (cases "k = i")
        case True
        then show ?thesis using t'(6) [OF w] k(2) by (simp only: pg simp_thms if_True)
      next
        case False
        with k(1) have ki: "k < i" by simp
        have "w AND 0xfffff000 \<noteq> ?v" using ne [OF ki] k(2) by simp
        then have "translate (vmmu t') w = translate (vmmu t) w"
          using t'(6) [OF w] by (simp only: pg if_False)
        also have "\<dots> = Inr (page_at pa k + (w AND 0xfff))"
          using P w ki k(2) unfolding P_def by blast
        finally show ?thesis .
      qed
    next
      fix w assume w: "vm_pdir_idx w \<noteq> 1023" and k: "\<forall>k < Suc i. w AND 0xfffff000 \<noteq> page_at va k"
      have "w AND 0xfffff000 \<noteq> ?v" using k by blast
      then have "translate (vmmu t') w = translate (vmmu t) w"
        using t'(6) [OF w] by (simp only: pg if_False)
      also have "\<dots> = translate (vmmu s) w" using P w k less_SucI unfolding P_def by blast
      finally show "translate (vmmu t') w = translate (vmmu s) w" .
    qed (use t' P in \<open>simp_all add: P_def\<close>)
    with t'(1) show "\<exists>t'. map_page (page_at pa i) ?v f t = Inr t' \<and> P (Suc i) t'" by blast
  qed
  then show ?thesis unfolding P_def by blast
qed

text \<open>
  The same loop with a frame from \<open>pm_alloc\<close> for every page: \<open>ns ! k\<close> is the number of the
  frame behind page \<open>k\<close>.
\<close>

definition alloc_step :: "u32 \<Rightarrow> u32 \<Rightarrow> nat \<Rightarrow> vms \<Rightarrow> vms res" where
  "alloc_step va f i s = kbind (pm_alloc (vpm s)) (\<lambda>(physical_page, pm').
     map_page physical_page (page_at va i) f (s\<lparr>vpm := pm'\<rparr>))"

lemma vm_alloc_pages_at_kfor:
  "vm_alloc_pages_at va f sz s = kfor (npages_of sz) (alloc_step (PALIGNDOWN va) f) s"
  by (simp add: vm_alloc_pages_at_def Let_def alloc_step_def [abs_def] npages_of_unat)

definition alloc_inv :: "u32 \<Rightarrow> vms \<Rightarrow> nat \<Rightarrow> vms \<Rightarrow> nat list \<Rightarrow> bool" where
  "alloc_inv va s i t ns \<longleftrightarrow> pt_ok (vmmu t) \<and> pm_page_pool (vpm t) = pm_page_pool (vpm s) \<and>
     (\<forall>d. has_table (vmmu t) d = has_table (vmmu s) d) \<and> length ns = i \<and> distinct ns \<and>
     (\<forall>n \<in> set ns. n < PM_NPAGES \<and> \<not> pm_used (vpm s) n) \<and>
     (\<forall>n. pm_used (vpm t) n \<longleftrightarrow> pm_used (vpm s) n \<or> n \<in> set ns) \<and>
     (\<forall>w. vm_pdir_idx w \<noteq> 1023 \<longrightarrow>
       (\<forall>k < i. w AND 0xfffff000 = page_at va k \<longrightarrow>
          translate (vmmu t) w = Inr (pm_page (vpm s) (ns ! k) + (w AND 0xfff))) \<and>
       ((\<forall>k < i. w AND 0xfffff000 \<noteq> page_at va k) \<longrightarrow>
          translate (vmmu t) w = translate (vmmu s) w))"

lemma alloc_inv_step:
  assumes inv: "alloc_inv va s i t ns" and f: "low_flags f" and va: "page_aligned va"
    and pool: "page_aligned (pm_page_pool (vpm s))" and i: "i < 1048576"
    and ht0: "has_table (vmmu s) (vm_pdir_idx (page_at va i))"
    and tr0: "translate (vmmu s) (page_at va i) = Inl (PageFault (page_at va i))"
    and free: "\<exists>n < PM_NPAGES. \<not> pm_used (vpm t) n"
  shows "\<exists>t' n. alloc_step va f i t = Inr t' \<and> alloc_inv va s (Suc i) t' (ns @ [n])"
proof -
  let ?v = "page_at va i"
  obtain n pm' where n: "n < PM_NPAGES" "\<not> pm_used (vpm t) n"
    "pm_alloc (vpm t) = Inr (pm_page (vpm t) n, pm')"
    "\<forall>k. pm_used pm' k \<longleftrightarrow> pm_used (vpm t) k \<or> k = n" "pm_page pm' = pm_page (vpm t)"
    using pmf.alloc_free [OF free] by blast
  have pp: "pm_page_pool (vpm t) = pm_page_pool (vpm s)" using inv by (simp add: alloc_inv_def)
  then have pg: "pm_page (vpm t) = pm_page (vpm s)" by (rule pm_page_cong)
  have pool': "pm_page_pool pm' = pm_page_pool (vpm s)"
    using fun_cong [OF n(5), of 0] pp by (simp add: pm_page_def v2p_def)
  have al: "PALIGNDOWN (pm_page (vpm s) n) = pm_page (vpm s) n"
    by (rule PALIGNDOWN_aligned [OF pm_page_aligned [OF pool]])
  have ht: "has_table (vmmu t) (vm_pdir_idx ?v)" using inv ht0 by (simp add: alloc_inv_def)
  then have d: "vm_pdir_idx ?v \<noteq> 1023" by (auto simp: has_table_def)
  have ne: "page_at va i \<noteq> page_at va k" if "k < i" for k
    using that i page_at_inject [of va i k] by auto
  have tr: "translate (vmmu t) ?v = Inl (PageFault ?v)"
    using inv d ne tr0 page_of_page_at [OF va] unfolding alloc_inv_def by metis
  let ?t = "t\<lparr>vpm := pm'\<rparr>"
  have ok: "pt_ok (vmmu ?t)" "has_table (vmmu ?t) (vm_pdir_idx ?v)"
    "translate (vmmu ?t) ?v = Inl (PageFault ?v)"
    using inv ht tr by (simp_all add: alloc_inv_def)
  obtain t' where t': "map_page (pm_page (vpm s) n) ?v f ?t = Inr t'" "vpm t' = vpm ?t"
    "pt_ok (vmmu t')" "\<And>k. has_table (vmmu t') k = has_table (vmmu ?t) k"
    "\<And>w. vm_pdir_idx w \<noteq> 1023 \<Longrightarrow> translate (vmmu t') w =
      (if w AND 0xfffff000 = ?v AND 0xfffff000 then Inr (PALIGNDOWN (pm_page (vpm s) n) + (w AND 0xfff))
       else translate (vmmu ?t) w)"
    by (rule map_page_absent [OF ok(1,2) f ok(3)]) (rule that)
  note t' = t' [unfolded page_of_page_at [OF va] al, simplified]
  have "alloc_inv va s (Suc i) t' (ns @ [n])"
    unfolding alloc_inv_def
  proof (intro conjI allI impI ballI)
    fix w k assume w: "vm_pdir_idx w \<noteq> 1023" and k: "k < Suc i" "w AND 0xfffff000 = page_at va k"
    show "translate (vmmu t') w = Inr (pm_page (vpm s) ((ns @ [n]) ! k) + (w AND 0xfff))"
      using t'(5) [OF w] inv w k ne [of k] unfolding alloc_inv_def
      by (cases "k = i") (auto simp: nth_append)
  next
    fix w assume w: "vm_pdir_idx w \<noteq> 1023" and k: "\<forall>k < Suc i. w AND 0xfffff000 \<noteq> page_at va k"
    then show "translate (vmmu t') w = translate (vmmu s) w"
      using t'(5) [OF w] inv unfolding alloc_inv_def by auto
  qed (use t' n inv pool' in \<open>auto simp: alloc_inv_def\<close>)
  with t'(1) n(3) pg show ?thesis by (auto simp: alloc_step_def)
qed

lemma alloc_range:
  assumes "pt_ok (vmmu s)" and "low_flags f" and "page_aligned va"
    and "page_aligned (pm_page_pool (vpm s))" and "n \<le> 1048576"
    and "\<And>k. k < n \<Longrightarrow> has_table (vmmu s) (vm_pdir_idx (page_at va k))"
    and "\<And>k. k < n \<Longrightarrow> translate (vmmu s) (page_at va k) = Inl (PageFault (page_at va k))"
    and "finite F" and "n \<le> card F" and "\<forall>m \<in> F. m < PM_NPAGES \<and> \<not> pm_used (vpm s) m"
  shows "\<exists>s'. kfor n (alloc_step va f) s = Inr s' \<and> (\<exists>ns. alloc_inv va s n s' ns)"
proof (rule kfor_total)
  show "\<exists>ns. alloc_inv va s 0 s ns" using assms(1) by (intro exI [of _ "[]"]) (simp add: alloc_inv_def)
next
  fix i t assume i: "i < n" and "\<exists>ns. alloc_inv va s i t ns"
  then obtain ns where ns: "alloc_inv va s i t ns" by blast
  have "card (set ns) < card F"
    using ns i assms(9) by (auto simp: alloc_inv_def distinct_card)
  then have "\<not> F \<subseteq> set ns" using card_mono [of "set ns" F] by auto
  then obtain m where "m \<in> F" "m \<notin> set ns" by blast
  then have "\<exists>n < PM_NPAGES. \<not> pm_used (vpm t) n"
    using ns assms(10) by (intro exI [of _ m]) (auto simp: alloc_inv_def)
  from alloc_inv_step [OF ns assms(2-4) _ assms(6) [OF i] assms(7) [OF i] this] i assms(5)
  show "\<exists>t'. alloc_step va f i t = Inr t' \<and> (\<exists>ns. alloc_inv va s (Suc i) t' ns)" by fastforce
qed

subsection \<open>Removing a page, reading a mapping, changing its attributes\<close>

lemma unmap_page_present:
  assumes "pt_ok (vmmu s)" and "has_table (vmmu s) (vm_pdir_idx v)"
  shows "unmap_page v s = Inr (s\<lparr>vmmu := set_pte (vmmu s) (vm_pdir_idx v) (vm_ptab_idx v) 0\<rparr>)"
  using assms vm_ptab_idx_less [of v] vm_pdir_idx_less [of v]
  by (simp add: unmap_page_def Let_def has_table_def
      vstore32_ptab_slot [OF pt_ok_selfmap [OF assms(1)]])

lemma unmap_page_effect:
  assumes "pt_ok (vmmu s)" and "has_table (vmmu s) (vm_pdir_idx v)"
  obtains s' where "unmap_page v s = Inr s'" and "vpm s' = vpm s" and "pt_ok (vmmu s')"
    and "\<And>k. has_table (vmmu s') k = has_table (vmmu s) k"
    and "\<And>w. vm_pdir_idx w \<noteq> 1023 \<Longrightarrow> translate (vmmu s') w =
        (if w AND 0xfffff000 = v AND 0xfffff000 then Inl (PageFault w) else translate (vmmu s) w)"
    and "walk_bytes (vmmu s') = walk_bytes (vmmu s)" and "cr3 (vmmu s') = cr3 (vmmu s)"
    and "\<And>q. q \<notin> walk_bytes (vmmu s) \<Longrightarrow> mem (vmmu s') q = mem (vmmu s) q"
    and "\<And>d l. has_table (vmmu s) d \<Longrightarrow> l < 1024 \<Longrightarrow> \<not> (d = vm_pdir_idx v \<and> l = vm_ptab_idx v) \<Longrightarrow>
      pte_of (vmmu s') d l = pte_of (vmmu s) d l"
proof (rule that [OF unmap_page_present [OF assms]])
  let ?i = "vm_pdir_idx v" and ?j = "vm_ptab_idx v"
  let ?s = "s\<lparr>vmmu := set_pte (vmmu s) ?i ?j 0\<rparr>"
  show "vpm ?s = vpm s" by simp
  show "pt_ok (vmmu ?s)" using pt_ok_set_pte [OF assms vm_ptab_idx_less] by simp
  show "has_table (vmmu ?s) k = has_table (vmmu s) k" for k
    using has_table_set_pte [OF assms vm_ptab_idx_less] by simp
  show "translate (vmmu ?s) w =
      (if w AND 0xfffff000 = v AND 0xfffff000 then Inl (PageFault w) else translate (vmmu s) w)"
    if "vm_pdir_idx w \<noteq> 1023" for w
    using translate_set_pte [OF assms vm_ptab_idx_less that, of v 0] same_page_iff [of w v]
    by (simp add: conj_commute)
  show "walk_bytes (vmmu ?s) = walk_bytes (vmmu s)" using walk_bytes_set_pte [OF assms vm_ptab_idx_less] by simp
  show "mem (vmmu ?s) q = mem (vmmu s) q" if "q \<notin> walk_bytes (vmmu s)" for q
    using mem_set_outside(2) [OF that assms(2) vm_ptab_idx_less] by simp
  show "pte_of (vmmu ?s) d l = pte_of (vmmu s) d l"
    if "has_table (vmmu s) d" "l < 1024" "\<not> (d = ?i \<and> l = ?j)" for d l
    using pte_of_set_pte [OF assms vm_ptab_idx_less that(1,2)] that(3) by auto
qed simp

lemma unmap_range:
  assumes "pt_ok (vmmu s)" and "page_aligned va"
    and "\<And>k. k < n \<Longrightarrow> has_table (vmmu s) (vm_pdir_idx (page_at va k))"
  shows "\<exists>s'. kfor n (\<lambda>i. unmap_page (page_at va i)) s = Inr s' \<and>
    pt_ok (vmmu s') \<and> vpm s' = vpm s \<and>
    (\<forall>w. vm_pdir_idx w \<noteq> 1023 \<longrightarrow> translate (vmmu s') w =
       (if \<exists>k < n. w AND 0xfffff000 = page_at va k then Inl (PageFault w)
        else translate (vmmu s) w))"
proof -
  define P where "P i t \<longleftrightarrow> pt_ok (vmmu t) \<and> vpm t = vpm s \<and>
    (\<forall>d. has_table (vmmu t) d = has_table (vmmu s) d) \<and>
    (\<forall>w. vm_pdir_idx w \<noteq> 1023 \<longrightarrow> translate (vmmu t) w =
       (if \<exists>k < i. w AND 0xfffff000 = page_at va k then Inl (PageFault w)
        else translate (vmmu s) w))" for i and t :: vms
  have "\<exists>s'. kfor n (\<lambda>i. unmap_page (page_at va i)) s = Inr s' \<and> P n s'"
  proof (rule kfor_total)
    show "P 0 s" using assms(1) by (simp add: P_def)
  next
    fix i t assume i: "i < n" and P: "P i t"
    have ht: "has_table (vmmu t) (vm_pdir_idx (page_at va i))" and ok: "pt_ok (vmmu t)"
      using P assms(3) [OF i] by (simp_all add: P_def)
    obtain t' where t': "unmap_page (page_at va i) t = Inr t'" "vpm t' = vpm t" "pt_ok (vmmu t')"
      "\<And>k. has_table (vmmu t') k = has_table (vmmu t) k"
      "\<And>w. vm_pdir_idx w \<noteq> 1023 \<Longrightarrow> translate (vmmu t') w =
        (if w AND 0xfffff000 = page_at va i AND 0xfffff000 then Inl (PageFault w)
         else translate (vmmu t) w)"
      by (rule unmap_page_effect [OF ok ht]) (rule that)
    have "P (Suc i) t'"
      using t' P unfolding P_def page_of_page_at [OF assms(2)] less_Suc_eq by auto
    with t'(1) show "\<exists>t'. unmap_page (page_at va i) t = Inr t' \<and> P (Suc i) t'" by blast
  qed
  then show ?thesis unfolding P_def by blast
qed

text \<open>
  \<open>vm_get_phys_mapping\<close> masks the entry with \<open>~0x3ff\<close>, so bits 10 and 11 of the entry (ignored
  by the processor) end up in the address.
\<close>

lemma not_3ff_split: "(e :: u32) AND NOT 0x3ff = (e AND 0xfffff000) + (e AND 0xc00)"
proof -
  have m: "(NOT 0x3ff :: u32) = 0xfffff000 OR 0xc00" by simp
  have "(e AND 0xfffff000) AND (e AND 0xc00) = e AND (0xfffff000 AND 0xc00)" by (simp only: ac_simps and.idem and.left_idem)
  then have "(e AND 0xfffff000) AND (e AND 0xc00) = 0" by simp
  then have "(e AND 0xfffff000) + (e AND 0xc00) = (e AND 0xfffff000) OR (e AND 0xc00)" by (rule disjunctive_add_eq_or)
  then show ?thesis unfolding m bit.conj_disj_distrib by simp
qed

lemma and_not_3ff: "(e :: u32) AND 0xc00 = 0 \<Longrightarrow> e AND NOT 0x3ff = e AND 0xfffff000"
  unfolding not_3ff_split by simp

lemma vm_get_phys_mapping_table:
  assumes "pt_ok (vmmu s)" and "has_table (vmmu s) (vm_pdir_idx v)"
  shows "vm_get_phys_mapping v s =
    Inr ((pte_of (vmmu s) (vm_pdir_idx v) (vm_ptab_idx v) AND NOT 0x3ff) + (v AND 0xfff))"
  using assms(2)
  by (simp add: vm_get_phys_mapping_def Let_def has_table_def
      vload32_ptab_slot [OF pt_ok_selfmap [OF assms(1)] vm_pdir_idx_less vm_ptab_idx_less])

lemma vm_get_phys_mapping_no_table:
  assumes "pt_ok (vmmu s)" and "pde_of (vmmu s) (vm_pdir_idx v) AND PDE_P = 0"
  shows "vm_get_phys_mapping v s = Inl (PageFault (ptab_slot (vm_pdir_idx v) (vm_ptab_idx v)))"
  using ptab_slot_unmapped(1) [OF pt_ok_selfmap [OF assms(1)] vm_pdir_idx_less vm_ptab_idx_less assms(2)]
  by (simp add: vm_get_phys_mapping_def Let_def)

subsection \<open>A new address space\<close>

text \<open>
  The new page directory \<open>pd\<close> is mapped at its own physical address while it is filled.
  \<open>copy_inv\<close> describes the machine after \<open>i\<close> entries: only the frame \<open>pd\<close> has changed, and it
  holds the kernel's entries among the first \<open>i\<close>.
\<close>

definition kernel_pde :: "u32 \<Rightarrow> bool" where
  "kernel_pde e \<longleftrightarrow> e AND PDE_P \<noteq> 0 \<and> e AND PDE_U = 0"

definition copy_inv :: "u32 \<Rightarrow> mmu \<Rightarrow> nat \<Rightarrow> mmu \<Rightarrow> bool" where
  "copy_inv pd m i t \<longleftrightarrow> (\<exists>f. t = m\<lparr>mem := f\<rparr> \<and>
     (\<forall>q. q AND 0xfffff000 \<noteq> pd \<longrightarrow> f q = mem m q) \<and>
     (\<forall>k < 1024. load32 f (pd + 4 * of_nat k) =
        (if k < i \<and> kernel_pde (pde_of m (of_nat k)) then pde_of m (of_nat k) else 0)))"

lemma of_nat_1024: "k < 1024 \<Longrightarrow> (of_nat k :: u32) < 1024"
  by (simp add: word_less_nat_alt unat_of_nat take_bit_eq_mod)

lemma of_nat_eq_1024: "k < 1024 \<Longrightarrow> l < 1024 \<Longrightarrow> (of_nat k :: u32) = of_nat l \<longleftrightarrow> k = l"
  by (simp add: word_unat_eq_iff unat_of_nat take_bit_eq_mod)

lemma outside_walk:
  assumes "pd \<notin> walk_bytes m" and "page_aligned pd"
    and "\<forall>q. q AND 0xfffff000 \<noteq> pd \<longrightarrow> f q = mem m q"
  shows "translate (m\<lparr>mem := f\<rparr>) v = translate m v"
    and "walk_bytes (m\<lparr>mem := f\<rparr>) = walk_bytes m"
    and "i < 1024 \<Longrightarrow> pde_of (m\<lparr>mem := f\<rparr>) i = pde_of m i"
    and "selfmap m \<Longrightarrow> selfmap (m\<lparr>mem := f\<rparr>)"
proof -
  have pg: "pd AND 0xfffff000 = pd" using PALIGNDOWN_aligned [OF assms(2)] by (simp add: PALIGNDOWN_eq)
  have w: "f q = mem m q" if "q \<in> walk_bytes m" for q
    using that assms(1,3) pg by (auto simp: walk_bytes_def)
  show "translate (m\<lparr>mem := f\<rparr>) v = translate m v" "walk_bytes (m\<lparr>mem := f\<rparr>) = walk_bytes m"
    by (rule translate_frame, erule w)+
  have base: "pd_base (m\<lparr>mem := f\<rparr>) = pd_base m" by (simp add: pd_base_def)
  have "pd_base m \<noteq> pd" using assms(1) pg by (auto simp: walk_bytes_def)
  then show e: "i < 1024 \<Longrightarrow> pde_of (m\<lparr>mem := f\<rparr>) i = pde_of m i" for i
    using load32_page_cong [of "pd_base m" i f "mem m"] assms(3) by (simp add: pde_of_def base)
  show "selfmap m \<Longrightarrow> selfmap (m\<lparr>mem := f\<rparr>)"
    using e [of 1023] by (simp add: selfmap_def base)
qed

lemma copy_pdir_entry_step:
  assumes inv: "copy_inv pd m i t" and i: "i < 1024" and sm: "selfmap m"
    and pd: "pd \<notin> walk_bytes m" "page_aligned pd" "translate m pd = Inr pd"
  shows "\<exists>t'. copy_pdir_entry pd i t = Inr t' \<and> copy_inv pd m (Suc i) t'"
proof -
  from inv obtain f where f: "t = m\<lparr>mem := f\<rparr>" "\<forall>q. q AND 0xfffff000 \<noteq> pd \<longrightarrow> f q = mem m q"
    "\<And>k. k < 1024 \<Longrightarrow> load32 f (pd + 4 * of_nat k) =
        (if k < i \<and> kernel_pde (pde_of m (of_nat k)) then pde_of m (of_nat k) else 0)"
    unfolding copy_inv_def by blast
  let ?i = "of_nat i :: u32"
  let ?e = "pde_of m ?i" and ?f = "store32 f (pd + 4 * ?i) (pde_of m ?i)"
  have lt: "?i < 1024" by (rule of_nat_1024 [OF i])
  note ow = outside_walk [OF pd(1,2) f(2)]
  have off: "4 * ?i < 0x1000" by (rule mult4_less [OF lt])
  have ld: "vload32 t (pdir_slot ?i) = Inr ?e"
    using vload32_pdir_slot [OF ow(4) [OF sm] lt] ow(3) [OF lt] f(1) by simp
  have "translate t (pd + 4 * ?i) = Inr (pd + 4 * ?i)"
    using translate_same_page [OF pd(3), of "pd + 4 * ?i"] page_add_offset(2,3) [OF pd(2) off]
      PALIGNDOWN_aligned [OF pd(2)] ow(1) f(1) by (simp add: PALIGNDOWN_eq)
  then have st: "vstore32 t (pd + 4 * ?i) ?e = Inr (m\<lparr>mem := ?f\<rparr>)"
    using vstore32_aligned [OF _ aligned4_entry [OF pd(2)]] f(1) by simp
  have fe: "load32 ?f (pd + 4 * of_nat k) = (if i = k then ?e else load32 f (pd + 4 * of_nat k))"
    if "k < 1024" for k
    using load32_store_entry [OF pd(2,2) lt of_nat_1024 [OF that]] of_nat_eq_1024 [OF i that] by simp
  have "copy_inv pd m (Suc i) (m\<lparr>mem := ?f\<rparr>)" if "kernel_pde ?e"
    unfolding copy_inv_def
  proof (intro exI [of _ ?f] conjI allI impI refl)
    fix q assume "q AND 0xfffff000 \<noteq> pd"
    then show "?f q = mem m q" using page_store_frame [OF pd(2) lt] f(2) by simp
  next
    fix k :: nat assume "k < 1024"
    then show "load32 ?f (pd + 4 * of_nat k) =
        (if k < Suc i \<and> kernel_pde (pde_of m (of_nat k)) then pde_of m (of_nat k) else 0)"
      unfolding fe [OF \<open>k < 1024\<close>] f(3) [OF \<open>k < 1024\<close>] using that by (auto simp: less_Suc_eq)
  qed
  moreover have "copy_inv pd m (Suc i) t" if "\<not> kernel_pde ?e"
    unfolding copy_inv_def
    by (rule exI [of _ f]) (use f that in \<open>auto simp: less_Suc_eq\<close>)
  ultimately show ?thesis
    unfolding copy_pdir_entry_def ld by (cases "kernel_pde ?e") (auto simp: kernel_pde_def st)
qed

lemma frame_bytes:
  assumes "page_aligned pd"
  shows "(\<lambda>i. pd + of_nat i) ` {..<4096} = {q. q AND 0xfffff000 = pd}"
proof (intro set_eqI iffI)
  fix q assume "q \<in> (\<lambda>i. pd + of_nat i) ` {..<4096}"
  then obtain i :: nat where "i < 4096" "q = pd + of_nat i" by auto
  then show "q \<in> {q. q AND 0xfffff000 = pd}"
    using page_add_offset(2) [OF assms, of "of_nat i"]
    by (simp add: word_less_nat_alt unat_of_nat take_bit_eq_mod)
next
  fix q assume "q \<in> {q. q AND 0xfffff000 = pd}"
  then have "q = pd + of_nat (unat (q AND 0xfff))" using page_offset_sum [of q] by simp
  then show "q \<in> (\<lambda>i. pd + of_nat i) ` {..<4096}"
    by (rule image_eqI) (simp add: unat_and_fff)
qed

lemma fill_pdir:
  assumes ok: "pt_ok m" and pd: "pd \<notin> walk_bytes m" "page_aligned pd" "translate m pd = Inr pd"
  shows "\<exists>m1 m2. memset pd 0 4096 m = Inr m1 \<and> kfor 1024 (copy_pdir_entry pd) m1 = Inr m2 \<and>
    copy_inv pd m 1024 m2"
proof -
  let ?f = "\<lambda>p. if p \<in> (\<lambda>i. pd + of_nat i) ` {..<4096} then 0 else mem m p"
  have lt: "(of_nat i :: u32) < 0x1000" if "i < 4096" for i
    using that by (simp add: word_less_nat_alt unat_of_nat take_bit_eq_mod)
  have pg: "pd AND 0xfffff000 = pd" using PALIGNDOWN_aligned [OF pd(2)] by (simp add: PALIGNDOWN_eq)
  have tr: "translate m (pd + of_nat i) = Inr (pd + of_nat i)" if "i < 4096" for i
    using translate_same_page [OF pd(3), of "pd + of_nat i"] page_add_offset(2,3) [OF pd(2) lt [OF that]] pg
    by simp
  have nw: "pd + of_nat i \<notin> walk_bytes m" if "i < 4096" for i
    using pd(1) page_add_offset(2) [OF pd(2) lt [OF that]] pg by (simp add: walk_bytes_def)
  have ms: "memset pd 0 4096 m = Inr (m\<lparr>mem := ?f\<rparr>)" by (rule memset_bytes [OF tr nw])
  have z: "load32 ?f (pd + 4 * of_nat k) = 0" if "k < 1024" for k :: nat
    using load32_page_cong [OF pd(2) of_nat_1024 [OF that], of ?f "\<lambda>_. 0"]
    by (simp add: frame_bytes [OF pd(2)] load32_def)
  have "copy_inv pd m 0 (m\<lparr>mem := ?f\<rparr>)"
    unfolding copy_inv_def
    by (rule exI [of _ ?f]) (use z in \<open>simp add: frame_bytes [OF pd(2)]\<close>)
  then have "\<exists>m2. kfor 1024 (copy_pdir_entry pd) (m\<lparr>mem := ?f\<rparr>) = Inr m2 \<and> copy_inv pd m 1024 m2"
  proof (rule kfor_total)
    fix i t assume "i < 1024" "copy_inv pd m i t"
    then show "\<exists>t'. copy_pdir_entry pd i t = Inr t' \<and> copy_inv pd m (Suc i) t'"
      using copy_pdir_entry_step [OF _ _ pt_ok_selfmap [OF ok] pd] by blast
  qed
  then show ?thesis using ms by blast
qed

lemma pt_ok_outside_walk:
  assumes "pd \<notin> walk_bytes m" and "page_aligned pd"
    and "\<forall>q. q AND 0xfffff000 \<noteq> pd \<longrightarrow> f q = mem m q" and "pt_ok m"
  shows "pt_ok (m\<lparr>mem := f\<rparr>)"
proof -
  note ow = outside_walk [OF assms(1-3)]
  have ht: "has_table (m\<lparr>mem := f\<rparr>) i = has_table m i" for i
    using ow(3) [of i] less_1023(1) [of i] by (auto simp: has_table_def)
  have tb: "table_of (m\<lparr>mem := f\<rparr>) i = table_of m i" if "has_table m i" for i
    using ow(3) [of i] less_1023(1) [of i] that by (simp add: table_of_def has_table_def)
  show ?thesis
    using assms(4) ow(4) ht tb unfolding pt_ok_def by (auto simp: pd_base_def)
qed

lemma vm_copy_kernel_pdir_effect:
  assumes "pt_ok (vmmu s)" and "pm_alloc (vpm s) = Inr (pd, pm')" and "pd \<noteq> 0"
    and "page_aligned pd" and "pd \<notin> walk_bytes (vmmu s)"
    and "has_table (vmmu s) (vm_pdir_idx pd)"
    and "translate (vmmu s) pd = Inl (PageFault pd)"
  shows "\<exists>s'. vm_copy_kernel_pdir s = Inr (pd, s') \<and> vpm s' = pm' \<and> cr3 (vmmu s') = cr3 (vmmu s) \<and>
    (\<forall>k < 1023. load32 (mem (vmmu s')) (pd + 4 * of_nat k) =
       (if kernel_pde (pde_of (vmmu s') (of_nat k)) then pde_of (vmmu s') (of_nat k) else 0)) \<and>
    load32 (mem (vmmu s')) (pd + 4 * 1023) = pd OR PDE_P OR PDE_W \<and>
    pt_ok (vmmu s') \<and> walk_bytes (vmmu s') = walk_bytes (vmmu s) \<and>
    (\<forall>w. vm_pdir_idx w \<noteq> 1023 \<longrightarrow> translate (vmmu s') w =
       (if w AND 0xfffff000 = pd then Inr w else translate (vmmu s) w))"
proof -
  let ?s = "s\<lparr>vpm := pm'\<rparr>"
  have pg: "pd AND 0xfffff000 = pd" "PALIGNDOWN pd = pd"
    using PALIGNDOWN_aligned [OF assms(4)] by (simp_all add: PALIGNDOWN_eq)
  have ok: "pt_ok (vmmu ?s)" "has_table (vmmu ?s) (vm_pdir_idx pd)" "low_flags 0"
    "translate (vmmu ?s) pd = Inl (PageFault pd)" using assms by (simp_all add: low_flags_def)
  obtain s1 where s1: "map_page pd pd 0 ?s = Inr s1" "vpm s1 = vpm ?s" "pt_ok (vmmu s1)"
    "cr3 (vmmu s1) = cr3 (vmmu ?s)" "walk_bytes (vmmu s1) = walk_bytes (vmmu ?s)"
    "\<And>w. vm_pdir_idx w \<noteq> 1023 \<Longrightarrow> translate (vmmu s1) w =
        (if w AND 0xfffff000 = pd then Inr (pd + (w AND 0xfff)) else translate (vmmu ?s) w)"
    by (rule map_page_absent [OF ok, of pd, unfolded pg]) (rule that)
  have d: "vm_pdir_idx pd \<noteq> 1023" using assms(6) by (auto simp: has_table_def)
  have pd: "pd \<notin> walk_bytes (vmmu s1)" "page_aligned pd" "translate (vmmu s1) pd = Inr pd"
    using s1(5) assms(4,5) s1(6) [OF d] pg assms(4) by (simp_all add: page_aligned_def)
  obtain m1 m2 where m: "memset pd 0 4096 (vmmu s1) = Inr m1"
    "kfor 1024 (copy_pdir_entry pd) m1 = Inr m2" "copy_inv pd (vmmu s1) 1024 m2"
    using fill_pdir [OF s1(3) pd] by blast
  from m(3) obtain f where f: "m2 = (vmmu s1)\<lparr>mem := f\<rparr>"
    "\<forall>q. q AND 0xfffff000 \<noteq> pd \<longrightarrow> f q = mem (vmmu s1) q"
    "\<And>k. k < 1024 \<Longrightarrow> load32 f (pd + 4 * of_nat k) =
      (if kernel_pde (pde_of (vmmu s1) (of_nat k)) then pde_of (vmmu s1) (of_nat k) else 0)"
    unfolding copy_inv_def by auto
  let ?f = "store32 f (pd + 4 * 1023) (pd OR PDE_P OR PDE_W)"
  let ?m = "(vmmu s1)\<lparr>mem := ?f\<rparr>"
  have f2: "\<forall>q. q AND 0xfffff000 \<noteq> pd \<longrightarrow> ?f q = mem (vmmu s1) q"
    using page_store_frame [OF pd(2), of 1023] f(2) by simp
  have "(4 * 1023 :: u32) < 0x1000" by simp
  from page_add_offset(2,3) [OF pd(2) this]
  have "translate m2 (pd + 4 * 1023) = Inr (pd + 4 * 1023)"
    using translate_same_page [OF pd(3), of "pd + 4 * 1023"] pg outside_walk(1) [OF pd(1,2) f(2)] f(1)
    by simp
  then have st: "vstore32 m2 (pd + 4 * 1023) (pd OR PDE_P OR PDE_W) = Inr ?m"
    using vstore32_aligned [OF _ aligned4_entry [OF pd(2), of 1023], of m2] f(1) by simp
  have ld: "load32 ?f (pd + 4 * of_nat k) = load32 f (pd + 4 * of_nat k)" if "k < 1023" for k
    using load32_store_entry [OF pd(2,2), of 1023 "of_nat k"] that of_nat_1024 [of k]
      of_nat_eq_1024 [of 1023 k] by simp
  note ow = outside_walk [OF pd(1,2) f2]
  have "vm_copy_kernel_pdir s = Inr (pd, s1\<lparr>vmmu := ?m\<rparr>)"
    using assms(2,3) s1(1) m(1,2) st by (simp add: vm_copy_kernel_pdir_def)
  moreover have "load32 ?f (pd + 4 * of_nat k) =
      (if kernel_pde (pde_of ?m (of_nat k)) then pde_of ?m (of_nat k) else 0)" if "k < 1023" for k
    using ld [OF that] f(3) [of k] ow(3) [OF of_nat_1024, of k] that by simp
  moreover have "translate ?m w = (if w AND 0xfffff000 = pd then Inr w else translate (vmmu s) w)"
    if "vm_pdir_idx w \<noteq> 1023" for w
    using s1(6) [OF that] ow(1) page_offset_sum [of w] by auto
  moreover have "pt_ok ?m" by (rule pt_ok_outside_walk [OF pd(1,2) f2 s1(3)])
  moreover have "walk_bytes ?m = walk_bytes (vmmu s)" using ow(2) s1(5) by simp
  ultimately show ?thesis using s1(2,4) by (intro exI [of _ "s1\<lparr>vmmu := ?m\<rparr>"]) simp
qed

subsection \<open>The address space of the witnesses\<close>

definition demo_vms :: vms where
  "demo_vms = \<lparr>vmmu = demo_mmu, vpm = pm_fresh\<rparr>"

lemma demo_has_table: "has_table (vmmu demo_vms) 0" "pt_ok (vmmu demo_vms)"
  by (simp_all add: demo_vms_def has_table_def demo_pde flag_defs demo_pt_ok)

lemma demo_fault:
  "translate (vmmu demo_vms) 0x7000 = Inl (PageFault 0x7000)"
  "translate (vmmu demo_vms) 0x8000 = Inl (PageFault 0x8000)"
  by (simp_all add: demo_vms_def translate_def vm_pdir_idx_def vm_ptab_idx_def demo_pde demo_pte
      flag_defs)

section \<open>Properties\<close>

text \<open>
  The self map.  When the last page-directory entry points at the directory itself, the
  word at \<open>pdir[i]\<close> in the window at \<open>KERN_PDIR_ADDR\<close> is the directory entry the processor
  reads, and the word at \<open>ptab[j]\<close> in the window of directory entry \<open>i\<close> is its page-table
  entry; the second window faults exactly when that directory entry is not present.
\<close>

theorem self_map_windows:
  assumes "selfmap m" and "i < 1024" and "j < 1024"
  shows "translate m (pdir_slot i) = Inr (pd_base m + 4 * i) \<and>
    translate m (ptab_slot i j) =
      (if pde_of m i AND PDE_P = 0 then Inl (PageFault (ptab_slot i j))
       else Inr ((pde_of m i AND 0xfffff000) + 4 * j))"
  using translate_pdir_slot [OF assms(1,2)] translate_ptab_slot [OF assms] by simp

theorem self_map_windows_witness:
  "translate demo_mmu (pdir_slot 5) = Inr 20 \<and> translate demo_mmu (ptab_slot 0 2) = Inr 0x1008"
  using self_map_windows [OF pt_ok_selfmap [OF demo_pt_ok], of 5 2]
    self_map_windows [OF pt_ok_selfmap [OF demo_pt_ok], of 0 2]
  by (simp add: demo_pde demo_pd_base flag_defs)

text \<open>
  C6. \<open>map_page\<close> where the page table exists.  On a page that is not mapped it succeeds, maps
  exactly that page to the requested frame, leaves the translation of every other address
  alone and takes no frame.  On a page that is mapped it changes nothing when frame and
  flags agree with the request, and halts the kernel otherwise.
\<close>

theorem map_page_correct:
  assumes "pt_ok (vmmu s)" and "has_table (vmmu s) (vm_pdir_idx v)" and "low_flags f"
  shows "case translate (vmmu s) v of
      Inl _ \<Rightarrow> \<exists>s'. map_page p v f s = Inr s' \<and> vpm s' = vpm s \<and> pt_ok (vmmu s') \<and>
        (\<forall>w. vm_pdir_idx w \<noteq> 1023 \<longrightarrow> translate (vmmu s') w =
           (if w AND 0xfffff000 = v AND 0xfffff000 then Inr (PALIGNDOWN p + (w AND 0xfff))
            else translate (vmmu s) w))
    | Inr q \<Rightarrow> map_page p v f s =
        (if q AND 0xfffff000 = PALIGNDOWN p \<and>
            pte_of (vmmu s) (vm_pdir_idx v) (vm_ptab_idx v) AND 0x1f = entry_flags f AND 0x1f
         then Inr s else Inl Halted)"
proof (cases "pte_of (vmmu s) (vm_pdir_idx v) (vm_ptab_idx v) AND PTE_P = 0")
  case True
  with pte_absent_iff [OF assms(2)] have tr: "translate (vmmu s) v = Inl (PageFault v)" by simp
  obtain s' where "map_page p v f s = Inr s'" "vpm s' = vpm s" "pt_ok (vmmu s')"
    "\<And>w. vm_pdir_idx w \<noteq> 1023 \<Longrightarrow> translate (vmmu s') w =
        (if w AND 0xfffff000 = v AND 0xfffff000 then Inr (PALIGNDOWN p + (w AND 0xfff))
         else translate (vmmu s) w)"
    by (rule map_page_absent [OF assms tr]) (rule that)
  then show ?thesis unfolding tr by auto
next
  case False
  let ?e = "pte_of (vmmu s) (vm_pdir_idx v) (vm_ptab_idx v)"
  have tr: "translate (vmmu s) v = Inr ((?e AND 0xfffff000) + (v AND 0xfff))"
    using False assms(2) by (simp add: translate_def has_table_def)
  have "v AND 0xfff < 0x1000" by (simp add: word_less_nat_alt unat_and_fff)
  then have "((?e AND 0xfffff000) + (v AND 0xfff)) AND 0xfffff000 = ?e AND 0xfffff000"
    by (simp add: page_add_offset(2))
  then show ?thesis
    unfolding tr sum.case using False by (simp add: map_page_existing_table [OF assms] Let_def)
qed

theorem map_page_correct_witness:
  "\<exists>s'. map_page 0x9000 0x7000 0 demo_vms = Inr s' \<and> translate (vmmu s') 0x7123 = Inr 0x9123 \<and>
     translate (vmmu s') 0x2000 = Inr 0x5000"
proof -
  obtain s' where s': "map_page 0x9000 0x7000 0 demo_vms = Inr s'"
    "\<forall>w. vm_pdir_idx w \<noteq> 1023 \<longrightarrow> translate (vmmu s') w =
       (if w AND 0xfffff000 = 0x7000 AND 0xfffff000 then Inr (PALIGNDOWN 0x9000 + (w AND 0xfff))
        else translate (vmmu demo_vms) w)"
    using map_page_correct [OF demo_has_table(2), of "0x7000" 0 "0x9000"] demo_has_table(1)
    unfolding demo_fault by (auto simp: vm_pdir_idx_def low_flags_def)
  have "translate (vmmu s') 0x7123 = Inr 0x9123"
    using s'(2) [rule_format, of "0x7123"] by (simp add: vm_pdir_idx_def PALIGNDOWN_eq)
  moreover have "translate (vmmu s') 0x2000 = Inr 0x5000"
    using s'(2) [rule_format, of "0x2000"] demo_translate_page(1) [of 0]
    by (simp add: vm_pdir_idx_def demo_vms_def)
  ultimately show ?thesis using s'(1) by blast
qed

text \<open>
  \<open>map_page\<close> where the page table does not exist yet: it takes a frame for the table and
  maps the page, and every address below another directory entry keeps its translation.
  The new table is not cleared, so an address \<open>w\<close> in another page of the same 4 MiB is
  translated by whatever word the frame held at the index of \<open>w\<close>: it becomes mapped when
  that stale word has its present bit set.
\<close>

theorem map_page_fresh_table:
  assumes "pt_ok (vmmu s)" and "vm_pdir_idx v \<noteq> 1023"
    and "pde_of (vmmu s) (vm_pdir_idx v) AND PDE_P = 0" and "low_flags f"
    and "pm_alloc (vpm s) = Inr (t, pm')" and "page_aligned t" and "t \<noteq> pd_base (vmmu s)"
    and "\<And>k. has_table (vmmu s) k \<Longrightarrow> table_of (vmmu s) k \<noteq> t"
  shows "\<exists>s'. map_page p v f s = Inr s' \<and> vpm s' = pm' \<and> pt_ok (vmmu s') \<and>
    (\<forall>w. vm_pdir_idx w \<noteq> 1023 \<longrightarrow> translate (vmmu s') w =
      (if w AND 0xfffff000 = v AND 0xfffff000 then Inr (PALIGNDOWN p + (w AND 0xfff))
       else if vm_pdir_idx w \<noteq> vm_pdir_idx v then translate (vmmu s) w
       else let stale = load32 (mem (vmmu s)) (t + 4 * vm_ptab_idx w) in
         if stale AND PTE_P = 0 then Inl (PageFault w)
         else Inr ((stale AND 0xfffff000) + (w AND 0xfff))))"
proof -
  let ?i = "vm_pdir_idx v" and ?j = "vm_ptab_idx v" and ?e = "PALIGNDOWN p OR entry_flags f"
  let ?d = "t OR entry_flags f"
  let ?m1 = "set_pde (vmmu s) ?i ?d"
  let ?s = "s\<lparr>vmmu := set_pte ?m1 ?i ?j ?e, vpm := pm'\<rparr>"
  note mp = map_page_new_table [OF assms]
  have lt: "?i < 1023" using vm_pdir_idx_less assms(2) by (rule less_1023(2))
  have "t AND 0xfffff000 = t" using PALIGNDOWN_aligned [OF assms(6)] by (simp add: PALIGNDOWN_eq)
  then have te: "?d AND 0xfffff000 = t" using entry_flags_page [OF assms(4)] by simp
  have pr: "?d AND PDE_P \<noteq> 0" "?e AND PTE_P \<noteq> 0"
    using entry_flags_present by (simp_all add: flag_defs)
  have "translate (vmmu ?s) w =
      (if w AND 0xfffff000 = v AND 0xfffff000 then Inr (PALIGNDOWN p + (w AND 0xfff))
       else if vm_pdir_idx w \<noteq> ?i then translate (vmmu s) w
       else let stale = load32 (mem (vmmu s)) (t + 4 * vm_ptab_idx w) in
         if stale AND PTE_P = 0 then Inl (PageFault w)
         else Inr ((stale AND 0xfffff000) + (w AND 0xfff)))" if w: "vm_pdir_idx w \<noteq> 1023" for w
    using translate_set_pte [OF mp(2,3) vm_ptab_idx_less w, of v ?e] same_page_iff [of w v]
      translate_set_pde_new [OF assms(1) lt pr(1) _ w] te assms(7) pr(2) page_or_flags [OF assms(4)]
    by (simp add: Let_def)
  moreover have "pt_ok (vmmu ?s)" using pt_ok_set_pte [OF mp(2,3) vm_ptab_idx_less] by simp
  ultimately show ?thesis using mp(1) by (intro exI [of _ ?s]) simp
qed

theorem map_page_fresh_table_witness:
  "\<exists>s'. map_page 0x9000 0x400000 0 demo_vms = Inr s' \<and> translate (vmmu s') 0x400010 = Inr 0x9010"
proof -
  obtain pm' where al: "pm_alloc pm_fresh = Inr (pm_page pm_fresh 0, pm')"
    using pm_alloc_first [of pm_fresh 0] by (auto simp: pm_used_fresh PM_NPAGES_def)
  have pg: "pm_page pm_fresh 0 = 0x400000"
    by (simp add: pm_page_def pm_fresh_def v2p_def KERN_VOFF_def)
  have "\<exists>s'. map_page 0x9000 0x400000 0 demo_vms = Inr s' \<and> vpm s' = pm' \<and> pt_ok (vmmu s') \<and>
    (\<forall>w. vm_pdir_idx w \<noteq> 1023 \<longrightarrow> translate (vmmu s') w =
      (if w AND 0xfffff000 = 0x400000 AND 0xfffff000 then Inr (PALIGNDOWN 0x9000 + (w AND 0xfff))
       else if vm_pdir_idx w \<noteq> vm_pdir_idx 0x400000 then translate (vmmu demo_vms) w
       else let stale = load32 (mem (vmmu demo_vms)) (0x400000 + 4 * vm_ptab_idx w) in
         if stale AND PTE_P = 0 then Inl (PageFault w)
         else Inr ((stale AND 0xfffff000) + (w AND 0xfff))))"
    by (rule map_page_fresh_table [OF demo_has_table(2)])
      (use al pg in \<open>auto simp: demo_vms_def vm_pdir_idx_def demo_pde flag_defs low_flags_def
        page_aligned_def demo_pd_base has_table_def table_of_def less_1023 split: if_splits\<close>)
  then obtain s' where s': "map_page 0x9000 0x400000 0 demo_vms = Inr s'"
    "\<forall>w. vm_pdir_idx w \<noteq> 1023 \<longrightarrow> w AND 0xfffff000 = 0x400000 AND 0xfffff000 \<longrightarrow>
      translate (vmmu s') w = Inr (PALIGNDOWN 0x9000 + (w AND 0xfff))" by auto
  from s'(2) [rule_format, of "0x400010"] have "translate (vmmu s') 0x400010 = Inr 0x9010"
    by (simp add: vm_pdir_idx_def PALIGNDOWN_eq)
  with s'(1) show ?thesis by blast
qed

text \<open>
  C30. \<open>unmap_page\<close> undoes \<open>map_page\<close>: mapping an unmapped page and unmapping it again gives
  every address the translation it had before, and the page faults again.
\<close>

theorem map_unmap_roundtrip:
  assumes "pt_ok (vmmu s)" and "has_table (vmmu s) (vm_pdir_idx v)" and "low_flags f"
    and "translate (vmmu s) v = Inl (PageFault v)"
  shows "\<exists>s1 s2. map_page p v f s = Inr s1 \<and> unmap_page v s1 = Inr s2 \<and> vpm s2 = vpm s \<and>
    pt_ok (vmmu s2) \<and>
    (\<forall>w. vm_pdir_idx w \<noteq> 1023 \<longrightarrow> translate (vmmu s2) w = translate (vmmu s) w)"
proof -
  obtain s1 where s1: "map_page p v f s = Inr s1" "vpm s1 = vpm s" "pt_ok (vmmu s1)"
    "\<And>k. has_table (vmmu s1) k = has_table (vmmu s) k"
    "\<And>w. vm_pdir_idx w \<noteq> 1023 \<Longrightarrow> translate (vmmu s1) w =
        (if w AND 0xfffff000 = v AND 0xfffff000 then Inr (PALIGNDOWN p + (w AND 0xfff))
         else translate (vmmu s) w)"
    by (rule map_page_absent [OF assms]) (rule that)
  have ht: "has_table (vmmu s1) (vm_pdir_idx v)" using assms(2) s1(4) by simp
  obtain s2 where s2: "unmap_page v s1 = Inr s2" "vpm s2 = vpm s1" "pt_ok (vmmu s2)"
    "\<And>w. vm_pdir_idx w \<noteq> 1023 \<Longrightarrow> translate (vmmu s2) w =
        (if w AND 0xfffff000 = v AND 0xfffff000 then Inl (PageFault w) else translate (vmmu s1) w)"
    by (rule unmap_page_effect [OF s1(3) ht]) (rule that)
  have same: "translate (vmmu s) w = Inl (PageFault w)"
    if "w AND 0xfffff000 = v AND 0xfffff000" for w
    using assms(2,4) that same_page_iff [of w v]
    by (auto simp: translate_def has_table_def split: if_splits)
  show ?thesis
    using s1(1,2) s2(1-3) s2(4) s1(5) same by (intro exI [of _ s1] exI [of _ s2]) auto
qed

theorem map_unmap_roundtrip_witness:
  "\<exists>s1 s2. map_page 0x9000 0x7000 0 demo_vms = Inr s1 \<and> unmap_page 0x7000 s1 = Inr s2 \<and>
     translate (vmmu s2) 0x7000 = Inl (PageFault 0x7000)"
  using map_unmap_roundtrip [OF demo_has_table(2), of "0x7000" 0 "0x9000"] demo_has_table(1)
    demo_fault(1)
  by (fastforce simp: vm_pdir_idx_def low_flags_def)

text \<open>
  C31. \<open>vm_get_phys_mapping\<close> against the processor's page walk, for every address below the page-table
  window.  On a mapped address it returns the address the walk computes plus bits 10 and 11 of the
  entry, which its mask \<open>~0x3ff\<close> leaves in.  On an unmapped one it faults in the window when there is
  no page table, and otherwise does not notice: it returns what is left of the stale entry.  So it
  agrees with the walk exactly on the mapped pages whose entries have both bits clear.
\<close>

theorem vm_get_phys_mapping_walk:
  assumes "pt_ok (vmmu s)" and "vm_pdir_idx v \<noteq> 1023"
  shows "let pde = pde_of (vmmu s) (vm_pdir_idx v); pte = pte_of (vmmu s) (vm_pdir_idx v) (vm_ptab_idx v) in
    (case translate (vmmu s) v of
       Inr q \<Rightarrow> vm_get_phys_mapping v s = Inr (q + (pte AND 0xc00))
     | Inl _ \<Rightarrow> vm_get_phys_mapping v s =
         (if pde AND PDE_P = 0 then Inl (PageFault (ptab_slot (vm_pdir_idx v) (vm_ptab_idx v)))
          else Inr ((pte AND NOT 0x3ff) + (v AND 0xfff)))) \<and>
    (vm_get_phys_mapping v s = translate (vmmu s) v \<longleftrightarrow>
       pde AND PDE_P \<noteq> 0 \<and> pte AND PTE_P \<noteq> 0 \<and> pte AND 0xc00 = 0)"
proof (cases "pde_of (vmmu s) (vm_pdir_idx v) AND PDE_P = 0")
  case True
  have "ptab_slot (vm_pdir_idx v) (vm_ptab_idx v) \<noteq> v"
    using ptab_slot_idx(1) [OF vm_pdir_idx_less vm_ptab_idx_less] assms(2) by metis
  then show ?thesis using True vm_get_phys_mapping_no_table [OF assms(1) True] by (simp add: translate_def)
next
  case False
  define pte where "pte = pte_of (vmmu s) (vm_pdir_idx v) (vm_ptab_idx v)"
  from False have "has_table (vmmu s) (vm_pdir_idx v)"
    using less_1023(2) [OF vm_pdir_idx_less assms(2)] by (simp add: has_table_def)
  note t = vm_get_phys_mapping_table [OF assms(1) this, folded pte_def]
  show ?thesis
  proof (cases "pte AND PTE_P = 0")
    case True
    then show ?thesis using False t by (simp add: translate_def pte_def)
  next
    case present: False
    then have q: "translate (vmmu s) v = Inr ((pte AND 0xfffff000) + (v AND 0xfff))"
      using False by (simp add: translate_def pte_def)
    have "vm_get_phys_mapping v s = Inr ((pte AND 0xfffff000) + (v AND 0xfff) + (pte AND 0xc00))"
      unfolding t not_3ff_split by (simp add: ac_simps)
    with q present False show ?thesis by (simp add: Let_def pte_def [symmetric])
  qed
qed

theorem vm_get_phys_mapping_walk_witness:
  "vm_get_phys_mapping 0x2abc demo_vms = Inr 0x5abc \<and> vm_get_phys_mapping 0x7abc demo_vms = Inr 0xabc \<and>
     translate (vmmu demo_vms) 0x7abc = Inl (PageFault 0x7abc)"
  using vm_get_phys_mapping_walk [OF demo_has_table(2), of "0x2abc"]
    vm_get_phys_mapping_walk [OF demo_has_table(2), of "0x7abc"] demo_translate_page(1) [of "0xabc"]
  by (simp add: demo_vms_def vm_pdir_idx_def vm_ptab_idx_def demo_pte translate_def demo_pde flag_defs)
text \<open>
  \<open>map_pages\<close> on a range of unmapped pages whose page tables exist succeeds and maps
  page \<open>k\<close> of the range to frame \<open>k\<close>, for every page that the size (rounded up to pages)
  covers, and every address outside these pages keeps its translation.
\<close>

theorem map_pages_correct:
  assumes "pt_ok (vmmu s)" and "low_flags f"
    and "\<And>k. k < npages_of sz \<Longrightarrow> has_table (vmmu s) (vm_pdir_idx (page_at (PALIGNDOWN va) k))"
    and "\<And>k. k < npages_of sz \<Longrightarrow>
      translate (vmmu s) (page_at (PALIGNDOWN va) k) = Inl (PageFault (page_at (PALIGNDOWN va) k))"
  shows "\<exists>s'. map_pages pa va f sz s = Inr s' \<and> pt_ok (vmmu s') \<and> vpm s' = vpm s \<and>
    (\<forall>w. vm_pdir_idx w \<noteq> 1023 \<longrightarrow>
      (\<forall>k < npages_of sz. w AND 0xfffff000 = page_at (PALIGNDOWN va) k \<longrightarrow>
         translate (vmmu s') w = Inr (page_at (PALIGNDOWN pa) k + (w AND 0xfff))) \<and>
      ((\<forall>k < npages_of sz. w AND 0xfffff000 \<noteq> page_at (PALIGNDOWN va) k) \<longrightarrow>
         translate (vmmu s') w = translate (vmmu s) w))"
  unfolding map_pages_kfor
  using map_range [where n = "npages_of sz" and va = "PALIGNDOWN va" and pa = "PALIGNDOWN pa",
      OF assms(1,2) page_aligned_PALIGNDOWN page_aligned_PALIGNDOWN npages_of_le] assms(3,4)
  by blast

theorem map_pages_correct_witness:
  "\<exists>s'. map_pages 0x9000 0x7000 0 0x1001 demo_vms = Inr s' \<and>
     translate (vmmu s') 0x7004 = Inr 0x9004 \<and> translate (vmmu s') 0x8004 = Inr 0xa004"
proof -
  have n: "npages_of 0x1001 = 2" by (simp add: npages_of_def PAGE_SIZE_def)
  have pa: "PALIGNDOWN 0x7000 = 0x7000" "PALIGNDOWN 0x9000 = 0x9000" by (simp_all add: PALIGNDOWN_eq)
  have k2: "k < npages_of 0x1001 \<longleftrightarrow> k = 0 \<or> k = 1" for k unfolding n by auto
  have "\<exists>s'. map_pages 0x9000 0x7000 0 0x1001 demo_vms = Inr s' \<and> pt_ok (vmmu s') \<and>
      vpm s' = vpm demo_vms \<and>
    (\<forall>w. vm_pdir_idx w \<noteq> 1023 \<longrightarrow>
      (\<forall>k < npages_of 0x1001. w AND 0xfffff000 = page_at (PALIGNDOWN 0x7000) k \<longrightarrow>
         translate (vmmu s') w = Inr (page_at (PALIGNDOWN 0x9000) k + (w AND 0xfff))) \<and>
      ((\<forall>k < npages_of 0x1001. w AND 0xfffff000 \<noteq> page_at (PALIGNDOWN 0x7000) k) \<longrightarrow>
         translate (vmmu s') w = translate (vmmu demo_vms) w))"
    by (rule map_pages_correct [OF demo_has_table(2)])
      (use demo_has_table(1) demo_fault in
        \<open>auto simp: k2 pa page_at_def PAGE_SIZE_def vm_pdir_idx_def low_flags_def\<close>)
  then obtain s' where s': "map_pages 0x9000 0x7000 0 0x1001 demo_vms = Inr s'"
    "\<And>w k. vm_pdir_idx w \<noteq> 1023 \<Longrightarrow> k < npages_of 0x1001 \<Longrightarrow>
       w AND 0xfffff000 = page_at (PALIGNDOWN 0x7000) k \<Longrightarrow>
       translate (vmmu s') w = Inr (page_at (PALIGNDOWN 0x9000) k + (w AND 0xfff))" by blast
  from s'(2) [of "0x7004" 0] s'(2) [of "0x8004" 1] s'(1) show ?thesis
    by (auto simp: k2 pa page_at_def PAGE_SIZE_def vm_pdir_idx_def)
qed



text \<open>
  C19. \<open>vm_copy_kernel_pdir\<close> with a free frame \<open>pd\<close> that is unmapped at its own address and is
  not part of the current page tables: it returns \<open>pd\<close>, and the new directory has exactly the
  kernel's entries of the current one (present and not accessible to user mode), its own
  self map in the last entry and nothing else, so no user page of the current address
  space is visible in the new one.  The frame \<open>pd\<close> stays mapped at its own address, and all
  other addresses keep their translation.
\<close>

theorem vm_copy_kernel_pdir_correct:
  assumes "pt_ok (vmmu s)" and "pm_alloc (vpm s) = Inr (pd, pm')" and "pd \<noteq> 0"
    and "page_aligned pd" and "pd \<notin> walk_bytes (vmmu s)"
    and "has_table (vmmu s) (vm_pdir_idx pd)"
    and "translate (vmmu s) pd = Inl (PageFault pd)"
  shows "\<exists>s'. vm_copy_kernel_pdir s = Inr (pd, s') \<and> vpm s' = pm' \<and> cr3 (vmmu s') = cr3 (vmmu s) \<and>
    (\<forall>k < 1023. load32 (mem (vmmu s')) (pd + 4 * of_nat k) =
       (if kernel_pde (pde_of (vmmu s') (of_nat k)) then pde_of (vmmu s') (of_nat k) else 0)) \<and>
    load32 (mem (vmmu s')) (pd + 4 * 1023) = pd OR PDE_P OR PDE_W \<and>
    (\<forall>w. vm_pdir_idx w \<noteq> 1023 \<longrightarrow> translate (vmmu s') w =
       (if w AND 0xfffff000 = pd then Inr w else translate (vmmu s) w))"
  using vm_copy_kernel_pdir_effect [OF assms] by blast

theorem vm_copy_kernel_pdir_correct_witness:
  "\<exists>s'. vm_copy_kernel_pdir \<lparr>vmmu = demo_mmu, vpm = pm_fresh\<lparr>pm_page_pool := 0xe0007000\<rparr>\<rparr>
      = Inr (0x7000, s') \<and> load32 (mem (vmmu s')) 0x7ffc = 0x7003"
proof -
  let ?pm = "pm_fresh\<lparr>pm_page_pool := 0xe0007000\<rparr>"
  let ?s = "\<lparr>vmmu = demo_mmu, vpm = ?pm\<rparr>"
  have u: "\<not> pm_used ?pm n" for n by (simp add: pm_used_def pm_fresh_def)
  have pg: "pm_page ?pm 0 = 0x7000" by (simp add: pm_page_def v2p_def KERN_VOFF_def)
  obtain pm' where al: "pm_alloc ?pm = Inr (0x7000, pm')"
  proof -
    have lt: "(0 :: nat) < PM_NPAGES" by (simp add: PM_NPAGES_def)
    show ?thesis by (rule pm_alloc_first [OF u lt]) (use pg that in simp_all)
  qed
  have "\<exists>s'. vm_copy_kernel_pdir ?s = Inr (0x7000, s') \<and> vpm s' = pm' \<and>
      cr3 (vmmu s') = cr3 (vmmu ?s) \<and>
    (\<forall>k < 1023. load32 (mem (vmmu s')) (0x7000 + 4 * of_nat k) =
       (if kernel_pde (pde_of (vmmu s') (of_nat k)) then pde_of (vmmu s') (of_nat k) else 0)) \<and>
    load32 (mem (vmmu s')) (0x7000 + 4 * 1023) = 0x7000 OR PDE_P OR PDE_W \<and>
    (\<forall>w. vm_pdir_idx w \<noteq> 1023 \<longrightarrow> translate (vmmu s') w =
       (if w AND 0xfffff000 = 0x7000 then Inr w else translate (vmmu ?s) w))"
    by (rule vm_copy_kernel_pdir_correct)
      (use al demo_has_table demo_fault in \<open>simp_all add: demo_vms_def demo_walk_bytes
        page_aligned_def vm_pdir_idx_def\<close>)
  then show ?thesis by (auto simp: flag_defs)
qed

end
