(* ===== verification/Kheap.thy ===== *)
theory Kheap
  imports Vmm
begin

unbundle bit_operations_syntax

text \<open>
  The kernel heap, \<^verbatim>\<open>kernel/heap.c\<close>: a singly linked list of blocks at \<open>0xe4000000\<close>, each a
  12-byte header (magic at 0, type at 2, next at 4, data size at 8) followed by its data.

  Headers are read and written byte by byte through the page walk.  The search loop of
  \<open>kalloc\<close> has fuel \<open>2 ^ 32\<close>: it changes nothing while it searches and visits one address per
  step, so a search that has not ended by then has come back to an address and never ends.

  The only requests the kernel makes are for message queue nodes of 40 bytes.  For these the
  list is abstracted to a list of flags, one per block before the last: whether the block is
  in use.  Shown: \<open>heap_init\<close> sets up the empty list, \<open>kalloc\<close> takes the first block not in
  use or splits the last one, and \<open>kfree\<close> releases a block; blocks in use never overlap.  The
  size test of \<open>kalloc\<close> is off by a header, with the consequence shown at the end.
\<close>

section \<open>Definitions\<close>

definition BLOCK_UNUSED :: u8 where "BLOCK_UNUSED = 0"
definition BLOCK_USED :: u8 where "BLOCK_USED = 0xff"
definition SIZEOF_BLOCK :: u32 where "SIZEOF_BLOCK = 12"
definition heap_pool_addr :: u32 where "heap_pool_addr = 0xe4000000"
definition CONFIG_KERNEL_HEAP_SIZE :: u32 where "CONFIG_KERNEL_HEAP_SIZE = 16384"

record heapst =
  hvms :: vms
  heap_initialized :: bool

subsection \<open>kalloc\<close>

definition kalloc_split :: "u32 \<Rightarrow> u32 \<Rightarrow> mmu \<Rightarrow> mmu res" where
  "kalloc_split block bytes m =
     (let new_block = block + SIZEOF_BLOCK + bytes in
      kbind (memcpy new_block block (unat SIZEOF_BLOCK) m) (\<lambda>m.
      kbind (vload32 m (new_block + 8)) (\<lambda>sz.
      kbind (vstore32 m (new_block + 8) (sz - (bytes + SIZEOF_BLOCK))) (\<lambda>m.
        vstore32 m (block + 4) new_block))))"

definition kalloc_fits :: "u32 \<Rightarrow> u32 \<Rightarrow> mmu \<Rightarrow> bool res" where
  "kalloc_fits block bytes m =
     kbind (vload8 m (block + 2)) (\<lambda>ty.
       if ty = BLOCK_UNUSED
       then kbind (vload32 m (block + 8)) (\<lambda>sz. Inr (bytes \<le> sz + SIZEOF_BLOCK))
       else Inr False)"

definition kalloc_take :: "u32 \<Rightarrow> u32 \<Rightarrow> mmu \<Rightarrow> (u32 \<times> mmu) res" where
  "kalloc_take block bytes m =
     kbind (vload32 m (block + 4)) (\<lambda>next.
     kbind (if next = 0 then kalloc_split block bytes m else Inr m) (\<lambda>m.
     kbind (vstore32 m (block + 8) bytes) (\<lambda>m.
     kbind (vstore8 m (block + 2) BLOCK_USED) (\<lambda>m.
       Inr (block + SIZEOF_BLOCK, m)))))"

function kalloc_from :: "nat \<Rightarrow> u32 \<Rightarrow> u32 \<Rightarrow> mmu \<Rightarrow> (u32 \<times> mmu) res" where
  "kalloc_from fuel block bytes m =
     (if block = 0 then Inr (0, m)
      else if fuel = 0 then Inl OutOfFuel
      else kbind (kalloc_fits block bytes m) (\<lambda>fits.
        if fits then kalloc_take block bytes m
        else kbind (vload32 m (block + 4)) (\<lambda>next. kalloc_from (fuel - 1) next bytes m)))"
  by pat_completeness auto
termination
  by (relation "measure fst") auto

definition kalloc :: "u32 \<Rightarrow> heapst \<Rightarrow> (u32 \<times> heapst) res" where
  "kalloc bytes s =
     (if \<not> heap_initialized s then Inr (0, s)
      else if bytes = 0 then Inr (0, s)
      else kbind (kalloc_from (2 ^ 32) heap_pool_addr bytes (vmmu (hvms s))) (\<lambda>(addr, m').
        Inr (addr, s\<lparr>hvms := (hvms s)\<lparr>vmmu := m'\<rparr>\<rparr>)))"

subsection \<open>kfree\<close>

definition kfree :: "u32 \<Rightarrow> heapst \<Rightarrow> heapst res" where
  "kfree addr s =
     (if \<not> heap_initialized s then Inr s
      else if addr = 0 then Inr s
      else kbind (vstore8 (vmmu (hvms s)) (addr - SIZEOF_BLOCK + 2) BLOCK_UNUSED) (\<lambda>m'.
        Inr (s\<lparr>hvms := (hvms s)\<lparr>vmmu := m'\<rparr>\<rparr>)))"

subsection \<open>heap\_list\_blocks\<close>

text \<open>The (type, size) pairs that \<open>heap_list_blocks\<close> prints.\<close>

function heap_list_from :: "nat \<Rightarrow> u32 \<Rightarrow> mmu \<Rightarrow> (u8 \<times> u32) list res" where
  "heap_list_from fuel block m =
     (if block = 0 then Inr []
      else if fuel = 0 then Inl OutOfFuel
      else kbind (vload8 m (block + 2)) (\<lambda>ty.
           kbind (vload32 m (block + 8)) (\<lambda>sz.
           kbind (vload32 m (block + 4)) (\<lambda>next.
           kbind (heap_list_from (fuel - 1) next m) (\<lambda>rest. Inr ((ty, sz) # rest))))))"
  by pat_completeness auto
termination
  by (relation "measure fst") auto

definition heap_list_blocks :: "heapst \<Rightarrow> (u8 \<times> u32) list res" where
  "heap_list_blocks s =
     (if \<not> heap_initialized s then Inr []
      else heap_list_from (2 ^ 32) heap_pool_addr (vmmu (hvms s)))"

subsection \<open>heap\_init\<close>

definition vstore16 :: "mmu \<Rightarrow> u32 \<Rightarrow> u16 \<Rightarrow> mmu res" where
  "vstore16 s a v =
     kbind (translate s a) (\<lambda>p0. kbind (translate s (a + 1)) (\<lambda>p1.
       Inr (s\<lparr>mem := (mem s)(p0 := ucast v, p1 := ucast (drop_bit 8 v))\<rparr>)))"

definition heap_init :: "heapst \<Rightarrow> heapst res" where
  "heap_init s =
     kbind (pm_alloc_cont (unat (CONFIG_KERNEL_HEAP_SIZE div PAGE_SIZE)) (vpm (hvms s)))
       (\<lambda>(heap_pool_phys_addr, pm').
     if heap_pool_phys_addr = 0 then Inl Halted
     else
       kbind (map_pages heap_pool_phys_addr heap_pool_addr 0 CONFIG_KERNEL_HEAP_SIZE
               ((hvms s)\<lparr>vpm := pm'\<rparr>)) (\<lambda>v.
       kbind (vstore16 (vmmu v) heap_pool_addr 0xbabe) (\<lambda>m.
       kbind (vstore8 m (heap_pool_addr + 2) BLOCK_UNUSED) (\<lambda>m.
       kbind (vstore32 m (heap_pool_addr + 8)
               (CONFIG_KERNEL_HEAP_SIZE - (SIZEOF_BLOCK - 4))) (\<lambda>m.
       kbind (vstore32 m (heap_pool_addr + 4) 0) (\<lambda>m.
         Inr (s\<lparr>hvms := v\<lparr>vmmu := m\<rparr>, heap_initialized := True\<rparr>)))))))"

section \<open>Lemmas\<close>

subsection \<open>The pool as an array of bytes\<close>

text \<open>
  \<open>heap_mapped m hp\<close>: the 16 KiB pool is mapped to the frames starting at \<open>hp\<close>, none of which
  the page walk reads.  Offsets into the pool are natural numbers.
\<close>

definition hphys :: "u32 \<Rightarrow> nat \<Rightarrow> u32" where
  "hphys hp off = hp + of_nat off"

definition haddr :: "nat \<Rightarrow> u32" where
  "haddr off = heap_pool_addr + of_nat off"

definition heap_mapped :: "mmu \<Rightarrow> u32 \<Rightarrow> bool" where
  "heap_mapped m hp \<longleftrightarrow> page_aligned hp \<and> unat hp + 16384 \<le> 4294967296 \<and>
     (\<forall>off < 16384. translate m (haddr off) = Inr (hphys hp off) \<and> hphys hp off \<notin> walk_bytes m)"

definition hbyte :: "mmu \<Rightarrow> u32 \<Rightarrow> nat \<Rightarrow> u8" where
  "hbyte m hp off = mem m (hphys hp off)"

definition hword :: "mmu \<Rightarrow> u32 \<Rightarrow> nat \<Rightarrow> u32" where
  "hword m hp off = load32 (mem m) (hphys hp off)"

text \<open>Two machines that differ in the pool only.\<close>

definition heap_upd :: "u32 \<Rightarrow> mmu \<Rightarrow> mmu \<Rightarrow> bool" where
  "heap_upd hp m m' \<longleftrightarrow> (\<exists>f. m' = m\<lparr>mem := f\<rparr> \<and> (\<forall>p. p \<notin> hphys hp ` {..<16384} \<longrightarrow> f p = mem m p))"

lemma heap_upd_refl [simp]: "heap_upd hp m m"
  unfolding heap_upd_def by (rule exI [of _ "mem m"]) simp

lemma heap_upd_trans: "heap_upd hp m m1 \<Longrightarrow> heap_upd hp m1 m2 \<Longrightarrow> heap_upd hp m m2"
  unfolding heap_upd_def by force

lemma heap_upd_frame:
  assumes "heap_mapped m hp" and "heap_upd hp m m'"
  shows "heap_mapped m' hp" and "translate m' v = translate m v" and "walk_bytes m' = walk_bytes m"
    and "cr3 m' = cr3 m"
proof -
  obtain f where f: "m' = m\<lparr>mem := f\<rparr>" "\<forall>p. p \<notin> hphys hp ` {..<16384} \<longrightarrow> f p = mem m p"
    using assms(2) unfolding heap_upd_def by blast
  have w: "f p = mem m p" if "p \<in> walk_bytes m" for p
  proof -
    have "p \<notin> hphys hp ` {..<16384}" using that assms(1) by (auto simp: heap_mapped_def)
    with f(2) show ?thesis by blast
  qed
  show tr: "translate m' v = translate m v" for v unfolding f(1) by (rule translate_frame) (rule w)
  show wb: "walk_bytes m' = walk_bytes m" unfolding f(1) by (rule translate_frame(2)) (rule w)
  show "heap_mapped m' hp" using assms(1) tr wb by (simp add: heap_mapped_def)
  show "cr3 m' = cr3 m" by (simp add: f(1))
qed

lemma unat_hphys: "heap_mapped m hp \<Longrightarrow> off < 16384 \<Longrightarrow> unat (hphys hp off) = unat hp + off"
  unfolding hphys_def heap_mapped_def
  by (subst unat_add_no_wrap) (auto simp: unat_of_nat take_bit_eq_mod)

lemma hphys_inject:
  "heap_mapped m hp \<Longrightarrow> x < 16384 \<Longrightarrow> y < 16384 \<Longrightarrow> hphys hp x = hphys hp y \<longleftrightarrow> x = y"
  by (auto simp: u32_eq_iff unat_hphys)

lemma aligned4_haddr: "4 dvd off \<Longrightarrow> aligned4 (haddr off)"
proof -
  assume "4 dvd off"
  then obtain k where "off = 4 * k" by blast
  moreover have "aligned4 heap_pool_addr" by (simp add: aligned4_def heap_pool_addr_def)
  ultimately show ?thesis by (simp add: haddr_def aligned4_add)
qed

lemma aligned4_hphys: "heap_mapped m hp \<Longrightarrow> 4 dvd off \<Longrightarrow> aligned4 (hphys hp off)"
proof -
  assume "heap_mapped m hp" "4 dvd off"
  then obtain k where "off = 4 * k" "page_aligned hp" by (auto simp: heap_mapped_def)
  then show ?thesis
    by (simp add: hphys_def aligned4_add page_aligned_aligned4)
qed

lemma hphys_add: "hphys hp off + of_nat k = hphys hp (off + k)"
  by (simp add: hphys_def)

lemma haddr_add: "haddr off + of_nat k = haddr (off + k)"
  by (simp add: haddr_def)

lemma haddr_numeral [simp]: "haddr off + numeral k = haddr (off + numeral k)"
  by (simp add: haddr_def)

lemma heap_load8: "heap_mapped m hp \<Longrightarrow> off < 16384 \<Longrightarrow> vload8 m (haddr off) = Inr (hbyte m hp off)"
  by (simp add: heap_mapped_def vload8_def hbyte_def)

lemma heap_load32:
  "heap_mapped m hp \<Longrightarrow> off < 16384 \<Longrightarrow> 4 dvd off \<Longrightarrow> vload32 m (haddr off) = Inr (hword m hp off)"
  using vload32_aligned [OF _ aligned4_haddr, of m off "hphys hp off"]
  by (simp add: heap_mapped_def hword_def)

lemma hphys_range:
  "off + 3 < 16384 \<Longrightarrow> {hphys hp off, hphys hp off + 1, hphys hp off + 2, hphys hp off + 3}
     \<subseteq> hphys hp ` {..<16384}"
  using hphys_add [of hp off 1] hphys_add [of hp off 2] hphys_add [of hp off 3] by auto

text \<open>Storing a word: the effect on the bytes and words of the pool.\<close>

lemma heap_store32:
  assumes hm: "heap_mapped m hp" and off: "off + 3 < 16384" "4 dvd off"
  obtains m' where "vstore32 m (haddr off) v = Inr m'" and "heap_upd hp m m'"
    and "\<And>x. 4 dvd x \<Longrightarrow> x < 16384 \<Longrightarrow> hword m' hp x = (if x = off then v else hword m hp x)"
    and "\<And>x. x < 16384 \<Longrightarrow> x \<notin> {off, off + 1, off + 2, off + 3} \<Longrightarrow> hbyte m' hp x = hbyte m hp x"
proof -
  let ?p = "hphys hp off"
  let ?m = "m\<lparr>mem := store32 (mem m) ?p v\<rparr>"
  have o: "off < 16384" using off(1) by simp
  have "vstore32 m (haddr off) v = Inr ?m"
    using vstore32_aligned [OF _ aligned4_haddr [OF off(2)], of m ?p v] hm o by (simp add: heap_mapped_def)
  moreover have "heap_upd hp m ?m"
    unfolding heap_upd_def using hphys_range [OF off(1), of hp]
    by (intro exI [of _ "store32 (mem m) ?p v"]) (auto intro!: store32_other)
  moreover have "hword ?m hp x = (if x = off then v else hword m hp x)"
    if "4 dvd x" "x < 16384" for x
    using load32_store32_other [OF aligned4_hphys [OF hm off(2)] aligned4_hphys [OF hm that(1)]]
      hphys_inject [OF hm o that(2)] by (auto simp: hword_def)
  moreover have "hbyte ?m hp x = hbyte m hp x"
    if "x < 16384" "x \<notin> {off, off + 1, off + 2, off + 3}" for x
  proof -
    have "hphys hp x \<noteq> hphys hp (off + k)" if k: "k \<in> {0, 1, 2, 3}" for k
      using hphys_inject [OF hm \<open>x < 16384\<close>, of "off + k"] \<open>x \<notin> _\<close> k off(1) by auto
    from this [of 0] this [of 1] this [of 2] this [of 3]
    have "hphys hp x \<notin> {?p, ?p + 1, ?p + 2, ?p + 3}"
      using hphys_add [of hp off 1] hphys_add [of hp off 2] hphys_add [of hp off 3] by auto
    then show ?thesis by (simp add: hbyte_def store32_other)
  qed
  ultimately show ?thesis by (rule that)
qed

lemma hword_bytes:
  "hword m hp x = ucast (hbyte m hp x) OR push_bit 8 (ucast (hbyte m hp (x + 1)))
     OR push_bit 16 (ucast (hbyte m hp (x + 2))) OR push_bit 24 (ucast (hbyte m hp (x + 3)))"
  using hphys_add [of hp x 1] hphys_add [of hp x 2] hphys_add [of hp x 3]
  by (simp add: hword_def load32_def hbyte_def)

lemma heap_store8:
  assumes hm: "heap_mapped m hp" and off: "off < 16384"
  obtains m' where "vstore8 m (haddr off) b = Inr m'" and "heap_upd hp m m'"
    and "\<And>x. x < 16384 \<Longrightarrow> hbyte m' hp x = (if x = off then b else hbyte m hp x)"
    and "\<And>x. x + 3 < 16384 \<Longrightarrow> off < x \<or> x + 3 < off \<Longrightarrow> hword m' hp x = hword m hp x"
proof -
  let ?m = "m\<lparr>mem := (mem m)(hphys hp off := b)\<rparr>"
  have "vstore8 m (haddr off) b = Inr ?m" using hm off by (simp add: heap_mapped_def vstore8_def)
  moreover have "heap_upd hp m ?m"
    unfolding heap_upd_def using off by (intro exI [of _ "(mem m)(hphys hp off := b)"]) auto
  moreover have b: "hbyte ?m hp x = (if x = off then b else hbyte m hp x)" if "x < 16384" for x
    using hphys_inject [OF hm that off] by (simp add: hbyte_def)
  moreover have "hword ?m hp x = hword m hp x" if "x + 3 < 16384" "off < x \<or> x + 3 < off" for x
  proof -
    have "hbyte ?m hp y = hbyte m hp y" if "x \<le> y" "y \<le> x + 3" for y
      using b [of y] that \<open>x + 3 < 16384\<close> \<open>off < x \<or> _\<close> by auto
    then show ?thesis unfolding hword_bytes by simp
  qed
  ultimately show ?thesis by (rule that)
qed

lemma hword_cong:
  "(\<And>y. x \<le> y \<Longrightarrow> y \<le> x + 3 \<Longrightarrow> hbyte m' hp y = hbyte m hp y) \<Longrightarrow> hword m' hp x = hword m hp x"
  unfolding hword_bytes by simp

lemma heap_memcpy:
  assumes hm: "heap_mapped m hp" and d: "dst + n \<le> 16384" and s: "src + n \<le> dst"
  obtains m' where "memcpy (haddr dst) (haddr src) n m = Inr m'" and "heap_upd hp m m'"
    and "\<And>x. x < 16384 \<Longrightarrow> hbyte m' hp x =
      (if dst \<le> x \<and> x < dst + n then hbyte m hp (src + (x - dst)) else hbyte m hp x)"
proof -
  let ?D = "\<lambda>i. hphys hp (dst + i)" and ?S = "\<lambda>i. hphys hp (src + i)"
  have tr: "translate m (haddr off + of_nat i) = Inr (hphys hp (off + i))"
    "hphys hp (off + i) \<notin> walk_bytes m" if "off + i < 16384" for off i
    unfolding haddr_add using hm that unfolding heap_mapped_def by blast+
  have "\<exists>f. memcpy (haddr dst) (haddr src) n m = Inr (m\<lparr>mem := f\<rparr>) \<and>
      (\<forall>i < n. f (?D i) = mem m (?S i)) \<and> (\<forall>p. p \<notin> ?D ` {..<n} \<longrightarrow> f p = mem m p)"
  proof (rule memcpy_bytes)
    fix i assume "i < n"
    then show "translate m (haddr dst + of_nat i) = Inr (?D i)" "?D i \<notin> walk_bytes m"
      "translate m (haddr src + of_nat i) = Inr (?S i)"
      using d s by (intro tr; simp)+
  next
    fix i j assume "i < n" "j < n"
    then show "?D i \<noteq> ?S j" using d s hphys_inject [OF hm, of "dst + i" "src + j"] by auto
  next
    show "inj_on ?D {..<n}" using d by (intro inj_onI) (simp add: hphys_inject [OF hm])
  qed
  then obtain f where f: "memcpy (haddr dst) (haddr src) n m = Inr (m\<lparr>mem := f\<rparr>)"
    "\<forall>i < n. f (?D i) = mem m (?S i)" "\<forall>p. p \<notin> ?D ` {..<n} \<longrightarrow> f p = mem m p" by blast
  show ?thesis
  proof (rule that [OF f(1)])
    have "?D ` {..<n} \<subseteq> hphys hp ` {..<16384}"
    proof (rule image_subsetI)
      fix i assume "i \<in> {..<n}"
      with d have "dst + i \<in> {..<16384}" by simp
      then show "?D i \<in> hphys hp ` {..<16384}" by (rule imageI)
    qed
    then have "f p = mem m p" if "p \<notin> hphys hp ` {..<16384}" for p
      using f(3) that by (meson subsetD)
    then show "heap_upd hp m (m\<lparr>mem := f\<rparr>)"
      unfolding heap_upd_def by (intro exI [of _ f] conjI refl allI impI)
    fix x :: nat assume x: "x < 16384"
    show "hbyte (m\<lparr>mem := f\<rparr>) hp x =
      (if dst \<le> x \<and> x < dst + n then hbyte m hp (src + (x - dst)) else hbyte m hp x)"
    proof (cases "dst \<le> x \<and> x < dst + n")
      case True
      then have "x - dst < n" by linarith
      with True show ?thesis using f(2) [rule_format, of "x - dst"] by (simp add: hbyte_def)
    next
      case False
      have "hphys hp x \<notin> ?D ` {..<n}"
      proof
        assume "hphys hp x \<in> ?D ` {..<n}"
        then obtain i where i: "i < n" "hphys hp x = hphys hp (dst + i)" by auto
        then have "x = dst + i" using hphys_inject [OF hm x, of "dst + i"] d by simp
        with False i(1) show False by simp
      qed
      with f(3) have "f (hphys hp x) = mem m (hphys hp x)" by blast
      then show ?thesis unfolding if_not_P [OF False] by (simp add: hbyte_def)
    qed
  qed
qed

subsection \<open>Splitting and taking a block\<close>

definition block_at :: "mmu \<Rightarrow> u32 \<Rightarrow> nat \<Rightarrow> u8 \<Rightarrow> u32 \<Rightarrow> u32 \<Rightarrow> bool" where
  "block_at m hp off ty nx sz \<longleftrightarrow>
     hbyte m hp (off + 2) = ty \<and> hword m hp (off + 4) = nx \<and> hword m hp (off + 8) = sz"

lemma block_at_cong:
  "(\<And>y. off \<le> y \<Longrightarrow> y < off + 12 \<Longrightarrow> hbyte m' hp y = hbyte m hp y) \<Longrightarrow>
   block_at m' hp off ty nx sz = block_at m hp off ty nx sz"
  unfolding block_at_def hword_bytes by simp

lemma kalloc_split_block:
  assumes hm: "heap_mapped m hp" and b: "block_at m hp off ty nx sz" and al: "4 dvd off"
    and n: "4 dvd n" "off + 12 + n + 12 \<le> 16384"
  obtains m' where "kalloc_split (haddr off) (of_nat n) m = Inr m'" and "heap_upd hp m m'"
    and "block_at m' hp off ty (haddr (off + 12 + n)) sz"
    and "block_at m' hp (off + 12 + n) ty nx (sz - of_nat (n + 12))"
    and "\<And>x. x < 16384 \<Longrightarrow> \<not> (off + 4 \<le> x \<and> x < off + 8) \<Longrightarrow>
      \<not> (off + 12 + n \<le> x \<and> x < off + 12 + n + 12) \<Longrightarrow> hbyte m' hp x = hbyte m hp x"
proof -
  let ?n = "off + 12 + n"
  have al2: "4 dvd ?n + 8" "4 dvd off + 4" "4 dvd off + 8" using al n(1) by simp_all
  obtain m1 where m1: "memcpy (haddr ?n) (haddr off) 12 m = Inr m1" "heap_upd hp m m1"
    "\<And>x. x < 16384 \<Longrightarrow> hbyte m1 hp x =
      (if ?n \<le> x \<and> x < ?n + 12 then hbyte m hp (off + (x - ?n)) else hbyte m hp x)"
    by (rule heap_memcpy [OF hm, of ?n 12 off]) (use n(2) that in auto)
  note h1 = heap_upd_frame(1) [OF hm m1(2)]
  have w1: "hword m1 hp (?n + 4) = hword m hp (off + 4)" "hword m1 hp (?n + 8) = hword m hp (off + 8)"
    unfolding hword_bytes using n(2) by (simp_all add: m1(3) add.commute)
  obtain m2 where m2: "vstore32 m1 (haddr (?n + 8)) (sz - (of_nat n + 12)) = Inr m2"
    "heap_upd hp m1 m2"
    "\<And>x. 4 dvd x \<Longrightarrow> x < 16384 \<Longrightarrow> hword m2 hp x =
      (if x = ?n + 8 then sz - (of_nat n + 12) else hword m1 hp x)"
    "\<And>x. x < 16384 \<Longrightarrow> x \<notin> {?n + 8, ?n + 8 + 1, ?n + 8 + 2, ?n + 8 + 3} \<Longrightarrow>
      hbyte m2 hp x = hbyte m1 hp x"
    by (rule heap_store32 [OF h1, of "?n + 8"]) (use n(2) al2(1) that in auto)
  note h2 = heap_upd_frame(1) [OF h1 m2(2)]
  obtain m3 where m3: "vstore32 m2 (haddr (off + 4)) (haddr ?n) = Inr m3" "heap_upd hp m2 m3"
    "\<And>x. 4 dvd x \<Longrightarrow> x < 16384 \<Longrightarrow> hword m3 hp x =
      (if x = off + 4 then haddr ?n else hword m2 hp x)"
    "\<And>x. x < 16384 \<Longrightarrow> x \<notin> {off + 4, off + 4 + 1, off + 4 + 2, off + 4 + 3} \<Longrightarrow>
      hbyte m3 hp x = hbyte m2 hp x"
    by (rule heap_store32 [OF h2, of "off + 4"]) (use n(2) al2(2) that in auto)
  have ad: "haddr off + SIZEOF_BLOCK + of_nat n = haddr ?n"
    by (simp add: SIZEOF_BLOCK_def haddr_add)
  show ?thesis
  proof (rule that)
    show "kalloc_split (haddr off) (of_nat n) m = Inr m3"
      unfolding kalloc_split_def Let_def ad
      using m1(1) m2(1) m3(1) b w1(2) heap_load32 [OF h1, of "?n + 8"] al2(1) n(2)
      by (simp add: SIZEOF_BLOCK_def block_at_def)
    show "heap_upd hp m m3" using m1(2) m2(2) m3(2) heap_upd_trans by blast
    have out: "hbyte m3 hp x = hbyte m1 hp x"
      if "x < 16384" "\<not> (off + 4 \<le> x \<and> x < off + 8)" "\<not> (?n + 8 \<le> x \<and> x < ?n + 12)" for x
      using m3(4) [of x] m2(4) [of x] that by auto
    then show "x < 16384 \<Longrightarrow> \<not> (off + 4 \<le> x \<and> x < off + 8) \<Longrightarrow> \<not> (?n \<le> x \<and> x < ?n + 12) \<Longrightarrow>
        hbyte m3 hp x = hbyte m hp x" for x using m1(3) [of x] by auto
    have "hword m3 hp (off + 8) = hword m hp (off + 8)"
    proof (rule hword_cong)
      fix y assume "off + 8 \<le> y" "y \<le> off + 8 + 3"
      then show "hbyte m3 hp y = hbyte m hp y" using out [of y] m1(3) [of y] n(2) by auto
    qed
    moreover have "hbyte m3 hp (off + 2) = hbyte m hp (off + 2)"
      using out [of "off + 2"] m1(3) [of "off + 2"] n(2) by auto
    ultimately show "block_at m3 hp off ty (haddr ?n) sz"
      using b m3(3) [OF al2(2)] n(2) by (simp add: block_at_def)
    have "hbyte m3 hp (?n + 2) = hbyte m hp (off + 2)"
      using out [of "?n + 2"] m1(3) [of "?n + 2"] n(2) by auto
    moreover have "4 dvd ?n + 4" using al n(1) by simp
    ultimately show "block_at m3 hp ?n ty nx (sz - of_nat (n + 12))"
      using b w1 m3(3) m2(3) n(2) al2(1) by (simp add: block_at_def)
  qed
qed

lemma kalloc_take_block:
  assumes hm: "heap_mapped m hp" and b: "block_at m hp off ty nx sz" and al: "4 dvd off"
    and off: "off + 12 \<le> 16384" and nx: "nx \<noteq> 0"
  obtains m' where "kalloc_take (haddr off) n m = Inr (haddr (off + 12), m')" and "heap_upd hp m m'"
    and "block_at m' hp off BLOCK_USED nx n"
    and "\<And>x. x < 16384 \<Longrightarrow> \<not> (off \<le> x \<and> x < off + 12) \<Longrightarrow> hbyte m' hp x = hbyte m hp x"
proof -
  have al2: "4 dvd off + 4" "4 dvd off + 8" using al by simp_all
  obtain m1 where m1: "vstore32 m (haddr (off + 8)) n = Inr m1" "heap_upd hp m m1"
    "\<And>x. 4 dvd x \<Longrightarrow> x < 16384 \<Longrightarrow> hword m1 hp x = (if x = off + 8 then n else hword m hp x)"
    "\<And>x. x < 16384 \<Longrightarrow> x \<notin> {off + 8, off + 8 + 1, off + 8 + 2, off + 8 + 3} \<Longrightarrow>
      hbyte m1 hp x = hbyte m hp x"
    by (rule heap_store32 [OF hm, of "off + 8"]) (use off al2(2) that in auto)
  note h1 = heap_upd_frame(1) [OF hm m1(2)]
  obtain m2 where m2: "vstore8 m1 (haddr (off + 2)) BLOCK_USED = Inr m2" "heap_upd hp m1 m2"
    "\<And>x. x < 16384 \<Longrightarrow> hbyte m2 hp x = (if x = off + 2 then BLOCK_USED else hbyte m1 hp x)"
    "\<And>x. x + 3 < 16384 \<Longrightarrow> off + 2 < x \<or> x + 3 < off + 2 \<Longrightarrow> hword m2 hp x = hword m1 hp x"
    by (rule heap_store8 [OF h1, of "off + 2"]) (use off that in auto)
  show ?thesis
  proof (rule that)
    show "kalloc_take (haddr off) n m = Inr (haddr (off + 12), m2)"
      using heap_load32 [OF hm _ al2(1)] off b nx m1(1) m2(1)
      by (simp add: kalloc_take_def block_at_def SIZEOF_BLOCK_def)
    show "heap_upd hp m m2" using m1(2) m2(2) by (rule heap_upd_trans)
    show "block_at m2 hp off BLOCK_USED nx n"
      using b off m2(3) [of "off + 2"] m2(4) [of "off + 4"] m2(4) [of "off + 8"] m1(3) [OF al2(1)]
        m1(3) [OF al2(2)] by (simp add: block_at_def)
    show "x < 16384 \<Longrightarrow> \<not> (off \<le> x \<and> x < off + 12) \<Longrightarrow> hbyte m2 hp x = hbyte m hp x" for x
      using m2(3) [of x] m1(4) [of x] by auto
  qed
qed

lemma haddr_nonzero: "off < 16384 \<Longrightarrow> haddr off \<noteq> 0"
proof -
  assume "off < 16384"
  then have "unat (haddr off) = 3825205248 + off"
    unfolding haddr_def heap_pool_addr_def
    by (subst unat_add_no_wrap) (auto simp: unat_of_nat take_bit_eq_mod)
  then show ?thesis by (auto simp: u32_eq_iff)
qed

text \<open>Taking the last block splits it first.\<close>

lemma kalloc_take_last:
  assumes hm: "heap_mapped m hp" and b: "block_at m hp off ty 0 sz" and al: "4 dvd off"
    and n: "4 dvd n" "off + 12 + n + 12 \<le> 16384"
  obtains m' where "kalloc_take (haddr off) (of_nat n) m = Inr (haddr (off + 12), m')"
    and "heap_upd hp m m'"
    and "block_at m' hp off BLOCK_USED (haddr (off + 12 + n)) (of_nat n)"
    and "block_at m' hp (off + 12 + n) ty 0 (sz - of_nat (n + 12))"
    and "\<And>x. x < 16384 \<Longrightarrow> \<not> (off \<le> x \<and> x < off + 12) \<Longrightarrow>
      \<not> (off + 12 + n \<le> x \<and> x < off + 12 + n + 12) \<Longrightarrow> hbyte m' hp x = hbyte m hp x"
proof -
  obtain m1 where m1: "kalloc_split (haddr off) (of_nat n) m = Inr m1" "heap_upd hp m m1"
    "block_at m1 hp off ty (haddr (off + 12 + n)) sz"
    "block_at m1 hp (off + 12 + n) ty 0 (sz - of_nat (n + 12))"
    "\<And>x. x < 16384 \<Longrightarrow> \<not> (off + 4 \<le> x \<and> x < off + 8) \<Longrightarrow>
      \<not> (off + 12 + n \<le> x \<and> x < off + 12 + n + 12) \<Longrightarrow> hbyte m1 hp x = hbyte m hp x"
    by (rule kalloc_split_block [OF hm b al n]) (rule that)
  note h1 = heap_upd_frame(1) [OF hm m1(2)]
  have off: "off + 12 \<le> 16384" and nz: "haddr (off + 12 + n) \<noteq> 0"
    using n(2) haddr_nonzero by simp_all
  obtain m2 where m2: "kalloc_take (haddr off) (of_nat n) m1 = Inr (haddr (off + 12), m2)"
    "heap_upd hp m1 m2" "block_at m2 hp off BLOCK_USED (haddr (off + 12 + n)) (of_nat n)"
    "\<And>x. x < 16384 \<Longrightarrow> \<not> (off \<le> x \<and> x < off + 12) \<Longrightarrow> hbyte m2 hp x = hbyte m1 hp x"
    by (rule kalloc_take_block [OF h1 m1(3) al off nz]) (rule that)
  have al4: "4 dvd off + 4" using al by simp
  have ld: "vload32 m (haddr (off + 4)) = Inr 0" "vload32 m1 (haddr (off + 4)) = Inr (haddr (off + 12 + n))"
    using heap_load32 [OF hm _ al4] heap_load32 [OF h1 _ al4] b m1(3) n(2)
    by (simp_all add: block_at_def)
  have eq: "kalloc_take (haddr off) (of_nat n) m = kalloc_take (haddr off) (of_nat n) m1"
    using m1(1) ld nz by (simp add: kalloc_take_def)
  have "block_at m2 hp (off + 12 + n) ty 0 (sz - of_nat (n + 12))"
  proof (subst block_at_cong [of _ m2 hp m1])
    show "hbyte m2 hp y = hbyte m1 hp y" if "off + 12 + n \<le> y" "y < off + 12 + n + 12" for y
      using m2(4) [of y] that n(2) by auto
  qed (rule m1(4))
  then show ?thesis
    using m2(1-3) eq heap_upd_trans [OF m1(2) m2(2)] m1(5) m2(4) by (intro that [of m2]) auto
qed

subsection \<open>Heaps of message nodes\<close>

text \<open>
  A node request takes \<open>NODE_STRIDE\<close> bytes with its header.  \<open>heap_state m hp us\<close>: the list has
  \<open>length us\<close> node blocks followed by the unused rest, and \<open>us ! k\<close> says whether node block
  \<open>k\<close> is in use.
\<close>

definition NODE_SIZE :: nat where "NODE_SIZE = 40"
definition NODE_STRIDE :: nat where "NODE_STRIDE = 52"

definition node_off :: "nat \<Rightarrow> nat" where
  "node_off k = k * 52"

definition heap_state :: "mmu \<Rightarrow> u32 \<Rightarrow> bool list \<Rightarrow> bool" where
  "heap_state m hp us \<longleftrightarrow> heap_mapped m hp \<and> node_off (length us) + 12 \<le> 16384 \<and>
     (\<forall>k < length us. block_at m hp (node_off k) (if us ! k then BLOCK_USED else BLOCK_UNUSED)
        (haddr (node_off (Suc k))) 40) \<and>
     block_at m hp (node_off (length us)) BLOCK_UNUSED 0 (of_nat (16376 - node_off (length us)))"

lemma node_off_aligned [simp]: "4 dvd node_off k"
  unfolding node_off_def by (rule dvd_mult) simp

lemma node_off_Suc: "node_off (Suc k) = node_off k + 52"
  by (simp add: node_off_def)

lemma node_off_mono: "j < k \<Longrightarrow> node_off j + 52 \<le> node_off k"
  by (simp add: node_off_def)

lemma heap_state_bound: "heap_state m hp us \<Longrightarrow> k \<le> length us \<Longrightarrow> node_off k + 12 \<le> 16384"
  unfolding heap_state_def node_off_def by linarith

lemma kalloc_fits_block:
  assumes "heap_mapped m hp" and "block_at m hp off ty nx sz" and "4 dvd off" and "off + 12 \<le> 16384"
  shows "kalloc_fits (haddr off) n m = Inr (ty = BLOCK_UNUSED \<and> n \<le> sz + SIZEOF_BLOCK)"
    and "vload32 m (haddr (off + 4)) = Inr nx"
proof -
  have al: "4 dvd off + 4" "4 dvd off + 8" using assms(3) by simp_all
  show "kalloc_fits (haddr off) n m = Inr (ty = BLOCK_UNUSED \<and> n \<le> sz + SIZEOF_BLOCK)"
    using heap_load8 [OF assms(1), of "off + 2"] heap_load32 [OF assms(1) _ al(2)] assms(2,4)
    by (simp add: kalloc_fits_def block_at_def)
  show "vload32 m (haddr (off + 4)) = Inr nx"
    using heap_load32 [OF assms(1) _ al(1)] assms(2,4) by (simp add: block_at_def)
qed

text \<open>The search skips the blocks in use.\<close>

lemma kalloc_from_skip:
  assumes hs: "heap_state m hp us" and "k \<le> i" and "i \<le> length us"
    and "\<And>j. k \<le> j \<Longrightarrow> j < i \<Longrightarrow> us ! j" and "i - k < fuel"
  shows "kalloc_from fuel (haddr (node_off k)) n m =
    kalloc_from (fuel - (i - k)) (haddr (node_off i)) n m"
  using assms(2-5)
proof (induction "i - k" arbitrary: k fuel)
  case 0
  then show ?case by simp
next
  case (Suc d)
  then have k: "k < i" "k < length us" "us ! k" by simp_all
  have bd: "node_off k + 12 \<le> 16384" by (rule heap_state_bound [OF hs]) (use k in simp)
  have b: "block_at m hp (node_off k) BLOCK_USED (haddr (node_off (Suc k))) 40"
    using hs k(2,3) by (auto simp: heap_state_def)
  have hm: "heap_mapped m hp" using hs by (simp add: heap_state_def)
  note fb = kalloc_fits_block [OF hm b node_off_aligned bd]
  have nz: "haddr (node_off k) \<noteq> 0" using bd by (intro haddr_nonzero) simp
  have "kalloc_from fuel (haddr (node_off k)) n m = kalloc_from (fuel - 1) (haddr (node_off (Suc k))) n m"
    using Suc.prems(4) nz fb by (subst kalloc_from.simps) (simp add: BLOCK_USED_def BLOCK_UNUSED_def)
  also have "\<dots> = kalloc_from (fuel - 1 - (i - Suc k)) (haddr (node_off i)) n m"
    using Suc.hyps(2) Suc.prems k(1) by (intro Suc.hyps(1)) auto
  finally show ?case using k(1) by (simp add: Suc_diff_Suc)
qed

lemma kalloc_from_take:
  assumes "heap_mapped m hp" and "block_at m hp off BLOCK_UNUSED nx sz" and "4 dvd off"
    and "off + 12 \<le> 16384" and "n \<le> sz + SIZEOF_BLOCK" and "0 < fuel"
  shows "kalloc_from fuel (haddr off) n m = kalloc_take (haddr off) n m"
  using kalloc_fits_block(1) [OF assms(1-4), of n] assms(5,6) haddr_nonzero [of off] assms(4)
  by (subst kalloc_from.simps) simp

definition first_unused :: "bool list \<Rightarrow> nat" where
  "first_unused us = length (takeWhile (\<lambda>u. u) us)"

lemma first_unused:
  "first_unused us \<le> length us" "j < first_unused us \<Longrightarrow> us ! j"
  "first_unused us < length us \<Longrightarrow> \<not> us ! first_unused us"
  unfolding first_unused_def
  using nth_length_takeWhile [of "\<lambda>u. u" us] takeWhile_nth [of j "\<lambda>u. u" us]
    set_takeWhileD nth_mem [of j "takeWhile (\<lambda>u. u) us"] length_takeWhile_le [of "\<lambda>u. u" us]
  by (auto dest!: set_takeWhileD)

text \<open>The flags after a node request.\<close>

definition take_node :: "bool list \<Rightarrow> bool list" where
  "take_node us = (if first_unused us < length us then us[first_unused us := True] else us @ [True])"

text \<open>Only block headers change: the data of every node block is left alone.\<close>

definition node_data_same :: "u32 \<Rightarrow> nat \<Rightarrow> mmu \<Rightarrow> mmu \<Rightarrow> bool" where
  "node_data_same hp n m m' \<longleftrightarrow> (\<forall>k < n. \<forall>i < 40.
     hbyte m' hp (node_off k + 12 + i) = hbyte m hp (node_off k + 12 + i))"

lemma kalloc_from_node:
  assumes hs: "heap_state m hp us"
    and room: "first_unused us < length us \<or> node_off (length us) + 64 \<le> 16384"
    and fuel: "length us < fuel"
  obtains m' where "kalloc_from fuel heap_pool_addr 40 m = Inr (haddr (node_off (first_unused us) + 12), m')"
    and "heap_upd hp m m'" and "heap_state m' hp (take_node us)"
    and "node_data_same hp (length us) m m'"
proof -
  let ?i = "first_unused us"
  note hm = hs [unfolded heap_state_def, THEN conjunct1]
  have bd: "node_off k + 12 \<le> 16384" if "k \<le> length us" for k by (rule heap_state_bound [OF hs that])
  have i: "?i \<le> length us" "?i - 0 < fuel" using first_unused(1) [of us] fuel by simp_all
  have "kalloc_from fuel heap_pool_addr 40 m = kalloc_from (fuel - ?i) (haddr (node_off ?i)) 40 m"
    using kalloc_from_skip [OF hs le0 i(1) first_unused(2) i(2), of 40] by (simp add: haddr_def node_off_def)
  note skip = this
  have fuel': "0 < fuel - ?i" using i by simp
  show ?thesis
  proof (cases "?i < length us")
    case True
    have b: "block_at m hp (node_off ?i) BLOCK_UNUSED (haddr (node_off (Suc ?i))) 40"
      using hs True first_unused(3) [OF True] by (auto simp: heap_state_def)
    have nz: "haddr (node_off (Suc ?i)) \<noteq> 0" using bd [of "Suc ?i"] True by (intro haddr_nonzero) simp
    obtain m' where m': "kalloc_take (haddr (node_off ?i)) 40 m = Inr (haddr (node_off ?i + 12), m')"
      "heap_upd hp m m'" "block_at m' hp (node_off ?i) BLOCK_USED (haddr (node_off (Suc ?i))) 40"
      "\<And>x. x < 16384 \<Longrightarrow> \<not> (node_off ?i \<le> x \<and> x < node_off ?i + 12) \<Longrightarrow> hbyte m' hp x = hbyte m hp x"
      by (rule kalloc_take_block [OF hm b node_off_aligned bd [OF i(1)] nz]) (rule that)
    have same: "block_at m' hp (node_off k) ty nx sz = block_at m hp (node_off k) ty nx sz"
      if "k \<noteq> ?i" "k \<le> length us" for k ty nx sz
      using m'(4) bd [OF that(2)] node_off_mono [of k ?i] node_off_mono [of ?i k] that(1)
      by (intro block_at_cong) force
    show ?thesis
    proof (rule that [OF _ m'(2)])
      show "kalloc_from fuel heap_pool_addr 40 m = Inr (haddr (node_off ?i + 12), m')"
        unfolding skip using kalloc_from_take [OF hm b node_off_aligned bd [OF i(1)] _ fuel', of 40] m'(1)
        by (simp add: SIZEOF_BLOCK_def)
      show "heap_state m' hp (take_node us)"
        using hs True same m'(3) heap_upd_frame(1) [OF hm m'(2)]
        by (auto simp: heap_state_def take_node_def nth_list_update)
      show "node_data_same hp (length us) m m'"
        unfolding node_data_same_def
      proof (intro allI impI)
        fix k j :: nat assume kj: "k < length us" "j < 40"
        have "node_off k + 12 + j < 16384" using bd [of "Suc k"] kj by (simp add: node_off_Suc)
        then show "hbyte m' hp (node_off k + 12 + j) = hbyte m hp (node_off k + 12 + j)"
          using m'(4) kj node_off_mono [of k ?i] node_off_mono [of ?i k]
          by (cases k ?i rule: linorder_cases) auto
      qed
    qed
  next
    case False
    with i(1) have il: "?i = length us" by simp
    let ?o = "node_off (length us)"
    have room: "?o + 12 + 40 + 12 \<le> 16384" using room False by simp
    have b: "block_at m hp ?o BLOCK_UNUSED 0 (of_nat (16376 - ?o))"
      using hs unfolding heap_state_def by blast
    have al40: "4 dvd (40 :: nat)" by simp
    obtain m' where m': "kalloc_take (haddr ?o) (of_nat 40) m = Inr (haddr (?o + 12), m')"
      "heap_upd hp m m'" "block_at m' hp ?o BLOCK_USED (haddr (?o + 12 + 40)) (of_nat 40)"
      "block_at m' hp (?o + 12 + 40) BLOCK_UNUSED 0 (of_nat (16376 - ?o) - of_nat (40 + 12))"
      "\<And>x. x < 16384 \<Longrightarrow> \<not> (?o \<le> x \<and> x < ?o + 12) \<Longrightarrow>
         \<not> (?o + 12 + 40 \<le> x \<and> x < ?o + 12 + 40 + 12) \<Longrightarrow> hbyte m' hp x = hbyte m hp x"
      by (rule kalloc_take_last [OF hm b node_off_aligned al40 room]) (rule that)
    have sz: "(of_nat (16376 - ?o) - of_nat (40 + 12) :: u32) = of_nat (16376 - node_off (Suc (length us)))"
      using room by (simp add: node_off_Suc of_nat_diff)
    have fit: "(40 :: u32) \<le> of_nat (16376 - ?o) + SIZEOF_BLOCK"
    proof -
      define r where "r = 16376 - ?o"
      have "44 \<le> r" "r \<le> 16376" using room by (simp_all add: r_def)
      then show ?thesis
        unfolding r_def [symmetric]
        by (simp add: word_le_nat_alt SIZEOF_BLOCK_def unat_word_ariths unat_of_nat take_bit_eq_mod)
    qed
    have same: "block_at m' hp (node_off k) ty nx s = block_at m hp (node_off k) ty nx s"
      if "k < length us" for k ty nx s
      using m'(5) node_off_mono [OF that] room by (intro block_at_cong) force
    show ?thesis
    proof (rule that [OF _ m'(2)])
      show "kalloc_from fuel heap_pool_addr 40 m = Inr (haddr (node_off ?i + 12), m')"
        unfolding skip il
        using kalloc_from_take [OF hm b node_off_aligned _ fit, of "fuel - length us"] m'(1) room fuel' il
        by simp
      have "node_off (Suc (length us)) + 12 \<le> 16384" using room by (simp add: node_off_Suc)
      then show "heap_state m' hp (take_node us)"
        using hs il same m'(3,4) heap_upd_frame(1) [OF hm m'(2)] sz
        by (auto simp: heap_state_def take_node_def nth_append node_off_Suc less_Suc_eq add.commute)
      show "node_data_same hp (length us) m m'"
        unfolding node_data_same_def
      proof (intro allI impI)
        fix k j :: nat assume kj: "k < length us" "j < 40"
        then show "hbyte m' hp (node_off k + 12 + j) = hbyte m hp (node_off k + 12 + j)"
          using m'(5) node_off_mono [OF kj(1)] room by auto
      qed
    qed
  qed
qed

lemma heap_free_node:
  assumes hs: "heap_state m hp us" and k: "k < length us"
  obtains m' where "vstore8 m (haddr (node_off k + 2)) BLOCK_UNUSED = Inr m'" and "heap_upd hp m m'"
    and "heap_state m' hp (us[k := False])" and "node_data_same hp (length us) m m'"
proof -
  note hm = hs [unfolded heap_state_def, THEN conjunct1]
  have bd: "node_off j + 12 \<le> 16384" if "j \<le> length us" for j by (rule heap_state_bound [OF hs that])
  obtain m' where m': "vstore8 m (haddr (node_off k + 2)) BLOCK_UNUSED = Inr m'" "heap_upd hp m m'"
    "\<And>x. x < 16384 \<Longrightarrow> hbyte m' hp x = (if x = node_off k + 2 then BLOCK_UNUSED else hbyte m hp x)"
    "\<And>x. x + 3 < 16384 \<Longrightarrow> node_off k + 2 < x \<or> x + 3 < node_off k + 2 \<Longrightarrow> hword m' hp x = hword m hp x"
    by (rule heap_store8 [OF hm, of "node_off k + 2"]) (use bd [of k] k that in auto)
  have same: "block_at m' hp (node_off j) ty nx sz = block_at m hp (node_off j) ty nx sz"
    if "j \<noteq> k" "j \<le> length us" for j ty nx sz
    using m'(3) bd [OF that(2)] node_off_mono [of k j] node_off_mono [of j k] that(1)
    by (intro block_at_cong) force
  have self: "block_at m' hp (node_off k) BLOCK_UNUSED nx sz" if "block_at m hp (node_off k) ty nx sz" for ty nx sz
    using that m'(3) [of "node_off k + 2"] m'(4) [of "node_off k + 4"] m'(4) [of "node_off k + 8"] bd [of k] k
    by (simp add: block_at_def)
  show ?thesis
  proof (rule that [OF m'(1,2)])
    show "heap_state m' hp (us[k := False])"
      unfolding heap_state_def
    proof (intro conjI allI impI)
      show "block_at m' hp (node_off j) (if us[k := False] ! j then BLOCK_USED else BLOCK_UNUSED)
          (haddr (node_off (Suc j))) 40" if "j < length (us[k := False])" for j
        using hs that same [of j] self unfolding heap_state_def by (cases "j = k") auto
    qed (use hs k same heap_upd_frame(1) [OF hm m'(2)] in \<open>auto simp: heap_state_def\<close>)
    show "node_data_same hp (length us) m m'"
      unfolding node_data_same_def
    proof (intro allI impI)
      fix j i :: nat assume ji: "j < length us" "i < 40"
      have "node_off j + 12 + i < 16384" using bd [of "Suc j"] ji by (simp add: node_off_Suc)
      then show "hbyte m' hp (node_off j + 12 + i) = hbyte m hp (node_off j + 12 + i)"
        using m'(3) ji node_off_mono [of k j] node_off_mono [of j k]
        by (cases j k rule: linorder_cases) auto
    qed
  qed
qed

subsection \<open>The nodes in use\<close>

definition node_addr :: "nat \<Rightarrow> u32" where
  "node_addr k = haddr (node_off k + 12)"

definition nodes_of :: "bool list \<Rightarrow> u32 set" where
  "nodes_of us = node_addr ` {k. k < length us \<and> us ! k}"

definition heap_rep :: "u32 \<Rightarrow> heapst \<Rightarrow> u32 set \<Rightarrow> bool" where
  "heap_rep hp s L \<longleftrightarrow> heap_initialized s \<and>
     (\<exists>us. heap_state (vmmu (hvms s)) hp us \<and> L = nodes_of us)"

definition NODES_MAX :: nat where "NODES_MAX = 314"

lemma unat_haddr: "off < 16384 \<Longrightarrow> unat (haddr off) = 3825205248 + off"
  unfolding haddr_def heap_pool_addr_def
  by (subst unat_add_no_wrap) (auto simp: unat_of_nat take_bit_eq_mod)

lemma unat_node_addr: "node_off k + 12 < 16384 \<Longrightarrow> unat (node_addr k) = 3825205260 + node_off k"
  by (simp add: node_addr_def unat_haddr)

lemma node_addr_inject:
  assumes "node_off j + 12 < 16384" and "node_off k + 12 < 16384"
  shows "node_addr j = node_addr k \<longleftrightarrow> j = k"
proof
  assume "node_addr j = node_addr k"
  then have "node_off j = node_off k" using assms by (simp add: u32_eq_iff unat_node_addr)
  then show "j = k" by (simp add: node_off_def)
qed simp

lemma heap_state_node: "heap_state m hp us \<Longrightarrow> k < length us \<Longrightarrow> node_off k + 52 + 12 \<le> 16384"
  using heap_state_bound [of m hp us "Suc k"] by (simp add: node_off_Suc)

lemma node_addr_in_heap:
  assumes "heap_state m hp us" and "j < length us" and "k < length us"
  shows "node_addr j = node_addr k \<longleftrightarrow> j = k"
  using heap_state_node [OF assms(1,2)] heap_state_node [OF assms(1,3)]
  by (intro node_addr_inject) simp_all

lemma nodes_of_member:
  assumes hs: "heap_state m hp us" and k: "k < length us"
  shows "node_addr k \<in> nodes_of us \<longleftrightarrow> us ! k"
proof
  assume "node_addr k \<in> nodes_of us"
  then obtain j where "j < length us" "us ! j" "node_addr k = node_addr j"
    by (auto simp: nodes_of_def)
  then show "us ! k" using node_addr_in_heap [OF hs k] by blast
qed (use k in \<open>auto simp: nodes_of_def\<close>)

lemma nodes_of_update:
  assumes hs: "heap_state m hp us" and k: "k < length us"
  shows "nodes_of (us[k := b]) = (if b then insert (node_addr k) (nodes_of us) else nodes_of us - {node_addr k})"
proof -
  have *: "{j. j < length (us[k := b]) \<and> us[k := b] ! j} =
      (if b then insert k {j. j < length us \<and> us ! j} else {j. j < length us \<and> us ! j} - {k})"
    using k by (auto simp: nth_list_update)
  have "node_addr ` ({j. j < length us \<and> us ! j} - {k}) = nodes_of us - {node_addr k}"
    using node_addr_in_heap [OF hs _ k] by (auto simp: nodes_of_def)
  then show ?thesis unfolding nodes_of_def * by simp
qed

lemma nodes_of_append: "nodes_of (us @ [True]) = insert (node_addr (length us)) (nodes_of us)"
proof -
  have "{j. j < length (us @ [True]) \<and> (us @ [True]) ! j} = insert (length us) {j. j < length us \<and> us ! j}"
    by (auto simp: nth_append less_Suc_eq)
  then show ?thesis by (simp add: nodes_of_def)
qed

lemma nodes_of_take:
  assumes "heap_state m hp us"
  shows "nodes_of (take_node us) = insert (node_addr (first_unused us)) (nodes_of us)"
  using nodes_of_update [OF assms, of "first_unused us" True] nodes_of_append [of us]
    first_unused(1) [of us]
  by (cases "first_unused us < length us") (auto simp: take_node_def)

lemma first_unused_fresh:
  assumes hs: "heap_state m hp us" and "first_unused us < length us \<or> node_off (length us) + 64 \<le> 16384"
  shows "node_addr (first_unused us) \<notin> nodes_of us"
proof
  assume "node_addr (first_unused us) \<in> nodes_of us"
  then obtain j where j: "j < length us" "us ! j" "node_addr (first_unused us) = node_addr j"
    by (auto simp: nodes_of_def)
  have "node_off (first_unused us) + 12 < 16384"
    using assms(2) heap_state_node [OF hs, of "first_unused us"] first_unused(1) [of us]
    by (cases "first_unused us < length us") auto
  then have "first_unused us = j" using j(3) heap_state_node [OF hs j(1)] node_addr_inject by simp
  with j show False using first_unused(3) [of us] by auto
qed

text \<open>As long as fewer than \<open>NODES_MAX\<close> nodes are in use there is room for another one.\<close>

lemma card_nodes_of:
  assumes "heap_state m hp us"
  shows "card (nodes_of us) = card {k. k < length us \<and> us ! k}"
  unfolding nodes_of_def
  by (rule card_image) (use node_addr_in_heap [OF assms] in \<open>auto simp: inj_on_def\<close>)

lemma heap_room:
  assumes hs: "heap_state m hp us" and "card (nodes_of us) < NODES_MAX"
  shows "first_unused us < length us \<or> node_off (length us) + 64 \<le> 16384"
proof (rule disjCI)
  assume full: "\<not> node_off (length us) + 64 \<le> 16384"
  show "first_unused us < length us"
  proof (rule ccontr)
    assume "\<not> first_unused us < length us"
    then have "\<And>j. j < length us \<Longrightarrow> us ! j" using first_unused(2) [of _ us] by simp
    then have "{k. k < length us \<and> us ! k} = {..<length us}" by auto
    then have "length us < 314" using assms(2) card_nodes_of [OF hs] by (simp add: NODES_MAX_def)
    with full show False by (simp add: node_off_def)
  qed
qed

lemma heap_state_length: "heap_state m hp us \<Longrightarrow> length us \<le> 314"
  by (simp add: heap_state_def node_off_def)

subsection \<open>The initial heap\<close>

lemma haddr_page:
  assumes "off < 16384"
  shows "haddr off AND 0xfffff000 = page_at heap_pool_addr (off div 4096)"
    and "haddr off AND 0xfff = of_nat (off mod 4096)" and "vm_pdir_idx (haddr off) = 0x390"
proof -
  have lt: "unat (of_nat (off mod 4096) :: u32) = off mod 4096"
    by (simp add: unat_of_nat take_bit_eq_mod)
  then have lt': "(of_nat (off mod 4096) :: u32) < 0x1000" by (simp add: word_less_nat_alt)
  have pa: "page_aligned (page_at heap_pool_addr (off div 4096))"
    by (rule page_aligned_page_at) (simp add: page_aligned_def heap_pool_addr_def)
  have "of_nat off = (of_nat (off div 4096 * 4096 + off mod 4096) :: u32)" by simp
  then have eq: "haddr off = page_at heap_pool_addr (off div 4096) + of_nat (off mod 4096)"
    unfolding haddr_def page_at_def PAGE_SIZE_def by (simp only: of_nat_add of_nat_mult of_nat_numeral add.assoc)
  show "haddr off AND 0xfffff000 = page_at heap_pool_addr (off div 4096)"
    "haddr off AND 0xfff = of_nat (off mod 4096)"
    unfolding eq using page_add_offset(2,3) [OF pa lt'] by simp_all
  show "vm_pdir_idx (haddr off) = 0x390"
    using assms by (simp add: u32_eq_iff unat_vm_pdir_idx unat_haddr)
qed

lemma pool_mapped:
  assumes "page_aligned hp" and "unat hp + 16384 \<le> 4294967296"
    and "\<And>off. off < 16384 \<Longrightarrow> hphys hp off \<notin> walk_bytes m"
    and "\<And>w k. vm_pdir_idx w \<noteq> 1023 \<Longrightarrow> k < 4 \<Longrightarrow> w AND 0xfffff000 = page_at heap_pool_addr k \<Longrightarrow>
       translate m w = Inr (page_at hp k + (w AND 0xfff))"
  shows "heap_mapped m hp"
  unfolding heap_mapped_def
proof (intro conjI allI impI assms(1-3))
  fix off :: nat assume off: "off < 16384"
  have "of_nat off = (of_nat (off div 4096 * 4096 + off mod 4096) :: u32)" by simp
  then have eq: "hphys hp off = page_at hp (off div 4096) + of_nat (off mod 4096)"
    unfolding hphys_def page_at_def PAGE_SIZE_def by (simp only: of_nat_add of_nat_mult of_nat_numeral add.assoc)
  show "translate m (haddr off) = Inr (hphys hp off)"
    using assms(4) [of "haddr off" "off div 4096"] haddr_page [OF off] off eq by simp
qed

lemma first_block:
  assumes hm: "heap_mapped m hp"
  obtains m1 m2 m3 m4 where "vstore16 m heap_pool_addr 0xbabe = Inr m1"
    and "vstore8 m1 (heap_pool_addr + 2) BLOCK_UNUSED = Inr m2"
    and "vstore32 m2 (heap_pool_addr + 8) 16376 = Inr m3"
    and "vstore32 m3 (heap_pool_addr + 4) 0 = Inr m4"
    and "heap_upd hp m m4" and "heap_state m4 hp []"
proof -
  have ad: "heap_pool_addr = haddr 0" "haddr 0 + 1 = haddr 1" by (simp_all add: haddr_def)
  have tr: "translate m (haddr 0) = Inr (hphys hp 0)" "translate m (haddr 1) = Inr (hphys hp 1)"
    using hm by (simp_all add: heap_mapped_def)
  let ?f = "(mem m)(hphys hp 0 := 0xbe, hphys hp 1 := 0xba)"
  have lo: "(0xbabe :: u8) = 0xbe" by simp
  have m1: "vstore16 m heap_pool_addr 0xbabe = Inr (m\<lparr>mem := ?f\<rparr>)"
    unfolding ad using tr by (simp add: vstore16_def ad) (simp only: lo)
  have u1: "heap_upd hp m (m\<lparr>mem := ?f\<rparr>)"
    unfolding heap_upd_def by (rule exI [of _ ?f]) (auto simp: image_iff)
  note h1 = heap_upd_frame(1) [OF hm u1]
  obtain m2 where m2: "vstore8 (m\<lparr>mem := ?f\<rparr>) (haddr 2) BLOCK_UNUSED = Inr m2"
    "heap_upd hp (m\<lparr>mem := ?f\<rparr>) m2" "hbyte m2 hp 2 = BLOCK_UNUSED"
    by (rule heap_store8 [OF h1, of 2 BLOCK_UNUSED]) (use that in auto)
  note h2 = heap_upd_frame(1) [OF h1 m2(2)]
  obtain m3 where m3: "vstore32 m2 (haddr 8) 16376 = Inr m3" "heap_upd hp m2 m3"
    "hword m3 hp 8 = 16376" "hbyte m3 hp 2 = BLOCK_UNUSED"
    by (rule heap_store32 [OF h2, of 8 16376]) (use that m2(3) in auto)
  note h3 = heap_upd_frame(1) [OF h2 m3(2)]
  obtain m4 where m4: "vstore32 m3 (haddr 4) 0 = Inr m4" "heap_upd hp m3 m4"
    "hword m4 hp 4 = 0" "hword m4 hp 8 = 16376" "hbyte m4 hp 2 = BLOCK_UNUSED"
    by (rule heap_store32 [OF h3, of 4 0]) (use that m3(3,4) in auto)
  have ad2: "heap_pool_addr + 2 = haddr 2" "heap_pool_addr + 8 = haddr 8" "heap_pool_addr + 4 = haddr 4"
    by (simp_all add: haddr_def)
  have "heap_state m4 hp []"
    using heap_upd_frame(1) [OF h3 m4(2)] m4(3-5)
    by (simp add: heap_state_def node_off_def block_at_def numeral_2_eq_2)
  moreover have "heap_upd hp m m4" using u1 m2(2) m3(2) m4(2) heap_upd_trans by blast
  ultimately show ?thesis using m1 m2(1) m3(1) m4(1) ad2 by (intro that) simp_all
qed

section \<open>The interface clients use\<close>

text \<open>
  What the system calls rely on: a source of nodes.  \<open>rep s L\<close> says that \<open>L\<close> are the nodes
  handed out.
\<close>

locale node_source =
  fixes alloc :: "'s \<Rightarrow> (u32 \<times> 's) res"
    and release :: "u32 \<Rightarrow> 's \<Rightarrow> 's res"
    and rep :: "'s \<Rightarrow> u32 set \<Rightarrow> bool"
    and capacity :: nat
  assumes alloc_node: "rep s L \<Longrightarrow> card L < capacity \<Longrightarrow>
      \<exists>a s'. alloc s = Inr (a, s') \<and> a \<noteq> 0 \<and> a \<notin> L \<and> rep s' (insert a L)"
    and release_node: "rep s L \<Longrightarrow> a \<in> L \<Longrightarrow> \<exists>s'. release a s = Inr s' \<and> rep s' (L - {a})"
    and rep_finite: "rep s L \<Longrightarrow> finite L"
begin

text \<open>Taking a node and giving it back leaves the same nodes in use.\<close>

lemma alloc_release:
  assumes "rep s L" and "card L < capacity"
  shows "\<exists>a s1 s2. alloc s = Inr (a, s1) \<and> release a s1 = Inr s2 \<and> rep s2 L"
proof -
  obtain a s1 where a: "alloc s = Inr (a, s1)" "a \<notin> L" "rep s1 (insert a L)"
    using alloc_node [OF assms] by blast
  obtain s2 where "release a s1 = Inr s2" "rep s2 (insert a L - {a})"
    using release_node [OF a(3)] by blast
  with a show ?thesis by auto
qed

lemma alloc_many_nodes:
  assumes "rep s L" and "card L + k \<le> capacity"
  shows "\<exists>ps s'. alloc_many alloc k s = Inr (ps, s') \<and> length ps = k \<and> distinct ps \<and>
    set ps \<inter> L = {} \<and> rep s' (L \<union> set ps)"
  using assms
proof (induction k arbitrary: s L)
  case 0
  then show ?case by simp
next
  case (Suc k)
  then obtain a s1 where a: "alloc s = Inr (a, s1)" "a \<notin> L" "rep s1 (insert a L)"
    using alloc_node [of s L] by auto
  have "card (insert a L) + k \<le> capacity" using Suc.prems a(2) rep_finite by simp
  from Suc.IH [OF a(3) this] obtain ps s' where ps: "alloc_many alloc k s1 = Inr (ps, s')"
    "length ps = k" "distinct ps" "set ps \<inter> insert a L = {}" "rep s' (insert a L \<union> set ps)" by blast
  show ?case
    by (rule exI [of _ "a # ps"], rule exI [of _ s']) (use a ps in auto)
qed

end

lemma kalloc_node:
  assumes "heap_rep hp s L" and "card L < NODES_MAX"
  obtains k m' where "kalloc 40 s = Inr (node_addr k, s\<lparr>hvms := (hvms s)\<lparr>vmmu := m'\<rparr>\<rparr>)"
    and "node_off k + 64 \<le> 16384" and "node_addr k \<notin> L"
    and "heap_rep hp (s\<lparr>hvms := (hvms s)\<lparr>vmmu := m'\<rparr>\<rparr>) (insert (node_addr k) L)"
    and "heap_upd hp (vmmu (hvms s)) m'"
    and "\<And>j i. node_addr j \<in> L \<Longrightarrow> node_off j + 64 \<le> 16384 \<Longrightarrow> i < 40 \<Longrightarrow>
      hbyte m' hp (node_off j + 12 + i) = hbyte (vmmu (hvms s)) hp (node_off j + 12 + i)"
proof -
  let ?m = "vmmu (hvms s)"
  obtain us where us: "heap_initialized s" "heap_state ?m hp us" "L = nodes_of us"
    using assms(1) by (auto simp: heap_rep_def)
  have room: "first_unused us < length us \<or> node_off (length us) + 64 \<le> 16384"
    using heap_room [OF us(2)] assms(2) us(3) by simp
  have fuel: "length us < 2 ^ 32" using heap_state_length [OF us(2)] by simp
  obtain m' where m': "kalloc_from (2 ^ 32) heap_pool_addr 40 ?m = Inr (haddr (node_off (first_unused us) + 12), m')"
    "heap_upd hp ?m m'" "heap_state m' hp (take_node us)" "node_data_same hp (length us) ?m m'"
    by (rule kalloc_from_node [OF us(2) room fuel]) (rule that)
  have k: "node_off (first_unused us) + 64 \<le> 16384"
    using room heap_state_node [OF us(2), of "first_unused us"] first_unused(1) [of us]
    by (cases "first_unused us < length us") auto
  have data: "hbyte m' hp (node_off j + 12 + i) = hbyte ?m hp (node_off j + 12 + i)"
    if "node_addr j \<in> L" "node_off j + 64 \<le> 16384" "i < 40" for j i
  proof -
    from that(1) us(3) have "node_addr j \<in> nodes_of us" by simp
    then obtain j' where "j' < length us" "node_addr j = node_addr j'"
      by (auto simp: nodes_of_def)
    moreover from this have "j = j'"
      using node_addr_inject [of j j'] that(2) heap_state_node [OF us(2), of j'] by simp
    ultimately show ?thesis using m'(4) that(3) by (simp add: node_data_same_def)
  qed
  show ?thesis
  proof (rule that [OF _ k _ _ m'(2) data])
    show "kalloc 40 s = Inr (node_addr (first_unused us), s\<lparr>hvms := (hvms s)\<lparr>vmmu := m'\<rparr>\<rparr>)"
      unfolding kalloc_def m'(1) using us(1) by (simp add: node_addr_def)
    show "node_addr (first_unused us) \<notin> L" using first_unused_fresh [OF us(2) room] us(3) by simp
    show "heap_rep hp (s\<lparr>hvms := (hvms s)\<lparr>vmmu := m'\<rparr>\<rparr>) (insert (node_addr (first_unused us)) L)"
      using m'(3) us nodes_of_take [OF us(2)] by (auto simp: heap_rep_def)
  qed
qed

lemma kfree_node:
  assumes "heap_rep hp s L" and "a \<in> L"
  obtains m' where "kfree a s = Inr (s\<lparr>hvms := (hvms s)\<lparr>vmmu := m'\<rparr>\<rparr>)"
    and "heap_rep hp (s\<lparr>hvms := (hvms s)\<lparr>vmmu := m'\<rparr>\<rparr>) (L - {a})"
    and "heap_upd hp (vmmu (hvms s)) m'"
    and "\<And>j i. node_addr j \<in> L \<Longrightarrow> node_off j + 64 \<le> 16384 \<Longrightarrow> i < 40 \<Longrightarrow>
      hbyte m' hp (node_off j + 12 + i) = hbyte (vmmu (hvms s)) hp (node_off j + 12 + i)"
proof -
  let ?m = "vmmu (hvms s)"
  obtain us where us: "heap_initialized s" "heap_state ?m hp us" "L = nodes_of us"
    using assms(1) by (auto simp: heap_rep_def)
  obtain k where k: "k < length us" "a = node_addr k" using assms(2) us(3) by (auto simp: nodes_of_def)
  obtain m' where m': "vstore8 ?m (haddr (node_off k + 2)) BLOCK_UNUSED = Inr m'" "heap_upd hp ?m m'"
    "heap_state m' hp (us[k := False])" "node_data_same hp (length us) ?m m'"
    by (rule heap_free_node [OF us(2) k(1)]) (rule that)
  have nz: "a \<noteq> 0" unfolding k(2) node_addr_def
    using heap_state_node [OF us(2) k(1)] by (intro haddr_nonzero) simp
  have ad: "a - SIZEOF_BLOCK + 2 = haddr (node_off k + 2)"
    by (simp add: k(2) node_addr_def haddr_def SIZEOF_BLOCK_def)
  have data: "hbyte m' hp (node_off j + 12 + i) = hbyte ?m hp (node_off j + 12 + i)"
    if "node_addr j \<in> L" "node_off j + 64 \<le> 16384" "i < 40" for j i
  proof -
    from that(1) us(3) have "node_addr j \<in> nodes_of us" by simp
    then obtain j' where "j' < length us" "node_addr j = node_addr j'"
      by (auto simp: nodes_of_def)
    moreover from this have "j = j'"
      using node_addr_inject [of j j'] that(2) heap_state_node [OF us(2), of j'] by simp
    ultimately show ?thesis using m'(4) that(3) by (simp add: node_data_same_def)
  qed
  show ?thesis
  proof (rule that [OF _ _ m'(2) data])
    show "kfree a s = Inr (s\<lparr>hvms := (hvms s)\<lparr>vmmu := m'\<rparr>\<rparr>)"
      unfolding kfree_def ad m'(1) using us(1) nz by simp
    show "heap_rep hp (s\<lparr>hvms := (hvms s)\<lparr>vmmu := m'\<rparr>\<rparr>) (L - {a})"
      using m'(3) us nodes_of_update [OF us(2) k(1), of False] k(2) by (auto simp: heap_rep_def)
  qed
qed

lemma nodes_apart:
  assumes "node_off j + 64 \<le> 16384" and "node_off k + 64 \<le> 16384" and "j \<noteq> k"
  shows "unat (node_addr j) + 40 \<le> unat (node_addr k) \<or> unat (node_addr k) + 40 \<le> unat (node_addr j)"
  using assms node_off_mono [of j k] node_off_mono [of k j]
  by (cases j k rule: linorder_cases) (simp_all add: unat_node_addr)

lemma heap_rep_node:
  assumes "heap_rep hp s L" and "b \<in> L"
  obtains j where "b = node_addr j" and "node_off j + 64 \<le> 16384"
proof -
  obtain us where us: "heap_state (vmmu (hvms s)) hp us" "L = nodes_of us"
    using assms(1) by (auto simp: heap_rep_def)
  then obtain j where "j < length us" "b = node_addr j" using assms(2) by (auto simp: nodes_of_def)
  then show ?thesis using heap_state_node [OF us(1)] by (intro that [of j]) auto
qed

interpretation khn: node_source "kalloc 40" kfree "heap_rep hp" NODES_MAX
proof unfold_locales
  fix s L assume "heap_rep hp s L" "card L < NODES_MAX"
  then obtain k m' where "kalloc 40 s = Inr (node_addr k, s\<lparr>hvms := (hvms s)\<lparr>vmmu := m'\<rparr>\<rparr>)"
    "node_off k + 64 \<le> 16384" "node_addr k \<notin> L"
    "heap_rep hp (s\<lparr>hvms := (hvms s)\<lparr>vmmu := m'\<rparr>\<rparr>) (insert (node_addr k) L)"
    by (rule kalloc_node)
  moreover from this(2) have "node_addr k \<noteq> 0"
    unfolding node_addr_def by (intro haddr_nonzero) simp
  ultimately show "\<exists>a s'. kalloc 40 s = Inr (a, s') \<and> a \<noteq> 0 \<and> a \<notin> L \<and> heap_rep hp s' (insert a L)"
    by blast
next
  fix s L a assume "heap_rep hp s L" "a \<in> L"
  then obtain m' where "kfree a s = Inr (s\<lparr>hvms := (hvms s)\<lparr>vmmu := m'\<rparr>\<rparr>)"
    "heap_rep hp (s\<lparr>hvms := (hvms s)\<lparr>vmmu := m'\<rparr>\<rparr>) (L - {a})"
    by (rule kfree_node)
  then show "\<exists>s'. kfree a s = Inr s' \<and> heap_rep hp s' (L - {a})" by blast
next
  fix s L assume "heap_rep hp s L"
  then show "finite L" by (auto simp: heap_rep_def nodes_of_def)
qed

subsection \<open>heap\_init\<close>

lemma heap_init_rep:
  assumes ok: "pt_ok (vmmu (hvms s))" "has_table (vmmu (hvms s)) 0x390"
    and abs: "\<And>off. off < 16384 \<Longrightarrow> translate (vmmu (hvms s)) (haddr off) = Inl (PageFault (haddr off))"
    and pm: "pm_alloc_cont 4 (vpm (hvms s)) = Inr (hp, pm')" "hp \<noteq> 0" "page_aligned hp"
    and hp: "unat hp + 16384 \<le> 4294967296"
      "\<And>off. off < 16384 \<Longrightarrow> hphys hp off \<notin> walk_bytes (vmmu (hvms s))"
  shows "\<exists>s'. heap_init s = Inr s' \<and> heap_rep hp s' {} \<and> vpm (hvms s') = pm' \<and>
    (\<forall>w. vm_pdir_idx w \<noteq> 1023 \<longrightarrow> (\<forall>off < 16384. w \<noteq> haddr off) \<longrightarrow>
       translate (vmmu (hvms s')) w = translate (vmmu (hvms s)) w)"
proof -
  let ?v = "(hvms s)\<lparr>vpm := pm'\<rparr>"
  have n4: "npages_of CONFIG_KERNEL_HEAP_SIZE = 4"
    by (simp add: npages_of_def CONFIG_KERNEL_HEAP_SIZE_def PAGE_SIZE_def)
  have pa: "PALIGNDOWN heap_pool_addr = heap_pool_addr" "page_aligned heap_pool_addr"
    by (simp_all add: PALIGNDOWN_eq heap_pool_addr_def page_aligned_def)
  have ph: "page_at heap_pool_addr k = haddr (k * 4096)" for k
    by (simp add: page_at_def haddr_def PAGE_SIZE_def)
  have "\<exists>v. kfor 4 (\<lambda>i. map_page (page_at hp i) (page_at heap_pool_addr i) 0) ?v = Inr v \<and>
      pt_ok (vmmu v) \<and> vpm v = vpm ?v \<and> walk_bytes (vmmu v) = walk_bytes (vmmu ?v) \<and>
      (\<forall>w. vm_pdir_idx w \<noteq> 1023 \<longrightarrow>
        (\<forall>k < 4. w AND 0xfffff000 = page_at heap_pool_addr k \<longrightarrow>
           translate (vmmu v) w = Inr (page_at hp k + (w AND 0xfff))) \<and>
        ((\<forall>k < 4. w AND 0xfffff000 \<noteq> page_at heap_pool_addr k) \<longrightarrow>
           translate (vmmu v) w = translate (vmmu ?v) w))"
    by (rule map_range) (use ok abs pm(3) pa(2) in \<open>simp_all add: low_flags_def ph haddr_page(3)\<close>)
  then obtain v where v: "kfor 4 (\<lambda>i. map_page (page_at hp i) (page_at heap_pool_addr i) 0) ?v = Inr v"
    "vpm v = pm'" "walk_bytes (vmmu v) = walk_bytes (vmmu (hvms s))"
    "\<And>w k. vm_pdir_idx w \<noteq> 1023 \<Longrightarrow> k < 4 \<Longrightarrow> w AND 0xfffff000 = page_at heap_pool_addr k \<Longrightarrow>
       translate (vmmu v) w = Inr (page_at hp k + (w AND 0xfff))"
    "\<And>w. vm_pdir_idx w \<noteq> 1023 \<Longrightarrow> \<forall>k < 4. w AND 0xfffff000 \<noteq> page_at heap_pool_addr k \<Longrightarrow>
       translate (vmmu v) w = translate (vmmu (hvms s)) w" by auto
  have mp: "map_pages hp heap_pool_addr 0 CONFIG_KERNEL_HEAP_SIZE ?v = Inr v"
    unfolding map_pages_kfor n4 pa(1) PALIGNDOWN_aligned [OF pm(3)] by (rule v(1))
  have hm: "heap_mapped (vmmu v) hp" using pool_mapped [OF pm(3) hp(1)] hp(2) v(3,4) by simp
  obtain m1 m2 m3 m4 where m: "vstore16 (vmmu v) heap_pool_addr 0xbabe = Inr m1"
    "vstore8 m1 (heap_pool_addr + 2) BLOCK_UNUSED = Inr m2"
    "vstore32 m2 (heap_pool_addr + 8) 16376 = Inr m3" "vstore32 m3 (heap_pool_addr + 4) 0 = Inr m4"
    "heap_upd hp (vmmu v) m4" "heap_state m4 hp []"
    by (rule first_block [OF hm]) (rule that)
  let ?s = "s\<lparr>hvms := v\<lparr>vmmu := m4\<rparr>, heap_initialized := True\<rparr>"
  have "heap_init s = Inr ?s"
    using pm(1,2) mp m(1-4)
    by (simp add: heap_init_def CONFIG_KERNEL_HEAP_SIZE_def PAGE_SIZE_def SIZEOF_BLOCK_def)
  moreover have "heap_rep hp ?s {}" using m(6) by (auto simp: heap_rep_def nodes_of_def)
  moreover have "translate m4 w = translate (vmmu (hvms s)) w"
    if "vm_pdir_idx w \<noteq> 1023" "\<forall>off < 16384. w \<noteq> haddr off" for w
  proof -
    have "w AND 0xfffff000 \<noteq> page_at heap_pool_addr k" if "k < 4" for k
    proof
      assume "w AND 0xfffff000 = page_at heap_pool_addr k"
      then have "w = haddr (k * 4096 + unat (w AND 0xfff))"
        using page_offset_sum [of w] haddr_add [of "k * 4096" "unat (w AND 0xfff)"] by (simp add: ph)
      moreover have "k * 4096 + unat (w AND 0xfff) < 16384" using \<open>k < 4\<close> by (simp add: unat_and_fff)
      ultimately show False using \<open>\<forall>off < 16384. w \<noteq> haddr off\<close> by blast
    qed
    then show ?thesis using v(5) [OF that(1)] heap_upd_frame(2) [OF hm m(5)] by simp
  qed
  ultimately show ?thesis using v(2) by (intro exI [of _ ?s]) simp
qed

subsection \<open>A heap for the witnesses\<close>

text \<open>
  Page directory at frame 0 with its self map, an empty page table for the pool at frame
  \<open>0x2000\<close>, and a physical memory pool at \<open>0x10000\<close>.
\<close>

definition demo_heap :: heapst where
  "demo_heap = \<lparr>hvms = \<lparr>vmmu = \<lparr>mem = store32 (store32 (\<lambda>_. 0) (0 + 4 * 0x390) 0x2003) (0 + 4 * 1023) 3,
      cr3 = 0\<rparr>, vpm = pm_fresh\<lparr>pm_page_pool := 0xe0010000\<rparr>\<rparr>, heap_initialized = False\<rparr>"

lemma demo_heap_load:
  assumes "page_aligned q" and "j < 1024"
  shows "load32 (mem (vmmu (hvms demo_heap))) (q + 4 * j) =
    (if 0 = q \<and> 1023 = j then 3 else if 0 = q \<and> 0x390 = j then 0x2003 else 0)"
proof -
  have z: "load32 (\<lambda>_. 0) a = 0" for a by (simp add: load32_def)
  have al: "page_aligned 0" by (simp add: page_aligned_def)
  have b: "(1023 :: u32) < 1024" "(0x390 :: u32) < 1024" by simp_all
  note e = load32_store_entry [OF al assms(1) b(1) assms(2)] load32_store_entry [OF al assms(1) b(2) assms(2)]
  show ?thesis unfolding demo_heap_def heapst.select_convs vms.select_convs mmu.select_convs e z by (rule refl)
qed

lemma demo_heap_pde:
  "i < 1024 \<Longrightarrow> pde_of (vmmu (hvms demo_heap)) i = (if i = 1023 then 3 else if i = 0x390 then 0x2003 else 0)"
  "pd_base (vmmu (hvms demo_heap)) = 0"
proof -
  show b: "pd_base (vmmu (hvms demo_heap)) = 0" by (simp add: pd_base_def demo_heap_def)
  show "i < 1024 \<Longrightarrow> pde_of (vmmu (hvms demo_heap)) i = (if i = 1023 then 3 else if i = 0x390 then 0x2003 else 0)"
    using demo_heap_load [of 0 i] by (simp add: pde_of_def b page_aligned_def)
qed

lemma demo_heap_ok: "pt_ok (vmmu (hvms demo_heap))" "has_table (vmmu (hvms demo_heap)) 0x390"
  unfolding pt_ok_def selfmap_def
  by (auto simp: has_table_def table_of_def demo_heap_pde flag_defs less_1023 split: if_splits)

lemma demo_heap_walk:
  "p \<in> walk_bytes (vmmu (hvms demo_heap)) \<longleftrightarrow> p AND 0xfffff000 = 0 \<or> p AND 0xfffff000 = 0x2000"
  unfolding walk_bytes_def
  by (auto simp: table_of_def demo_heap_pde flag_defs split: if_splits intro: exI [of _ "0x390"])

lemma demo_heap_absent:
  assumes "off < 16384"
  shows "translate (vmmu (hvms demo_heap)) (haddr off) = Inl (PageFault (haddr off))"
proof -
  have "pte_of (vmmu (hvms demo_heap)) 0x390 (vm_ptab_idx (haddr off)) = 0"
    using demo_heap_load [of "0x2000" "vm_ptab_idx (haddr off)"] vm_ptab_idx_less
    by (simp add: pte_of_def demo_heap_pde page_aligned_def)
  then show ?thesis using haddr_page(3) [OF assms] by (simp add: translate_def)
qed

lemma demo_heap_frames:
  obtains pm' where "pm_alloc_cont 4 (vpm (hvms demo_heap)) = Inr (0x10000, pm')"
proof -
  have scan: "pm_cont_scan 0 28 (mask 4) 0 = Some (mask 4, 0)"
    by (subst pm_cont_scan.simps) simp
  have "\<exists>pm'. pm_alloc_cont_from 0 4 (vpm (hvms demo_heap)) = Inr (0x10000, pm')"
    by (subst pm_alloc_cont_from.simps)
      (simp add: scan demo_heap_def pm_fresh_def PM_BITMAP_NMEMB_def pm_page_addr_def v2p_def KERN_VOFF_def)
  then show ?thesis using that by (auto simp: pm_alloc_cont_def)
qed

lemma demo_heap_hyps:
  "unat (0x10000 :: u32) + 16384 \<le> 4294967296" "page_aligned 0x10000"
  "off < 16384 \<Longrightarrow> hphys 0x10000 off \<notin> walk_bytes (vmmu (hvms demo_heap))"
proof -
  show "off < 16384 \<Longrightarrow> hphys 0x10000 off \<notin> walk_bytes (vmmu (hvms demo_heap))"
  proof -
    assume off: "off < 16384"
    then have "unat (hphys 0x10000 off) = 65536 + off"
      unfolding hphys_def by (subst unat_add_no_wrap) (auto simp: unat_of_nat take_bit_eq_mod)
    then show ?thesis unfolding demo_heap_walk by (auto simp: u32_eq_iff unat_page)
  qed
qed (simp_all add: page_aligned_def)

lemma demo_heap_init: "\<exists>s. heap_init demo_heap = Inr s \<and> heap_rep 0x10000 s {}"
proof -
  obtain pm' where pm: "pm_alloc_cont 4 (vpm (hvms demo_heap)) = Inr (0x10000, pm')"
    by (rule demo_heap_frames)
  have nz: "(0x10000 :: u32) \<noteq> 0" by simp
  show ?thesis
    using heap_init_rep [OF demo_heap_ok demo_heap_absent pm nz demo_heap_hyps(2,1,3)] by blast
qed

section \<open>Properties\<close>

text \<open>
  C20. A request for a queue node (40 bytes) succeeds while fewer than 314 nodes are in use.
  The node returned lies in the pool, overlaps no node in use, is the only one added to
  the nodes in use, and neither the contents of these nodes nor any memory outside the
  pool nor any translation changes.
\<close>

theorem kalloc_node_correct:
  assumes "heap_rep hp s L" and "card L < NODES_MAX"
  shows "\<exists>a s'. kalloc 40 s = Inr (a, s') \<and> heap_rep hp s' (insert a L) \<and> a \<notin> L \<and>
    unat heap_pool_addr \<le> unat a \<and> unat a + 40 \<le> unat heap_pool_addr + 16384 \<and>
    (\<forall>b \<in> L. unat a + 40 \<le> unat b \<or> unat b + 40 \<le> unat a) \<and>
    (\<forall>b \<in> L. \<forall>i < 40. vload8 (vmmu (hvms s')) (b + of_nat i) = vload8 (vmmu (hvms s)) (b + of_nat i)) \<and>
    heap_upd hp (vmmu (hvms s)) (vmmu (hvms s')) \<and>
    (\<forall>v. translate (vmmu (hvms s')) v = translate (vmmu (hvms s)) v) \<and> vpm (hvms s') = vpm (hvms s)"
proof -
  let ?m = "vmmu (hvms s)"
  obtain k m' where k: "kalloc 40 s = Inr (node_addr k, s\<lparr>hvms := (hvms s)\<lparr>vmmu := m'\<rparr>\<rparr>)"
    "node_off k + 64 \<le> 16384" "node_addr k \<notin> L"
    "heap_rep hp (s\<lparr>hvms := (hvms s)\<lparr>vmmu := m'\<rparr>\<rparr>) (insert (node_addr k) L)" "heap_upd hp ?m m'"
    "\<And>j i. node_addr j \<in> L \<Longrightarrow> node_off j + 64 \<le> 16384 \<Longrightarrow> i < 40 \<Longrightarrow>
      hbyte m' hp (node_off j + 12 + i) = hbyte ?m hp (node_off j + 12 + i)"
    by (rule kalloc_node [OF assms]) (rule that)
  have hm: "heap_mapped ?m hp" using assms(1) by (auto simp: heap_rep_def heap_state_def)
  note fr = heap_upd_frame [OF hm k(5)]
  have "unat (node_addr k) + 40 \<le> unat b \<or> unat b + 40 \<le> unat (node_addr k)" if b: "b \<in> L" for b
  proof -
    obtain j where j: "b = node_addr j" "node_off j + 64 \<le> 16384"
      by (rule heap_rep_node [OF assms(1) b])
    with b k(3) have "k \<noteq> j" by auto
    then show ?thesis using nodes_apart [OF k(2) j(2)] j(1) by simp
  qed
  moreover have "vload8 m' (b + of_nat i) = vload8 ?m (b + of_nat i)" if b: "b \<in> L" and i: "i < 40" for b i
  proof -
    obtain j where j: "b = node_addr j" "node_off j + 64 \<le> 16384"
      by (rule heap_rep_node [OF assms(1) b])
    have "b + of_nat i = haddr (node_off j + 12 + i)" by (simp only: j(1) node_addr_def haddr_add)
    then show ?thesis
      using heap_load8 [OF hm, of "node_off j + 12 + i"] heap_load8 [OF fr(1), of "node_off j + 12 + i"]
        k(6) [of j i] j b i by simp
  qed
  ultimately show ?thesis
    using k(1-5) fr(2) unat_node_addr [of k] 
    by (intro exI [of _ "node_addr k"] exI [of _ "s\<lparr>hvms := (hvms s)\<lparr>vmmu := m'\<rparr>\<rparr>"])
      (simp add: heap_pool_addr_def)
qed

theorem kalloc_node_correct_witness:
  "\<exists>s a s'. heap_init demo_heap = Inr s \<and> kalloc 40 s = Inr (a, s') \<and> heap_rep 0x10000 s' {a}"
proof -
  obtain s where s: "heap_init demo_heap = Inr s" "heap_rep 0x10000 s {}" using demo_heap_init by blast
  have "card ({} :: u32 set) < NODES_MAX" by (simp add: NODES_MAX_def)
  from kalloc_node_correct [OF s(2) this] s(1) show ?thesis by blast
qed

text \<open>
  Releasing a node succeeds, removes exactly this node from the nodes in use and leaves the
  contents of all nodes and all memory outside the pool alone; a node that has just been
  handed out can be released, and the nodes in use are then the same as before.
\<close>

theorem kfree_node_correct:
  assumes "heap_rep hp s L" and "card L < NODES_MAX"
  shows "(\<forall>a \<in> L. \<exists>s'. kfree a s = Inr s' \<and> heap_rep hp s' (L - {a}) \<and>
      heap_upd hp (vmmu (hvms s)) (vmmu (hvms s')) \<and>
      (\<forall>b \<in> L. \<forall>i < 40. vload8 (vmmu (hvms s')) (b + of_nat i) = vload8 (vmmu (hvms s)) (b + of_nat i))) \<and>
    (\<exists>a s1 s2. kalloc 40 s = Inr (a, s1) \<and> kfree a s1 = Inr s2 \<and> heap_rep hp s2 L)"
proof (intro conjI ballI)
  let ?m = "vmmu (hvms s)"
  fix a assume a: "a \<in> L"
  obtain m' where m': "kfree a s = Inr (s\<lparr>hvms := (hvms s)\<lparr>vmmu := m'\<rparr>\<rparr>)"
    "heap_rep hp (s\<lparr>hvms := (hvms s)\<lparr>vmmu := m'\<rparr>\<rparr>) (L - {a})" "heap_upd hp ?m m'"
    "\<And>j i. node_addr j \<in> L \<Longrightarrow> node_off j + 64 \<le> 16384 \<Longrightarrow> i < 40 \<Longrightarrow>
      hbyte m' hp (node_off j + 12 + i) = hbyte ?m hp (node_off j + 12 + i)"
    by (rule kfree_node [OF assms(1) a]) (rule that)
  have hm: "heap_mapped ?m hp" using assms(1) by (auto simp: heap_rep_def heap_state_def)
  note fr = heap_upd_frame [OF hm m'(3)]
  have "vload8 m' (b + of_nat i) = vload8 ?m (b + of_nat i)" if b: "b \<in> L" and i: "i < 40" for b i
  proof -
    obtain j where j: "b = node_addr j" "node_off j + 64 \<le> 16384"
      by (rule heap_rep_node [OF assms(1) b])
    have "b + of_nat i = haddr (node_off j + 12 + i)" by (simp only: j(1) node_addr_def haddr_add)
    then show ?thesis
      using heap_load8 [OF hm, of "node_off j + 12 + i"] heap_load8 [OF fr(1), of "node_off j + 12 + i"]
        m'(4) [of j i] j b i by simp
  qed
  then show "\<exists>s'. kfree a s = Inr s' \<and> heap_rep hp s' (L - {a}) \<and>
      heap_upd hp ?m (vmmu (hvms s')) \<and>
      (\<forall>b \<in> L. \<forall>i < 40. vload8 (vmmu (hvms s')) (b + of_nat i) = vload8 ?m (b + of_nat i))"
    using m'(1-3) by (intro exI [of _ "s\<lparr>hvms := (hvms s)\<lparr>vmmu := m'\<rparr>\<rparr>"]) simp
qed (rule khn.alloc_release [OF assms])

theorem kfree_node_correct_witness:
  "\<exists>s a s1 s2. heap_init demo_heap = Inr s \<and> kalloc 40 s = Inr (a, s1) \<and> kfree a s1 = Inr s2 \<and>
     heap_rep 0x10000 s2 {}"
proof -
  obtain s where s: "heap_init demo_heap = Inr s" "heap_rep 0x10000 s {}" using demo_heap_init by blast
  have "card ({} :: u32 set) < NODES_MAX" by (simp add: NODES_MAX_def)
  from kfree_node_correct [OF s(2) this] s(1) show ?thesis by blast
qed

text \<open>
  \<open>heap_init\<close>: when \<open>pm_alloc_cont\<close> has four contiguous frames and the page table of the
  pool exists and is empty, it maps the pool to these frames, leaves a heap with no node in
  use, and changes no translation outside the pool.
\<close>

theorem heap_init_correct:
  assumes "pt_ok (vmmu (hvms s))" and "has_table (vmmu (hvms s)) 0x390"
    and "\<And>off. off < 16384 \<Longrightarrow> translate (vmmu (hvms s)) (haddr off) = Inl (PageFault (haddr off))"
    and "pm_alloc_cont 4 (vpm (hvms s)) = Inr (hp, pm')" and "hp \<noteq> 0" and "page_aligned hp"
    and "unat hp + 16384 \<le> 4294967296"
    and "\<And>off. off < 16384 \<Longrightarrow> hphys hp off \<notin> walk_bytes (vmmu (hvms s))"
  shows "\<exists>s'. heap_init s = Inr s' \<and> heap_rep hp s' {} \<and> vpm (hvms s') = pm' \<and>
    (\<forall>w. vm_pdir_idx w \<noteq> 1023 \<longrightarrow> (\<forall>off < 16384. w \<noteq> haddr off) \<longrightarrow>
       translate (vmmu (hvms s')) w = translate (vmmu (hvms s)) w)"
  using assms by (rule heap_init_rep)

theorem heap_init_correct_witness:
  "\<exists>s. heap_init demo_heap = Inr s \<and> heap_rep 0x10000 s {}"
proof -
  obtain pm' where pm: "pm_alloc_cont 4 (vpm (hvms demo_heap)) = Inr (0x10000, pm')"
    by (rule demo_heap_frames)
  have nz: "(0x10000 :: u32) \<noteq> 0" by simp
  show ?thesis
    using heap_init_correct [OF demo_heap_ok demo_heap_absent pm nz demo_heap_hyps(2,1,3)] by blast
qed

text \<open>
  C35. The size test of \<open>kalloc\<close> adds the header size to the block's size instead of to the
  request.  A free block of 40 bytes in front of another block therefore satisfies every
  request of up to 52 bytes: the block is returned although its successor's header starts
  40 bytes after the returned address.
\<close>

theorem kalloc_overcommits:
  assumes "heap_initialized s" and "heap_state (vmmu (hvms s)) hp us"
    and "first_unused us < length us" and "0 < n" and "n \<le> 52"
  shows "\<exists>s'. kalloc n s = Inr (node_addr (first_unused us), s') \<and>
    vload32 (vmmu (hvms s')) (haddr (node_off (first_unused us) + 8)) = Inr n \<and>
    vload32 (vmmu (hvms s')) (haddr (node_off (first_unused us) + 4))
      = Inr (node_addr (first_unused us) + 40)"
proof -
  let ?i = "first_unused us" and ?m = "vmmu (hvms s)"
  have hm: "heap_mapped ?m hp" using assms(2) by (simp add: heap_state_def)
  have b: "block_at ?m hp (node_off ?i) BLOCK_UNUSED (haddr (node_off (Suc ?i))) 40"
    using assms(2,3) first_unused(3) [OF assms(3)] by (auto simp: heap_state_def)
  have bd: "node_off ?i + 12 \<le> 16384" and nz: "haddr (node_off (Suc ?i)) \<noteq> 0"
    using heap_state_node [OF assms(2,3)] haddr_nonzero by (simp_all add: node_off_Suc)
  obtain m' where m': "kalloc_take (haddr (node_off ?i)) n ?m = Inr (haddr (node_off ?i + 12), m')"
    "heap_upd hp ?m m'" "block_at m' hp (node_off ?i) BLOCK_USED (haddr (node_off (Suc ?i))) n"
    by (rule kalloc_take_block [OF hm b node_off_aligned bd nz]) (rule that)
  have fit: "n \<le> 40 + SIZEOF_BLOCK" using assms(5) by (simp add: SIZEOF_BLOCK_def)
  note h' = heap_upd_frame(1) [OF hm m'(2)]
  have al: "4 dvd node_off ?i + 4" "4 dvd node_off ?i + 8" by simp_all
  have fuel: "?i - 0 < 2 ^ 32" using heap_state_length [OF assms(2)] assms(3) by simp
  have "kalloc_from (2 ^ 32) heap_pool_addr n ?m = kalloc_from (2 ^ 32 - ?i) (haddr (node_off ?i)) n ?m"
    using kalloc_from_skip [OF assms(2) le0 first_unused(1) first_unused(2) fuel, of n]
    by (simp add: haddr_def node_off_def)
  also have "\<dots> = Inr (node_addr ?i, m')"
    using kalloc_from_take [OF hm b node_off_aligned bd fit, of "2 ^ 32 - ?i"] m'(1) fuel
    by (simp add: node_addr_def)
  finally have "kalloc n s = Inr (node_addr ?i, s\<lparr>hvms := (hvms s)\<lparr>vmmu := m'\<rparr>\<rparr>)"
    using assms(1,4) by (auto simp: kalloc_def)
  moreover have "haddr (node_off (Suc ?i)) = node_addr ?i + 40"
    by (simp add: node_off_Suc node_addr_def haddr_def)
  ultimately show ?thesis
    using m'(3) heap_load32 [OF h' _ al(1)] heap_load32 [OF h' _ al(2)] bd by (simp add: block_at_def)
qed

theorem kalloc_overcommits_witness:
  "\<exists>s us s'. heap_initialized s \<and> heap_state (vmmu (hvms s)) 0x10000 us \<and>
     first_unused us < length us \<and> kalloc 52 s = Inr (node_addr (first_unused us), s')"
proof -
  obtain s where "heap_rep 0x10000 s {}" using demo_heap_init by blast
  then obtain us where us: "heap_initialized s" "heap_state (vmmu (hvms s)) 0x10000 us" "nodes_of us = {}"
    by (auto simp: heap_rep_def)
  have room: "first_unused us < length us \<or> node_off (length us) + 64 \<le> 16384"
    by (rule heap_room [OF us(2)]) (simp add: us(3) NODES_MAX_def)
  obtain m1 where m1: "heap_state m1 0x10000 (take_node us)"
    by (rule kalloc_from_node [OF us(2) room lessI]) (rule that)
  have i: "first_unused us < length (take_node us)" using first_unused(1) [of us] by (simp add: take_node_def)
  obtain m2 where m2: "heap_state m2 0x10000 ((take_node us)[first_unused us := False])"
    by (rule heap_free_node [OF m1 i]) (rule that)
  let ?us = "(take_node us)[first_unused us := False]"
  let ?s = "s\<lparr>hvms := (hvms s)\<lparr>vmmu := m2\<rparr>\<rparr>"
  have "first_unused ?us < length ?us"
    using first_unused(1) [of ?us] first_unused(2) [of "first_unused us" ?us] i
    by (cases "first_unused ?us = length ?us") auto
  moreover from this obtain s' where "kalloc 52 ?s = Inr (node_addr (first_unused ?us), s')"
    using kalloc_overcommits [of ?s "0x10000" ?us 52] us(1) m2 by auto
  ultimately show ?thesis
    using us(1) m2 by (intro exI [of _ ?s], intro exI [of _ ?us], intro exI [of _ s']) simp
qed

end
