(* ===== verification/Stailq.thy ===== *)
theory Stailq
  imports Kheap
begin

unbundle bit_operations_syntax

text \<open>
  The singly linked tail queue of \<^verbatim>\<open>include/queue.h\<close>, as the kernel uses it: queues of
  \<open>struct msg_packet_queue\<close> nodes, whose \<open>msgs.stqe_next\<close> field is at offset 36 of the node.

  The head keeps a pointer to the first element and a pointer to the link to write next,
  which is either the head's own first field (\<open>HeadFirst\<close>) or the next field of the last
  element (\<open>NextOf\<close>), or null (\<open>NullLink\<close>) in a head that was never initialised, as in the
  slots of the process table that no process has used yet.  Links in elements are read and written through the page walk.

  \<open>qrep m hp h xs\<close> relates a head and the memory to the list \<open>xs\<close> of its elements.  Shown: the
  macros implement the list operations (append, head, tail, emptiness) and leave queues of
  other nodes alone.  The locale \<open>fifo\<close> states what the system calls rely on.
\<close>

section \<open>Definitions\<close>

datatype stailq_link = HeadFirst | NextOf u32 | NullLink

record stailq_head =
  stqh_first :: u32
  stqh_last :: stailq_link

definition NEXT_OFFSET :: u32 where "NEXT_OFFSET = 36"

definition STAILQ_EMPTY :: "stailq_head \<Rightarrow> bool" where
  "STAILQ_EMPTY h \<longleftrightarrow> stqh_first h = 0"

definition STAILQ_FIRST :: "stailq_head \<Rightarrow> u32" where
  "STAILQ_FIRST h = stqh_first h"

definition STAILQ_NEXT :: "u32 \<Rightarrow> mmu \<Rightarrow> u32 res" where
  "STAILQ_NEXT elm m = vload32 m (elm + NEXT_OFFSET)"

definition STAILQ_INIT :: stailq_head where
  "STAILQ_INIT = \<lparr>stqh_first = 0, stqh_last = HeadFirst\<rparr>"

definition STAILQ_INSERT_HEAD :: "u32 \<Rightarrow> stailq_head \<Rightarrow> mmu \<Rightarrow> (stailq_head \<times> mmu) res" where
  "STAILQ_INSERT_HEAD elm h m =
     kbind (vstore32 m (elm + NEXT_OFFSET) (stqh_first h)) (\<lambda>m.
       Inr (\<lparr>stqh_first = elm,
             stqh_last = (if stqh_first h = 0 then NextOf elm else stqh_last h)\<rparr>, m))"

definition STAILQ_INSERT_TAIL :: "u32 \<Rightarrow> stailq_head \<Rightarrow> mmu \<Rightarrow> (stailq_head \<times> mmu) res" where
  "STAILQ_INSERT_TAIL elm h m =
     kbind (vstore32 m (elm + NEXT_OFFSET) 0) (\<lambda>m.
     kbind (case stqh_last h of
              HeadFirst \<Rightarrow> Inr (h\<lparr>stqh_first := elm\<rparr>, m)
            | NextOf e \<Rightarrow> kbind (vstore32 m (e + NEXT_OFFSET) elm) (\<lambda>m. Inr (h, m))
            | NullLink \<Rightarrow> kbind (vstore32 m 0 elm) (\<lambda>m. Inr (h, m))) (\<lambda>(h, m).
       Inr (h\<lparr>stqh_last := NextOf elm\<rparr>, m)))"

definition STAILQ_REMOVE_HEAD :: "stailq_head \<Rightarrow> mmu \<Rightarrow> stailq_head res" where
  "STAILQ_REMOVE_HEAD h m =
     kbind (vload32 m (stqh_first h + NEXT_OFFSET)) (\<lambda>next.
       Inr (if next = 0 then \<lparr>stqh_first = 0, stqh_last = HeadFirst\<rparr>
            else h\<lparr>stqh_first := next\<rparr>))"

section \<open>Lemmas\<close>

subsection \<open>Words of a node\<close>

definition node_ok :: "u32 \<Rightarrow> bool" where
  "node_ok x \<longleftrightarrow> (\<exists>k. x = node_addr k \<and> node_off k + 64 \<le> 16384)"

definition node_word :: "mmu \<Rightarrow> u32 \<Rightarrow> u32 \<Rightarrow> nat \<Rightarrow> u32" where
  "node_word m hp x off = load32 (mem m) (x + of_nat off - heap_pool_addr + hp)"

lemma node_word_hword: "node_word m hp (node_addr k) off = hword m hp (node_off k + 12 + off)"
proof -
  have "node_addr k + of_nat off - heap_pool_addr + hp = hphys hp (node_off k + 12 + off)"
    by (simp add: node_addr_def haddr_def hphys_def)
  then show ?thesis by (simp add: node_word_def hword_def)
qed

lemma node_ok_nonzero: "node_ok x \<Longrightarrow> x \<noteq> 0"
  unfolding node_ok_def node_addr_def using haddr_nonzero by fastforce

lemma heap_rep_node_ok: "heap_rep hp s L \<Longrightarrow> x \<in> L \<Longrightarrow> node_ok x"
  by (erule (1) heap_rep_node) (auto simp: node_ok_def)

lemma node_load:
  assumes "heap_mapped m hp" and "node_ok x" and "off < 40" and "4 dvd off"
  shows "vload32 m (x + of_nat off) = Inr (node_word m hp x off)"
proof -
  obtain k where k: "x = node_addr k" "node_off k + 64 \<le> 16384" using assms(2) by (auto simp: node_ok_def)
  have al: "4 dvd node_off k + 12 + off" by (intro dvd_add node_off_aligned assms(4)) simp
  have "x + of_nat off = haddr (node_off k + 12 + off)" by (simp only: k(1) node_addr_def haddr_add)
  then show ?thesis
    using heap_load32 [OF assms(1) _ al] k assms(3) by (simp add: node_word_hword)
qed

text \<open>Writing to the data of a node leaves the block structure alone.\<close>

lemma heap_state_data:
  assumes hs: "heap_state m hp us" and up: "heap_upd hp m m'"
    and same: "\<And>z. z < 16384 \<Longrightarrow> \<not> (node_off k + 12 \<le> z \<and> z < node_off k + 52) \<Longrightarrow> hbyte m' hp z = hbyte m hp z"
  shows "heap_state m' hp us"
proof -
  have "block_at m' hp (node_off j) ty nx sz = block_at m hp (node_off j) ty nx sz"
    if "j \<le> length us" for j ty nx sz
  proof (rule block_at_cong)
    fix z assume z: "node_off j \<le> z" "z < node_off j + 12"
    have "node_off j + 12 \<le> 16384" by (rule heap_state_bound [OF hs that])
    moreover have "\<not> (node_off k + 12 \<le> z \<and> z < node_off k + 52)"
      using node_off_mono [of j k] node_off_mono [of k j] z by (cases j k rule: linorder_cases) auto
    ultimately show "hbyte m' hp z = hbyte m hp z" using same z by simp
  qed
  moreover have "heap_mapped m' hp" using hs heap_upd_frame(1) [OF _ up] by (simp add: heap_state_def)
  ultimately show ?thesis using hs by (simp add: heap_state_def del: of_nat_diff)
qed

lemma node_store:
  assumes hm: "heap_mapped m hp" and x: "node_ok x" and off: "off < 40" "4 dvd off"
  obtains m' where "vstore32 m (x + of_nat off) v = Inr m'" and "heap_upd hp m m'"
    and "\<And>y o'. node_ok y \<Longrightarrow> o' < 40 \<Longrightarrow> 4 dvd o' \<Longrightarrow>
      node_word m' hp y o' = (if y = x \<and> o' = off then v else node_word m hp y o')"
    and "\<And>us. heap_state m hp us \<Longrightarrow> heap_state m' hp us"
proof -
  obtain k where k: "x = node_addr k" "node_off k + 64 \<le> 16384" using x by (auto simp: node_ok_def)
  let ?a = "node_off k + 12 + off"
  have al: "4 dvd ?a" by (intro dvd_add node_off_aligned off(2)) simp
  have o40: "off + 4 \<le> 40" using off by (auto elim!: dvdE)
  have ad: "x + of_nat off = haddr ?a" by (simp only: k(1) node_addr_def haddr_add)
  obtain m' where m': "vstore32 m (haddr ?a) v = Inr m'" "heap_upd hp m m'"
    "\<And>z. 4 dvd z \<Longrightarrow> z < 16384 \<Longrightarrow> hword m' hp z = (if z = ?a then v else hword m hp z)"
    "\<And>z. z < 16384 \<Longrightarrow> z \<notin> {?a, ?a + 1, ?a + 2, ?a + 3} \<Longrightarrow> hbyte m' hp z = hbyte m hp z"
    by (rule heap_store32 [OF hm _ al]) (use k(2) off(1) that in auto)
  have w: "node_word m' hp y o' = (if y = x \<and> o' = off then v else node_word m hp y o')"
    if y: "node_ok y" and o': "o' < 40" "4 dvd o'" for y o'
  proof -
    obtain j where j: "y = node_addr j" "node_off j + 64 \<le> 16384" using y by (auto simp: node_ok_def)
    have al': "4 dvd node_off j + 12 + o'" by (intro dvd_add node_off_aligned o'(2)) simp
    have "node_off j + 12 + o' = ?a \<longleftrightarrow> y = x \<and> o' = off"
    proof
      assume eq: "node_off j + 12 + o' = ?a"
      then have "j = k" using node_off_mono [of j k] node_off_mono [of k j] o'(1) off(1)
        by (cases j k rule: linorder_cases) auto
      with eq j(1) k(1) show "y = x \<and> o' = off" by simp
    next
      assume yx: "y = x \<and> o' = off"
      then have "j = k" using j k node_addr_inject [of j k] by simp
      with yx show "node_off j + 12 + o' = ?a" by simp
    qed
    then show ?thesis
      using m'(3) [OF al'] j o'(1) by (simp add: j(1) node_word_hword)
  qed
  have hs: "heap_state m' hp us" if us: "heap_state m hp us" for us
    by (rule heap_state_data [OF us m'(2), of k]) (use m'(4) o40 in auto)
  show ?thesis by (rule that [OF _ m'(2) w hs]) (simp add: ad m'(1))
qed

subsection \<open>Heads as lists\<close>

fun qpath :: "mmu \<Rightarrow> u32 \<Rightarrow> u32 \<Rightarrow> u32 list \<Rightarrow> bool" where
  "qpath m hp a [] \<longleftrightarrow> a = 0"
| "qpath m hp a (x # xs) \<longleftrightarrow> a = x \<and> qpath m hp (node_word m hp x 36) xs"

definition qrep :: "mmu \<Rightarrow> u32 \<Rightarrow> stailq_head \<Rightarrow> u32 list \<Rightarrow> bool" where
  "qrep m hp h xs \<longleftrightarrow> distinct xs \<and> (\<forall>x \<in> set xs. node_ok x) \<and> qpath m hp (stqh_first h) xs \<and>
     stqh_last h = (if xs = [] then HeadFirst else NextOf (last xs))"

lemma qpath_cong:
  "(\<And>x. x \<in> set xs \<Longrightarrow> node_word m' hp x 36 = node_word m hp x 36) \<Longrightarrow> qpath m' hp a xs = qpath m hp a xs"
  by (induction xs arbitrary: a) auto

lemma qrep_cong:
  assumes "\<And>x. x \<in> set xs \<Longrightarrow> node_word m' hp x 36 = node_word m hp x 36"
  shows "qrep m' hp h xs = qrep m hp h xs"
  using qpath_cong [of xs m' hp m "stqh_first h", OF assms] by (simp add: qrep_def)

lemma qpath_snoc:
  assumes "qpath m hp a xs" and "distinct (xs @ [y])" and "xs \<noteq> []"
    and "\<And>x. x \<in> set xs \<Longrightarrow> x \<noteq> last xs \<Longrightarrow> node_word m' hp x 36 = node_word m hp x 36"
    and "node_word m' hp (last xs) 36 = y" and "node_word m' hp y 36 = 0"
  shows "qpath m' hp a (xs @ [y])"
  using assms
proof (induction xs arbitrary: a)
  case (Cons x xs)
  show ?case
  proof (cases "xs = []")
    case False
    then have "x \<noteq> last xs" using Cons.prems(2) by (metis distinct.simps(2) append_Cons last_in_set Un_iff set_append)
    with False Cons.prems Cons.IH show ?thesis by auto
  qed (use Cons.prems in simp)
qed simp

lemma qrep_first: "qrep m hp h xs \<Longrightarrow> stqh_first h = (if xs = [] then 0 else hd xs)"
  by (cases xs) (auto simp: qrep_def)

lemma qrep_empty: "qrep m hp h xs \<Longrightarrow> STAILQ_EMPTY h \<longleftrightarrow> xs = []"
  using node_ok_nonzero by (cases xs) (auto simp: qrep_def STAILQ_EMPTY_def)

lemma qrep_init: "qrep m hp STAILQ_INIT []"
  by (simp add: qrep_def STAILQ_INIT_def)

lemma qrep_insert_tail:
  assumes hm: "heap_mapped m hp" and q: "qrep m hp h xs" and y: "node_ok y" "y \<notin> set xs"
  obtains h' m' where "STAILQ_INSERT_TAIL y h m = Inr (h', m')" and "qrep m' hp h' (xs @ [y])"
    and "heap_upd hp m m'" and "\<And>us. heap_state m hp us \<Longrightarrow> heap_state m' hp us"
    and "\<And>z o'. node_ok z \<Longrightarrow> o' < 36 \<Longrightarrow> 4 dvd o' \<Longrightarrow> node_word m' hp z o' = node_word m hp z o'"
    and "\<And>z. node_ok z \<Longrightarrow> z \<notin> set xs \<Longrightarrow> z \<noteq> y \<Longrightarrow> node_word m' hp z 36 = node_word m hp z 36"
proof -
  have o36: "(36 :: nat) < 40" "4 dvd (36 :: nat)" by simp_all
  obtain m1 where m1: "vstore32 m (y + of_nat 36) 0 = Inr m1" "heap_upd hp m m1"
    "\<And>z o'. node_ok z \<Longrightarrow> o' < 40 \<Longrightarrow> 4 dvd o' \<Longrightarrow>
      node_word m1 hp z o' = (if z = y \<and> o' = 36 then 0 else node_word m hp z o')"
    "\<And>us. heap_state m hp us \<Longrightarrow> heap_state m1 hp us"
    by (rule node_store [OF hm y(1) o36]) (rule that)
  note h1 = heap_upd_frame(1) [OF hm m1(2)]
  show ?thesis
  proof (cases "xs = []")
    case True
    let ?h = "h\<lparr>stqh_first := y, stqh_last := NextOf y\<rparr>"
    show ?thesis
    proof (rule that [of ?h m1])
      show "STAILQ_INSERT_TAIL y h m = Inr (?h, m1)"
        using m1(1) q True by (simp add: STAILQ_INSERT_TAIL_def NEXT_OFFSET_def qrep_def)
      show "qrep m1 hp ?h (xs @ [y])" using True y m1(3) [of y 36] by (simp add: qrep_def)
    qed (use m1 in auto)
  next
    case False
    then have l: "node_ok (last xs)" "last xs \<noteq> y" using q y by (auto simp: qrep_def)
    obtain m2 where m2: "vstore32 m1 (last xs + of_nat 36) y = Inr m2" "heap_upd hp m1 m2"
      "\<And>z o'. node_ok z \<Longrightarrow> o' < 40 \<Longrightarrow> 4 dvd o' \<Longrightarrow>
        node_word m2 hp z o' = (if z = last xs \<and> o' = 36 then y else node_word m1 hp z o')"
      "\<And>us. heap_state m1 hp us \<Longrightarrow> heap_state m2 hp us"
      by (rule node_store [OF h1 l(1) o36]) (rule that)
    let ?h = "h\<lparr>stqh_last := NextOf y\<rparr>"
    show ?thesis
    proof (rule that [of ?h m2])
      show "STAILQ_INSERT_TAIL y h m = Inr (?h, m2)"
        using m1(1) m2(1) q False by (simp add: STAILQ_INSERT_TAIL_def NEXT_OFFSET_def qrep_def)
      have "qpath m2 hp (stqh_first h) (xs @ [y])"
        using q y False l m1(3) m2(3) o36 by (intro qpath_snoc [of m]) (auto simp: qrep_def)
      then show "qrep m2 hp ?h (xs @ [y])" using q y by (simp add: qrep_def)
      show "heap_upd hp m m2" using m1(2) m2(2) by (rule heap_upd_trans)
    qed (use m1 m2 False in auto)
  qed
qed

lemma qrep_remove_head:
  assumes hm: "heap_mapped m hp" and q: "qrep m hp h (x # xs)"
  shows "\<exists>h'. STAILQ_REMOVE_HEAD h m = Inr h' \<and> qrep m hp h' xs"
proof -
  have x: "stqh_first h = x" "node_ok x" "qpath m hp (node_word m hp x 36) xs" using q by (auto simp: qrep_def)
  have ld: "vload32 m (x + 36) = Inr (node_word m hp x 36)"
    using node_load [OF hm x(2), of 36] by simp
  have nz: "node_word m hp x 36 = 0 \<longleftrightarrow> xs = []"
    using x(3) q node_ok_nonzero by (cases xs) (auto simp: qrep_def)
  show ?thesis
    using q ld x nz by (auto simp: STAILQ_REMOVE_HEAD_def NEXT_OFFSET_def qrep_def)
qed

section \<open>The interface clients use\<close>

text \<open>Appending several elements, and taking \<open>n\<close> elements off the front.\<close>

fun insert_all :: "(u32 \<Rightarrow> 'h \<Rightarrow> 's \<Rightarrow> ('h \<times> 's) res) \<Rightarrow> u32 list \<Rightarrow> 'h \<Rightarrow> 's \<Rightarrow> ('h \<times> 's) res" where
  "insert_all ins [] h s = Inr (h, s)"
| "insert_all ins (y # ys) h s = kbind (ins y h s) (\<lambda>(h, s). insert_all ins ys h s)"

fun drain :: "('h \<Rightarrow> u32) \<Rightarrow> ('h \<Rightarrow> 's \<Rightarrow> 'h res) \<Rightarrow> nat \<Rightarrow> 'h \<Rightarrow> 's \<Rightarrow> (u32 list \<times> 'h) res" where
  "drain fst_of rem 0 h s = Inr ([], h)"
| "drain fst_of rem (Suc n) h s =
     kbind (rem h s) (\<lambda>h'. kbind (drain fst_of rem n h' s) (\<lambda>(xs, h''). Inr (fst_of h # xs, h'')))"

locale fifo =
  fixes usable :: "'s \<Rightarrow> bool"
    and rep :: "'s \<Rightarrow> 'h \<Rightarrow> u32 list \<Rightarrow> bool"
    and elem :: "u32 \<Rightarrow> bool"
    and ins :: "u32 \<Rightarrow> 'h \<Rightarrow> 's \<Rightarrow> ('h \<times> 's) res"
    and rem :: "'h \<Rightarrow> 's \<Rightarrow> 'h res"
    and fst_of :: "'h \<Rightarrow> u32"
  assumes ins_rep: "usable s \<Longrightarrow> rep s h xs \<Longrightarrow> elem y \<Longrightarrow> y \<notin> set xs \<Longrightarrow>
      \<exists>h' s'. ins y h s = Inr (h', s') \<and> usable s' \<and> rep s' h' (xs @ [y])"
    and rem_rep: "usable s \<Longrightarrow> rep s h (x # xs) \<Longrightarrow> \<exists>h'. rem h s = Inr h' \<and> rep s h' xs"
    and fst_rep: "rep s h (x # xs) \<Longrightarrow> fst_of h = x"
begin

lemma insert_all_rep:
  assumes "usable s" and "rep s h xs" and "distinct (xs @ ys)" and "\<forall>y \<in> set ys. elem y"
  shows "\<exists>h' s'. insert_all ins ys h s = Inr (h', s') \<and> usable s' \<and> rep s' h' (xs @ ys)"
  using assms
proof (induction ys arbitrary: h s xs)
  case Nil
  then show ?case by simp
next
  case (Cons y ys)
  then obtain h1 s1 where 1: "ins y h s = Inr (h1, s1)" "usable s1" "rep s1 h1 (xs @ [y])"
    using ins_rep [of s h xs y] by auto
  with Cons.prems Cons.IH [of s1 h1 "xs @ [y]"] show ?case by auto
qed

lemma drain_rep:
  assumes "usable s" and "rep s h (xs @ ys)"
  shows "\<exists>h'. drain fst_of rem (length xs) h s = Inr (xs, h') \<and> rep s h' ys"
  using assms
proof (induction xs arbitrary: h)
  case Nil
  then show ?case by simp
next
  case (Cons x xs)
  then obtain h1 where h1: "rem h s = Inr h1" "rep s h1 (xs @ ys)" using rem_rep [of s h x] by auto
  from Cons.IH [OF Cons.prems(1) h1(2)] h1 Cons.prems(2) fst_rep [of s h x "xs @ ys"]
  show ?case by auto
qed

end

interpretation stq: fifo "\<lambda>m. heap_mapped m hp" "\<lambda>m. qrep m hp" node_ok
  STAILQ_INSERT_TAIL STAILQ_REMOVE_HEAD STAILQ_FIRST
proof unfold_locales
  fix m h xs y assume a: "heap_mapped m hp" "qrep m hp h xs" "node_ok y" "y \<notin> set xs"
  obtain h' m' where "STAILQ_INSERT_TAIL y h m = Inr (h', m')" "qrep m' hp h' (xs @ [y])" "heap_upd hp m m'"
    by (rule qrep_insert_tail [OF a]) (rule that)
  then show "\<exists>h' m'. STAILQ_INSERT_TAIL y h m = Inr (h', m') \<and> heap_mapped m' hp \<and> qrep m' hp h' (xs @ [y])"
    using heap_upd_frame(1) [OF a(1)] by blast
next
  fix m h x xs assume "heap_mapped m hp" "qrep m hp h (x # xs)"
  then show "\<exists>h'. STAILQ_REMOVE_HEAD h m = Inr h' \<and> qrep m hp h' xs" by (rule qrep_remove_head)
next
  fix m h x xs assume "qrep m hp h (x # xs)"
  then show "STAILQ_FIRST h = x" by (simp add: qrep_def STAILQ_FIRST_def)
qed

section \<open>Properties\<close>



end
