(* ===== verification/Segments.thy ===== *)
theory Segments
  imports Prelude
begin

unbundle bit_operations_syntax

text \<open>
  Segment descriptors and the task state segment, \<^verbatim>\<open>kernel/gdt.c\<close> and \<^verbatim>\<open>kernel/tss.c\<close>.

  The bit fields of \<open>struct gdt_entry\<close> are words of their width, so storing a value truncates
  it as the C assignment does.  The addresses of the linked objects (\<open>gdt\<close>, \<open>tss\<close>,
  \<open>kernel_stack_top\<close>) are arguments.  \<open>gdt_flush\<close> (reloading the segment registers, in
  assembly) has no effect on this state; \<open>gdt_load\<close> and \<open>tss_flush\<close> set the two registers.

  Shown: a descriptor decodes to the base and the low 20 bits of the limit it was set with;
  \<open>gdt_init\<close> gives flat kernel and user segments with the right privilege levels; the limit
  that \<open>tss_init\<close> stores.
\<close>

section \<open>Definitions\<close>

subsection \<open>gdt.h\<close>

record gdt_entry =
  limit_low :: u16
  base_low16 :: u16
  base_mid :: u8
  access :: u8
  limit_high :: "4 word"
  gflags :: "4 word"
  base_high8 :: u8

definition SEGNUM :: nat where "SEGNUM = 6"
definition SEG_NULL_IDX :: nat where "SEG_NULL_IDX = 0"
definition SEG_KCODE_IDX :: nat where "SEG_KCODE_IDX = 1"
definition SEG_KDATA_IDX :: nat where "SEG_KDATA_IDX = 2"
definition SEG_UCODE_IDX :: nat where "SEG_UCODE_IDX = 3"
definition SEG_UDATA_IDX :: nat where "SEG_UDATA_IDX = 4"
definition SEG_TSS_IDX :: nat where "SEG_TSS_IDX = 5"

definition SIZEOF_GDT_ENTRY :: u32 where "SIZEOF_GDT_ENTRY = 8"
definition SEG_KCODE :: u32 where "SEG_KCODE = of_nat SEG_KCODE_IDX * SIZEOF_GDT_ENTRY"
definition SEG_KDATA :: u32 where "SEG_KDATA = of_nat SEG_KDATA_IDX * SIZEOF_GDT_ENTRY"
definition SEG_UCODE :: u32 where "SEG_UCODE = of_nat SEG_UCODE_IDX * SIZEOF_GDT_ENTRY OR 3"
definition SEG_UDATA :: u32 where "SEG_UDATA = of_nat SEG_UDATA_IDX * SIZEOF_GDT_ENTRY OR 3"
definition SEG_TSS :: u32 where "SEG_TSS = of_nat SEG_TSS_IDX * SIZEOF_GDT_ENTRY OR 3"

definition GDTE_X :: u8 where "GDTE_X = 0x8"
definition GDTE_W :: u8 where "GDTE_W = 0x2"
definition GDTE_R :: u8 where "GDTE_R = 0x2"
definition GDTE_A :: u8 where "GDTE_A = 0x1"
definition GDTE_TSS :: u8 where "GDTE_TSS = 0"
definition GDTE_NOT_TSS :: u8 where "GDTE_NOT_TSS = 0x10"
definition GDTE_DPL_KERNEL :: u8 where "GDTE_DPL_KERNEL = 0"
definition GDTE_DPL_USER :: u8 where "GDTE_DPL_USER = 0x60"
definition GDTE_PRESENT :: u8 where "GDTE_PRESENT = 0x80"
definition GDTE_32_BIT :: u8 where "GDTE_32_BIT = 0x4"
definition GDTE_BYTE_GRAN :: u8 where "GDTE_BYTE_GRAN = 0"
definition GDTE_PAGE_GRAN :: u8 where "GDTE_PAGE_GRAN = 0x8"

subsection \<open>tss.h\<close>

record tss_entry =
  prev_tss :: u32
  esp0 :: u32
  ss0 :: u32
  tss_esp1 :: u32
  tss_ss1 :: u32
  tss_esp2 :: u32
  tss_ss2 :: u32
  tss_cr3 :: u32
  tss_eip :: u32
  tss_eflags :: u32
  tss_eax :: u32
  tss_ecx :: u32
  tss_edx :: u32
  tss_ebx :: u32
  tss_esp :: u32
  tss_ebp :: u32
  tss_esi :: u32
  tss_edi :: u32
  tss_es :: u32
  tss_cs :: u32
  tss_ss :: u32
  tss_ds :: u32
  tss_fs :: u32
  tss_gs :: u32
  tss_ldt :: u32
  tss_trap :: u16
  tss_iomap_base :: u16

definition SIZEOF_TSS :: u32 where "SIZEOF_TSS = 104"

record segst =
  gdt :: "nat \<Rightarrow> gdt_entry"
  tss :: tss_entry
  gdtr :: "u16 \<times> u32"
  task_register :: u32

subsection \<open>gdt.c and tss.c\<close>

definition gdt_set_segment :: "nat \<Rightarrow> u32 \<Rightarrow> u32 \<Rightarrow> u8 \<Rightarrow> u8 \<Rightarrow> segst \<Rightarrow> segst res" where
  "gdt_set_segment idx base limit acc flags s =
     (if idx < SEGNUM then
        Inr (s\<lparr>gdt := (gdt s)(idx :=
          \<lparr>limit_low = ucast (limit AND 0xffff),
           base_low16 = ucast (base AND 0xffff),
           base_mid = ucast (drop_bit 16 base AND 0xff),
           access = GDTE_PRESENT OR acc,
           limit_high = ucast (drop_bit 16 limit AND 0xf),
           gflags = ucast flags,
           base_high8 = ucast (drop_bit 24 base AND 0xff)\<rparr>)\<rparr>)
      else Inl OutOfBounds)"

definition tss_set_ss :: "u32 \<Rightarrow> segst \<Rightarrow> segst" where
  "tss_set_ss ss s = s\<lparr>tss := (tss s)\<lparr>ss0 := ss\<rparr>\<rparr>"

definition tss_set_esp :: "u32 \<Rightarrow> segst \<Rightarrow> segst" where
  "tss_set_esp esp s = s\<lparr>tss := (tss s)\<lparr>esp0 := esp\<rparr>\<rparr>"

definition tss_zero :: tss_entry where
  "tss_zero = \<lparr>prev_tss = 0, esp0 = 0, ss0 = 0, tss_esp1 = 0, tss_ss1 = 0, tss_esp2 = 0, tss_ss2 = 0,
     tss_cr3 = 0, tss_eip = 0, tss_eflags = 0, tss_eax = 0, tss_ecx = 0, tss_edx = 0, tss_ebx = 0,
     tss_esp = 0, tss_ebp = 0, tss_esi = 0, tss_edi = 0, tss_es = 0, tss_cs = 0, tss_ss = 0,
     tss_ds = 0, tss_fs = 0, tss_gs = 0, tss_ldt = 0, tss_trap = 0, tss_iomap_base = 0\<rparr>"

definition tss_init :: "u32 \<Rightarrow> u32 \<Rightarrow> u32 \<Rightarrow> segst \<Rightarrow> segst res" where
  "tss_init tss_addr ss esp s =
     (let base = tss_addr; limit = base + SIZEOF_TSS in
      kbind (gdt_set_segment SEG_TSS_IDX base limit
               (GDTE_DPL_USER OR GDTE_X OR GDTE_A OR GDTE_TSS) (GDTE_BYTE_GRAN OR GDTE_32_BIT) s)
        (\<lambda>s. Inr (s\<lparr>tss := tss_zero
           \<lparr>ss0 := ss, esp0 := esp, tss_cs := SEG_KCODE OR 3, tss_ss := SEG_KDATA OR 3,
            tss_es := SEG_KDATA OR 3, tss_ds := SEG_KDATA OR 3, tss_fs := SEG_KDATA OR 3,
            tss_gs := SEG_KDATA OR 3\<rparr>\<rparr>)))"

definition gdt_load :: "u32 \<Rightarrow> u16 \<Rightarrow> segst \<Rightarrow> segst" where
  "gdt_load base sz s = s\<lparr>gdtr := (sz - 1, base)\<rparr>"

definition gdt_install :: "u32 \<Rightarrow> segst \<Rightarrow> segst" where
  "gdt_install gdt_addr s = gdt_load gdt_addr (of_nat SEGNUM * ucast SIZEOF_GDT_ENTRY) s"

definition gdt_null :: gdt_entry where
  "gdt_null = \<lparr>limit_low = 0, base_low16 = 0, base_mid = 0, access = 0, limit_high = 0, gflags = 0,
     base_high8 = 0\<rparr>"

definition gdt_init :: "u32 \<Rightarrow> u32 \<Rightarrow> u32 \<Rightarrow> segst \<Rightarrow> segst res" where
  "gdt_init gdt_addr tss_addr kernel_stack_top s =
     (let s = s\<lparr>gdt := (gdt s)(SEG_NULL_IDX := gdt_null)\<rparr> in
      kbind (gdt_set_segment SEG_KCODE_IDX 0 0xffffffff
               (GDTE_DPL_KERNEL OR GDTE_X OR GDTE_W OR GDTE_NOT_TSS) (GDTE_PAGE_GRAN OR GDTE_32_BIT) s) (\<lambda>s.
      kbind (gdt_set_segment SEG_KDATA_IDX 0 0xffffffff
               (GDTE_DPL_KERNEL OR GDTE_R OR GDTE_NOT_TSS) (GDTE_PAGE_GRAN OR GDTE_32_BIT) s) (\<lambda>s.
      kbind (gdt_set_segment SEG_UCODE_IDX 0 0xffffffff
               (GDTE_DPL_USER OR GDTE_X OR GDTE_W OR GDTE_NOT_TSS) (GDTE_PAGE_GRAN OR GDTE_32_BIT) s) (\<lambda>s.
      kbind (gdt_set_segment SEG_UDATA_IDX 0 0xffffffff
               (GDTE_DPL_USER OR GDTE_R OR GDTE_NOT_TSS) (GDTE_PAGE_GRAN OR GDTE_32_BIT) s) (\<lambda>s.
      kbind (tss_init tss_addr SEG_KDATA kernel_stack_top s) (\<lambda>s.
        Inr ((gdt_install gdt_addr s)\<lparr>task_register := SEG_TSS\<rparr>)))))))"

subsection \<open>What the processor reads from a descriptor\<close>

definition desc_base :: "gdt_entry \<Rightarrow> u32" where
  "desc_base e = ucast (base_low16 e) OR push_bit 16 (ucast (base_mid e))
     OR push_bit 24 (ucast (base_high8 e))"

definition desc_limit :: "gdt_entry \<Rightarrow> u32" where
  "desc_limit e = ucast (limit_low e) OR push_bit 16 (ucast (limit_high e))"

definition desc_dpl :: "gdt_entry \<Rightarrow> u8" where
  "desc_dpl e = drop_bit 5 (access e) AND 3"

section \<open>Lemmas\<close>

lemmas seg_idx_defs = SEGNUM_def SEG_NULL_IDX_def SEG_KCODE_IDX_def SEG_KDATA_IDX_def
  SEG_UCODE_IDX_def SEG_UDATA_IDX_def SEG_TSS_IDX_def
lemmas seg_defs = SEG_KCODE_def SEG_KDATA_def SEG_UCODE_def SEG_UDATA_def SEG_TSS_def SIZEOF_GDT_ENTRY_def
lemmas gdte_defs = GDTE_X_def GDTE_W_def GDTE_R_def GDTE_A_def GDTE_TSS_def GDTE_NOT_TSS_def
  GDTE_DPL_KERNEL_def GDTE_DPL_USER_def GDTE_PRESENT_def GDTE_32_BIT_def GDTE_BYTE_GRAN_def
  GDTE_PAGE_GRAN_def

lemma mask_bits: "(0xffff :: u32) = mask 16" "(0xff :: u32) = mask 8" "(0xf :: u32) = mask 4"
  "(0xfffff :: u32) = mask 20"
  by (simp_all add: mask_eq_exp_minus_1)

lemma base_fields:
  "ucast (ucast (base AND 0xffff) :: u16) OR push_bit 16 (ucast (ucast (drop_bit 16 base AND 0xff) :: u8))
     OR push_bit 24 (ucast (ucast (drop_bit 24 base AND 0xff) :: u8)) = (base :: u32)"
proof (rule bit_word_eqI)
  fix n assume "n < LENGTH(32)"
  then have "n < 32" by simp
  then consider "n < 16" | "16 \<le> n" "n < 24" | "24 \<le> n" "n < 32" by linarith
  then show "bit ((ucast (ucast (base AND 0xffff) :: u16) :: u32)
      OR push_bit 16 (ucast (ucast (drop_bit 16 base AND 0xff) :: u8))
      OR push_bit 24 (ucast (ucast (drop_bit 24 base AND 0xff) :: u8))) n \<longleftrightarrow> bit base n"
    unfolding mask_bits by cases (auto simp: bit_simps)
qed

lemma limit_fields:
  "ucast (ucast (limit AND 0xffff) :: u16) OR push_bit 16 (ucast (ucast (drop_bit 16 limit AND 0xf) :: 4 word))
     = (limit AND 0xfffff :: u32)"
proof (rule bit_word_eqI)
  fix n assume "n < LENGTH(32)"
  then have "n < 32" by simp
  then consider "n < 16" | "16 \<le> n" "n < 20" | "20 \<le> n" "n < 32" by linarith
  then show "bit ((ucast (ucast (limit AND 0xffff) :: u16) :: u32)
      OR push_bit 16 (ucast (ucast (drop_bit 16 limit AND 0xf) :: 4 word))) n \<longleftrightarrow> bit (limit AND 0xfffff) n"
    unfolding mask_bits by cases (auto simp: bit_simps)
qed

section \<open>Properties\<close>

text \<open>
  \<open>gdt_set_segment\<close> writes a present descriptor from which the processor reads back the base
  address and the low 20 bits of the limit, and changes no other descriptor; an index
  outside the table is the only failure.
\<close>

lemma gdt_set_segment_decodes:
  "case gdt_set_segment idx base limit acc flags s of
     Inl e \<Rightarrow> \<not> idx < SEGNUM \<and> e = OutOfBounds
   | Inr s' \<Rightarrow> idx < SEGNUM \<and> desc_base (gdt s' idx) = base \<and>
       desc_limit (gdt s' idx) = limit AND 0xfffff \<and> access (gdt s' idx) = 0x80 OR acc \<and>
       (\<forall>j. j = idx \<or> gdt s' j = gdt s j) \<and> tss s' = tss s"
  using base_fields [of base] limit_fields [of limit]
  by (simp add: gdt_set_segment_def desc_base_def desc_limit_def GDTE_PRESENT_def)

text \<open>
  After \<open>gdt_init\<close> the kernel and user segments are flat (base 0, limit \<open>0xfffff\<close> pages),
  the kernel ones have privilege level 0 and the user ones level 3, the null descriptor is
  zero, the stack for ring transitions is the kernel stack with the kernel data selector,
  and the descriptor table register covers exactly the six descriptors.  The limit stored
  for the task state segment is the low 20 bits of its end address instead of its size
  minus one.
\<close>

theorem gdt_init_correct:
  "\<exists>s'. gdt_init ga ta kst s = Inr s' \<and> gdt s' 0 = gdt_null \<and>
     list_all (\<lambda>i. desc_base (gdt s' i) = 0 \<and> desc_limit (gdt s' i) = 0xfffff) [1, 2, 3, 4] \<and>
     desc_dpl (gdt s' 1) = 0 \<and> desc_dpl (gdt s' 2) = 0 \<and>
     desc_dpl (gdt s' 3) = 3 \<and> desc_dpl (gdt s' 4) = 3 \<and>
     esp0 (tss s') = kst \<and> ss0 (tss s') = 0x10 \<and> gdtr s' = (47, ga) \<and> task_register s' = 0x2b \<and>
     desc_base (gdt s' 5) = ta \<and> desc_limit (gdt s' 5) = (ta + 104) AND 0xfffff"
  unfolding gdt_init_def tss_init_def gdt_set_segment_def Let_def
  using base_fields [of ta] limit_fields [of "ta + 104"]
  by (simp add: seg_idx_defs seg_defs gdte_defs desc_base_def desc_limit_def desc_dpl_def
      gdt_install_def gdt_load_def SIZEOF_TSS_def)

end
