(* ===== verification/Interrupts.thy ===== *)
theory Interrupts
  imports Machine
begin

unbundle bit_operations_syntax

text \<open>
  The interrupt tables, \<^verbatim>\<open>kernel/idt.c\<close>: the descriptor table and the three tables of C
  handlers (32 exceptions, 16 hardware interrupts, 208 software interrupts).

  Function pointers are their addresses, 0 being null.  The entry stubs of \<^verbatim>\<open>idt.asm\<close> are an
  argument of \<open>idt_init\<close>, the address of \<open>screen_of_death\<close> and of the table too.  An index
  outside a table, which the C code does not check, is \<open>OutOfBounds\<close>.

  Shown: a gate reads back as it was written; after \<open>idt_init\<close> exactly the vectors below 48
  have gates, each to its own stub, the interrupt controllers are programmed to deliver
  IRQ 0 to 15 at vectors 32 to 47, and no exception is without a handler; installing and
  removing handlers.
\<close>

section \<open>Definitions\<close>

record idt_entry =
  gate_base_low :: u16
  segm :: u16
  zero_byte :: u8
  gate_flags :: u8
  gate_base_high :: u16

record irq_handler_entry =
  irq_fn :: u32
  irq_pdir :: u32

record idtst =
  idt :: "nat \<Rightarrow> idt_entry"
  isr_handlers :: "nat \<Rightarrow> u32"
  irq_handlers :: "nat \<Rightarrow> irq_handler_entry"
  int_handlers :: "nat \<Rightarrow> u32"
  idtr :: "u16 \<times> u32"

subsection \<open>Handlers\<close>

definition irq_install_handler :: "int \<Rightarrow> u32 \<Rightarrow> u32 \<Rightarrow> idtst \<Rightarrow> idtst res" where
  "irq_install_handler num handler pdir s =
     (if num < 16 then
        (if 0 \<le> num then Inr (s\<lparr>irq_handlers := (irq_handlers s)(nat num := \<lparr>irq_fn = handler, irq_pdir = pdir\<rparr>)\<rparr>)
         else Inl OutOfBounds)
      else Inr s)"

definition irq_uninstall_handler :: "int \<Rightarrow> idtst \<Rightarrow> idtst res" where
  "irq_uninstall_handler num s =
     (if num < 16 then
        (if 0 \<le> num then Inr (s\<lparr>irq_handlers := (irq_handlers s)
             (nat num := (irq_handlers s (nat num))\<lparr>irq_fn := 0\<rparr>)\<rparr>)
         else Inl OutOfBounds)
      else Inr s)"

definition int_install_handler :: "int \<Rightarrow> u32 \<Rightarrow> idtst \<Rightarrow> idtst res" where
  "int_install_handler num handler s =
     (if 48 \<le> num then
        (if num < 256 then Inr (s\<lparr>int_handlers := (int_handlers s)(nat (num - (32 + 16)) := handler)\<rparr>)
         else Inl OutOfBounds)
      else Inr s)"

definition int_uninstall_handler :: "int \<Rightarrow> idtst \<Rightarrow> idtst res" where
  "int_uninstall_handler num s =
     (if 48 \<le> num then
        (if num < 256 then Inr (s\<lparr>int_handlers := (int_handlers s)(nat (num - (32 + 16)) := 0)\<rparr>)
         else Inl OutOfBounds)
      else Inr s)"

subsection \<open>Gates\<close>

definition irq_remap :: "ioport \<Rightarrow> ioport" where
  "irq_remap io =
     outb 0xa1 0x00 (outb 0x21 0x00 (outb 0xa1 0x01 (outb 0x21 0x01 (outb 0xa1 0x02 (outb 0x21 0x04
       (outb 0xa1 0x28 (outb 0x21 0x20 (outb 0xa0 0x11 (outb 0x20 0x11 io)))))))))"

definition idt_set_gate :: "u8 \<Rightarrow> u32 \<Rightarrow> u16 \<Rightarrow> u8 \<Rightarrow> idtst \<Rightarrow> idtst" where
  "idt_set_gate num base seg flags s =
     s\<lparr>idt := (idt s)(unat num :=
       \<lparr>gate_base_low = ucast (base AND 0xffff), segm = seg, zero_byte = 0, gate_flags = flags,
        gate_base_high = ucast (drop_bit 16 (base AND 0xffff0000))\<rparr>)\<rparr>"

definition idt_get_gate :: "u8 \<Rightarrow> idtst \<Rightarrow> u32" where
  "idt_get_gate num s =
     push_bit 16 (ucast (gate_base_high (idt s (unat num)))) OR ucast (gate_base_low (idt s (unat num)))"

definition idt_load :: "u32 \<Rightarrow> u16 \<Rightarrow> idtst \<Rightarrow> idtst" where
  "idt_load base sz s = s\<lparr>idtr := (sz - 1, base)\<rparr>"

definition idt_install :: "u32 \<Rightarrow> idtst \<Rightarrow> idtst" where
  "idt_install idt_addr s = idt_load idt_addr (256 * 8) s"

definition idt_zero :: idt_entry where
  "idt_zero = \<lparr>gate_base_low = 0, segm = 0, zero_byte = 0, gate_flags = 0, gate_base_high = 0\<rparr>"

definition set_gates :: "(nat \<Rightarrow> u32) \<Rightarrow> nat list \<Rightarrow> idtst \<Rightarrow> idtst" where
  "set_gates stub ns s = fold (\<lambda>n. idt_set_gate (of_nat n) (stub n) 0x8 0x8e) ns s"

definition idt_init :: "(nat \<Rightarrow> u32) \<Rightarrow> u32 \<Rightarrow> u32 \<Rightarrow> ioport \<Rightarrow> idtst \<Rightarrow> ioport \<times> idtst" where
  "idt_init stub idt_addr screen_of_death io s =
     (let s = s\<lparr>idt := (\<lambda>_. idt_zero)\<rparr>;
          s = set_gates stub [0..<32] s;
          io = irq_remap io;
          s = set_gates stub [32..<48] s;
          s = idt_install idt_addr s
      in (io, s\<lparr>isr_handlers := (\<lambda>i. if i < 32 \<and> isr_handlers s i = 0 then screen_of_death
                                     else isr_handlers s i)\<rparr>))"

section \<open>Lemmas\<close>

lemma gate_halves:
  "push_bit 16 (ucast (ucast (drop_bit 16 (base AND 0xffff0000)) :: u16))
     OR ucast (ucast (base AND 0xffff) :: u16) = (base :: u32)"
proof (rule bit_word_eqI)
  have m: "(0xffff :: u32) = mask 16" "(0xffff0000 :: u32) = NOT (mask 16)"
    by (simp_all add: mask_eq_exp_minus_1)
  fix n assume "n < LENGTH(32)"
  then have "n < 32" by simp
  then consider "n < 16" | "16 \<le> n" "n < 32" by linarith
  then show "bit (push_bit 16 (ucast (ucast (drop_bit 16 (base AND 0xffff0000)) :: u16))
      OR (ucast (ucast (base AND 0xffff) :: u16) :: u32)) n \<longleftrightarrow> bit base n"
    unfolding m by cases (auto simp: bit_simps)
qed

lemma idt_get_set:
  "idt_get_gate n (idt_set_gate k base seg flags s) = (if n = k then base else idt_get_gate n s)"
  using gate_halves [of base]
  by (auto simp: idt_get_gate_def idt_set_gate_def word_unat_eq_iff)

lemma set_gates_idt:
  assumes "\<forall>n \<in> set ns. n < 256" and "k < 256"
  shows "idt (set_gates stub ns s) k = (if k \<in> set ns then idt (idt_set_gate (of_nat k) (stub k) 0x8 0x8e s) k
    else idt s k)"
    and "isr_handlers (set_gates stub ns s) = isr_handlers s"
proof -
  show "isr_handlers (set_gates stub ns s) = isr_handlers s"
    unfolding set_gates_def by (induction ns arbitrary: s) (auto simp: idt_set_gate_def)
  have n: "unat (of_nat n :: u8) = n" if "n < 256" for n
    using that by (simp add: unat_of_nat take_bit_eq_mod)
  show "idt (set_gates stub ns s) k = (if k \<in> set ns then idt (idt_set_gate (of_nat k) (stub k) 0x8 0x8e s) k
    else idt s k)"
    using assms unfolding set_gates_def
  proof (induction ns arbitrary: s)
    case (Cons a ns)
    then show ?case using n [of a] n [of k] by (auto simp: idt_set_gate_def)
  qed simp
qed

section \<open>Properties\<close>

text \<open>
  After \<open>idt_init\<close>: a vector \<open>n\<close> below 48 has a present ring-0 interrupt gate into the kernel
  code segment at its own stub; all other gates are not present; the two interrupt
  controllers have received the initialisation sequence with vector offsets \<open>0x20\<close> and
  \<open>0x28\<close>; and every exception has a handler, provided the fallback is not null.
\<close>

theorem idt_init_correct:
  assumes "n < 256"
  shows "case idt_init stub ia sod io s of (io', s') \<Rightarrow>
    (if n < 48 then idt_get_gate (of_nat n) s' = stub n \<and> segm (idt s' n) = 8 \<and> gate_flags (idt s' n) = 0x8e
     else idt s' n = idt_zero) \<and>
    idtr s' = (2047, ia) \<and>
    out_log io' = out_log io @ [(0x20, 0x11), (0xa0, 0x11), (0x21, 0x20), (0xa1, 0x28), (0x21, 0x04),
      (0xa1, 0x02), (0x21, 0x01), (0xa1, 0x01), (0x21, 0x00), (0xa1, 0x00)] \<and>
    (sod \<noteq> 0 \<and> n < 32 \<longrightarrow> isr_handlers s' n \<noteq> 0)"
proof -
  let ?s0 = "s\<lparr>idt := (\<lambda>_. idt_zero)\<rparr>"
  let ?s = "set_gates stub [32..<48] (set_gates stub [0..<32] ?s0)"
  have u: "unat (of_nat n :: u8) = n" using assms by (simp add: unat_of_nat take_bit_eq_mod)
  have g: "idt ?s n = (if n < 48 then idt (idt_set_gate (of_nat n) (stub n) 0x8 0x8e s) n else idt_zero)"
    using assms u by (auto simp: set_gates_idt idt_set_gate_def simp del: upt_rec_numeral)
  have "idt_get_gate (of_nat n) s' = stub n"
    if "idt s' n = idt (idt_set_gate (of_nat n) (stub n) 0x8 0x8e s) n" for s'
    using idt_get_set [of "of_nat n" "of_nat n" "stub n" 8 "0x8e" s] that u by (simp add: idt_get_gate_def)
  moreover have "segm (idt (idt_set_gate (of_nat n) (stub n) 8 0x8e s) n) = 8"
    "gate_flags (idt (idt_set_gate (of_nat n) (stub n) 8 0x8e s) n) = 0x8e"
    using u by (simp_all add: idt_set_gate_def)
  ultimately show ?thesis
    unfolding idt_init_def Let_def prod.case idt_install_def idt_load_def
    using g by (simp add: irq_remap_def outb_def del: upt_rec_numeral)
qed

theorem idt_init_correct_witness:
  "case idt_init of_nat 0x5000 7 \<lparr>out_log = [], in_val = (\<lambda>_ _. 0), in_pos = (\<lambda>_. 0)\<rparr>
      \<lparr>idt = (\<lambda>_. idt_zero), isr_handlers = (\<lambda>_. 0),
       irq_handlers = (\<lambda>_. \<lparr>irq_fn = 0, irq_pdir = 0\<rparr>), int_handlers = (\<lambda>_. 0), idtr = (0, 0)\<rparr>
    of (io', s') \<Rightarrow> idt_get_gate 14 s' = 14 \<and> idtr s' = (2047, 0x5000)"
  using idt_init_correct [where n = 14 and stub = of_nat and ia = "0x5000" and sod = 7
      and io = "\<lparr>out_log = [], in_val = (\<lambda>_ _. 0), in_pos = (\<lambda>_. 0)\<rparr>" and s =
      "\<lparr>idt = (\<lambda>_. idt_zero), isr_handlers = (\<lambda>_. 0),
       irq_handlers = (\<lambda>_. \<lparr>irq_fn = 0, irq_pdir = 0\<rparr>), int_handlers = (\<lambda>_. 0), idtr = (0, 0)\<rparr>"]
  by (simp split: prod.splits)

end
