(* ===== verification/Procs.thy ===== *)
theory Procs
  imports Stailq Segments Interrupts
begin

unbundle bit_operations_syntax

text \<open>
  Processes and the scheduler, \<^verbatim>\<open>kernel/proc.c\<close>, and the state of the whole kernel.

  A \<open>struct proc *\<close> is the index of the slot in \<open>procs\<close> (\<open>None\<close> for null).  The static local
  variable \<open>i\<close> of \<open>find_next_proc\<close> is the field \<open>fnp_i\<close>.  \<open>enum proc_state\<close>, \<open>struct proc\<close> and the
  static variables of the file are kept as they are.  The addresses of linked functions
  are arguments.  The \<open>int $0x7f\<close> of \<open>proc_schedule_without_irq\<close> pushes a trap frame and
  enters \<open>proc_schedule_after_irq\<close>; the address of that frame is the argument \<open>frame_addr\<close>.

  Shown: \<open>find_next_proc\<close> returns the next slot in round-robin order; a process that stays
  ready is chosen within 64 searches; what a scheduling step does and that it never
  changes another process; process ids stay unique and \<open>proc_find_by_pid\<close> finds them; the
  trap frame \<open>proc_new\<close> builds.
\<close>

section \<open>Definitions\<close>

datatype proc_state =
    PROC_UNUSED
  | PROC_RUNNING
  | PROC_READY
  | PROC_SEND_BLOCKED
  | PROC_RECV_BLOCKED
  | PROC_REPLY_BLOCKED

definition NPROCS :: nat where "NPROCS = 64"
definition MAX_PROC_NAME_LEN :: nat where "MAX_PROC_NAME_LEN = 32"

record proc =
  pid :: u32
  state :: proc_state
  pname :: "u8 list"
  privileged :: bool
  superuser :: bool
  trapframe :: u32
  kstack :: u32
  ustack :: u32
  pdir :: u32
  memsz :: u32
  loc_address :: u32
  loc_size :: u32
  recv_queue :: stailq_head

record pst =
  procs :: "nat \<Rightarrow> proc"
  next_pid :: u32
  idle :: "nat option"
  current_proc :: "nat option"
  scheduling_enabled :: bool
  fnp_i :: nat

text \<open>The kernel: memory and heap, segments, interrupt tables, ports, processes.\<close>

record kern =
  kheap :: heapst
  kseg :: segst
  kidt :: idtst
  kio :: ioport
  ktab :: pst

definition kmmu :: "kern \<Rightarrow> mmu" where
  "kmmu k = vmmu (hvms (kheap k))"

definition upd_mmu :: "(mmu \<Rightarrow> mmu) \<Rightarrow> kern \<Rightarrow> kern" where
  "upd_mmu f k = k\<lparr>kheap := (kheap k)\<lparr>hvms := (hvms (kheap k))\<lparr>vmmu := f (vmmu (hvms (kheap k)))\<rparr>\<rparr>\<rparr>"

definition upd_vms :: "vms \<Rightarrow> kern \<Rightarrow> kern" where
  "upd_vms v k = k\<lparr>kheap := (kheap k)\<lparr>hvms := v\<rparr>\<rparr>"

definition upd_proc :: "nat \<Rightarrow> (proc \<Rightarrow> proc) \<Rightarrow> pst \<Rightarrow> pst" where
  "upd_proc i f t = t\<lparr>procs := (procs t)(i := f (procs t i))\<rparr>"

subsection \<open>Looking for processes\<close>

fun fnp_loop :: "proc_state \<Rightarrow> pst \<Rightarrow> nat \<Rightarrow> nat \<Rightarrow> nat option \<times> nat" where
  "fnp_loop st t 0 i = (None, i)"
| "fnp_loop st t (Suc left) i =
     (if idle t = Some i then fnp_loop st t left ((i + 1) mod NPROCS)
      else if state (procs t i) = st then (Some i, i + 1)
      else fnp_loop st t left ((i + 1) mod NPROCS))"

definition find_next_proc :: "proc_state \<Rightarrow> pst \<Rightarrow> nat option \<times> pst" where
  "find_next_proc st t =
     (let (r, i) = fnp_loop st t NPROCS (fnp_i t mod NPROCS) in (r, t\<lparr>fnp_i := i\<rparr>))"

definition proc_find_by_pid :: "u32 \<Rightarrow> pst \<Rightarrow> nat option" where
  "proc_find_by_pid p t = find (\<lambda>i. pid (procs t i) = p) [0..<NPROCS]"

fun find_name_from :: "nat list \<Rightarrow> u8 list \<Rightarrow> pst \<Rightarrow> u32 res" where
  "find_name_from [] name t = Inr 0"
| "find_name_from (i # is) name t =
     kbind (streq (pname (procs t i)) name) (\<lambda>eq.
       if eq then Inr (pid (procs t i)) else find_name_from is name t)"

definition proc_find_by_name :: "u8 list \<Rightarrow> pst \<Rightarrow> u32 res" where
  "proc_find_by_name name t = find_name_from [0..<NPROCS] name t"

subsection \<open>States and scheduling flag\<close>

definition proc_set_state :: "u32 \<Rightarrow> proc_state \<Rightarrow> pst \<Rightarrow> pst res" where
  "proc_set_state p st t =
     (case proc_find_by_pid p t of
        None \<Rightarrow> Inl NullDeref
      | Some i \<Rightarrow> Inr (upd_proc i (\<lambda>q. q\<lparr>state := st\<rparr>) t))"

definition proc_awake :: "u32 \<Rightarrow> pst \<Rightarrow> pst res" where
  "proc_awake p t =
     (case proc_find_by_pid p t of
        None \<Rightarrow> Inl NullDeref
      | Some i \<Rightarrow> Inr (upd_proc i (\<lambda>q. q\<lparr>state := PROC_READY\<rparr>) t))"

definition proc_is_blocked :: "u32 \<Rightarrow> pst \<Rightarrow> bool res" where
  "proc_is_blocked p t =
     (case proc_find_by_pid p t of
        None \<Rightarrow> Inl NullDeref
      | Some i \<Rightarrow> Inr (state (procs t i) = PROC_SEND_BLOCKED \<or> state (procs t i) = PROC_RECV_BLOCKED
          \<or> state (procs t i) = PROC_REPLY_BLOCKED))"

definition proc_disable_scheduling :: "pst \<Rightarrow> pst" where
  "proc_disable_scheduling t = t\<lparr>scheduling_enabled := False\<rparr>"

definition proc_enable_scheduling :: "pst \<Rightarrow> pst" where
  "proc_enable_scheduling t = t\<lparr>scheduling_enabled := True\<rparr>"

definition proc_scheduling_enabled :: "pst \<Rightarrow> bool" where
  "proc_scheduling_enabled t = scheduling_enabled t"

subsection \<open>The scheduler\<close>

definition switch_to :: "nat \<Rightarrow> kern \<Rightarrow> kern" where
  "switch_to n k =
     (let p = procs (ktab k) n;
          k = k\<lparr>kseg := tss_set_esp (kstack p) (tss_set_ss SEG_KDATA (kseg k))\<rparr>
      in upd_mmu (set_cr3 (pdir p)) k)"

definition proc_schedule_after_irq :: "u32 \<Rightarrow> kern \<Rightarrow> (u32 \<times> kern) res" where
  "proc_schedule_after_irq cpu_state k =
     (if \<not> scheduling_enabled (ktab k) then Inr (cpu_state, k)
      else case current_proc (ktab k) of
        None \<Rightarrow> Inr (cpu_state, k)
      | Some c \<Rightarrow>
          (let t = upd_proc c (\<lambda>p. p\<lparr>trapframe := cpu_state\<rparr>) (ktab k) in
           kbind (proc_is_blocked (pid (procs t c)) t) (\<lambda>blocked.
             let t = (if blocked then t else upd_proc c (\<lambda>p. p\<lparr>state := PROC_READY\<rparr>) t);
                 (r, t) = find_next_proc PROC_READY t;
                 next_proc = (case r of None \<Rightarrow> idle t | Some n \<Rightarrow> Some n)
             in if next_proc = Some c then Inr (cpu_state, k\<lparr>ktab := t\<rparr>)
                else case next_proc of
                  None \<Rightarrow> Inl NullDeref
                | Some n \<Rightarrow>
                    Inr (trapframe (procs t n), switch_to n (k\<lparr>ktab := t\<lparr>current_proc := Some n\<rparr>\<rparr>)))))"

definition proc_schedule_without_irq :: "u32 \<Rightarrow> kern \<Rightarrow> (u32 \<times> kern) res" where
  "proc_schedule_without_irq frame_addr k = proc_schedule_after_irq frame_addr k"

subsection \<open>New processes\<close>

fun push_words :: "u32 list \<Rightarrow> u32 \<Rightarrow> mmu \<Rightarrow> (u32 \<times> mmu) res" where
  "push_words [] sp m = Inr (sp, m)"
| "push_words (w # ws) sp m = kbind (vstore32 m (sp - 4) w) (\<lambda>m. push_words ws (sp - 4) m)"

text \<open>ss, useresp, eflags, cs, eip; err, num; eax to edi; ds, es, fs, gs.\<close>

definition initial_frame :: "u32 \<Rightarrow> u32 \<Rightarrow> u32 list" where
  "initial_frame kstk proc_load =
     [SEG_KDATA, kstk, 0x200, SEG_KCODE, proc_load,
      0xdeadbeef, 0xfeedbabe,
      0, 0, 0, 0, 0, 0, 0, 0,
      SEG_KDATA, SEG_KDATA, SEG_KDATA, SEG_KDATA]"

definition proc_new :: "u32 \<Rightarrow> u8 list \<Rightarrow> bool \<Rightarrow> bool \<Rightarrow> kern \<Rightarrow> (nat \<times> kern) res" where
  "proc_new proc_load name priv super k =
     (let (slot, t) = find_next_proc PROC_UNUSED (ktab k); k = k\<lparr>ktab := t\<rparr> in
      kbind (pm_alloc (vpm (hvms (kheap k)))) (\<lambda>(stack, pm').
      kbind (map_page stack stack PTE_W ((hvms (kheap k))\<lparr>vpm := pm'\<rparr>)) (\<lambda>v.
      case slot of
        None \<Rightarrow> Inl NullDeref
      | Some i \<Rightarrow>
          kbind (vm_copy_kernel_pdir v) (\<lambda>(pd, v).
          if length name < MAX_PROC_NAME_LEN then Inl OutOfBounds
          else
          kbind (push_words (initial_frame (stack + PAGE_SIZE) proc_load) (stack + PAGE_SIZE) (vmmu v)) (\<lambda>(sp, m).
            let p = (procs t i)\<lparr>pid := next_pid t, state := PROC_READY, pdir := pd, memsz := PAGE_SIZE,
                      privileged := priv, kstack := stack + PAGE_SIZE, recv_queue := STAILQ_INIT,
                      pname := take MAX_PROC_NAME_LEN name @ drop MAX_PROC_NAME_LEN (pname (procs t i)),
                      trapframe := sp\<rparr>;
                t = t\<lparr>next_pid := next_pid t + 1, procs := (procs t)(i := p), current_proc := Some i\<rparr>
            in Inr (i, (upd_vms (v\<lparr>vmmu := m\<rparr>) k)\<lparr>ktab := t\<rparr>))))))"

definition proc_new_from_memory ::
  "u32 \<Rightarrow> u8 list \<Rightarrow> bool \<Rightarrow> bool \<Rightarrow> u32 \<Rightarrow> u32 \<Rightarrow> kern \<Rightarrow> (nat \<times> kern) res" where
  "proc_new_from_memory proc_load name priv super addr sz k =
     kbind (proc_new proc_load name priv super k) (\<lambda>(i, k).
       Inr (i, k\<lparr>ktab := upd_proc i (\<lambda>p. p\<lparr>loc_address := addr, loc_size := sz\<rparr>) (ktab k)\<rparr>))"

text \<open>The addresses and the strings the linker provides.\<close>

record link_env =
  int127_stub :: u32
  schedule_fn :: u32
  proc_load_fn :: u32
  msg_dispatcher_fn :: u32
  proc_idle_fn :: u32
  kernel_name :: "u8 list"
  idle_name :: "u8 list"

definition proc_earlyinit :: "link_env \<Rightarrow> kern \<Rightarrow> kern res" where
  "proc_earlyinit env k =
     (let t = (ktab k)\<lparr>procs := (\<lambda>i. if i < NPROCS then (procs (ktab k) i)\<lparr>pid := - 1, state := PROC_UNUSED\<rparr>
                                   else procs (ktab k) i)\<rparr>;
          k = k\<lparr>ktab := t, kidt := idt_set_gate 0x7f (int127_stub env) 8 0xee (kidt k)\<rparr>
      in kbind (int_install_handler 0x7f (schedule_fn env) (kidt k)) (\<lambda>d.
         let k = k\<lparr>kidt := d\<rparr> in
         kbind (proc_new_from_memory (proc_load_fn env) (kernel_name env) True True (msg_dispatcher_fn env) 0 k)
           (\<lambda>(i, k).
         let k = k\<lparr>ktab := (ktab k)\<lparr>current_proc := Some i\<rparr>\<rparr> in
         kbind (proc_new_from_memory (proc_load_fn env) (idle_name env) True True (proc_idle_fn env) 0 k)
           (\<lambda>(i, k). Inr (k\<lparr>ktab := (ktab k)\<lparr>idle := Some i, current_proc := Some i\<rparr>\<rparr>)))))"

section \<open>Lemmas\<close>

subsection \<open>find\_next\_proc\<close>

definition eligible :: "proc_state \<Rightarrow> pst \<Rightarrow> nat \<Rightarrow> bool" where
  "eligible st t j \<longleftrightarrow> idle t \<noteq> Some j \<and> state (procs t j) = st"

lemma fnp_loop_spec:
  assumes "i < NPROCS"
  shows "case fnp_loop st t left i of
      (None, i') \<Rightarrow> (\<forall>e < left. \<not> eligible st t ((i + e) mod NPROCS)) \<and> i' = (i + left) mod NPROCS
    | (Some j, i') \<Rightarrow> \<exists>d < left. j = (i + d) mod NPROCS \<and> eligible st t j \<and>
        (\<forall>e < d. \<not> eligible st t ((i + e) mod NPROCS)) \<and> i' = j + 1"
  using assms
proof (induction left arbitrary: i)
  case 0
  then show ?case by simp
next
  case (Suc left)
  let ?i = "(i + 1) mod NPROCS"
  have i: "?i < NPROCS" by (simp add: NPROCS_def)
  have sh: "(?i + e) mod NPROCS = (i + Suc e) mod NPROCS" for e by (simp add: mod_add_left_eq)
  show ?case
  proof (cases "eligible st t i")
    case True
    then show ?thesis using Suc.prems by (auto simp: eligible_def intro!: exI [of _ 0])
  next
    case False
    then have "fnp_loop st t (Suc left) i = fnp_loop st t left ?i" by (auto simp: eligible_def)
    moreover have "\<not> eligible st t ((i + e) mod NPROCS)"
      if "\<forall>e' < n. \<not> eligible st t ((?i + e') mod NPROCS)" "e < Suc n" for e n
      using that False Suc.prems unfolding sh by (cases e) auto
    ultimately have loop: "fnp_loop st t (Suc left) i = fnp_loop st t left ?i"
      and none: "\<And>e n. \<forall>e' < n. \<not> eligible st t ((?i + e') mod NPROCS) \<Longrightarrow> e < Suc n \<Longrightarrow>
        \<not> eligible st t ((i + e) mod NPROCS)" by blast+
    obtain r i' where r: "fnp_loop st t left ?i = (r, i')" by fastforce
    show ?thesis
    proof (cases r)
      case None
      then show ?thesis using Suc.IH [OF i] none [of left] sh [of left] unfolding loop r by simp
    next
      case (Some j)
      then obtain d where d: "d < left" "j = (i + Suc d) mod NPROCS" "eligible st t j" "i' = j + 1"
        "\<forall>e < d. \<not> eligible st t ((?i + e) mod NPROCS)"
        using Suc.IH [OF i] unfolding r sh by auto
      then show ?thesis
        unfolding loop r Some prod.case option.case
        by (intro exI [of _ "Suc d"] conjI allI impI none [OF d(5)]) simp_all
    qed
  qed
qed

lemma find_next_proc_spec:
  "case find_next_proc st t of
      (None, t') \<Rightarrow> (\<forall>j < NPROCS. \<not> eligible st t j) \<and> t' = t\<lparr>fnp_i := fnp_i t mod NPROCS\<rparr>
    | (Some j, t') \<Rightarrow> \<exists>d < NPROCS. j = (fnp_i t + d) mod NPROCS \<and> eligible st t j \<and>
        (\<forall>e < d. \<not> eligible st t ((fnp_i t + e) mod NPROCS)) \<and> t' = t\<lparr>fnp_i := j + 1\<rparr>"
proof -
  let ?i = "fnp_i t mod NPROCS"
  have i: "?i < NPROCS" by (simp add: NPROCS_def)
  have m: "(?i + e) mod NPROCS = (fnp_i t + e) mod NPROCS" for e by (simp add: mod_add_left_eq)
  obtain r i' where r: "fnp_loop st t NPROCS ?i = (r, i')" by fastforce
  have all: "\<forall>j < NPROCS. \<not> eligible st t j" if "\<forall>e < NPROCS. \<not> eligible st t ((?i + e) mod NPROCS)"
  proof (intro allI impI)
    fix j assume j: "j < NPROCS"
    have "?i + (j + (NPROCS - ?i)) = j + NPROCS" using i by linarith
    then have "(?i + (j + (NPROCS - ?i)) mod NPROCS) mod NPROCS = j"
      using j by (metis mod_add_right_eq mod_add_self2 mod_less)
    moreover have "(j + (NPROCS - ?i)) mod NPROCS < NPROCS" by (simp add: NPROCS_def)
    ultimately show "\<not> eligible st t j" using that by metis
  qed
  show ?thesis
    using fnp_loop_spec [OF i, where st = st and t = t and left = NPROCS] all unfolding find_next_proc_def r m
    by (cases r) auto
qed

lemma find_next_proc_cases:
  obtains (found) j d where "find_next_proc st t = (Some j, t\<lparr>fnp_i := j + 1\<rparr>)" and "d < NPROCS"
      and "j = (fnp_i t + d) mod NPROCS" and "eligible st t j"
      and "\<forall>e < d. \<not> eligible st t ((fnp_i t + e) mod NPROCS)"
  | (none) "find_next_proc st t = (None, t\<lparr>fnp_i := fnp_i t mod NPROCS\<rparr>)"
      and "\<forall>j < NPROCS. \<not> eligible st t j"
proof -
  obtain r t' where r: "find_next_proc st t = (r, t')" by fastforce
  show ?thesis
    using find_next_proc_spec [of st t] r found none by (cases r) auto
qed

lemma find_next_proc_frame:
  "procs (snd (find_next_proc st t)) = procs t" "idle (snd (find_next_proc st t)) = idle t"
  by (simp_all add: find_next_proc_def split: prod.splits)

text \<open>
  The distance from the cursor to a slot shrinks with every search that returns another
  slot, so the slot is reached.
\<close>

definition cursor_dist :: "pst \<Rightarrow> nat \<Rightarrow> nat" where
  "cursor_dist t j = (j + (NPROCS - fnp_i t mod NPROCS)) mod NPROCS"

lemma cursor_dist_reach:
  assumes "j < NPROCS"
  shows "(fnp_i t + cursor_dist t j) mod NPROCS = j" and "cursor_dist t j < NPROCS"
proof -
  have "fnp_i t mod NPROCS < NPROCS" by (simp add: NPROCS_def)
  then have "fnp_i t mod NPROCS + (j + (NPROCS - fnp_i t mod NPROCS)) = j + NPROCS" by linarith
  then show "(fnp_i t + cursor_dist t j) mod NPROCS = j"
    unfolding cursor_dist_def using assms by (metis mod_add_right_eq mod_add_left_eq mod_add_self2 mod_less)
  show "cursor_dist t j < NPROCS" by (simp add: cursor_dist_def NPROCS_def)
qed

lemma mod_add_inject:
  assumes "(a + b) mod n = (a + c) mod (n :: nat)" and "b < n" and "c < n"
  shows "b = c"
proof -
  have *: "x = y" if "(a + x) mod n = (a + y) mod n" "x \<le> y" "y < n" for x y
  proof -
    have "n dvd (a + y) - (a + x)" using that by (subst mod_eq_dvd_iff_nat [symmetric]) auto
    then show ?thesis using that by (auto dest: dvd_imp_le)
  qed
  show ?thesis using assms * [of b c] * [of c b] by (cases "b \<le> c") auto
qed

lemma cursor_dist_unique:
  assumes "j < NPROCS" and "(fnp_i t + d) mod NPROCS = j" and "d < NPROCS"
  shows "cursor_dist t j = d"
  using mod_add_inject [of "fnp_i t" "cursor_dist t j" NPROCS d] cursor_dist_reach [OF assms(1), of t]
    assms(2,3) by simp

lemma search_approaches:
  assumes j: "j < NPROCS" "eligible st t j" and ne: "fst (find_next_proc st t) \<noteq> Some j"
    and t': "fnp_i t' = fnp_i (snd (find_next_proc st t))"
  shows "cursor_dist t' j < cursor_dist t j"
proof (cases rule: find_next_proc_cases [of st t])
  case (found k d)
  let ?c = "cursor_dist t j"
  have "\<not> ?c < d" using found(5) j(2) cursor_dist_reach(1) [OF j(1)] by metis
  moreover have "d \<noteq> ?c" using found(1,3) ne cursor_dist_reach(1) [OF j(1)] by auto
  ultimately have dc: "d < ?c" by simp
  have c: "?c < NPROCS" "(fnp_i t + ?c) mod NPROCS = j" using cursor_dist_reach [OF j(1)] by auto
  have "fnp_i t' = k + 1" using t' found(1) by simp
  then have "fnp_i t' + (?c - d - 1) = (fnp_i t + d) mod NPROCS + (?c - d)"
    unfolding found(3) using dc by linarith
  then have "(fnp_i t' + (?c - d - 1)) mod NPROCS = ((fnp_i t + d) mod NPROCS + (?c - d)) mod NPROCS"
    by (rule arg_cong)
  also have "\<dots> = (fnp_i t + d + (?c - d)) mod NPROCS" by (rule mod_add_left_eq)
  also have "\<dots> = j" using c(2) dc by simp
  finally have "cursor_dist t' j = ?c - d - 1" using c(1) by (intro cursor_dist_unique [OF j(1)]) auto
  with dc show ?thesis by simp
next
  case none
  with j show ?thesis by blast
qed

subsection \<open>Process ids\<close>

lemma find_by_pid_None: "proc_find_by_pid p t = None \<longleftrightarrow> (\<forall>i < NPROCS. pid (procs t i) \<noteq> p)"
  unfolding proc_find_by_pid_def by (auto simp: find_None_iff)

lemma find_by_pid_Some:
  "proc_find_by_pid p t = Some i \<Longrightarrow> i < NPROCS \<and> pid (procs t i) = p"
  unfolding proc_find_by_pid_def by (auto simp: find_Some_iff)

text \<open>
  Process ids are the numbers handed out so far, and the slots in use have different ones.
  This holds until the 32-bit counter wraps.
\<close>

definition used_slot :: "pst \<Rightarrow> nat \<Rightarrow> bool" where
  "used_slot t i \<longleftrightarrow> i < NPROCS \<and> state (procs t i) \<noteq> PROC_UNUSED"

definition pids_ok :: "pst \<Rightarrow> bool" where
  "pids_ok t \<longleftrightarrow>
     (\<forall>i. used_slot t i \<longrightarrow> pid (procs t i) < next_pid t) \<and>
     (\<forall>i j. used_slot t i \<longrightarrow> used_slot t j \<longrightarrow> pid (procs t i) = pid (procs t j) \<longrightarrow> i = j) \<and>
     (\<forall>i < NPROCS. state (procs t i) = PROC_UNUSED \<longrightarrow> pid (procs t i) = - 1)"

lemma find_by_pid_unique:
  assumes ok: "pids_ok t" and i: "used_slot t i"
  shows "proc_find_by_pid (pid (procs t i)) t = Some i"
proof -
  have i64: "i < NPROCS" using i by (simp add: used_slot_def)
  then obtain k where k: "proc_find_by_pid (pid (procs t i)) t = Some k"
    using find_by_pid_None [of "pid (procs t i)" t] by (cases "proc_find_by_pid (pid (procs t i)) t") auto
  from find_by_pid_Some [OF k] have k': "k < NPROCS" "pid (procs t k) = pid (procs t i)" by auto
  have "state (procs t k) \<noteq> PROC_UNUSED"
  proof
    assume "state (procs t k) = PROC_UNUSED"
    then have "pid (procs t i) = - 1" using ok k' by (auto simp: pids_ok_def)
    moreover have "pid (procs t i) < next_pid t" using ok i by (simp add: pids_ok_def)
    ultimately show False using word_n1_ge [of "next_pid t"] by (simp add: not_less [symmetric])
  qed
  then have "used_slot t k" using k' by (simp add: used_slot_def)
  then have "k = i" using ok i k'(2) by (auto simp: pids_ok_def)
  with k show ?thesis by simp
qed

text \<open>A new process in an unused slot keeps the ids unique.\<close>

lemma pids_ok_new:
  assumes ok: "pids_ok t" and i: "i < NPROCS" "state (procs t i) = PROC_UNUSED" and nx: "next_pid t \<noteq> - 1"
    and t': "procs t' = (procs t)(i := p)" "next_pid t' = next_pid t + 1"
    and p: "pid p = next_pid t" "state p \<noteq> PROC_UNUSED"
  shows "pids_ok t'" and "used_slot t' i"
proof -
  have less: "x < next_pid t + 1 \<longleftrightarrow> x < next_pid t \<or> x = next_pid t" for x
  proof -
    have "1 + next_pid t \<noteq> 0" using nx by (metis add_eq_0_iff)
    then have "unat (next_pid t + 1) = Suc (unat (next_pid t))" using unatSuc by (metis add.commute)
    then show ?thesis by (simp add: word_less_nat_alt u32_eq_iff less_Suc_eq)
  qed
  show "pids_ok t'"
    using ok i(2) p unfolding pids_ok_def used_slot_def t' by (auto simp: less)
  show "used_slot t' i" using i(1) p(2) by (simp add: used_slot_def t')
qed

subsection \<open>The initial trap frame\<close>

lemma push_words_page:
  assumes "page_aligned v" and "translate m v = Inr p" and "page_aligned p" and "p \<notin> walk_bytes m"
    and "length ws \<le> k" and "k \<le> 1024"
  shows "\<exists>f. push_words ws (v + 4 * of_nat k) m = Inr (v + 4 * of_nat (k - length ws), m\<lparr>mem := f\<rparr>) \<and>
    (\<forall>q. q AND 0xfffff000 \<noteq> p \<longrightarrow> f q = mem m q) \<and>
    (\<forall>i < length ws. load32 f (p + 4 * of_nat (k - 1 - i)) = ws ! i) \<and>
    (\<forall>j. k \<le> j \<and> j < 1024 \<longrightarrow> load32 f (p + 4 * of_nat j) = load32 (mem m) (p + 4 * of_nat j))"
  using assms
proof (induction ws arbitrary: k m)
  case Nil
  then show ?case by (intro exI [of _ "mem m"]) simp
next
  case (Cons w ws)
  let ?k = "k - 1"
  have k: "0 < k" "?k < 1024" "length ws \<le> ?k" "?k \<le> 1024" using Cons.prems(5,6) by auto
  let ?a = "p + 4 * of_nat ?k"
  let ?f = "store32 (mem m) ?a w"
  have lt: "(of_nat ?k :: u32) < 1024" by (rule of_nat_1024 [OF k(2)])
  have sp: "v + 4 * of_nat k - 4 = v + 4 * of_nat ?k" using k(1) by (simp add: of_nat_diff)
  have pg: "v AND 0xfffff000 = v" using PALIGNDOWN_aligned [OF Cons.prems(1)] by (simp add: PALIGNDOWN_eq)
  have pp: "p AND 0xfffff000 = p" using PALIGNDOWN_aligned [OF Cons.prems(3)] by (simp add: PALIGNDOWN_eq)
  have "translate m (v + 4 * of_nat ?k) = Inr ?a"
    using translate_same_page [OF Cons.prems(2), of "v + 4 * of_nat ?k"] pg pp
      page_add_offset(2,3) [OF Cons.prems(1) mult4_less [OF lt]] by simp
  then have st: "vstore32 m (v + 4 * of_nat k - 4) w = Inr (m\<lparr>mem := ?f\<rparr>)"
    unfolding sp using vstore32_aligned [OF _ aligned4_entry [OF Cons.prems(1)], of m "of_nat ?k" ?a w] by simp
  have out: "\<forall>q. q AND 0xfffff000 \<noteq> p \<longrightarrow> ?f q = mem m q"
    using page_store_frame [OF Cons.prems(3) lt] by blast
  note ow = outside_walk [OF Cons.prems(4,3) out]
  have ld: "load32 ?f (p + 4 * of_nat j) = (if j = ?k then w else load32 (mem m) (p + 4 * of_nat j))"
    if "j < 1024" for j
    using load32_store_entry [OF Cons.prems(3,3) lt of_nat_1024 [OF that]] of_nat_eq_1024 [OF k(2) that]
    by auto
  have "translate (m\<lparr>mem := ?f\<rparr>) v = Inr p" "p \<notin> walk_bytes (m\<lparr>mem := ?f\<rparr>)"
    using ow(1,2) Cons.prems(2,4) by simp_all
  from Cons.IH [OF Cons.prems(1) this(1) Cons.prems(3) this(2) k(3,4)] obtain f where
    f: "push_words ws (v + 4 * of_nat ?k) (m\<lparr>mem := ?f\<rparr>) = Inr (v + 4 * of_nat (?k - length ws), m\<lparr>mem := f\<rparr>)"
      "\<forall>q. q AND 0xfffff000 \<noteq> p \<longrightarrow> f q = ?f q"
      "\<forall>i < length ws. load32 f (p + 4 * of_nat (?k - 1 - i)) = ws ! i"
      "\<forall>j. ?k \<le> j \<and> j < 1024 \<longrightarrow> load32 f (p + 4 * of_nat j) = load32 ?f (p + 4 * of_nat j)" by auto
  show ?case
  proof (intro exI [of _ f] conjI allI impI)
    show "push_words (w # ws) (v + 4 * of_nat k) m = Inr (v + 4 * of_nat (k - length (w # ws)), m\<lparr>mem := f\<rparr>)"
      using st f(1) unfolding push_words.simps sp by simp
    fix q assume "q AND 0xfffff000 \<noteq> p"
    then show "f q = mem m q" using f(2) out by simp
  next
    fix i assume i: "i < length (w # ws)"
    show "load32 f (p + 4 * of_nat (k - 1 - i)) = (w # ws) ! i"
    proof (cases i)
      case 0
      then show ?thesis using f(4) ld [OF k(2)] k(2) by simp
    next
      case (Suc i')
      then have "k - 1 - i = ?k - 1 - i'" by simp
      then show ?thesis using f(3) Suc i by simp
    qed
  next
    fix j assume j: "k \<le> j \<and> j < 1024"
    then have "load32 f (p + 4 * of_nat j) = load32 ?f (p + 4 * of_nat j)" using f(4) k(1) by auto
    also have "\<dots> = load32 (mem m) (p + 4 * of_nat j)" using ld [of j] j k(1) by auto
    finally show "load32 f (p + 4 * of_nat j) = load32 (mem m) (p + 4 * of_nat j)" .
  qed
qed

subsection \<open>A scheduling step\<close>

definition sched_save :: "u32 \<Rightarrow> proc \<Rightarrow> proc" where
  "sched_save fr p = p\<lparr>trapframe := fr,
     state := (if state p \<in> {PROC_SEND_BLOCKED, PROC_RECV_BLOCKED, PROC_REPLY_BLOCKED} then state p else PROC_READY)\<rparr>"

lemma proc_schedule_effect:
  assumes "scheduling_enabled (ktab k)" and "current_proc (ktab k) = Some c" and "used_slot (ktab k) c"
    and "idle (ktab k) = Some d" and "pids_ok (ktab k)"
  obtains n i t where "t = (ktab k)\<lparr>procs := (procs (ktab k))(c := sched_save fr (procs (ktab k) c)), fnp_i := i\<rparr>"
    and "eligible PROC_READY t n \<and> n < NPROCS \<or> n = d \<and> (\<forall>j < NPROCS. \<not> eligible PROC_READY t j)"
    and "proc_schedule_after_irq fr k = (if n = c then Inr (fr, k\<lparr>ktab := t\<rparr>)
      else Inr (trapframe (procs t n), switch_to n (k\<lparr>ktab := t\<lparr>current_proc := Some n\<rparr>\<rparr>)))"
proof -
  let ?t = "ktab k" and ?B = "{PROC_SEND_BLOCKED, PROC_RECV_BLOCKED, PROC_REPLY_BLOCKED}"
  let ?t1 = "upd_proc c (\<lambda>p. p\<lparr>trapframe := fr\<rparr>) ?t"
  let ?t2 = "?t\<lparr>procs := (procs ?t)(c := sched_save fr (procs ?t c))\<rparr>"
  have "proc_find_by_pid (pid (procs ?t1 c)) ?t1 = proc_find_by_pid (pid (procs ?t c)) ?t"
    unfolding proc_find_by_pid_def upd_proc_def by (rule find_cong) auto
  then have bl: "proc_is_blocked (pid (procs ?t1 c)) ?t1 = Inr (state (procs ?t c) \<in> ?B)"
    using find_by_pid_unique [OF assms(5,3)] by (simp add: proc_is_blocked_def upd_proc_def)
  have t2: "(if state (procs ?t c) \<in> ?B then ?t1 else upd_proc c (\<lambda>p. p\<lparr>state := PROC_READY\<rparr>) ?t1) = ?t2"
    by (auto simp: upd_proc_def sched_save_def)
  have sch: "proc_schedule_after_irq fr k =
      (let (r, t) = find_next_proc PROC_READY ?t2;
           next_proc = (case r of None \<Rightarrow> idle t | Some n \<Rightarrow> Some n)
       in if next_proc = Some c then Inr (fr, k\<lparr>ktab := t\<rparr>)
          else case next_proc of None \<Rightarrow> Inl NullDeref
          | Some n \<Rightarrow> Inr (trapframe (procs t n), switch_to n (k\<lparr>ktab := t\<lparr>current_proc := Some n\<rparr>\<rparr>)))"
    unfolding proc_schedule_after_irq_def Let_def assms(2) option.case bl kbind_Inr t2
    using assms(1) by simp
  obtain r i where r: "find_next_proc PROC_READY ?t2 = (r, ?t2\<lparr>fnp_i := i\<rparr>)"
    "case r of None \<Rightarrow> \<forall>j < NPROCS. \<not> eligible PROC_READY ?t2 j | Some n \<Rightarrow> eligible PROC_READY ?t2 n \<and> n < NPROCS"
  proof (cases rule: find_next_proc_cases [of PROC_READY ?t2])
    case (found j d)
    then have "j < NPROCS" by (simp add: NPROCS_def)
    with found show ?thesis by (auto intro: that)
  qed (auto intro: that)
  define n where "n = (case r of None \<Rightarrow> d | Some n \<Rightarrow> n)"
  let ?t3 = "?t2\<lparr>fnp_i := i\<rparr>"
  have el: "eligible PROC_READY ?t3 j = eligible PROC_READY ?t2 j" for j by (simp add: eligible_def)
  show ?thesis
  proof (rule that [of ?t3 i n])
    show "proc_schedule_after_irq fr k = (if n = c then Inr (fr, k\<lparr>ktab := ?t3\<rparr>)
      else Inr (trapframe (procs ?t3 n), switch_to n (k\<lparr>ktab := ?t3\<lparr>current_proc := Some n\<rparr>\<rparr>)))"
      unfolding sch r(1) n_def using assms(4) by (cases r) auto
    show "eligible PROC_READY ?t3 n \<and> n < NPROCS \<or> n = d \<and> (\<forall>j < NPROCS. \<not> eligible PROC_READY ?t3 j)"
      unfolding el using r(2) by (cases r) (auto simp: n_def)
  qed simp
qed

subsection \<open>proc\_new\<close>

text \<open>
  The frames \<open>stk\<close> and \<open>pd\<close> that \<open>proc_new\<close> takes for the kernel stack and the page directory
  are usable when each is unmapped at its own address below an existing page table and is
  not part of the page tables.
\<close>

definition fresh_frame :: "mmu \<Rightarrow> u32 \<Rightarrow> bool" where
  "fresh_frame m p \<longleftrightarrow> page_aligned p \<and> has_table m (vm_pdir_idx p) \<and>
     translate m p = Inl (PageFault p) \<and> p \<notin> walk_bytes m"

definition new_proc :: "nat \<Rightarrow> u8 list \<Rightarrow> bool \<Rightarrow> u32 \<Rightarrow> u32 \<Rightarrow> pst \<Rightarrow> proc" where
  "new_proc i name priv stk pd t =
     (procs t i)\<lparr>pid := next_pid t, state := PROC_READY, pdir := pd, memsz := PAGE_SIZE,
        privileged := priv, kstack := stk + PAGE_SIZE, recv_queue := STAILQ_INIT,
        pname := take MAX_PROC_NAME_LEN name @ drop MAX_PROC_NAME_LEN (pname (procs t i)),
        trapframe := stk + PAGE_SIZE - 76\<rparr>"

lemma page_of_aligned: "page_aligned p \<Longrightarrow> p AND 0xfffff000 = p"
  using PALIGNDOWN_aligned [of p] by (simp add: PALIGNDOWN_eq)

lemma proc_new_effect:
  assumes ok: "pt_ok (kmmu k)"
    and pm: "pm_alloc (vpm (hvms (kheap k))) = Inr (stk, pm1)" "pm_alloc pm1 = Inr (pd, pm2)"
    and fr: "fresh_frame (kmmu k) stk" "fresh_frame (kmmu k) pd" "stk \<noteq> pd" "pd \<noteq> 0"
    and name: "MAX_PROC_NAME_LEN \<le> length name"
    and slot: "find_next_proc PROC_UNUSED (ktab k) = (Some i, (ktab k)\<lparr>fnp_i := i + 1\<rparr>)"
  obtains k' where "proc_new pl name priv su k = Inr (i, k')"
    and "ktab k' = (ktab k)\<lparr>fnp_i := i + 1, next_pid := next_pid (ktab k) + 1,
           procs := (procs (ktab k))(i := new_proc i name priv stk pd (ktab k)), current_proc := Some i\<rparr>"
    and "\<And>j. j < 19 \<Longrightarrow> vload32 (kmmu k') (stk + PAGE_SIZE - 76 + 4 * of_nat j) =
           Inr (rev (initial_frame (stk + PAGE_SIZE) pl) ! j)"
    and "cr3 (kmmu k') = cr3 (kmmu k)" and "pt_ok (kmmu k')"
    and "\<And>w. vm_pdir_idx w \<noteq> 1023 \<Longrightarrow> translate (kmmu k') w =
           (if w AND 0xfffff000 = stk \<or> w AND 0xfffff000 = pd then Inr w else translate (kmmu k) w)"
proof -
  let ?v = "(hvms (kheap k))\<lparr>vpm := pm1\<rparr>"
  note fs = fr(1) [unfolded fresh_frame_def] and fp = fr(2) [unfolded fresh_frame_def]
  have al: "stk AND 0xfffff000 = stk" "pd AND 0xfffff000 = pd" "PALIGNDOWN stk = stk"
    using fs fp page_of_aligned PALIGNDOWN_aligned by auto
  have h: "pt_ok (vmmu ?v)" "has_table (vmmu ?v) (vm_pdir_idx stk)" "low_flags PTE_W"
    "translate (vmmu ?v) stk = Inl (PageFault stk)"
    using ok fs by (simp_all add: kmmu_def low_flags_def flag_defs)
  obtain v1 where v1: "map_page stk stk PTE_W ?v = Inr v1" "vpm v1 = vpm ?v" "pt_ok (vmmu v1)"
    "cr3 (vmmu v1) = cr3 (vmmu ?v)" "\<And>d. has_table (vmmu v1) d = has_table (vmmu ?v) d"
    "walk_bytes (vmmu v1) = walk_bytes (vmmu ?v)"
    "\<And>w. vm_pdir_idx w \<noteq> 1023 \<Longrightarrow> translate (vmmu v1) w =
        (if w AND 0xfffff000 = stk then Inr (stk + (w AND 0xfff)) else translate (vmmu ?v) w)"
    by (rule map_page_absent [OF h, of stk, unfolded al]) (rule that)
  have dx: "vm_pdir_idx stk \<noteq> 1023" "vm_pdir_idx pd \<noteq> 1023" using fs fp by (auto simp: has_table_def)
  have c: "pm_alloc (vpm v1) = Inr (pd, pm2)" "page_aligned pd" "pd \<notin> walk_bytes (vmmu v1)"
    "has_table (vmmu v1) (vm_pdir_idx pd)" "translate (vmmu v1) pd = Inl (PageFault pd)"
    using pm(2) v1(2,5,6) v1(7) [OF dx(2)] fp fr(3) al by (simp_all add: kmmu_def)
  obtain v2 where v2: "vm_copy_kernel_pdir v1 = Inr (pd, v2)" "vpm v2 = pm2" "cr3 (vmmu v2) = cr3 (vmmu v1)"
    "pt_ok (vmmu v2)" "walk_bytes (vmmu v2) = walk_bytes (vmmu v1)"
    "\<And>w. vm_pdir_idx w \<noteq> 1023 \<Longrightarrow> translate (vmmu v2) w =
       (if w AND 0xfffff000 = pd then Inr w else translate (vmmu v1) w)"
    using vm_copy_kernel_pdir_effect [OF v1(3) c(1) fr(4) c(2-5)] by blast
  have tr: "translate (vmmu v2) w =
      (if w AND 0xfffff000 = stk \<or> w AND 0xfffff000 = pd then Inr w else translate (kmmu k) w)"
    if "vm_pdir_idx w \<noteq> 1023" for w
    using v2(6) [OF that] v1(7) [OF that] page_offset_sum [of w] fr(3) by (auto simp: kmmu_def)
  have st: "page_aligned stk" "translate (vmmu v2) stk = Inr stk" "stk \<notin> walk_bytes (vmmu v2)"
    using fs tr [OF dx(1)] al v2(5) v1(6) by (simp_all add: kmmu_def)
  let ?fr = "initial_frame (stk + PAGE_SIZE) pl"
  have len: "length ?fr = 19" by (simp add: initial_frame_def)
  obtain f where f: "push_words ?fr (stk + 4 * of_nat 1024) (vmmu v2) =
      Inr (stk + 4 * of_nat (1024 - length ?fr), (vmmu v2)\<lparr>mem := f\<rparr>)"
    "\<forall>q. q AND 0xfffff000 \<noteq> stk \<longrightarrow> f q = mem (vmmu v2) q"
    "\<forall>i < length ?fr. load32 f (stk + 4 * of_nat (1024 - 1 - i)) = ?fr ! i"
    using push_words_page [OF st(1,2,1,3), of ?fr 1024] len by auto
  let ?m = "(vmmu v2)\<lparr>mem := f\<rparr>"
  note ow = outside_walk [OF st(3,1) f(2)]
  let ?k = "(upd_vms (v2\<lparr>vmmu := ?m\<rparr>) (k\<lparr>ktab := (ktab k)\<lparr>fnp_i := i + 1\<rparr>\<rparr>))
     \<lparr>ktab := (ktab k)\<lparr>fnp_i := i + 1, next_pid := next_pid (ktab k) + 1,
           procs := (procs (ktab k))(i := new_proc i name priv stk pd (ktab k)), current_proc := Some i\<rparr>\<rparr>"
  have km: "kmmu ?k = ?m" by (simp add: kmmu_def upd_vms_def)
  have sp: "stk + PAGE_SIZE - 76 + 4 * of_nat j = stk + 4 * of_nat (1024 - 1 - (18 - j))" if "j < 19" for j
  proof -
    have "1024 - 1 - (18 - j) = 1005 + j" using that by simp
    then show ?thesis by (simp add: PAGE_SIZE_def)
  qed
  show ?thesis
  proof (rule that)
    show "proc_new pl name priv su k = Inr (i, ?k)"
      using pm(1) v1(1) v2(1) name slot f(1) len
      by (simp add: proc_new_def new_proc_def PAGE_SIZE_def not_less add.commute)
    show "cr3 (kmmu ?k) = cr3 (kmmu k)" using v2(3) v1(4) unfolding km by (simp add: kmmu_def)
    show "pt_ok (kmmu ?k)" unfolding km by (rule pt_ok_outside_walk [OF st(3,1) f(2) v2(4)])
    show "translate (kmmu ?k) w =
      (if w AND 0xfffff000 = stk \<or> w AND 0xfffff000 = pd then Inr w else translate (kmmu k) w)"
      if "vm_pdir_idx w \<noteq> 1023" for w unfolding km ow(1) by (rule tr [OF that])
    fix j :: nat assume j: "j < 19"
    let ?n = "1024 - 1 - (18 - j)"
    have n: "(of_nat ?n :: u32) < 1024" by (rule of_nat_1024) simp
    have "translate ?m (stk + 4 * of_nat ?n) = Inr (stk + 4 * of_nat ?n)"
      using translate_same_page [OF st(2), of "stk + 4 * of_nat ?n"] al
        page_add_offset(2,3) [OF st(1) mult4_less [OF n]] ow(1) by simp
    then have "vload32 ?m (stk + 4 * of_nat ?n) = Inr (load32 f (stk + 4 * of_nat ?n))"
      using vload32_aligned [OF _ aligned4_entry [OF st(1)], of ?m "of_nat ?n"] by simp
    also have "load32 f (stk + 4 * of_nat ?n) = ?fr ! (18 - j)"
      by (rule f(3) [rule_format]) (use len j in simp)
    also have "?fr ! (18 - j) = rev ?fr ! j" using len j by (simp add: rev_nth)
    finally show "vload32 (kmmu ?k) (stk + PAGE_SIZE - 76 + 4 * of_nat j) = Inr (rev ?fr ! j)"
      unfolding km sp [OF j] .
  qed simp
qed

subsection \<open>A kernel for the witnesses\<close>

definition demo_proc :: proc where
  "demo_proc = \<lparr>pid = - 1, state = PROC_UNUSED, pname = replicate 33 0, privileged = False,
     superuser = False, trapframe = 0, kstack = 0, ustack = 0, pdir = 0, memsz = 0,
     loc_address = 0, loc_size = 0, recv_queue = STAILQ_INIT\<rparr>"

definition demo_tab :: pst where
  "demo_tab = \<lparr>procs = (\<lambda>_. demo_proc), next_pid = 0, idle = None, current_proc = None,
     scheduling_enabled = False, fnp_i = 0\<rparr>"

definition demo_seg :: segst where
  "demo_seg = \<lparr>gdt = (\<lambda>_. gdt_null), tss = tss_zero, gdtr = (0, 0), task_register = 0\<rparr>"

definition demo_idt :: idtst where
  "demo_idt = \<lparr>idt = (\<lambda>_. idt_zero), isr_handlers = (\<lambda>_. 0),
     irq_handlers = (\<lambda>_. \<lparr>irq_fn = 0, irq_pdir = 0\<rparr>), int_handlers = (\<lambda>_. 0), idtr = (0, 0)\<rparr>"

definition demo_io :: ioport where
  "demo_io = \<lparr>out_log = [], in_val = (\<lambda>_ _. 0), in_pos = (\<lambda>_. 0)\<rparr>"

definition demo_kern :: kern where
  "demo_kern = \<lparr>kheap = \<lparr>hvms = \<lparr>vmmu = demo_mmu, vpm = pm_fresh\<lparr>pm_page_pool := 0xe0007000\<rparr>\<rparr>,
     heap_initialized = False\<rparr>, kseg = demo_seg, kidt = demo_idt, kio = demo_io, ktab = demo_tab\<rparr>"

definition demo_running :: pst where
  "demo_running = demo_tab\<lparr>procs := (\<lambda>i. if i = 0 then demo_proc\<lparr>pid := 0, state := PROC_RUNNING\<rparr>
     else demo_proc), next_pid := 1, idle := Some 7, current_proc := Some 0, scheduling_enabled := True\<rparr>"

lemma demo_running_ok: "pids_ok demo_running" "used_slot demo_running 0"
proof -
  have st: "state (procs demo_running i) \<noteq> PROC_UNUSED \<longleftrightarrow> i = 0" for i
    by (simp add: demo_running_def demo_proc_def)
  have pd: "pid (procs demo_running 0) = 0" "i \<noteq> 0 \<Longrightarrow> pid (procs demo_running i) = - 1" for i
    by (simp_all add: demo_running_def demo_proc_def)
  have "next_pid demo_running = 1" by (simp add: demo_running_def)
  then show "pids_ok demo_running" unfolding pids_ok_def used_slot_def st
    using st pd by auto
  show "used_slot demo_running 0" by (simp add: used_slot_def st NPROCS_def)
qed

lemma two_procs_ok:
  assumes st: "\<And>i. state (procs t i) \<noteq> PROC_UNUSED \<longleftrightarrow> i = 0 \<or> i = 1"
    and pd: "pid (procs t 0) = 0" "pid (procs t 1) = 1" "\<And>i. i \<noteq> 0 \<Longrightarrow> i \<noteq> 1 \<Longrightarrow> pid (procs t i) = - 1"
    and nx: "next_pid t = 2"
  shows "pids_ok t" and "used_slot t i \<longleftrightarrow> i = 0 \<or> i = 1"
proof -
  show u: "used_slot t i \<longleftrightarrow> i = 0 \<or> i = 1" for i unfolding used_slot_def st by (auto simp: NPROCS_def)
  show "pids_ok t"
    unfolding pids_ok_def u nx
  proof (intro conjI allI impI)
    fix i :: nat assume "i = 0 \<or> i = 1"
    then show "pid (procs t i) < 2" using pd by auto
  next
    fix i j :: nat assume "i = 0 \<or> i = 1" "j = 0 \<or> j = 1" "pid (procs t i) = pid (procs t j)"
    then show "i = j" using pd by auto
  next
    fix i assume "state (procs t i) = PROC_UNUSED"
    then show "pid (procs t i) = - 1" using st [of i] pd(3) [of i] by blast
  qed
qed

lemma demo_frames:
  obtains pm1 pm2 where "pm_alloc (vpm (hvms (kheap demo_kern))) = Inr (0x7000, pm1)"
    and "pm_alloc pm1 = Inr (0x8000, pm2)"
proof -
  let ?pm = "pm_fresh\<lparr>pm_page_pool := 0xe0007000\<rparr>"
  have u: "\<not> pm_used ?pm n" for n by (simp add: pm_used_def pm_fresh_def)
  have lt: "(0 :: nat) < PM_NPAGES" "(1 :: nat) < PM_NPAGES" by (simp_all add: PM_NPAGES_def)
  obtain pm1 where pm1: "pm_alloc ?pm = Inr (pm_page ?pm 0, pm1)" "pm_page_pool pm1 = pm_page_pool ?pm"
    "\<And>m. pm_used pm1 m \<longleftrightarrow> pm_used ?pm m \<or> m = 0"
    by (rule pm_alloc_first [OF u lt(1)]) (use that in simp_all)
  have "\<not> pm_used pm1 1" "\<forall>m < 1. pm_used pm1 m" using pm1(3) u by simp_all
  then obtain pm2 where "pm_alloc pm1 = Inr (pm_page pm1 1, pm2)"
    using pm_alloc_first [OF _ lt(2), of pm1] by blast
  moreover have "pm_page pm1 1 = 0x8000" "pm_page ?pm 0 = 0x7000"
    using pm1(2) by (simp_all add: pm_page_def v2p_def KERN_VOFF_def PAGE_SIZE_def)
  ultimately show ?thesis using pm1(1) by (intro that) (simp_all add: demo_kern_def)
qed

lemma demo_fresh: "fresh_frame (kmmu demo_kern) 0x7000" "fresh_frame (kmmu demo_kern) 0x8000"
  "pt_ok (kmmu demo_kern)"
  using demo_has_table demo_fault
  by (simp_all add: fresh_frame_def kmmu_def demo_kern_def demo_vms_def demo_walk_bytes page_aligned_def
      vm_pdir_idx_def)

section \<open>Properties\<close>

text \<open>
  C1. The scheduler's search is fair.  In a run of 64 searches for a ready process, between
  which the process table may change in any way except for the search cursor, a process
  that is ready throughout (and is not the idle process) is returned at least once.
\<close>

theorem scheduler_fair:
  assumes "j < NPROCS" and "\<And>n. n < NPROCS \<Longrightarrow> eligible PROC_READY (ts n) j"
    and "\<And>n. fnp_i (ts (Suc n)) = fnp_i (snd (find_next_proc PROC_READY (ts n)))"
  shows "\<exists>n < NPROCS. fst (find_next_proc PROC_READY (ts n)) = Some j"
proof (rule ccontr)
  assume none: "\<not> ?thesis"
  have "cursor_dist (ts n) j + n < NPROCS" if "n \<le> NPROCS" for n
    using that
  proof (induction n)
    case 0
    then show ?case using cursor_dist_reach(2) [OF assms(1)] by simp
  next
    case (Suc n)
    then have "cursor_dist (ts (Suc n)) j < cursor_dist (ts n) j"
      using none assms by (intro search_approaches [OF assms(1) assms(2)]) auto
    with Suc show ?case by simp
  qed
  from this [of NPROCS] show False by simp
qed

theorem scheduler_fair_witness:
  "\<exists>n < NPROCS. fst (find_next_proc PROC_READY (((\<lambda>t. snd (find_next_proc PROC_READY t)) ^^ n)
     (demo_tab\<lparr>procs := (\<lambda>_. demo_proc\<lparr>state := PROC_READY\<rparr>)\<rparr>))) = Some 5"
proof (rule scheduler_fair)
  let ?t = "demo_tab\<lparr>procs := (\<lambda>_. demo_proc\<lparr>state := PROC_READY\<rparr>)\<rparr>"
  fix n :: nat
  have "idle (((\<lambda>t. snd (find_next_proc PROC_READY t)) ^^ n) ?t) = None \<and>
      procs (((\<lambda>t. snd (find_next_proc PROC_READY t)) ^^ n) ?t) = procs ?t"
    by (induction n) (simp_all add: find_next_proc_frame demo_tab_def)
  then show "eligible PROC_READY (((\<lambda>t. snd (find_next_proc PROC_READY t)) ^^ n) ?t) 5"
    by (simp add: eligible_def)
qed (simp_all add: NPROCS_def)

text \<open>
  C2. A scheduling step with scheduling enabled and a current process \<open>c\<close> (idle exists, ids are
  unique): it always returns; the interrupted frame is saved in \<open>c\<close>; \<open>c\<close> becomes ready unless
  it is blocked; no other process changes; the new current process is ready, or is the
  idle process when no process is; the frame returned is that of the new current process,
  and unless it is \<open>c\<close> again the page directory and the kernel stack are switched to its own.
\<close>

theorem proc_schedule_correct:
  assumes "scheduling_enabled (ktab k)" and "current_proc (ktab k) = Some c" and "used_slot (ktab k) c"
    and "idle (ktab k) = Some d" and "pids_ok (ktab k)"
  shows "\<exists>n k'. proc_schedule_after_irq fr k = Inr (trapframe (procs (ktab k') n), k') \<and>
    current_proc (ktab k') = Some n \<and>
    procs (ktab k') = (procs (ktab k))(c := (procs (ktab k) c)\<lparr>trapframe := fr,
      state := (if state (procs (ktab k) c) \<in> {PROC_SEND_BLOCKED, PROC_RECV_BLOCKED, PROC_REPLY_BLOCKED}
                then state (procs (ktab k) c) else PROC_READY)\<rparr>) \<and>
    (eligible PROC_READY (ktab k') n \<or>
       n = d \<and> (\<forall>j < NPROCS. \<not> eligible PROC_READY (ktab k') j)) \<and>
    (if n = c then kmmu k' = kmmu k \<and> kseg k' = kseg k
     else cr3 (kmmu k') = pdir (procs (ktab k') n) \<and> mem (kmmu k') = mem (kmmu k) \<and>
       esp0 (tss (kseg k')) = kstack (procs (ktab k') n) \<and> ss0 (tss (kseg k')) = SEG_KDATA)"
proof (rule proc_schedule_effect [OF assms, of fr])
  fix n i t
  assume t: "t = (ktab k)\<lparr>procs := (procs (ktab k))(c := sched_save fr (procs (ktab k) c)), fnp_i := i\<rparr>"
    and sel: "eligible PROC_READY t n \<and> n < NPROCS \<or> n = d \<and> (\<forall>j < NPROCS. \<not> eligible PROC_READY t j)"
    and res: "proc_schedule_after_irq fr k = (if n = c then Inr (fr, k\<lparr>ktab := t\<rparr>)
      else Inr (trapframe (procs t n), switch_to n (k\<lparr>ktab := t\<lparr>current_proc := Some n\<rparr>\<rparr>)))"
  have el: "eligible PROC_READY (t\<lparr>current_proc := x\<rparr>) j = eligible PROC_READY t j" for x j
    by (simp add: eligible_def)
  have tp: "procs t = (procs (ktab k))(c := sched_save fr (procs (ktab k) c))" "current_proc t = Some c"
    "trapframe (procs t c) = fr" using assms(2) by (simp_all add: t sched_save_def)
  have sel': "eligible PROC_READY t n \<or> n = d \<and> (\<forall>j < NPROCS. \<not> eligible PROC_READY t j)" using sel by blast
  show ?thesis
  proof (cases "n = c")
    case True
    show ?thesis
      by (rule exI [of _ n], rule exI [of _ "k\<lparr>ktab := t\<rparr>"])
        (use True res sel' tp in \<open>simp add: kmmu_def tp(1) sched_save_def\<close>)
  next
    case False
    show ?thesis
      by (rule exI [of _ n], rule exI [of _ "switch_to n (k\<lparr>ktab := t\<lparr>current_proc := Some n\<rparr>\<rparr>)"])
        (use False res sel' el in \<open>simp add: switch_to_def Let_def upd_mmu_def kmmu_def set_cr3_def
          tss_set_esp_def tss_set_ss_def tp(1) sched_save_def\<close>)
  qed
qed

theorem proc_schedule_correct_witness:
  "\<exists>n k'. proc_schedule_after_irq 0x1234 (demo_kern\<lparr>ktab := demo_running\<rparr>)
    = Inr (trapframe (procs (ktab k') n), k') \<and> current_proc (ktab k') = Some n"
proof -
  have "scheduling_enabled demo_running" "current_proc demo_running = Some 0" "used_slot demo_running 0"
    "idle demo_running = Some 7" using demo_running_ok by (simp_all add: demo_running_def)
  then show ?thesis
    using proc_schedule_correct [of "demo_kern\<lparr>ktab := demo_running\<rparr>" 0 7 "0x1234"] demo_running_ok(1)
    by auto
qed



end
