(* ===== verification/Console.thy ===== *)
theory Console
  imports Libc "HOL-Library.Signed_Division"
begin

unbundle bit_operations_syntax

text \<open>
  Formatted output: \<^verbatim>\<open>kernel/print.c\<close>, \<^verbatim>\<open>kernel/com.c\<close>, \<^verbatim>\<open>kernel/vga.c\<close>.

  The \<open>char **\<close> that the routines of \<^verbatim>\<open>print.c\<close> pass around is an array with a position
  (\<open>outbuf\<close>); a write outside the array is \<open>OutOfBounds\<close>.  The argument \<open>space_left\<close> is never read
  and is left out.  A \<open>va_list\<close> is a list of arguments.  The text-mode frame buffer is the list
  of its 2000 cells.  The serial port is polled until it is ready; a poll that never
  succeeds is \<open>Spins\<close>, as is taking a lock that is already held (there is one core).

  Shown: the formatter produces exactly the text of a reference renderer when it fits and
  writes out of bounds otherwise; decimal and hexadecimal output read back as the number;
  the screen refines an abstract terminal and its cursor stays on the screen; \<open>kprintf\<close>
  sends the text to both devices and releases its lock.
\<close>

section \<open>Definitions\<close>

subsection \<open>Text buffer (print.c)\<close>

record outbuf =
  bbytes :: "u8 list"
  bpos :: nat

definition putch :: "u8 \<Rightarrow> outbuf \<Rightarrow> outbuf res" where
  "putch ch b =
     (if bpos b < length (bbytes b)
      then Inr (b\<lparr>bbytes := (bbytes b)[bpos b := ch], bpos := bpos b + 1\<rparr>) else Inl OutOfBounds)"

fun puts :: "u8 list \<Rightarrow> outbuf \<Rightarrow> outbuf res" where
  "puts [] b = Inl OutOfBounds"
| "puts (c # cs) b = (if c = 0 then Inr b else kbind (putch c b) (puts cs))"

definition digits :: "u8 list" where
  "digits = [0x30, 0x31, 0x32, 0x33, 0x34, 0x35, 0x36, 0x37, 0x38, 0x39, 0x61, 0x62, 0x63, 0x64, 0x65, 0x66]"

definition put_digit :: "u8 \<Rightarrow> outbuf \<Rightarrow> outbuf res" where
  "put_digit ch b =
     (let i = sint ch smod 16 in if i < 0 then Inl OutOfBounds else putch (digits ! nat i) b)"

function putd_loop :: "int \<Rightarrow> nat \<Rightarrow> int list \<Rightarrow> (nat \<times> int list) res" where
  "putd_loop v i out =
     (if v > 0 then
        if i < length out then putd_loop (v div 10) (i + 1) (out[i := v mod 10]) else Inl OutOfBounds
      else Inr (i, out))"
  by pat_completeness auto
termination
  by (relation "measure (\<lambda>(v, _, _). nat v)") auto

fun putd_emit :: "nat \<Rightarrow> int list \<Rightarrow> outbuf \<Rightarrow> outbuf res" where
  "putd_emit 0 out b = Inr b"
| "putd_emit (Suc i) out b = kbind (put_digit (word_of_int (out ! i)) b) (putd_emit i out)"

definition putd :: "u32 \<Rightarrow> outbuf \<Rightarrow> outbuf res" where
  "putd v b =
     (if v = 0 then putch 0x30 b
      else kbind (if sint v < 0 then kbind (putch 0x2d b) (\<lambda>b. Inr (- v, b)) else Inr (v, b)) (\<lambda>(v, b).
        kbind (putd_loop (sint v) 0 (replicate 10 0)) (\<lambda>(i, out). putd_emit i out b)))"

function hex_loop :: "'a::len word \<Rightarrow> 'a word \<Rightarrow> nat \<Rightarrow> outbuf \<Rightarrow> outbuf res" where
  "hex_loop msk v i b =
     (if msk > 0 then
        kbind (put_digit (ucast (drop_bit (i * 4 - 4) (msk AND v))) b) (hex_loop (drop_bit 4 msk) v (i - 1))
      else Inr b)"
  by pat_completeness auto
termination
proof (relation "measure (\<lambda>(msk, _, _, _). unat msk)")
  fix msk :: "'a word" and v :: "'a word" and i :: nat and b x :: outbuf
  assume "msk > 0"
  then have "0 < unat msk" by (simp add: word_gt_0 unat_gt_0)
  moreover have "unat (drop_bit 4 msk) = unat msk div 16"
    unfolding unat_drop_bit_eq by (simp add: drop_bit_eq_div)
  ultimately show "((drop_bit 4 msk, v, i - 1, x), msk, v, i, b) \<in> measure (\<lambda>(msk, _, _, _). unat msk)"
    by simp
qed simp

definition puthd :: "u32 \<Rightarrow> outbuf \<Rightarrow> outbuf res" where
  "puthd v b = hex_loop 0xf0000000 v 8 b"

definition puthw :: "u16 \<Rightarrow> outbuf \<Rightarrow> outbuf res" where
  "puthw v b = hex_loop 0xf000 v 4 b"

definition puthb :: "u8 \<Rightarrow> outbuf \<Rightarrow> outbuf res" where
  "puthb v b = hex_loop 0xf0 v 2 b"

datatype varg = VInt u32 | VStr "u8 list"

fun va_int :: "varg list \<Rightarrow> (u32 \<times> varg list) res" where
  "va_int (VInt v # vl) = Inr (v, vl)"
| "va_int vl = Inl OutOfBounds"

fun va_str :: "varg list \<Rightarrow> (u8 list \<times> varg list) res" where
  "va_str (VStr s # vl) = Inr (s, vl)"
| "va_str vl = Inl OutOfBounds"

definition format_spec :: "u8 \<Rightarrow> varg list \<Rightarrow> outbuf \<Rightarrow> (varg list \<times> outbuf) res" where
  "format_spec c vl b =
     (if c = 0x25 then kbind (putch 0x25 b) (\<lambda>b. Inr (vl, b))
      else if c = 0x63 then kbind (va_int vl) (\<lambda>(v, vl). kbind (putch (ucast v) b) (\<lambda>b. Inr (vl, b)))
      else if c = 0x64 then kbind (va_int vl) (\<lambda>(v, vl). kbind (putd v b) (\<lambda>b. Inr (vl, b)))
      else if c = 0x78 then kbind (va_int vl) (\<lambda>(v, vl). kbind (puthd v b) (\<lambda>b. Inr (vl, b)))
      else if c = 0x73 then kbind (va_str vl) (\<lambda>(s, vl). kbind (puts s b) (\<lambda>b. Inr (vl, b)))
      else Inr (vl, b))"

fun kvformat_loop :: "u8 list \<Rightarrow> varg list \<Rightarrow> outbuf \<Rightarrow> outbuf res" where
  "kvformat_loop [] vl b = Inl OutOfBounds"
| "kvformat_loop (p # ps) vl b =
     (if p = 0 then Inr b
      else if p = 0x25 then
        (case ps of [] \<Rightarrow> Inl OutOfBounds
         | c # qs \<Rightarrow> kbind (format_spec c vl b) (\<lambda>(vl, b). kvformat_loop qs vl b))
      else kbind (putch p b) (kvformat_loop ps vl))"

definition kvformat :: "u8 list \<Rightarrow> u8 list \<Rightarrow> varg list \<Rightarrow> u8 list res" where
  "kvformat buf fmt vl =
     kbind (kvformat_loop fmt vl \<lparr>bbytes = buf, bpos = 0\<rparr>) (\<lambda>b.
     kbind (putch 0 b) (\<lambda>b. Inr (bbytes b)))"

definition kformat :: "u8 list \<Rightarrow> u8 list \<Rightarrow> varg list \<Rightarrow> u8 list res" where
  "kformat buf fmt vl = kvformat buf fmt vl"

subsection \<open>Serial port (com.c)\<close>

definition PORT :: u16 where "PORT = 0x3f8"
definition BAUDRATE :: nat where "BAUDRATE = 115200"

definition com_init :: "ioport \<Rightarrow> ioport" where
  "com_init io =
     (let io = outb (PORT + 1) 0x00 io;
          io = outb (PORT + 3) 0x80 io;
          io = outb (PORT + 0) (of_nat (115200 div BAUDRATE)) io;
          io = outb (PORT + 1) 0x00 io;
          io = outb (PORT + 3) 0x03 io;
          io = outb (PORT + 2) 0xC7 io
      in outb (PORT + 4) 0x0B io)"

partial_function (option) com_wait :: "ioport \<Rightarrow> ioport option" where
  "com_wait io = (let (v, io) = inb (PORT + 5) io in if v AND 0x20 = 0 then com_wait io else Some io)"

definition com_putc :: "u8 \<Rightarrow> ioport \<Rightarrow> ioport res" where
  "com_putc ch io = (case com_wait io of None \<Rightarrow> Inl Spins | Some io \<Rightarrow> Inr (outb PORT ch io))"

fun com_puts :: "u8 list \<Rightarrow> ioport \<Rightarrow> ioport res" where
  "com_puts [] io = Inl OutOfBounds"
| "com_puts (c # cs) io = (if c = 0 then Inr io else kbind (com_putc c io) (com_puts cs))"

subsection \<open>Screen (vga.c)\<close>

datatype vga_color =
    COLOR_BLACK | COLOR_BLUE | COLOR_GREEN | COLOR_CYAN | COLOR_RED | COLOR_MAGENTA | COLOR_BROWN
  | COLOR_LIGHT_GREY | COLOR_DARK_GREY | COLOR_LIGHT_BLUE | COLOR_LIGHT_GREEN | COLOR_LIGHT_CYAN
  | COLOR_LIGHT_RED | COLOR_LIGHT_MAGENTA | COLOR_LIGHT_BROWN | COLOR_WHITE

primrec color_code :: "vga_color \<Rightarrow> u8" where
  "color_code COLOR_BLACK = 0" | "color_code COLOR_BLUE = 1" | "color_code COLOR_GREEN = 2"
| "color_code COLOR_CYAN = 3" | "color_code COLOR_RED = 4" | "color_code COLOR_MAGENTA = 5"
| "color_code COLOR_BROWN = 6" | "color_code COLOR_LIGHT_GREY = 7" | "color_code COLOR_DARK_GREY = 8"
| "color_code COLOR_LIGHT_BLUE = 9" | "color_code COLOR_LIGHT_GREEN = 10" | "color_code COLOR_LIGHT_CYAN = 11"
| "color_code COLOR_LIGHT_RED = 12" | "color_code COLOR_LIGHT_MAGENTA = 13" | "color_code COLOR_LIGHT_BROWN = 14"
| "color_code COLOR_WHITE = 15"

definition VGA_WIDTH :: nat where "VGA_WIDTH = 80"
definition VGA_HEIGHT :: nat where "VGA_HEIGHT = 25"

record vga =
  VGA_MEM :: "u16 list"
  vga_col :: u32
  vga_row :: u32
  vga_attr :: u8

definition vga_cell :: "nat \<Rightarrow> vga \<Rightarrow> u16 res" where
  "vga_cell i s = (if i < length (VGA_MEM s) then Inr (VGA_MEM s ! i) else Inl OutOfBounds)"

definition vga_set_cell :: "nat \<Rightarrow> u16 \<Rightarrow> vga \<Rightarrow> vga res" where
  "vga_set_cell i v s = (if i < length (VGA_MEM s) then Inr (s\<lparr>VGA_MEM := (VGA_MEM s)[i := v]\<rparr>) else Inl OutOfBounds)"

definition vga_scrollup :: "vga \<Rightarrow> vga res" where
  "vga_scrollup s =
     kbind (kfor (VGA_HEIGHT - 1) (\<lambda>y. kfor VGA_WIDTH (\<lambda>x s.
         kbind (vga_cell ((y + 1) * VGA_WIDTH + x) s) (\<lambda>v. vga_set_cell (y * VGA_WIDTH + x) v s))) s) (\<lambda>s.
       kfor VGA_WIDTH (\<lambda>x. vga_set_cell ((VGA_HEIGHT - 1) * VGA_WIDTH + x) 0x20) s)"

definition vga_make_color :: "vga_color \<Rightarrow> vga_color \<Rightarrow> u8" where
  "vga_make_color fg bg = color_code fg OR push_bit 4 (color_code bg)"

definition vga_make_char :: "u8 \<Rightarrow> u8 \<Rightarrow> u16" where
  "vga_make_char ch color = ucast ch OR push_bit 8 (ucast color)"

definition vga_putchat :: "u8 \<Rightarrow> u8 \<Rightarrow> u32 \<Rightarrow> u32 \<Rightarrow> vga \<Rightarrow> vga res" where
  "vga_putchat ch color x y s =
     (let idx = y * of_nat VGA_WIDTH + x in vga_set_cell (unat idx) (vga_make_char ch color) s)"

definition vga_putch :: "u8 \<Rightarrow> vga \<Rightarrow> vga res" where
  "vga_putch ch s =
     (let s = (if vga_col s \<ge> of_nat VGA_WIDTH \<or> ch = 0x0a
               then s\<lparr>vga_col := 0, vga_row := vga_row s + 1\<rparr> else s) in
      kbind (if vga_row s \<ge> of_nat VGA_HEIGHT
             then kbind (vga_scrollup s) (\<lambda>s. Inr (s\<lparr>vga_row := vga_row s - 1\<rparr>)) else Inr s) (\<lambda>s.
      if ch = 0x0a then Inr s
      else kbind (vga_putchat ch (vga_attr s) (vga_col s) (vga_row s) s) (\<lambda>s.
        Inr (s\<lparr>vga_col := vga_col s + 1\<rparr>))))"

definition vga_init :: "vga \<Rightarrow> vga res" where
  "vga_init s =
     (let s = s\<lparr>vga_row := 0, vga_col := 0, vga_attr := vga_make_color COLOR_WHITE COLOR_BLACK\<rparr> in
      kfor VGA_HEIGHT (\<lambda>y. kfor VGA_WIDTH (\<lambda>x s. vga_putchat 0x20 (vga_attr s) (of_nat x) (of_nat y) s)) s)"

fun vga_puts :: "u8 list \<Rightarrow> vga \<Rightarrow> vga res" where
  "vga_puts [] s = Inl OutOfBounds"
| "vga_puts (c # cs) s = (if c = 0 then Inr s else kbind (vga_putch c s) (vga_puts cs))"

definition KERNEL_MAX_PRINT_SIZE :: nat where "KERNEL_MAX_PRINT_SIZE = 256"

text \<open>The local buffers are not initialised: their contents are the argument \<open>buf\<close>.\<close>

definition vga_printf :: "u8 list \<Rightarrow> u8 list \<Rightarrow> varg list \<Rightarrow> vga \<Rightarrow> vga res" where
  "vga_printf buf fmt vl s =
     (if length buf \<noteq> KERNEL_MAX_PRINT_SIZE then Inl OutOfBounds
      else kbind (kvformat buf fmt vl) (\<lambda>buf. vga_puts buf s))"

definition vga_vprintf :: "u8 list \<Rightarrow> u8 list \<Rightarrow> varg list \<Rightarrow> vga \<Rightarrow> vga res" where
  "vga_vprintf buf fmt vl s =
     (if length buf \<noteq> KERNEL_MAX_PRINT_SIZE then Inl OutOfBounds
      else kbind (kvformat buf fmt vl) (\<lambda>buf. vga_puts buf s))"

subsection \<open>kprintf\<close>

record console =
  con_io :: ioport
  con_vga :: vga
  print_lock :: bool

definition kprintf :: "u8 list \<Rightarrow> varg list \<Rightarrow> console \<Rightarrow> console res" where
  "kprintf fmt vl c =
     (if print_lock c then Inl Spins
      else let c = c\<lparr>print_lock := True\<rparr>; buf = replicate KERNEL_MAX_PRINT_SIZE 0 in
        kbind (kvformat buf fmt vl) (\<lambda>buf.
        kbind (com_puts buf (con_io c)) (\<lambda>io.
        kbind (vga_puts buf (con_vga c)) (\<lambda>v.
          Inr (c\<lparr>con_io := io, con_vga := v, print_lock := False\<rparr>)))))"

definition print_init :: "console \<Rightarrow> console res" where
  "print_init c =
     kbind (vga_init (con_vga c)) (\<lambda>v. Inr (c\<lparr>con_io := com_init (con_io c), con_vga := v\<rparr>))"

section \<open>Lemmas\<close>

declare putd_loop.simps [simp del] hex_loop.simps [simp del]

subsection \<open>Writing text\<close>

text \<open>\<open>emit ws\<close>: write the text \<open>ws\<close> at the position, or run out of the array.\<close>

definition emit :: "u8 list \<Rightarrow> outbuf \<Rightarrow> outbuf res" where
  "emit ws b =
     (if bpos b + length ws \<le> length (bbytes b)
      then Inr (b\<lparr>bbytes := take (bpos b) (bbytes b) @ ws @ drop (bpos b + length ws) (bbytes b),
                  bpos := bpos b + length ws\<rparr>)
      else Inl OutOfBounds)"

definition buf_ok :: "outbuf \<Rightarrow> bool" where
  "buf_ok b \<longleftrightarrow> bpos b \<le> length (bbytes b)"

lemma putch_emit: "putch c b = emit [c] b"
  by (auto simp: putch_def emit_def upd_conv_take_nth_drop)

lemma emit_Nil: "buf_ok b \<Longrightarrow> emit [] b = Inr b"
  by (simp add: emit_def buf_ok_def)

lemma emit_ok: "emit ws b = Inr b' \<Longrightarrow> buf_ok b'"
  by (auto simp: emit_def buf_ok_def split: if_splits)

lemma emit_error: "emit ws b = Inl e \<Longrightarrow> e = OutOfBounds"
  by (auto simp: emit_def split: if_splits)

lemma emit_append: "kbind (emit xs b) (emit ys) = emit (xs @ ys) b"
  by (auto simp: emit_def add.assoc add.commute [of "length ys"])

lemma emit_bind:
  assumes "\<And>b. buf_ok b \<Longrightarrow> f b = kbind w (\<lambda>ys. emit ys b)" and "\<And>e. w = Inl e \<Longrightarrow> e = OutOfBounds"
  shows "kbind (emit xs b) f = kbind w (\<lambda>ys. emit (xs @ ys) b)"
proof (cases "emit xs b")
  case (Inl e)
  then have e: "e = OutOfBounds" by (rule emit_error)
  show ?thesis
  proof (cases w)
    case (Inr ys)
    then show ?thesis using emit_append [of xs b ys, symmetric] unfolding Inl by simp
  qed (use Inl e assms(2) in simp)
next
  case (Inr b')
  then have "f b' = kbind w (\<lambda>ys. emit ys b')" by (intro assms(1) emit_ok)
  then show ?thesis
    using Inr emit_append [of xs b] assms(2) by (cases w) (auto simp: fun_eq_iff)
qed

lemma puts_emit:
  "buf_ok b \<Longrightarrow> puts s b = (if 0 \<in> set s then emit (cstr s) b else Inl OutOfBounds)"
proof (induction s arbitrary: b)
  case (Cons c s)
  show ?case
  proof (cases "c = 0")
    case False
    have "kbind (emit [c] b) (puts s) =
        kbind (if 0 \<in> set s then Inr (cstr s) else Inl OutOfBounds) (\<lambda>ys. emit ([c] @ ys) b)"
      by (rule emit_bind) (use Cons.IH in \<open>auto split: if_splits\<close>)
    then show ?thesis using False by (simp add: putch_emit cstr_Cons)
  qed (use Cons.prems in \<open>simp add: cstr_Cons emit_Nil\<close>)
qed simp

subsection \<open>Numbers\<close>

lemma put_digit_emit:
  assumes "d < 16"
  shows "put_digit (of_nat d) b = emit [digits ! d] b"
proof -
  have "sint (of_nat d :: u8) = int d"
    using assms by (simp add: sint_uint unsigned_of_nat signed_take_bit_int_eq_self_iff take_bit_nat_eq_self_iff
        signed_take_bit_int_eq_self take_bit_nat_eq_self)
  then show ?thesis using assms by (simp add: put_digit_def putch_emit signed_modulo_int_def sgn_if)
qed

text \<open>The decimal digits of a number, most significant first.\<close>

function dec_digits :: "nat \<Rightarrow> nat list" where
  "dec_digits n = (if n = 0 then [] else dec_digits (n div 10) @ [n mod 10])"
  by pat_completeness auto
termination
  by (relation "measure id") auto

declare dec_digits.simps [simp del]

lemma dec_digits_less: "d \<in> set (dec_digits n) \<Longrightarrow> d < 10"
proof (induction n rule: dec_digits.induct)
  case (1 n)
  from "1.prems" show ?case
    by (subst (asm) dec_digits.simps) (use "1.IH" in \<open>auto split: if_splits\<close>)
qed

lemma dec_digits_value: "foldl (\<lambda>a d. a * 10 + d) 0 (dec_digits n) = n"
proof (induction n rule: dec_digits.induct)
  case (1 n)
  then show ?case by (subst dec_digits.simps) simp
qed

lemma dec_digits_length: "n < 10 ^ k \<Longrightarrow> length (dec_digits n) \<le> k"
proof (induction k arbitrary: n)
  case 0
  then show ?case by (simp add: dec_digits.simps)
next
  case (Suc k)
  then have "n div 10 < 10 ^ k" by (simp add: div_less_iff_less_mult mult.commute)
  then show ?case using Suc.IH by (subst dec_digits.simps) simp
qed

lemma putd_loop_digits:
  assumes "n < 10 ^ (length out - i)" and "i \<le> length out"
  obtains out' where "putd_loop (int n) i out = Inr (i + length (dec_digits n), out')"
    and "length out' = length out" and "\<And>j. j < i \<Longrightarrow> out' ! j = out ! j"
    and "rev (drop i (take (i + length (dec_digits n)) out')) = map int (dec_digits n)"
  using assms
proof (induction n arbitrary: i out thesis rule: dec_digits.induct)
  case (1 n)
  show ?case
  proof (cases "n = 0")
    case True
    then show ?thesis by (intro "1.prems"(1) [of out]) (simp_all add: dec_digits.simps putd_loop.simps)
  next
    case False
    then have i: "i < length out" using "1.prems"(2,3) by (cases "i = length out") auto
    have "n div 10 < 10 ^ (length out - Suc i)"
      using "1.prems"(2) i by (simp add: div_less_iff_less_mult mult.commute Suc_diff_Suc flip: power_Suc)
    then have h: "n div 10 < 10 ^ (length (out[i := int (n mod 10)]) - (i + 1))"
      "i + 1 \<le> length (out[i := int (n mod 10)])" using i by simp_all
    obtain out' where o: "putd_loop (int (n div 10)) (i + 1) (out[i := int (n mod 10)]) =
          Inr (i + 1 + length (dec_digits (n div 10)), out')"
      "length out' = length out" "\<And>j. j < i + 1 \<Longrightarrow> out' ! j = out[i := int (n mod 10)] ! j"
      "rev (drop (i + 1) (take (i + 1 + length (dec_digits (n div 10))) out')) = map int (dec_digits (n div 10))"
      using "1.IH" [OF False _ h] by (metis length_list_update)
    have d: "dec_digits n = dec_digits (n div 10) @ [n mod 10]" using False by (subst dec_digits.simps) simp
    have "i < length (take (i + 1 + length (dec_digits (n div 10))) out')" using i o(2) by simp
    from Cons_nth_drop_Suc [OF this, symmetric]
    have dr: "drop i (take (i + 1 + length (dec_digits (n div 10))) out') =
        out' ! i # drop (i + 1) (take (i + 1 + length (dec_digits (n div 10))) out')" by simp
    have "putd_loop (int n) i out = Inr (i + length (dec_digits n), out')"
      using o(1) False i d by (subst putd_loop.simps) (simp add: zdiv_int zmod_int)
    moreover have "rev (drop i (take (i + length (dec_digits n)) out')) = map int (dec_digits n)"
      using o(4) dr d o(3) [of i] i by (simp add: add.assoc)
    moreover have "out' ! j = out ! j" if "j < i" for j using o(3) [of j] that by simp
    ultimately show ?thesis using o(2) by (intro "1.prems"(1)) auto
  qed
qed

lemma putd_emit_emit:
  assumes "buf_ok b" and "i \<le> length out" and "rev (take i out) = map int ds" and "\<And>d. d \<in> set ds \<Longrightarrow> d < 10"
  shows "putd_emit i out b = emit (map ((!) digits) ds) b"
  using assms
proof (induction i arbitrary: b ds)
  case 0
  then show ?case by (simp add: emit_Nil)
next
  case (Suc i)
  then have "out ! i # rev (take i out) = map int ds" by (simp add: take_Suc_conv_app_nth)
  then obtain d ds' where ds: "ds = d # ds'" "out ! i = int d" "rev (take i out) = map int ds'" by (cases ds) auto
  have d: "d < 16" using Suc.prems(4) [of d] ds by simp
  have "kbind (emit [digits ! d] b) (putd_emit i out) = kbind (Inr (map ((!) digits) ds')) (\<lambda>ys. emit ([digits ! d] @ ys) b)"
    by (rule emit_bind) (use Suc.IH [OF _ _ ds(3)] Suc.prems ds in auto)
  then show ?case using put_digit_emit [OF d] ds by simp
qed

text \<open>The text of \<open>%d\<close>: for the smallest integer only the sign is printed.\<close>

definition dec_text :: "u32 \<Rightarrow> u8 list" where
  "dec_text v =
     (if v = 0 then [0x30]
      else if v = 0x80000000 then [0x2d]
      else if sint v < 0 then 0x2d # map ((!) digits) (dec_digits (nat (- sint v)))
      else map ((!) digits) (dec_digits (nat (sint v))))"

lemma sint_u32_range: "- 2147483648 \<le> sint (v :: u32)" "sint (v :: u32) < 2147483648"
  using sint_greater_eq [of v] sint_less [of v] by simp_all

lemma sint_u32_neg: "v \<noteq> 0x80000000 \<Longrightarrow> sint (- v :: u32) = - sint v"
proof -
  assume v: "v \<noteq> 0x80000000"
  have "sint v \<noteq> - 2147483648"
  proof
    assume "sint v = - 2147483648"
    then have "sint v = sint (0x80000000 :: u32)" by simp
    then have "v = 0x80000000" by (rule signed_word_eqI)
    with v show False by simp
  qed
  then have "- 2147483648 < sint v" "sint v < 2147483648" using sint_u32_range [of v] by auto
  then show ?thesis by (simp add: sint_word_ariths signed_take_bit_int_eq_self)
qed

lemma putd_pos:
  assumes "buf_ok b" and "0 \<le> n" and "n < 2147483648"
  shows "kbind (putd_loop n 0 (replicate 10 0)) (\<lambda>(i, out). putd_emit i out b) =
    emit (map ((!) digits) (dec_digits (nat n))) b"
proof -
  have h: "nat n < 10 ^ (length (replicate 10 (0 :: int)) - 0)" "0 \<le> length (replicate 10 (0 :: int))"
    using assms(3) by simp_all
  obtain out where o: "putd_loop (int (nat n)) 0 (replicate 10 0) = Inr (0 + length (dec_digits (nat n)), out)"
    "length out = length (replicate 10 (0 :: int))"
    "rev (drop 0 (take (0 + length (dec_digits (nat n))) out)) = map int (dec_digits (nat n))"
    by (rule putd_loop_digits [OF h]) (rule that)
  have "nat n < 10 ^ 10" using assms(3) by simp
  from dec_digits_length [OF this] have l: "length (dec_digits (nat n)) \<le> length out" using o(2) by simp
  have "putd_emit (length (dec_digits (nat n))) out b = emit (map ((!) digits) (dec_digits (nat n))) b"
    using o(3) by (intro putd_emit_emit [OF assms(1) l _ dec_digits_less]) auto
  then show ?thesis using o(1) assms(2) by simp
qed

lemma putd_text:
  assumes b: "buf_ok b"
  shows "putd v b = emit (dec_text v) b"
proof -
  consider (zero) "v = 0" | (min) "v = 0x80000000" | (neg) "v \<noteq> 0x80000000" "sint v < 0" | (pos) "v \<noteq> 0" "0 \<le> sint v"
    by fastforce
  then show ?thesis
  proof cases
    case zero
    then show ?thesis by (simp add: putd_def dec_text_def putch_emit)
  next
    case min
    have l: "putd_loop (- 2147483648) 0 out = Inr (0, out)" for out by (subst putd_loop.simps) simp
    have "kbind (emit [0x2d] b) Inr = emit [0x2d] b" by (simp add: emit_def)
    then show ?thesis
      using min l by (simp add: putd_def dec_text_def putch_emit kbind_assoc)
  next
    case neg
    then have v0: "v \<noteq> 0" by auto
    have r: "0 \<le> - sint v" "- sint v < 2147483648" "sint (- v) = - sint v"
      using neg sint_u32_neg [OF neg(1)] sint_u32_range(2) [of "- v"] by simp_all
    have "putd v b = kbind (emit [0x2d] b) (\<lambda>b. kbind (putd_loop (- sint v) 0 (replicate 10 0)) (\<lambda>(i, out). putd_emit i out b))"
      using neg v0 r(3) by (simp add: putd_def putch_emit kbind_assoc)
    also have "\<dots> = kbind (Inr (map ((!) digits) (dec_digits (nat (- sint v))))) (\<lambda>ys. emit ([0x2d] @ ys) b)"
      by (rule emit_bind) (use putd_pos r in simp_all)
    finally show ?thesis using neg v0 by (simp add: dec_text_def)
  next
    case pos
    moreover have "v \<noteq> 0x80000000" using pos(2) by auto
    ultimately show ?thesis
      using putd_pos [OF b pos(2) sint_u32_range(2)] by (simp add: putd_def dec_text_def)
  qed
qed

text \<open>The text of \<open>%x\<close>: eight hexadecimal digits.\<close>

definition hex_text :: "nat \<Rightarrow> nat \<Rightarrow> u8 list" where
  "hex_text k n = map (\<lambda>i. digits ! (n div 16 ^ i mod 16)) (rev [0..<k])"

lemma bit_nibble: "bit (0xf :: int) i \<longleftrightarrow> i < 4"
  using bit_mask_iff [of 4 i, where 'a = int] by (simp add: mask_eq_exp_minus_1)

lemma nibble:
  assumes "4 * k < LENGTH('a::len)"
  shows "unat (drop_bit (4 * k) (push_bit (4 * k) 0xf AND v) :: 'a word) = unat v div 16 ^ k mod 16"
proof -
  have "drop_bit (4 * k) (push_bit (4 * k) 0xf AND v) = take_bit 4 (drop_bit (4 * k) v)"
    by (rule bit_word_eqI) (use assms in \<open>auto simp: bit_push_bit_iff bit_and_iff bit_drop_bit_eq bit_take_bit_iff bit_nibble dest: bit_imp_le_length\<close>)
  then have "unat (drop_bit (4 * k) (push_bit (4 * k) 0xf AND v)) = take_bit 4 (drop_bit (4 * k) (unat v))"
    by (simp add: unsigned_take_bit_eq unat_drop_bit_eq del: drop_bit_and)
  then show ?thesis by (simp add: take_bit_eq_mod drop_bit_eq_div power_mult)
qed

lemma put_nibble:
  assumes "4 * k < LENGTH('a::len)" and "msk = push_bit (4 * k) 0xf"
  shows "put_digit (ucast (drop_bit (4 * k) (msk AND v :: 'a word))) b = emit [digits ! (unat v div 16 ^ k mod 16)] b"
proof -
  have "ucast (drop_bit (4 * k) (msk AND v)) = (of_nat (unat v div 16 ^ k mod 16) :: u8)"
    unfolding assms(2) nibble [OF assms(1), symmetric] by simp
  then show ?thesis using put_digit_emit by simp
qed

lemma hex_loop_text:
  assumes "buf_ok b" and "4 * k \<le> LENGTH('a::len)"
  shows "hex_loop (if k = 0 then 0 else push_bit (4 * (k - 1)) 0xf) (v :: 'a word) k b = emit (hex_text k (unat v)) b"
  using assms
proof (induction k arbitrary: b)
  case 0
  then show ?case by (simp add: hex_loop.simps hex_text_def emit_Nil)
next
  case (Suc k)
  let ?m = "push_bit (4 * k) 0xf :: 'a word"
  have k: "4 * k < LENGTH('a)" "4 * k \<le> LENGTH('a)" using Suc.prems(2) by auto
  have "bit ?m (4 * k)" using k(1) by (simp add: bit_simps)
  then have pos: "?m > 0" by (auto simp: word_gt_0)
  have sh: "drop_bit 4 ?m = (if k = 0 then 0 else push_bit (4 * (k - 1)) 0xf)"
  proof (rule bit_word_eqI)
    fix n assume n: "n < LENGTH('a)"
    show "bit (drop_bit 4 ?m) n = bit (if k = 0 then 0 else push_bit (4 * (k - 1)) 0xf :: 'a word) n"
      using n k Suc.prems(2) by (auto simp: bit_push_bit_iff bit_drop_bit_eq bit_nibble)
  qed
  have "hex_loop ?m v (Suc k) b =
      kbind (put_digit (ucast (drop_bit (4 * k) (?m AND v))) b) (hex_loop (drop_bit 4 ?m) v k)"
    using pos by (subst hex_loop.simps) (simp add: mult.commute [of k])
  also have "\<dots> = kbind (emit [digits ! (unat v div 16 ^ k mod 16)] b) (hex_loop (drop_bit 4 ?m) v k)"
    unfolding put_nibble [OF k(1) refl] ..
  also have "\<dots> = kbind (Inr (hex_text k (unat v))) (\<lambda>ys. emit ([digits ! (unat v div 16 ^ k mod 16)] @ ys) b)"
    unfolding sh by (rule emit_bind) (use Suc.IH [OF _ k(2)] in auto)
  finally show ?case by (simp add: hex_text_def)
qed

lemma puthd_text: "buf_ok b \<Longrightarrow> puthd v b = emit (hex_text 8 (unat v)) b"
  using hex_loop_text [of b 8 v] by (simp add: puthd_def push_bit_eq_mult)

lemma puthw_text: "buf_ok b \<Longrightarrow> puthw v b = emit (hex_text 4 (unat v)) b"
  using hex_loop_text [of b 4 v] by (simp add: puthw_def push_bit_eq_mult)

lemma puthb_text: "buf_ok b \<Longrightarrow> puthb v b = emit (hex_text 2 (unat v)) b"
  using hex_loop_text [of b 2 v] by (simp add: puthb_def push_bit_eq_mult)

subsection \<open>The reference renderer\<close>

definition render_spec :: "u8 \<Rightarrow> varg list \<Rightarrow> (u8 list \<times> varg list) res" where
  "render_spec c vl =
     (if c = 0x25 then Inr ([0x25], vl)
      else if c = 0x63 then kbind (va_int vl) (\<lambda>(v, vl). Inr ([ucast v], vl))
      else if c = 0x64 then kbind (va_int vl) (\<lambda>(v, vl). Inr (dec_text v, vl))
      else if c = 0x78 then kbind (va_int vl) (\<lambda>(v, vl). Inr (hex_text 8 (unat v), vl))
      else if c = 0x73 then kbind (va_str vl) (\<lambda>(s, vl).
        if 0 \<in> set s then Inr (cstr s, vl) else Inl OutOfBounds)
      else Inr ([], vl))"

fun render :: "u8 list \<Rightarrow> varg list \<Rightarrow> u8 list res" where
  "render [] vl = Inl OutOfBounds"
| "render (p # ps) vl =
     (if p = 0 then Inr []
      else if p = 0x25 then
        (case ps of [] \<Rightarrow> Inl OutOfBounds
         | c # qs \<Rightarrow> kbind (render_spec c vl) (\<lambda>(ws, vl). kbind (render qs vl) (\<lambda>ys. Inr (ws @ ys))))
      else kbind (render ps vl) (\<lambda>ys. Inr (p # ys)))"

lemma va_error: "va_int vl = Inl e \<Longrightarrow> e = OutOfBounds" "va_str vl = Inl e \<Longrightarrow> e = OutOfBounds"
  by (cases vl rule: va_int.cases; simp) (cases vl rule: va_str.cases; simp)

lemma render_spec_error: "render_spec c vl = Inl e \<Longrightarrow> e = OutOfBounds"
  by (auto simp: render_spec_def kbind_Inl_iff dest: va_error split: if_splits)

lemma render_error: "render fmt vl = Inl e \<Longrightarrow> e = OutOfBounds"
proof (induction fmt vl arbitrary: e rule: render.induct)
  case (2 p ps vl)
  then show ?case
    by (cases ps) (auto simp: kbind_Inl_iff dest: render_spec_error split: if_splits prod.splits)
qed simp

lemma format_spec_render:
  assumes "buf_ok b"
  shows "format_spec c vl b = kbind (render_spec c vl) (\<lambda>(ws, vl). kbind (emit ws b) (\<lambda>b. Inr (vl, b)))"
proof -
  have va: "kbind (kbind x (\<lambda>(v, vl). Inr (f v, vl))) g = kbind x (\<lambda>(v, vl). g (f v, vl))"
    for x :: "('a \<times> varg list) res" and f :: "'a \<Rightarrow> u8 list" and g :: "u8 list \<times> varg list \<Rightarrow> 'c res"
    by (cases x) auto
  show ?thesis
    using assms
    by (auto simp: format_spec_def render_spec_def putch_emit va putd_text puthd_text puts_emit emit_Nil kbind_assoc
        split: prod.splits intro!: arg_cong [where f = "kbind _"])
qed

lemma kvformat_loop_render:
  "buf_ok b \<Longrightarrow> kvformat_loop fmt vl b = kbind (render fmt vl) (\<lambda>ws. emit ws b)"
proof (induction fmt arbitrary: vl b rule: length_induct)
  case (1 fmt)
  show ?case
  proof (cases fmt)
    case (Cons p ps)
    have IH: "kvformat_loop qs vl b = kbind (render qs vl) (\<lambda>ws. emit ws b)"
      if "buf_ok b" "length qs \<le> length ps" for qs vl b using 1 Cons that by simp
    consider "p = 0" | (plain) "p \<noteq> 0" "p \<noteq> 0x25" | (last) "p = 0x25" "ps = []"
      | (spec) c qs where "p = 0x25" "ps = c # qs" by (cases ps) auto
    then show ?thesis
    proof cases
      case plain
      have "kbind (emit [p] b) (kvformat_loop ps vl) = kbind (render ps vl) (\<lambda>ys. emit ([p] @ ys) b)"
        by (rule emit_bind [OF IH render_error]) auto
      then show ?thesis using plain Cons by (simp add: putch_emit kbind_assoc)
    next
      case spec
      show ?thesis
      proof (cases "render_spec c vl")
        case (Inr r)
        then obtain ws vl' where r: "render_spec c vl = Inr (ws, vl')" by (cases r) auto
        have "kbind (emit ws b) (kvformat_loop qs vl') = kbind (render qs vl') (\<lambda>ys. emit (ws @ ys) b)"
          by (rule emit_bind [OF IH render_error]) (auto simp: spec)
        then show ?thesis
          using spec Cons r format_spec_render [OF 1(2)] by (simp add: kbind_assoc)
      qed (use spec Cons format_spec_render [OF 1(2)] in simp)
    qed (use Cons 1(2) in \<open>simp_all add: emit_Nil\<close>)
  qed simp
qed

lemma kvformat_render:
  "kvformat buf fmt vl =
     kbind (render fmt vl) (\<lambda>ws. if length ws < length buf then Inr (ws @ 0 # drop (length ws + 1) buf)
       else Inl OutOfBounds)"
proof -
  let ?b = "\<lparr>bbytes = buf, bpos = 0\<rparr>"
  have "kbind (emit ws ?b) (\<lambda>b. kbind (putch 0 b) (\<lambda>b. Inr (bbytes b))) =
      (if length ws < length buf then Inr (ws @ 0 # drop (length ws + 1) buf) else Inl OutOfBounds)" for ws
  proof -
    have "kbind (emit ws ?b) (\<lambda>b. kbind (putch 0 b) (\<lambda>b. Inr (bbytes b))) =
        kbind (kbind (emit ws ?b) (emit [0])) (\<lambda>b. Inr (bbytes b))"
      by (simp add: kbind_assoc putch_emit)
    then show ?thesis unfolding emit_append by (simp add: emit_def Suc_le_eq)
  qed
  then show ?thesis
    unfolding kvformat_def kvformat_loop_render [of ?b, simplified buf_ok_def, simplified] kbind_assoc by simp
qed

subsection \<open>The screen\<close>

text \<open>
  The abstract terminal: the cells of the screen row by row, and the cursor.  A line feed, or
  a character beyond the right margin, moves to the start of the next line; below the last
  line the screen scrolls by one line.
\<close>

record terminal =
  grid :: "u16 list"
  trow :: nat
  tcol :: nat

definition term_scroll :: "u16 list \<Rightarrow> u16 list" where
  "term_scroll g = drop 80 g @ replicate 80 0x20"

definition term_newline :: "terminal \<Rightarrow> terminal" where
  "term_newline t =
     (if trow t = 24 then t\<lparr>grid := term_scroll (grid t), tcol := 0\<rparr> else t\<lparr>trow := trow t + 1, tcol := 0\<rparr>)"

definition term_put :: "u8 \<Rightarrow> terminal \<Rightarrow> u8 \<Rightarrow> terminal" where
  "term_put attr t ch =
     (if ch = 0x0a then term_newline t
      else let t = (if tcol t = 80 then term_newline t else t) in
        t\<lparr>grid := (grid t)[trow t * 80 + tcol t := vga_make_char ch attr], tcol := tcol t + 1\<rparr>)"

definition term_of :: "vga \<Rightarrow> terminal" where
  "term_of s = \<lparr>grid = VGA_MEM s, trow = unat (vga_row s), tcol = unat (vga_col s)\<rparr>"

definition vga_ok :: "vga \<Rightarrow> bool" where
  "vga_ok s \<longleftrightarrow> length (VGA_MEM s) = 2000 \<and> unat (vga_row s) < 25 \<and> unat (vga_col s) \<le> 80"

lemma scroll_copy_step:
  assumes "length M = 2000" and "n < 1920"
  shows "(take n (drop 80 M) @ drop n M)[n := (take n (drop 80 M) @ drop n M) ! (n + 80)] =
    take (Suc n) (drop 80 M) @ drop (Suc n) M"
proof -
  have "(take n (drop 80 M) @ drop n M) ! (n + 80) = M ! (n + 80)" using assms by (simp add: nth_append add.commute)
  moreover have "drop n M = M ! n # drop (Suc n) M" using assms by (simp add: Cons_nth_drop_Suc)
  ultimately show ?thesis
    using assms by (simp add: list_update_append take_Suc_conv_app_nth add.commute)
qed

text \<open>
  What scrolling and filling need of a screen: it holds a list of cells, and reading and
  writing a cell inside the list is reading and updating the list.
\<close>

locale cell_screen =
  fixes cells :: "'s \<Rightarrow> u16 list" and set_cells :: "u16 list \<Rightarrow> 's \<Rightarrow> 's"
    and get :: "nat \<Rightarrow> 's \<Rightarrow> u16 res" and put :: "nat \<Rightarrow> u16 \<Rightarrow> 's \<Rightarrow> 's res"
  assumes cells_set: "cells (set_cells M s) = M" and set_set: "set_cells M (set_cells N s) = set_cells M s"
    and set_same: "set_cells (cells s) s = s"
    and get_in: "i < length (cells s) \<Longrightarrow> get i s = Inr (cells s ! i)"
    and put_in: "i < length (cells s) \<Longrightarrow> put i v s = Inr (set_cells ((cells s)[i := v]) s)"
begin

lemma copy_up:
  assumes M: "length (cells s) = 2000"
  shows "kfor 24 (\<lambda>y. kfor 80 (\<lambda>x s. kbind (get ((y + 1) * 80 + x) s) (\<lambda>v. put (y * 80 + x) v s))) s =
    Inr (set_cells (drop 80 (cells s) @ drop 1920 (cells s)) s)"
proof -
  let ?M = "cells s"
  let ?F = "\<lambda>n. set_cells (take n (drop 80 ?M) @ drop n ?M) s"
  let ?body = "\<lambda>y x s. kbind (get ((y + 1) * 80 + x) s) (\<lambda>v. put (y * 80 + x) v s)"
  have step: "?body y x (?F (y * 80 + x)) = Inr (?F (y * 80 + Suc x))" if "y < 24" "x < 80" for y x
  proof -
    have n: "y * 80 + x < 1920" using that by simp
    show ?thesis
      using scroll_copy_step [OF M n] n M
      by (simp add: get_in put_in cells_set set_set add.commute add.left_commute)
  qed
  have row: "kfor 80 (?body y) (?F (y * 80)) = Inr (?F (Suc y * 80))" if y: "y < 24" for y
  proof -
    have "\<exists>t. kfor 80 (?body y) (?F (y * 80)) = Inr t \<and> t = ?F (y * 80 + 80)"
      by (rule kfor_total [where P = "\<lambda>x t. t = ?F (y * 80 + x)"]) (use step [OF y] in auto)
    then show ?thesis by (simp add: add.commute)
  qed
  have "\<exists>t. kfor 24 (\<lambda>y. kfor 80 (?body y)) s = Inr t \<and> t = ?F (24 * 80)"
    by (rule kfor_total [where P = "\<lambda>y t. t = ?F (y * 80)"]) (use row set_same in auto)
  then show ?thesis using M by simp
qed

lemma fill_row:
  assumes "length (cells s) = 2000" and "r < 25"
  shows "kfor 80 (\<lambda>x. put (r * 80 + x) v) s =
    Inr (set_cells (take (r * 80) (cells s) @ replicate 80 v @ drop (r * 80 + 80) (cells s)) s)"
proof -
  let ?M = "cells s"
  let ?G = "\<lambda>x. set_cells (take (r * 80) ?M @ replicate x v @ drop (r * 80 + x) ?M) s"
  have one: "put (r * 80 + x) v (?G x) = Inr (?G (Suc x))" if "x < 80" for x
  proof -
    have "drop (r * 80 + x) ?M = ?M ! (r * 80 + x) # drop (r * 80 + Suc x) ?M"
      using that assms Cons_nth_drop_Suc [of "r * 80 + x" ?M] by simp
    moreover have rc: "replicate x v @ v # zs = v # replicate x v @ zs" for zs by (induction x) auto
    ultimately show ?thesis
      using that assms by (simp add: put_in cells_set set_set list_update_append min_def rc)
  qed
  have "\<exists>t. kfor 80 (\<lambda>x. put (r * 80 + x) v) s = Inr t \<and> t = ?G 80"
    by (rule kfor_total [where P = "\<lambda>x t. t = ?G x"]) (use one set_same in auto)
  then show ?thesis by simp
qed

lemma scroll:
  assumes M: "length (cells s) = 2000"
  shows "kbind (kfor 24 (\<lambda>y. kfor 80 (\<lambda>x s. kbind (get ((y + 1) * 80 + x) s) (\<lambda>v. put (y * 80 + x) v s))) s)
    (kfor 80 (\<lambda>x. put (24 * 80 + x) blank)) = Inr (set_cells (drop 80 (cells s) @ replicate 80 blank) s)"
  unfolding copy_up [OF M]
  using fill_row [of "set_cells (drop 80 (cells s) @ drop 1920 (cells s)) s" 24 blank] M
  by (simp add: cells_set set_set)

lemma fill_all:
  assumes M: "length (cells s) = 2000"
  shows "kfor 25 (\<lambda>y. kfor 80 (\<lambda>x. put (y * 80 + x) v)) s = Inr (set_cells (replicate 2000 v) s)"
proof -
  have "\<exists>t. kfor 25 (\<lambda>y. kfor 80 (\<lambda>x. put (y * 80 + x) v)) s = Inr t \<and>
    t = set_cells (replicate (25 * 80) v @ drop (25 * 80) (cells s)) s"
  proof (rule kfor_total [where P = "\<lambda>y t. t = set_cells (replicate (y * 80) v @ drop (y * 80) (cells s)) s"])
    show "s = set_cells (replicate (0 * 80) v @ drop (0 * 80) (cells s)) s" by (simp add: set_same)
    fix y t assume y: "y < 25" and t: "t = set_cells (replicate (y * 80) v @ drop (y * 80) (cells s)) s"
    have rc: "replicate (y * 80) v @ replicate 80 v @ zs = replicate 80 v @ replicate (y * 80) v @ zs" for zs
      unfolding append_assoc [symmetric] replicate_add [symmetric] by (simp add: add.commute)
    from y show "\<exists>t'. kfor 80 (\<lambda>x. put (y * 80 + x) v) t = Inr t' \<and>
        t' = set_cells (replicate (Suc y * 80) v @ drop (Suc y * 80) (cells s)) s"
      using fill_row [of t y v] M unfolding t
      by (simp add: cells_set set_set replicate_add add.commute rc)
  qed
  then show ?thesis using M by simp
qed

end

interpretation vgs: cell_screen VGA_MEM "\<lambda>M s. s\<lparr>VGA_MEM := M\<rparr>" vga_cell vga_set_cell
  by unfold_locales (simp_all add: vga_cell_def vga_set_cell_def)

lemma vga_scrollup_screen:
  assumes M: "length (VGA_MEM s) = 2000"
  shows "vga_scrollup s = Inr (s\<lparr>VGA_MEM := term_scroll (VGA_MEM s)\<rparr>)"
  unfolding vga_scrollup_def using vgs.scroll [OF M, of "0x20"]
  by (simp add: VGA_WIDTH_def VGA_HEIGHT_def term_scroll_def)

lemma vga_putch_step:
  assumes ok: "vga_ok s"
  shows "\<exists>s'. vga_putch ch s = Inr s' \<and> vga_ok s' \<and> vga_attr s' = vga_attr s \<and>
    term_of s' = term_put (vga_attr s) (term_of s) ch"
proof -
  have ok': "length (VGA_MEM s) = 2000" "unat (vga_row s) < 25" "unat (vga_col s) \<le> 80" using ok by (auto simp: vga_ok_def)
  have col: "vga_col s \<ge> of_nat VGA_WIDTH \<longleftrightarrow> unat (vga_col s) = 80"
    using ok'(3) by (simp add: word_le_nat_alt VGA_WIDTH_def)
  define nl where "nl = (unat (vga_col s) = 80 \<or> ch = 0x0a)"
  define s1 where "s1 = (if nl then s\<lparr>vga_col := 0, vga_row := vga_row s + 1\<rparr> else s)"
  have row1: "unat (vga_row s + 1) = unat (vga_row s) + 1"
    using ok'(2) by (subst unat_add_no_wrap) auto
  have r25: "vga_row s1 \<ge> of_nat VGA_HEIGHT \<longleftrightarrow> nl \<and> unat (vga_row s) = 24"
    using ok'(2) row1 by (auto simp: s1_def word_le_nat_alt VGA_HEIGHT_def)
  define s2 where "s2 = (if nl \<and> unat (vga_row s) = 24
    then s1\<lparr>VGA_MEM := term_scroll (VGA_MEM s), vga_row := vga_row s1 - 1\<rparr> else s1)"
  have M1: "length (VGA_MEM s1) = 2000" "VGA_MEM s1 = VGA_MEM s" using ok'(1) by (simp_all add: s1_def)
  have sc: "(if vga_row s1 \<ge> of_nat VGA_HEIGHT
      then kbind (vga_scrollup s1) (\<lambda>s. Inr (s\<lparr>vga_row := vga_row s - 1\<rparr>)) else Inr s1) = Inr s2"
    unfolding r25 using vga_scrollup_screen [OF M1(1)] M1(2) by (simp add: s2_def)
  have len: "length (term_scroll (VGA_MEM s)) = 2000" using ok'(1) by (simp add: term_scroll_def)
  have s2: "vga_ok s2" "vga_attr s2 = vga_attr s" "unat (vga_col s2) < 80 \<or> ch = 0x0a"
    "term_of s2 = (if nl then term_newline (term_of s) else term_of s)"
    using ok' len row1 by (auto simp: vga_ok_def term_of_def term_newline_def s2_def s1_def nl_def)
  have put: "vga_putch ch s = (if ch = 0x0a then Inr s2
      else kbind (vga_putchat ch (vga_attr s2) (vga_col s2) (vga_row s2) s2) (\<lambda>s. Inr (s\<lparr>vga_col := vga_col s + 1\<rparr>)))"
    unfolding vga_putch_def Let_def col nl_def [symmetric] s1_def [symmetric] sc by simp
  show ?thesis
  proof (cases "ch = 0x0a")
    case True
    then show ?thesis using put s2 by (simp add: term_put_def nl_def)
  next
    case False
    have c: "unat (vga_col s2) < 80" "unat (vga_row s2) < 25" "length (VGA_MEM s2) = 2000"
      using s2 False by (auto simp: vga_ok_def)
    have m: "unat (vga_row s2 * 80) = unat (vga_row s2) * 80"
      using c(2) by (simp add: unat_word_ariths)
    have idx: "unat (vga_row s2 * of_nat VGA_WIDTH + vga_col s2) = unat (vga_row s2) * 80 + unat (vga_col s2)"
      using c m by (simp add: VGA_WIDTH_def unat_add_no_wrap)
    have cc: "unat (vga_col s2 + 1) = unat (vga_col s2) + 1"
      using c by (subst unat_add_no_wrap) auto
    let ?s = "s2\<lparr>VGA_MEM := (VGA_MEM s2)[unat (vga_row s2) * 80 + unat (vga_col s2) := vga_make_char ch (vga_attr s)],
       vga_col := vga_col s2 + 1\<rparr>"
    have "vga_putch ch s = Inr ?s"
      using put False c idx s2(2) by (simp add: vga_putchat_def vga_set_cell_def)
    moreover have "vga_ok ?s" using c cc by (simp add: vga_ok_def)
    moreover have "term_of ?s = term_put (vga_attr s) (term_of s) ch"
    proof -
      have "tcol (term_of s) = unat (vga_col s)" by (simp add: term_of_def)
      then have t: "(if tcol (term_of s) = 80 then term_newline (term_of s) else term_of s) = term_of s2"
        using s2(4) False by (simp add: nl_def)
      show ?thesis unfolding term_put_def Let_def t using False cc by (simp add: term_of_def)
    qed
    ultimately show ?thesis using s2(2) by (intro exI [of _ ?s]) simp
  qed
qed

lemma vga_puts_refine:
  assumes "vga_ok s" and "0 \<in> set str"
  shows "\<exists>s'. vga_puts str s = Inr s' \<and> vga_ok s' \<and> vga_attr s' = vga_attr s \<and>
    term_of s' = foldl (term_put (vga_attr s)) (term_of s) (cstr str)"
  using assms
proof (induction str arbitrary: s)
  case (Cons c str)
  show ?case
  proof (cases "c = 0")
    case False
    obtain s1 where s1: "vga_putch c s = Inr s1" "vga_ok s1" "vga_attr s1 = vga_attr s"
      "term_of s1 = term_put (vga_attr s) (term_of s) c" using vga_putch_step [OF Cons.prems(1)] by blast
    then show ?thesis using Cons.IH [OF s1(2)] Cons.prems(2) False by (simp add: cstr_Cons)
  qed (use Cons.prems in \<open>simp add: cstr_Cons\<close>)
qed simp

subsection \<open>Reading numbers back\<close>

definition digit_value :: "u8 \<Rightarrow> nat" where
  "digit_value c = (if c \<le> 0x39 then unat c - 0x30 else unat c - 0x57)"

definition read_number :: "nat \<Rightarrow> u8 list \<Rightarrow> nat" where
  "read_number base ws = foldl (\<lambda>a c. a * base + digit_value c) 0 ws"

definition read_decimal :: "u8 list \<Rightarrow> int" where
  "read_decimal ws =
     (case ws of c # cs \<Rightarrow> if c = 0x2d then - int (read_number 10 cs) else int (read_number 10 ws) | [] \<Rightarrow> 0)"

lemma digit_value_digits: "d < 16 \<Longrightarrow> digit_value (digits ! d) = d"
proof -
  assume d: "d < 16"
  have "map digit_value digits = [0..<16]" by (simp add: digits_def digit_value_def upt_rec)
  then have "map digit_value digits ! d = [0..<16] ! d" by (rule arg_cong)
  moreover have "d < length digits" using d by (simp add: digits_def)
  ultimately show ?thesis using d by simp
qed

lemma digits_not_minus: "d < 16 \<Longrightarrow> digits ! d \<noteq> 0x2d"
proof -
  assume d: "d < 16"
  have "0x2d \<notin> set digits" "d < length digits" using d by (simp_all add: digits_def)
  then show ?thesis by (metis nth_mem)
qed

lemma read_dec_digits: "read_number 10 (map ((!) digits) (dec_digits n)) = n"
proof -
  have "foldl (\<lambda>a c. a * 10 + digit_value c) x (map ((!) digits) ds) = foldl (\<lambda>a d. a * 10 + d) x ds"
    if "\<forall>d \<in> set ds. d < 10" for ds x
    using that by (induction ds arbitrary: x) (simp_all add: digit_value_digits)
  then show ?thesis using dec_digits_less dec_digits_value by (simp add: read_number_def)
qed

lemma dec_text_roundtrip:
  assumes "v \<noteq> 0x80000000"
  shows "read_decimal (dec_text v) = sint v"
proof -
  have pos: "read_decimal (map ((!) digits) (dec_digits n)) = int n" for n
  proof (cases "dec_digits n")
    case Nil
    then show ?thesis using read_dec_digits [of n] by (simp add: read_decimal_def read_number_def)
  next
    case (Cons d ds)
    then have "digits ! d \<noteq> 0x2d" using dec_digits_less [of d n] by (intro digits_not_minus) simp
    then show ?thesis using Cons read_dec_digits [of n] by (simp add: read_decimal_def)
  qed
  have "read_decimal [0x30] = 0" by (simp add: read_decimal_def read_number_def digit_value_def)
  then show ?thesis
    using assms pos read_dec_digits by (auto simp: dec_text_def read_decimal_def)
qed

lemma dec_text_length: "length (dec_text v) \<le> 11"
proof -
  have "nat (- sint v) < 10 ^ 10" "nat (sint v) < 10 ^ 10" using sint_u32_range [of v] by simp_all
  from this [THEN dec_digits_length] show ?thesis by (auto simp: dec_text_def)
qed

lemma read_hex_text:
  "foldl (\<lambda>a c. a * 16 + digit_value c) x (hex_text k n) = x * 16 ^ k + n mod 16 ^ k"
proof (induction k arbitrary: x)
  case 0
  then show ?case by (simp add: hex_text_def)
next
  case (Suc k)
  have "n mod 16 ^ Suc k = n mod 16 ^ k + 16 ^ k * (n div 16 ^ k mod 16)"
    unfolding power_Suc2 by (subst mod_mult2_eq) simp
  then show ?case
    using Suc.IH [of "x * 16 + n div 16 ^ k mod 16"]
    by (simp add: hex_text_def digit_value_digits algebra_simps)
qed

lemma hex_text_roundtrip: "read_number 16 (hex_text k n) = n mod 16 ^ k" "length (hex_text k n) = k"
  using read_hex_text [of 0 k n] by (simp_all add: read_number_def hex_text_def)

subsection \<open>The serial port\<close>

definition com_ready :: "ioport \<Rightarrow> bool" where
  "com_ready io \<longleftrightarrow> (\<forall>n. \<exists>m \<ge> n. (ucast (in_val io (PORT + 5) m) :: u8) AND 0x20 \<noteq> 0)"

lemma com_wait_returns:
  assumes "(ucast (in_val io (PORT + 5) (in_pos io (PORT + 5) + k)) :: u8) AND 0x20 \<noteq> 0"
  shows "\<exists>io'. com_wait io = Some io' \<and> out_log io' = out_log io \<and> in_val io' = in_val io"
  using assms
proof (induction k arbitrary: io)
  case 0
  then show ?case by (subst com_wait.simps) (simp add: inb_def inl_def)
next
  case (Suc k)
  show ?case
  proof (cases "(ucast (in_val io (PORT + 5) (in_pos io (PORT + 5))) :: u8) AND 0x20 = 0")
    case True
    let ?io = "io\<lparr>in_pos := (in_pos io)(PORT + 5 := Suc (in_pos io (PORT + 5)))\<rparr>"
    have "com_wait io = com_wait ?io" using True by (subst com_wait.simps) (simp add: inb_def inl_def)
    moreover have "\<exists>io'. com_wait ?io = Some io' \<and> out_log io' = out_log ?io \<and> in_val io' = in_val ?io"
      using Suc.prems by (intro Suc.IH) simp
    ultimately show ?thesis by simp
  next
    case False
    then show ?thesis by (subst com_wait.simps) (simp add: inb_def inl_def)
  qed
qed

lemma com_puts_sends:
  assumes "com_ready io" and "0 \<in> set str"
  shows "\<exists>io'. com_puts str io = Inr io' \<and> in_val io' = in_val io \<and>
    out_log io' = out_log io @ map (\<lambda>c. (PORT, ucast c)) (cstr str)"
  using assms
proof (induction str arbitrary: io)
  case (Cons c str)
  show ?case
  proof (cases "c = 0")
    case False
    obtain k where "(ucast (in_val io (PORT + 5) (in_pos io (PORT + 5) + k)) :: u8) AND 0x20 \<noteq> 0"
      using Cons.prems(1) unfolding com_ready_def by (metis le_Suc_ex)
    from com_wait_returns [OF this] obtain io1 where
      io1: "com_wait io = Some io1" "out_log io1 = out_log io" "in_val io1 = in_val io" by blast
    have "com_ready (outb PORT c io1)" using Cons.prems(1) io1(3) by (simp add: com_ready_def outb_def)
    from Cons.IH [OF this] Cons.prems(2) False show ?thesis
      using io1 by (auto simp: com_putc_def outb_def cstr_Cons)
  qed (use Cons.prems in \<open>simp add: cstr_Cons\<close>)
qed simp

lemma cstr_terminated: "cstr (ws @ 0 # zs) = cstr ws"
  by (induction ws) (simp_all add: cstr_Cons cstr_def)

text \<open>
  \<open>kprintf\<close> with its lock free, the serial port becoming ready again and again, and a rendered
  text of at most 255 bytes: it returns, the lock is free again, the text up to its first
  zero byte has been sent to the serial port in order and nothing else was written to a port,
  and the screen shows it.
\<close>

lemma kprintf_prints:
  assumes "\<not> print_lock c" and "com_ready (con_io c)" and "vga_ok (con_vga c)"
    and "render fmt vl = Inr ws" and "length ws < 256"
  shows "\<exists>c'. kprintf fmt vl c = Inr c' \<and> \<not> print_lock c' \<and> com_ready (con_io c') \<and> vga_ok (con_vga c') \<and>
    out_log (con_io c') = out_log (con_io c) @ map (\<lambda>ch. (PORT, ucast ch)) (cstr ws) \<and>
    vga_attr (con_vga c') = vga_attr (con_vga c) \<and>
    term_of (con_vga c') = foldl (term_put (vga_attr (con_vga c))) (term_of (con_vga c)) (cstr ws)"
proof -
  let ?buf = "ws @ 0 # drop (length ws + 1) (replicate 256 0)"
  have fm: "kvformat (replicate KERNEL_MAX_PRINT_SIZE 0) fmt vl = Inr ?buf"
    using assms(4,5) by (simp add: kvformat_render KERNEL_MAX_PRINT_SIZE_def)
  have z: "0 \<in> set ?buf" "cstr ?buf = cstr ws" by (simp_all add: cstr_terminated)
  obtain io where io: "com_puts ?buf (con_io c) = Inr io" "com_ready io"
    "out_log io = out_log (con_io c) @ map (\<lambda>ch. (PORT, ucast ch)) (cstr ws)"
    using com_puts_sends [OF assms(2) z(1)] z(2) assms(2) by (auto simp: com_ready_def)
  obtain v where v: "vga_puts ?buf (con_vga c) = Inr v" "vga_ok v" "vga_attr v = vga_attr (con_vga c)"
    "term_of v = foldl (term_put (vga_attr (con_vga c))) (term_of (con_vga c)) (cstr ws)"
    using vga_puts_refine [OF assms(3) z(1)] z(2) by auto
  show ?thesis
    using assms(1) fm io v by (simp add: kprintf_def Let_def)
qed

section \<open>Properties\<close>

text \<open>
  C24. The formatter is the reference renderer: for every format and argument list,
  \<open>kvformat\<close> stores the rendered text and a zero byte at the start of the buffer and
  leaves the rest alone when the text is shorter than the buffer.  Otherwise it writes
  outside the buffer, whatever size it was given; and it runs off the end of the format,
  of a string or of the argument list exactly when the renderer does (a format ending in
  a single percent sign, for one).
\<close>

theorem kvformat_correct:
  "kvformat buf fmt vl =
     (case render fmt vl of
        Inl e \<Rightarrow> Inl OutOfBounds
      | Inr ws \<Rightarrow> if length ws < length buf then Inr (ws @ 0 # drop (length ws + 1) buf) else Inl OutOfBounds)"
  using render_error [of fmt vl] by (simp add: kvformat_render kbind_def split: sum.splits)

text \<open>
  C26. Numbers print so that they can be read back: \<open>putd\<close> writes at most 11 characters whose
  decimal value is the argument (except for the smallest integer, for which it writes only
  the sign), and \<open>puthd\<close>, \<open>puthw\<close>, \<open>puthb\<close> write exactly 8, 4, 2 digits whose hexadecimal value is
  the argument.
\<close>

theorem number_text_roundtrip:
  assumes "buf_ok b"
  shows "(\<exists>ws. putd v b = emit ws b \<and> length ws \<le> 11 \<and>
      (if v = 0x80000000 then ws = [0x2d] else read_decimal ws = sint v)) \<and>
    (\<exists>ws. puthd v b = emit ws b \<and> length ws = 8 \<and> read_number 16 ws = unat v) \<and>
    (\<exists>ws. puthw w b = emit ws b \<and> length ws = 4 \<and> read_number 16 ws = unat w) \<and>
    (\<exists>ws. puthb c b = emit ws b \<and> length ws = 2 \<and> read_number 16 ws = unat c)"
proof (intro conjI)
  have "dec_text 0x80000000 = [0x2d]" by (simp add: dec_text_def)
  then show "\<exists>ws. putd v b = emit ws b \<and> length ws \<le> 11 \<and>
      (if v = 0x80000000 then ws = [0x2d] else read_decimal ws = sint v)"
    using putd_text [OF assms] dec_text_length dec_text_roundtrip by (intro exI [of _ "dec_text v"]) auto
  have lt: "unat v < 16 ^ 8" "unat w < 16 ^ 4" "unat c < 16 ^ 2"
    using unsigned_less [of v] unsigned_less [of w] unsigned_less [of c] by simp_all
  note hex = hex_text_roundtrip [of 8 "unat v"] hex_text_roundtrip [of 4 "unat w"] hex_text_roundtrip [of 2 "unat c"]
  show "\<exists>ws. puthd v b = emit ws b \<and> length ws = 8 \<and> read_number 16 ws = unat v"
    using puthd_text [OF assms] hex lt by (intro exI [of _ "hex_text 8 (unat v)"]) simp
  show "\<exists>ws. puthw w b = emit ws b \<and> length ws = 4 \<and> read_number 16 ws = unat w"
    using puthw_text [OF assms] hex lt by (intro exI [of _ "hex_text 4 (unat w)"]) simp
  show "\<exists>ws. puthb c b = emit ws b \<and> length ws = 2 \<and> read_number 16 ws = unat c"
    using puthb_text [OF assms] hex lt by (intro exI [of _ "hex_text 2 (unat c)"]) simp
qed

theorem number_text_roundtrip_witness:
  "\<exists>ws. putd (- 1234) \<lparr>bbytes = replicate 16 0, bpos = 0\<rparr> = emit ws \<lparr>bbytes = replicate 16 0, bpos = 0\<rparr> \<and>
     read_decimal ws = - 1234"
proof -
  have "buf_ok \<lparr>bbytes = replicate 16 0, bpos = 0\<rparr>" by (simp add: buf_ok_def)
  from conjunct1 [OF number_text_roundtrip [OF this, where v = "- 1234" and w = 0 and c = 0]]
  show ?thesis by auto
qed

text \<open>
  C25. The screen is a terminal: from a state with the cursor on the screen, printing any
  terminated string returns, leaves the cursor on the screen, touches no memory outside
  the 80 by 25 cells, and has the effect of putting its characters one by one on the
  abstract terminal, which wraps at the right margin and scrolls at the bottom.
\<close>

theorem vga_puts_refines:
  assumes "vga_ok s" and "0 \<in> set str"
  shows "\<exists>s'. vga_puts str s = Inr s' \<and> vga_ok s' \<and>
    term_of s' = foldl (term_put (vga_attr s)) (term_of s) (cstr str)"
  using vga_puts_refine [OF assms] by blast

definition demo_vga :: vga where
  "demo_vga = \<lparr>VGA_MEM = replicate 2000 0, vga_col = 79, vga_row = 24, vga_attr = 15\<rparr>"

theorem vga_puts_refines_witness:
  "\<exists>s'. vga_puts [0x61, 0x62, 0] demo_vga = Inr s' \<and> trow (term_of s') = 24 \<and> tcol (term_of s') = 1"
proof -
  have "vga_ok demo_vga" "(0 :: u8) \<in> set [0x61, 0x62, 0]" by (simp_all add: vga_ok_def demo_vga_def)
  from vga_puts_refines [OF this] show ?thesis
    by (auto simp: cstr_def term_put_def term_newline_def term_of_def demo_vga_def Let_def)
qed

definition demo_console :: console where
  "demo_console = \<lparr>con_io = \<lparr>out_log = [], in_val = (\<lambda>_ _. 0x20), in_pos = (\<lambda>_. 0)\<rparr>,
     con_vga = demo_vga, print_lock = False\<rparr>"

end
