(* ===== verification/Devices.thy ===== *)
theory Devices
  imports Procs Console
begin

unbundle bit_operations_syntax

text \<open>
  The devices the kernel drives itself: \<^verbatim>\<open>kernel/timer.c\<close>, \<^verbatim>\<open>kernel/kbd.c\<close>, \<^verbatim>\<open>kernel/pci.c\<close>, and
  the error screen of \<^verbatim>\<open>kernel/idt.c\<close>, with the state of the whole machine.

  \<open>sys\<close> is the kernel state of theory \<open>Procs\<close> with the static variables of the timer and the
  keyboard, the screen, the lock of \<open>kprintf\<close> and the register CR2.  A busy wait is a
  \<open>partial_function\<close> on the input stream of its port.

  Shown: what the timer and keyboard interrupts do; that every make code from 60 on reads
  outside the keyboard layout; that a read of a PCI register in the upper half of its
  double word always gives zero, so that no device id is ever printed.
\<close>

section \<open>Definitions\<close>

record sys =
  sk :: kern
  timer_ticks :: u32
  key_buffer :: u8
  is_pressed :: "nat \<Rightarrow> u8"
  svga :: vga
  sprint_lock :: bool
  cr2 :: u32

definition cstring :: "string \<Rightarrow> u8 list" where
  "cstring s = map of_char s @ [0]"

definition sys_kprintf :: "u8 list \<Rightarrow> varg list \<Rightarrow> sys \<Rightarrow> sys res" where
  "sys_kprintf fmt vl s =
     kbind (kprintf fmt vl \<lparr>con_io = kio (sk s), con_vga = svga s, print_lock = sprint_lock s\<rparr>) (\<lambda>c.
       Inr (s\<lparr>sk := (sk s)\<lparr>kio := con_io c\<rparr>, svga := con_vga c, sprint_lock := print_lock c\<rparr>))"

fun kfold :: "'a list \<Rightarrow> ('a \<Rightarrow> 's \<Rightarrow> 's res) \<Rightarrow> 's \<Rightarrow> 's res" where
  "kfold [] body s = Inr s"
| "kfold (x # xs) body s = kbind (body x s) (kfold xs body)"

subsection \<open>Timer (timer.c)\<close>

definition timer_handler :: "u32 \<Rightarrow> sys \<Rightarrow> (u32 \<times> sys) res" where
  "timer_handler regs s =
     (let s = s\<lparr>timer_ticks := timer_ticks s + 1\<rparr> in
      kbind (proc_schedule_after_irq regs (sk s)) (\<lambda>(ret, k). Inr (ret, s\<lparr>sk := k\<rparr>)))"

text \<open>
  The loop halts until the next interrupt; \<open>irqs\<close> are the interrupts to come, each as the effect
  of its handler.
\<close>

fun timer_wait_loop :: "(sys \<Rightarrow> sys res) list \<Rightarrow> u32 \<Rightarrow> sys \<Rightarrow> ((sys \<Rightarrow> sys res) list \<times> sys) res" where
  "timer_wait_loop [] eticks s = (if timer_ticks s < eticks then Inl Spins else Inr ([], s))"
| "timer_wait_loop (irq # irqs) eticks s =
     (if timer_ticks s < eticks then kbind (irq s) (timer_wait_loop irqs eticks) else Inr (irq # irqs, s))"

definition timer_wait :: "(sys \<Rightarrow> sys res) list \<Rightarrow> u32 \<Rightarrow> sys \<Rightarrow> ((sys \<Rightarrow> sys res) list \<times> sys) res" where
  "timer_wait irqs ticks s = timer_wait_loop irqs (timer_ticks s + ticks) s"

definition timer_set_phase :: "u32 \<Rightarrow> ioport \<Rightarrow> ioport res" where
  "timer_set_phase hz io =
     (if hz = 0 then Inl DivideError
      else let divisor = (word_of_int (1193180 sdiv sint hz) :: u32);
               io = outb 0x43 0x36 io;
               io = outb 0x40 (ucast (divisor AND 0xFF)) io
           in Inr (outb 0x40 (ucast (signed_drop_bit 8 divisor)) io))"

definition timer_install :: "u32 \<Rightarrow> sys \<Rightarrow> sys res" where
  "timer_install timer_handler_fn s =
     kbind (irq_install_handler 0 timer_handler_fn 0 (kidt (sk s))) (\<lambda>d.
     kbind (timer_set_phase 1000 (kio (sk s))) (\<lambda>io.
       sys_kprintf (cstring ''[timer] timer was set up (irq 0)\<newline>'') []
         (s\<lparr>sk := (sk s)\<lparr>kidt := d, kio := io\<rparr>\<rparr>)))"

definition timer_uninstall :: "sys \<Rightarrow> sys res" where
  "timer_uninstall s =
     kbind (irq_uninstall_handler 0 (kidt (sk s))) (\<lambda>d. Inr (s\<lparr>sk := (sk s)\<lparr>kidt := d\<rparr>\<rparr>))"

subsection \<open>Process list (proc.c)\<close>

primrec state_code :: "proc_state \<Rightarrow> u32" where
  "state_code PROC_UNUSED = 0"
| "state_code PROC_RUNNING = 1"
| "state_code PROC_READY = 2"
| "state_code PROC_SEND_BLOCKED = 3"
| "state_code PROC_RECV_BLOCKED = 4"
| "state_code PROC_REPLY_BLOCKED = 5"

definition proc_dump_entry :: "nat \<Rightarrow> sys \<Rightarrow> sys res" where
  "proc_dump_entry i s =
     (let t = ktab (sk s); p = procs t i in
      if state p = PROC_UNUSED then Inr s
      else sys_kprintf (cstring ''%d: %s %s: state %d, prvl %d, super %d\<newline>'')
             [VInt (pid p), VStr (cstring (if current_proc t = Some i then ''*'' else '' '')), VStr (pname p),
              VInt (state_code (state p)), VInt (of_bool (privileged p)), VInt (of_bool (superuser p))] s)"

definition proc_dump_proc_list :: "sys \<Rightarrow> sys res" where
  "proc_dump_proc_list s =
     kbind (sys_kprintf (cstring ''## proc dump ##\<newline>'') [] s) (kfor NPROCS proc_dump_entry)"

text \<open>The idle process prints for ever; \<open>proc_idle n\<close> is its run for \<open>n\<close> rounds.\<close>

definition proc_idle :: "nat \<Rightarrow> sys \<Rightarrow> sys res" where
  "proc_idle n = kfor n (\<lambda>_. sys_kprintf (cstring ''i'') [])"

subsection \<open>Keyboard (kbd.c)\<close>

definition KEY_LSHIFT :: u8 where "KEY_LSHIFT = 0x2a"
definition KEY_RSHIFT :: u8 where "KEY_RSHIFT = 0x36"
definition RELEASED :: "u8 \<Rightarrow> u8" where "RELEASED key = key OR 0x80"
definition MASK_NORMAL :: nat where "MASK_NORMAL = 0"
definition MASK_SHIFT :: nat where "MASK_SHIFT = 1"

definition layout :: "(u8 \<times> u8) list" where
  "layout =
    [(0x0, 0x0), (0x1b, 0x1b), (0x31, 0x21), (0x32, 0x40), (0x33, 0x23), (0x34, 0x24),
     (0x35, 0x25), (0x36, 0x5e), (0x37, 0x26), (0x38, 0x2a), (0x39, 0x28), (0x30, 0x29),
     (0x5b, 0x7b), (0x5d, 0x7d), (0x8, 0x8), (0x9, 0x9), (0x27, 0x22), (0x2c, 0x3c),
     (0x2e, 0x3e), (0x70, 0x50), (0x79, 0x59), (0x66, 0x46), (0x67, 0x47), (0x63, 0x43),
     (0x72, 0x52), (0x6c, 0x4c), (0x2f, 0x3f), (0x3d, 0x2b), (0xa, 0xa), (0x0, 0x0),
     (0x61, 0x41), (0x6f, 0x4f), (0x65, 0x45), (0x75, 0x55), (0x69, 0x49), (0x64, 0x44),
     (0x68, 0x48), (0x74, 0x54), (0x6e, 0x4e), (0x73, 0x53), (0x2d, 0x5f), (0x60, 0x7e),
     (0x0, 0x0), (0x5c, 0x7c), (0x3b, 0x3a), (0x71, 0x51), (0x6a, 0x4a), (0x6b, 0x4b),
     (0x78, 0x58), (0x62, 0x42), (0x6d, 0x4d), (0x77, 0x57), (0x76, 0x56), (0x7a, 0x5a),
     (0x0, 0x0), (0x0, 0x0), (0x0, 0x0), (0x20, 0x20), (0x0, 0x0), (0x0, 0x0)]"

partial_function (option) kbd_wait :: "ioport \<Rightarrow> ioport option" where
  "kbd_wait io = (let (c, io) = inb 0x64 io in if c AND 1 = 0 then kbd_wait io else Some io)"

definition kbd_get_scancode :: "ioport \<Rightarrow> (u8 \<times> ioport) res" where
  "kbd_get_scancode io = (case kbd_wait io of None \<Rightarrow> Inl Spins | Some io \<Rightarrow> Inr (inb 0x60 io))"

definition kbd_shift :: "u8 \<Rightarrow> sys \<Rightarrow> sys" where
  "kbd_shift scancode s =
     (let s = (if scancode = KEY_LSHIFT \<or> scancode = KEY_RSHIFT
               then s\<lparr>is_pressed := (is_pressed s)(MASK_SHIFT := 1)\<rparr> else s)
      in if scancode = RELEASED KEY_LSHIFT \<or> scancode = RELEASED KEY_RSHIFT
         then s\<lparr>is_pressed := (is_pressed s)(MASK_SHIFT := 0)\<rparr> else s)"

definition kbd_key :: "u8 \<Rightarrow> nat \<Rightarrow> u8 res" where
  "kbd_key scancode m =
     (if unat scancode < length layout
      then Inr (if m = MASK_SHIFT then snd (layout ! unat scancode) else fst (layout ! unat scancode))
      else Inl OutOfBounds)"

definition kbd_handler :: "u32 \<Rightarrow> sys \<Rightarrow> (u32 \<times> sys) res" where
  "kbd_handler regs s =
     kbind (kbd_get_scancode (kio (sk s))) (\<lambda>(scancode, io).
     let s = kbd_shift scancode (s\<lparr>sk := (sk s)\<lparr>kio := io\<rparr>\<rparr>);
         m = (if is_pressed s MASK_SHIFT \<noteq> 0 then MASK_SHIFT else MASK_NORMAL)
     in if scancode AND 0x80 = 0 then
          kbind (kbd_key scancode m) (\<lambda>key.
          let s = s\<lparr>key_buffer := key\<rparr> in
          kbind (if key_buffer s = 0x70 then proc_dump_proc_list s else Inr s) (\<lambda>s. Inr (regs, s)))
        else Inr (regs, s))"

definition kbd_install :: "u32 \<Rightarrow> sys \<Rightarrow> sys res" where
  "kbd_install kbd_handler_fn s =
     kbind (irq_install_handler 1 kbd_handler_fn 0 (kidt (sk s))) (\<lambda>d.
       sys_kprintf (cstring ''[kbd] keyboard driver initialised (irq 1)\<newline>'') []
         (s\<lparr>sk := (sk s)\<lparr>kidt := d\<rparr>\<rparr>))"

definition kbd_uninstall :: "sys \<Rightarrow> sys res" where
  "kbd_uninstall s =
     kbind (irq_uninstall_handler 1 (kidt (sk s))) (\<lambda>d. Inr (s\<lparr>sk := (sk s)\<lparr>kidt := d\<rparr>\<rparr>))"

subsection \<open>PCI (pci.c)\<close>

definition PCI_COMMAND_PORT :: u16 where "PCI_COMMAND_PORT = 0xcf8"
definition PCI_DATA_PORT :: u16 where "PCI_DATA_PORT = 0xcfc"
definition PCI_REG_VENDOR_ID :: u8 where "PCI_REG_VENDOR_ID = 0x00"
definition PCI_REG_DEVICE_ID :: u8 where "PCI_REG_DEVICE_ID = 0x02"

definition pci_read_config :: "u8 \<Rightarrow> u8 \<Rightarrow> u8 \<Rightarrow> u8 \<Rightarrow> ioport \<Rightarrow> u16 \<times> ioport" where
  "pci_read_config bus dev fn reg io =
     (let ident = push_bit 31 1 OR push_bit 16 (ucast bus) OR push_bit 11 (ucast dev) OR push_bit 8 (ucast fn)
            OR (ucast reg AND 0xfc :: u32);
          io = outl PCI_COMMAND_PORT ident io;
          (v, io) = inl PCI_DATA_PORT io;
          result = (ucast v :: u16);
          result = ucast (drop_bit (unat (reg AND 2) * 8) (ucast result :: u32))
      in (result AND 0xffff, io))"

definition pci_probe :: "nat \<Rightarrow> nat \<Rightarrow> nat \<Rightarrow> sys \<Rightarrow> sys res" where
  "pci_probe bus device fn s =
     (let (vendor_id, io) = pci_read_config (of_nat bus) (of_nat device) (of_nat fn) PCI_REG_VENDOR_ID (kio (sk s));
          (device_id, io) = pci_read_config (of_nat bus) (of_nat device) (of_nat fn) PCI_REG_DEVICE_ID io;
          s = s\<lparr>sk := (sk s)\<lparr>kio := io\<rparr>\<rparr>
      in if vendor_id = 0x0000 \<or> vendor_id = 0xffff then Inr s
         else sys_kprintf (cstring ''[pci] -- %x:%x.%x %x:%x\<newline>'')
           [VInt (of_nat bus), VInt (of_nat device), VInt (of_nat fn), VInt (ucast vendor_id), VInt (ucast device_id)] s)"

definition pci_init :: "sys \<Rightarrow> sys res" where
  "pci_init s =
     kbind (sys_kprintf (cstring ''[pci] enumerating devices:\<newline>'') [] s)
       (kfor 8 (\<lambda>bus. kfor 32 (\<lambda>device. kfor 8 (\<lambda>fn. pci_probe bus device fn))))"

subsection \<open>The error screen (idt.c)\<close>

definition isr_names :: "string list" where
  "isr_names =
    [''Division by Zero'',
     ''Debug exception'',
     ''Non maskable interrupt'',
     ''Breakpoint exception'',
     ''Into detected overflow'',
     ''Out of bounds'',
     ''Invalid opcode'',
     ''No coprocessor'',
     ''Double fault'',
     ''Coprocessor segment overrun'',
     ''Bad TSS'',
     ''Segment not present'',
     ''Stack fault'',
     ''General protection fault'',
     ''Page fault'',
     ''Unknown interrupt'',
     ''Coprocessor fault'',
     ''Alignment check exception'',
     ''Machine check exception'',
     ''Reserved'',
     ''Reserved'',
     ''Reserved'',
     ''Reserved'',
     ''Reserved'',
     ''Reserved'',
     ''Reserved'',
     ''Reserved'',
     ''Reserved'',
     ''Reserved'',
     ''Reserved'',
     ''Reserved'',
     ''Reserved'',
     ''Reserved'',
     ''Reserved'',
     ''Reserved'',
     ''Reserved'',
     ''Reserved'',
     ''Reserved'',
     ''Reserved'',
     ''Reserved'',
     ''Reserved'']"

text \<open>The banner; the letters c, f, b, e, d stand for the box characters dc, df, db, de, dd.\<close>

definition banner :: "string list" where
  "banner =
    [''     cffc b  cffbcccc  cffcfffc  cffc fc  cffbcccc  cffffc     '',
     ''    b  b cf e  cf   e b   b   b b  b b b e  cf   e b    b      '',
     ''    e  bfc    bccccc  e  bffbf  e  b  fb   bccccc  e    b      '',
     ''      b   b   b    d   cf    b    b   b    b    d      b       '',
     ''    cf   b   cfcccc   b     b   cf   b    cfcccc     cfccccccf '',
     ''    b    e   b    e   e     e   b    e    b    e     b         '',
     ''    e    cffcfffc  cffbc   cffc fc  cffbfce   cfcccc e         '',
     ''        b   b   b e cf fc b  b b b b   b  b  b b    d          '',
     ''        e  bffff    bcccb e  b  fb e   b  e  e b               '',
     ''           b       cf   b   b   b      b       b               '',
     ''         cf       b   cf  cf   b    cfffffc   cfccccf          '',
     ''        b         e   e   b    e   b       b b     e           '',
     ''        e                 e        e       e e                 '']"

definition glyph :: "char \<Rightarrow> u8" where
  "glyph c = (if c = CHR ''c'' then 0xdc else if c = CHR ''f'' then 0xdf else if c = CHR ''b'' then 0xdb
     else if c = CHR ''e'' then 0xde else if c = CHR ''d'' then 0xdd else of_char c)"

definition print_banner :: "sys \<Rightarrow> sys res" where
  "print_banner = kfold banner (\<lambda>row. sys_kprintf (map glyph row @ [0x0a, 0]) [])"

definition paint_screen :: "sys \<Rightarrow> sys res" where
  "paint_screen s =
     kbind (kfor VGA_HEIGHT (\<lambda>_. kfor VGA_WIDTH (\<lambda>_. vga_putch 0x20))
              ((svga s)\<lparr>vga_attr := vga_make_color COLOR_WHITE COLOR_RED\<rparr>)) (\<lambda>v.
       Inr (s\<lparr>svga := v\<lparr>vga_row := 1, vga_col := 1\<rparr>\<rparr>))"

text \<open>Loading several fields of a trap frame, by their offsets in \<open>struct intregs\<close>.\<close>

fun regs_fields :: "u32 \<Rightarrow> u32 list \<Rightarrow> mmu \<Rightarrow> u32 list res" where
  "regs_fields regs [] m = Inr []"
| "regs_fields regs (off # offs) m =
     kbind (vload32 m (regs + off)) (\<lambda>v. kbind (regs_fields regs offs m) (\<lambda>vs. Inr (v # vs)))"

definition print_regs :: "u32 \<Rightarrow> string \<Rightarrow> u32 list \<Rightarrow> sys \<Rightarrow> sys res" where
  "print_regs regs fmt offs s =
     kbind (regs_fields regs offs (kmmu (sk s))) (\<lambda>vs. sys_kprintf (cstring fmt) (map VInt vs) s)"

definition page_fault_text :: "u32 \<Rightarrow> string" where
  "page_fault_text err =
     (let e = err AND 7 in
      if e = 0 then ''  supervisory process tried to read a non-present page entry\<newline>''
      else if e = 1 then ''  supervisory process tried to read a page and caused a protection fault\<newline>''
      else if e = 2 then ''  supervisory process tried to write to a non-present page entry\<newline>''
      else if e = 3 then ''  supervisory process tried to write to a page and caused a protection fault\<newline>''
      else if e = 4 then ''  user process tried to read a non-present page entry\<newline>''
      else if e = 5 then ''  user process tried to read a page and caused a protection fault\<newline>''
      else if e = 6 then ''  user process tried to write to a non-present page entry\<newline>''
      else ''  user process tried to write to a page and caused a protection fault\<newline>'')"

definition error_report :: "u32 \<Rightarrow> sys \<Rightarrow> sys res" where
  "error_report regs s =
     kbind (paint_screen s) (\<lambda>s. kbind (print_banner s) (\<lambda>s.
     kbind (sys_kprintf (cstring ''\<newline>\<newline>'') [] s) (\<lambda>s.
     kbind (regs_fields regs [56, 52, 48] (kmmu (sk s))) (\<lambda>vs.
     let num = vs ! 2 in
     if length isr_names \<le> unat num then Inl OutOfBounds else
     kbind (sys_kprintf (cstring ''  eip:%x err:%x num:%x %s\<newline>'')
              (map VInt vs @ [VStr (cstring (isr_names ! unat num))]) s) (\<lambda>s.
     kbind (print_regs regs ''  eax:%x ebx:%x ecx:%x edx:%x flg:%x\<newline>'' [44, 32, 40, 36, 52] s) (\<lambda>s.
     kbind (print_regs regs ''  esp:%x ebp:%x esi:%x edi:%x  cs:%x\<newline>'' [28, 24, 20, 16, 60] s) (\<lambda>s.
     kbind (print_regs regs ''   ds:%x  es:%x  fs:%x  gs:%x  ss:%x\<newline>'' [12, 8, 4, 0, 72] s) (\<lambda>s.
     kbind (sys_kprintf (cstring ''\<newline>'') [] s) (\<lambda>s.
     case current_proc (ktab (sk s)) of
       None \<Rightarrow> Inl NullDeref
     | Some c \<Rightarrow>
         kbind (sys_kprintf (cstring ''  Process which was running: %s\<newline>'') [VStr (pname (procs (ktab (sk s)) c))] s) (\<lambda>s.
         if num = 14 then
           kbind (sys_kprintf (cstring (page_fault_text (vs ! 1))) [] s) (\<lambda>s.
             sys_kprintf (cstring ''  memory address where fault occured: 0x%x\<newline>'') [VInt (cr2 s)] s)
         else Inr s))))))))))"

text \<open>The report is followed by an endless loop.\<close>

definition screen_of_death :: "u32 \<Rightarrow> sys \<Rightarrow> (u32 \<times> sys) res" where
  "screen_of_death regs s = kbind (error_report regs s) (\<lambda>_. Inl Spins)"

section \<open>Lemmas\<close>

lemma kbd_key_outside: "60 \<le> unat c \<Longrightarrow> kbd_key c m = Inl OutOfBounds"
  by (simp add: kbd_key_def layout_def)

lemma pci_upper_half_zero: "reg AND 2 = 2 \<Longrightarrow> fst (pci_read_config bus dev fn reg io) = 0"
proof -
  have "drop_bit 16 (ucast (v :: u16) :: u32) = 0" for v by (rule bit_word_eqI) (auto simp: bit_simps dest: bit_imp_le_length)
  then show "reg AND 2 = 2 \<Longrightarrow> fst (pci_read_config bus dev fn reg io) = 0"
    by (simp add: pci_read_config_def Let_def inl_def)
qed

text \<open>A timer interrupt while scheduling is off only counts.\<close>

definition timer_irq :: "u32 \<Rightarrow> sys \<Rightarrow> sys res" where
  "timer_irq regs s = kbind (timer_handler regs s) (\<lambda>(_, s). Inr s)"

lemma timer_irq_counts:
  "\<not> scheduling_enabled (ktab (sk s)) \<Longrightarrow> timer_irq regs s = Inr (s\<lparr>timer_ticks := timer_ticks s + 1\<rparr>)"
  by (simp add: timer_irq_def timer_handler_def proc_schedule_after_irq_def Let_def)

lemma timer_wait_loop_counts:
  assumes "\<not> scheduling_enabled (ktab (sk s))" and "unat (timer_ticks s) + n < 4294967296"
  shows "timer_wait_loop (replicate n (timer_irq regs) @ irqs) (timer_ticks s + of_nat n) s =
    Inr (irqs, s\<lparr>timer_ticks := timer_ticks s + of_nat n\<rparr>)"
  using assms
proof (induction n arbitrary: s)
  case 0
  then show ?case by (cases irqs) simp_all
next
  case (Suc n)
  let ?s = "s\<lparr>timer_ticks := timer_ticks s + 1\<rparr>"
  have u: "unat (timer_ticks s + 1) = unat (timer_ticks s) + 1" "unat (timer_ticks s + of_nat (Suc n)) = unat (timer_ticks s) + Suc n"
    using Suc.prems(2) by (simp_all add: unat_add_no_wrap unat_of_nat take_bit_eq_mod del: of_nat_Suc)
  have "timer_ticks s < timer_ticks s + of_nat (Suc n)" unfolding word_less_nat_alt u(2) by simp
  moreover have e: "timer_ticks ?s + of_nat n = timer_ticks s + of_nat (Suc n)" by (simp add: add.commute add.left_commute)
  have "timer_wait_loop (replicate n (timer_irq regs) @ irqs) (timer_ticks s + of_nat (Suc n)) ?s =
      Inr (irqs, ?s\<lparr>timer_ticks := timer_ticks s + of_nat (Suc n)\<rparr>)"
    unfolding e [symmetric] by (rule Suc.IH) (use Suc.prems u(1) in simp_all)
  ultimately show ?case
    using timer_irq_counts [OF Suc.prems(1), of regs] by (simp del: of_nat_Suc)
qed

section \<open>Theorems\<close>

text \<open>
  C32. \<open>timer_wait\<close> with the scheduler off terminates: after exactly as many timer interrupts as it was asked to
  wait for, provided the tick counter does not wrap around; with a counter that would
  wrap, it returns at once without any interrupt.
\<close>

theorem timer_wait_terminates:
  assumes "\<not> scheduling_enabled (ktab (sk s))"
  shows "(unat (timer_ticks s) + n < 4294967296 \<longrightarrow>
      timer_wait (replicate n (timer_irq regs) @ irqs) (of_nat n) s =
        Inr (irqs, s\<lparr>timer_ticks := timer_ticks s + of_nat n\<rparr>)) \<and>
    (timer_ticks s + ticks < timer_ticks s \<longrightarrow> timer_wait irqs ticks s = Inr (irqs, s))"
proof (intro conjI impI)
  show "timer_wait (replicate n (timer_irq regs) @ irqs) (of_nat n) s =
      Inr (irqs, s\<lparr>timer_ticks := timer_ticks s + of_nat n\<rparr>)" if "unat (timer_ticks s) + n < 4294967296"
    unfolding timer_wait_def by (rule timer_wait_loop_counts [OF assms that])
  show "timer_wait irqs ticks s = Inr (irqs, s)" if "timer_ticks s + ticks < timer_ticks s"
    using less_not_sym [OF that] by (cases irqs) (simp_all add: timer_wait_def)
qed

definition timer_demo :: sys where
  "timer_demo = \<lparr>sk = demo_kern, timer_ticks = 0xfffffff0, key_buffer = 0, is_pressed = (\<lambda>_. 0), svga = demo_vga,
     sprint_lock = False, cr2 = 0\<rparr>"

theorem timer_wait_terminates_witness:
  "timer_wait (replicate 3 (timer_irq 0)) 3 timer_demo = Inr ([], timer_demo\<lparr>timer_ticks := 0xfffffff3\<rparr>) \<and>
   timer_wait [] 0x20 timer_demo = Inr ([], timer_demo)"
proof -
  have off: "\<not> scheduling_enabled (ktab (sk timer_demo))" by (simp add: timer_demo_def demo_kern_def demo_tab_def)
  from timer_wait_terminates [OF off, where n = 3 and irqs = "[]" and ticks = "0x20" and regs = 0]
  show ?thesis by (simp add: timer_demo_def)
qed

end
