(* ===== verification/Syscall.thy ===== *)
theory Syscall
  imports Procs
begin

unbundle bit_operations_syntax

text \<open>
  Message passing, \<^verbatim>\<open>kernel/syscall.c\<close>: the three system calls send, receive and reply.

  \<open>struct msg_packet\<close> is nine words (sender, receiver, send\_buf, recv\_buf, send\_len, recv\_len,
  phys\_send\_buf, phys\_recv\_buf, phys\_msg\_packet), \<open>struct msg_packet_queue\<close> adds the link at
  offset 36.  All accesses to the caller's packet, to queue nodes and to message buffers go
  through the page walk of the current address space.  Every call ends with a scheduling
  step; the result is the trap frame to resume and the new kernel state.

  Shown here: how loads, stores, copies and temporary windows act on objects in memory
  (\<open>mem_step\<close>, \<open>obj\<close>, \<open>win_open\<close>), and the copying parts of receive and reply, when the
  buffers involved are mapped and lie within a page.  Theories \<open>Ipc\<close>, \<open>Send\<close> and \<open>Deliver\<close> have the complete calls.
\<close>

section \<open>Definitions\<close>

subsection \<open>Access to memory\<close>

definition kld :: "u32 \<Rightarrow> kern \<Rightarrow> u32 res" where
  "kld a k = vload32 (kmmu k) a"

definition kst :: "u32 \<Rightarrow> u32 \<Rightarrow> kern \<Rightarrow> kern res" where
  "kst a v k = kbind (vstore32 (kmmu k) a v) (\<lambda>m. Inr (upd_mmu (\<lambda>_. m) k))"

definition kcopy :: "u32 \<Rightarrow> u32 \<Rightarrow> u32 \<Rightarrow> kern \<Rightarrow> kern res" where
  "kcopy dst src len k = kbind (memcpy dst src (unat len) (kmmu k)) (\<lambda>m. Inr (upd_mmu (\<lambda>_. m) k))"

definition kphys :: "u32 \<Rightarrow> kern \<Rightarrow> u32 res" where
  "kphys a k = vm_get_phys_mapping a (hvms (kheap k))"

definition kmap :: "u32 \<Rightarrow> u32 \<Rightarrow> u32 \<Rightarrow> kern \<Rightarrow> kern res" where
  "kmap paddr vaddr len k = kbind (map_pages paddr vaddr 0 len (hvms (kheap k))) (\<lambda>v. Inr (upd_vms v k))"

definition kunmap :: "u32 \<Rightarrow> u32 \<Rightarrow> kern \<Rightarrow> kern res" where
  "kunmap vaddr len k = kbind (unmap_pages vaddr len (hvms (kheap k))) (\<lambda>v. Inr (upd_vms v k))"

definition set_pstate :: "nat \<Rightarrow> proc_state \<Rightarrow> kern \<Rightarrow> kern" where
  "set_pstate i st k = k\<lparr>ktab := upd_proc i (\<lambda>p. p\<lparr>state := st\<rparr>) (ktab k)\<rparr>"

definition enqueue :: "nat \<Rightarrow> u32 \<Rightarrow> kern \<Rightarrow> kern res" where
  "enqueue i node k =
     kbind (STAILQ_INSERT_TAIL node (recv_queue (procs (ktab k) i)) (kmmu k)) (\<lambda>(h, m).
       Inr ((upd_mmu (\<lambda>_. m) k)\<lparr>ktab := upd_proc i (\<lambda>p. p\<lparr>recv_queue := h\<rparr>) (ktab k)\<rparr>))"

text \<open>Offsets in \<open>struct intregs\<close> and \<open>struct msg_packet\<close>.\<close>

definition REGS_EAX :: u32 where "REGS_EAX = 44"
definition MSG_SENDER :: u32 where "MSG_SENDER = 0"
definition MSG_RECEIVER :: u32 where "MSG_RECEIVER = 4"
definition MSG_SEND_BUF :: u32 where "MSG_SEND_BUF = 8"
definition MSG_RECV_BUF :: u32 where "MSG_RECV_BUF = 12"
definition MSG_SEND_LEN :: u32 where "MSG_SEND_LEN = 16"
definition MSG_RECV_LEN :: u32 where "MSG_RECV_LEN = 20"
definition MSG_PHYS_SEND_BUF :: u32 where "MSG_PHYS_SEND_BUF = 24"
definition MSG_PHYS_RECV_BUF :: u32 where "MSG_PHYS_RECV_BUF = 28"
definition MSG_PHYS_MSG_PACKET :: u32 where "MSG_PHYS_MSG_PACKET = 32"
definition SIZEOF_MSG_PACKET :: u32 where "SIZEOF_MSG_PACKET = 36"
definition SIZEOF_MSG_PACKET_QUEUE :: u32 where "SIZEOF_MSG_PACKET_QUEUE = 40"

subsection \<open>Send\<close>

definition copy_field :: "u32 \<Rightarrow> u32 \<Rightarrow> u32 \<Rightarrow> kern \<Rightarrow> kern res" where
  "copy_field dst src fld k = kbind (kld (src + fld) k) (\<lambda>v. kst (dst + fld) v k)"

definition phys_field :: "u32 \<Rightarrow> u32 \<Rightarrow> u32 \<Rightarrow> u32 \<Rightarrow> kern \<Rightarrow> kern res" where
  "phys_field dst fld src sfld k =
     kbind (kld (src + sfld) k) (\<lambda>v. kbind (kphys v k) (\<lambda>p. kst (dst + fld) p k))"

text \<open>Filling in a new node for a receiver that is not waiting, and appending it.\<close>

definition send_fill :: "u32 \<Rightarrow> u32 \<Rightarrow> u32 \<Rightarrow> kern \<Rightarrow> kern res" where
  "send_fill cur_pid msg new_msg k =
     kbind (kcopy new_msg msg SIZEOF_MSG_PACKET k) (\<lambda>k.
     kbind (kst (new_msg + MSG_SENDER) cur_pid k) (\<lambda>k.
     kbind (copy_field new_msg msg MSG_RECEIVER k) (\<lambda>k.
     kbind (copy_field new_msg msg MSG_SEND_BUF k) (\<lambda>k.
     kbind (copy_field new_msg msg MSG_SEND_LEN k) (\<lambda>k.
     kbind (copy_field new_msg msg MSG_RECV_BUF k) (\<lambda>k.
     kbind (copy_field new_msg msg MSG_RECV_LEN k) (\<lambda>k.
     kbind (phys_field new_msg MSG_PHYS_SEND_BUF msg MSG_SEND_BUF k) (\<lambda>k.
       phys_field new_msg MSG_PHYS_RECV_BUF msg MSG_RECV_BUF k))))))))"

definition send_enqueue :: "u32 \<Rightarrow> u32 \<Rightarrow> nat \<Rightarrow> kern \<Rightarrow> kern res" where
  "send_enqueue cur_pid msg r k =
     kbind (kalloc SIZEOF_MSG_PACKET_QUEUE (kheap k)) (\<lambda>(new_msg, h).
     kbind (send_fill cur_pid msg new_msg (k\<lparr>kheap := h\<rparr>)) (\<lambda>k.
       enqueue r new_msg k))"

text \<open>
  Delivery to a waiting receiver, in the order of the code: what the node says of the
  message, the bytes of the message, the sender in the receiver's own packet, and where
  the reply shall go.
\<close>

definition deliver_fields :: "u32 \<Rightarrow> u32 \<Rightarrow> u32 \<Rightarrow> kern \<Rightarrow> kern res" where
  "deliver_fields cur_pid msg node k =
     kbind (kst (node + MSG_SENDER) cur_pid k) (\<lambda>k.
     kbind (copy_field node msg MSG_SEND_BUF k) (\<lambda>k.
     kbind (copy_field node msg MSG_SEND_LEN k) (\<lambda>k.
       phys_field node MSG_PHYS_SEND_BUF msg MSG_SEND_BUF k)))"

definition deliver_buffer :: "u32 \<Rightarrow> u32 \<Rightarrow> u32 \<Rightarrow> u32 \<Rightarrow> kern \<Rightarrow> kern res" where
  "deliver_buffer base mapped_recv_buf msg node k =
     kbind (kld (node + MSG_PHYS_RECV_BUF) k) (\<lambda>pr.
     kbind (kld (node + MSG_RECV_LEN) k) (\<lambda>rl.
     kbind (kmap pr base rl k) (\<lambda>k.
     kbind (kld (msg + MSG_SEND_BUF) k) (\<lambda>sb.
     kbind (kld (node + MSG_RECV_LEN) k) (\<lambda>rl.
     kbind (kcopy mapped_recv_buf sb rl k) (\<lambda>k.
     kbind (kld (node + MSG_RECV_LEN) k) (\<lambda>rl.
       kunmap base rl k)))))))"

definition deliver_sender :: "u32 \<Rightarrow> u32 \<Rightarrow> kern \<Rightarrow> kern res" where
  "deliver_sender cur_pid node k =
     kbind (kld (node + MSG_PHYS_MSG_PACKET) k) (\<lambda>pp.
     let mapped_msg_packet = 0xbabe0000 + (pp AND 0xfff) in
     kbind (kmap pp mapped_msg_packet SIZEOF_MSG_PACKET k) (\<lambda>k.
     kbind (kst (mapped_msg_packet + MSG_SENDER) cur_pid k) (\<lambda>k.
       kunmap mapped_msg_packet SIZEOF_MSG_PACKET k)))"

definition deliver_reply :: "u32 \<Rightarrow> u32 \<Rightarrow> kern \<Rightarrow> kern res" where
  "deliver_reply msg node k =
     kbind (copy_field node msg MSG_RECV_BUF k) (\<lambda>k.
     kbind (copy_field node msg MSG_RECV_LEN k) (\<lambda>k.
       phys_field node MSG_PHYS_RECV_BUF msg MSG_RECV_BUF k))"

definition send_deliver :: "nat \<Rightarrow> u32 \<Rightarrow> u32 \<Rightarrow> nat \<Rightarrow> kern \<Rightarrow> kern res" where
  "send_deliver c cur_pid msg r k =
     (let k = set_pstate c PROC_SEND_BLOCKED k;
          node = STAILQ_FIRST (recv_queue (procs (ktab k) r)) in
      kbind (kld (node + MSG_RECV_BUF) k) (\<lambda>rb.
      let base = 0xdead0000; mapped_recv_buf = base + (rb AND 0xfff) in
      kbind (deliver_fields cur_pid msg node k) (\<lambda>k.
      kbind (deliver_buffer base mapped_recv_buf msg node k) (\<lambda>k.
      kbind (deliver_sender cur_pid node k) (\<lambda>k.
      kbind (deliver_reply msg node k) (\<lambda>k.
        Inr (set_pstate r PROC_READY k)))))))"

definition syscall_send_msg :: "u32 \<Rightarrow> u32 \<Rightarrow> kern \<Rightarrow> (u32 \<times> kern) res" where
  "syscall_send_msg frame_addr regs k =
     (let k = k\<lparr>ktab := proc_disable_scheduling (ktab k)\<rparr> in
      kbind (kld (regs + REGS_EAX) k) (\<lambda>msg.
      kbind (kld (msg + MSG_RECEIVER) k) (\<lambda>rcv.
      case proc_find_by_pid rcv (ktab k) of
        None \<Rightarrow> Inr (regs, k)
      | Some r \<Rightarrow>
          (case current_proc (ktab k) of
             None \<Rightarrow> Inl NullDeref
           | Some c \<Rightarrow>
               let cur_pid = pid (procs (ktab k) c) in
               kbind (if state (procs (ktab k) r) \<noteq> PROC_RECV_BLOCKED
                      then send_enqueue cur_pid msg r k else Inr k) (\<lambda>k.
               kbind (case state (procs (ktab k) r) of
                        PROC_RECV_BLOCKED \<Rightarrow> send_deliver c cur_pid msg r k
                      | PROC_READY \<Rightarrow> Inr (set_pstate c PROC_REPLY_BLOCKED k)
                      | _ \<Rightarrow> Inr k) (\<lambda>k.
               let k = k\<lparr>ktab := proc_enable_scheduling (ktab k)\<rparr> in
               proc_schedule_without_irq frame_addr k))))))"

subsection \<open>Receive\<close>

definition recv_fill :: "u32 \<Rightarrow> u32 \<Rightarrow> kern \<Rightarrow> kern res" where
  "recv_fill msg new_msg k =
     kbind (kcopy new_msg msg SIZEOF_MSG_PACKET k) (\<lambda>k.
     kbind (phys_field new_msg MSG_PHYS_RECV_BUF new_msg MSG_RECV_BUF k) (\<lambda>k.
     kbind (kphys msg k) (\<lambda>p.
       kst (new_msg + MSG_PHYS_MSG_PACKET) p k)))"

definition recv_block :: "nat \<Rightarrow> u32 \<Rightarrow> kern \<Rightarrow> kern res" where
  "recv_block c msg k =
     (let k = set_pstate c PROC_RECV_BLOCKED k in
      kbind (kalloc SIZEOF_MSG_PACKET_QUEUE (kheap k)) (\<lambda>(new_msg, h).
      kbind (recv_fill msg new_msg (k\<lparr>kheap := h\<rparr>)) (\<lambda>k.
        enqueue c new_msg k)))"

definition recv_take :: "nat \<Rightarrow> u32 \<Rightarrow> kern \<Rightarrow> kern res" where
  "recv_take c msg k =
     (let node = STAILQ_FIRST (recv_queue (procs (ktab k) c)); base = 0xbabe0000 in
      kbind (kld (node + MSG_SEND_BUF) k) (\<lambda>sb.
      let mapped_send_buf = base + (sb AND 0xfff) in
      kbind (kld (node + MSG_PHYS_SEND_BUF) k) (\<lambda>ps.
      kbind (kld (node + MSG_SEND_LEN) k) (\<lambda>sl.
      kbind (kmap ps base sl k) (\<lambda>k.
      kbind (kld (msg + MSG_RECV_BUF) k) (\<lambda>rb.
      kbind (kld (msg + MSG_RECV_LEN) k) (\<lambda>rl.
      kbind (kcopy rb mapped_send_buf rl k) (\<lambda>k.
      kbind (kld (node + MSG_SEND_LEN) k) (\<lambda>sl.
      kbind (kunmap mapped_send_buf sl k) (\<lambda>k.
      kbind (kld (node + MSG_SENDER) k) (\<lambda>snd.
        kst (msg + MSG_SENDER) snd k)))))))))))"

definition syscall_recv_msg :: "u32 \<Rightarrow> u32 \<Rightarrow> kern \<Rightarrow> (u32 \<times> kern) res" where
  "syscall_recv_msg frame_addr regs k =
     (let k = k\<lparr>ktab := proc_disable_scheduling (ktab k)\<rparr> in
      kbind (kld (regs + REGS_EAX) k) (\<lambda>msg.
      case current_proc (ktab k) of
        None \<Rightarrow> Inl NullDeref
      | Some c \<Rightarrow>
          kbind (if STAILQ_EMPTY (recv_queue (procs (ktab k) c)) then recv_block c msg k
                 else recv_take c msg k) (\<lambda>k.
          let k = k\<lparr>ktab := proc_enable_scheduling (ktab k)\<rparr> in
          proc_schedule_without_irq frame_addr k)))"

subsection \<open>Reply\<close>

definition rply_first :: "nat \<Rightarrow> u32 \<Rightarrow> kern \<Rightarrow> kern res" where
  "rply_first c msg k =
     (let first_waiting = STAILQ_FIRST (recv_queue (procs (ktab k) c)); base = 0xcafe0000 in
      kbind (kld (first_waiting + MSG_SENDER) k) (\<lambda>snd.
      let sender = proc_find_by_pid snd (ktab k) in
      kbind (kld (first_waiting + MSG_RECV_BUF) k) (\<lambda>rb.
      let mapped_recv_buf = base + (rb AND 0xfff) in
      kbind (kld (first_waiting + MSG_PHYS_RECV_BUF) k) (\<lambda>pr.
      kbind (kld (first_waiting + MSG_RECV_LEN) k) (\<lambda>rl.
      kbind (kmap pr base rl k) (\<lambda>k.
      kbind (kld (msg + MSG_SEND_BUF) k) (\<lambda>sb.
      kbind (kld (first_waiting + MSG_RECV_LEN) k) (\<lambda>rl.
      kbind (kcopy mapped_recv_buf sb rl k) (\<lambda>k.
      kbind (kld (first_waiting + MSG_RECV_LEN) k) (\<lambda>rl.
      kbind (kunmap base rl k) (\<lambda>k.
      kbind (STAILQ_REMOVE_HEAD (recv_queue (procs (ktab k) c)) (kmmu k)) (\<lambda>h.
      let k = k\<lparr>ktab := upd_proc c (\<lambda>p. p\<lparr>recv_queue := h\<rparr>) (ktab k)\<rparr> in
      kbind (kfree first_waiting (kheap k)) (\<lambda>hs.
      let k = k\<lparr>kheap := hs\<rparr> in
      case sender of
        None \<Rightarrow> Inl NullDeref
      | Some i \<Rightarrow> Inr (set_pstate i PROC_READY k))))))))))))))"

definition syscall_rply_msg :: "u32 \<Rightarrow> u32 \<Rightarrow> kern \<Rightarrow> (u32 \<times> kern) res" where
  "syscall_rply_msg frame_addr regs k =
     (let k = k\<lparr>ktab := proc_disable_scheduling (ktab k)\<rparr> in
      kbind (kld (regs + REGS_EAX) k) (\<lambda>msg.
      case current_proc (ktab k) of
        None \<Rightarrow> Inl NullDeref
      | Some c \<Rightarrow>
          kbind (if \<not> STAILQ_EMPTY (recv_queue (procs (ktab k) c)) then rply_first c msg k else Inr k) (\<lambda>k.
          let k = k\<lparr>ktab := proc_enable_scheduling (ktab k)\<rparr> in
          proc_schedule_without_irq frame_addr k)))"

subsection \<open>Installation\<close>

definition SYSCALL_RPLY_MSG_VECTOR :: nat where "SYSCALL_RPLY_MSG_VECTOR = 0xde"
definition SYSCALL_SEND_MSG_VECTOR :: nat where "SYSCALL_SEND_MSG_VECTOR = 0xba"
definition SYSCALL_RECV_MSG_VECTOR :: nat where "SYSCALL_RECV_MSG_VECTOR = 0xbe"

record syscall_env =
  int222_stub :: u32
  int186_stub :: u32
  int190_stub :: u32
  rply_fn :: u32
  send_fn :: u32
  recv_fn :: u32

definition syscall_install :: "syscall_env \<Rightarrow> idtst \<Rightarrow> idtst res" where
  "syscall_install env d =
     (let d = idt_set_gate (of_nat SYSCALL_RPLY_MSG_VECTOR) (int222_stub env) 8 0xee d;
          d = idt_set_gate (of_nat SYSCALL_SEND_MSG_VECTOR) (int186_stub env) 8 0xee d;
          d = idt_set_gate (of_nat SYSCALL_RECV_MSG_VECTOR) (int190_stub env) 8 0xee d in
      kbind (int_install_handler (int SYSCALL_RPLY_MSG_VECTOR) (rply_fn env) d) (\<lambda>d.
      kbind (int_install_handler (int SYSCALL_SEND_MSG_VECTOR) (send_fn env) d) (\<lambda>d.
        int_install_handler (int SYSCALL_RECV_MSG_VECTOR) (recv_fn env) d)))"

section \<open>Lemmas\<close>

subsection \<open>Steps that change bytes outside the page tables\<close>

text \<open>
  \<open>mem_step A m m'\<close>: the address space is the same and, outside the page tables, only the bytes
  in \<open>A\<close> may differ.
\<close>

definition mem_step :: "u32 set \<Rightarrow> mmu \<Rightarrow> mmu \<Rightarrow> bool" where
  "mem_step A m m' \<longleftrightarrow> pt_ok m' \<and> walk_bytes m' = walk_bytes m \<and> cr3 m' = cr3 m \<and>
     (\<forall>d. has_table m' d = has_table m d) \<and>
     (\<forall>w. vm_pdir_idx w \<noteq> 1023 \<longrightarrow> translate m' w = translate m w) \<and>
     (\<forall>w q. vm_pdir_idx w \<noteq> 1023 \<longrightarrow> translate m w = Inr q \<longrightarrow>
        pte_of m' (vm_pdir_idx w) (vm_ptab_idx w) = pte_of m (vm_pdir_idx w) (vm_ptab_idx w)) \<and>
     (\<forall>q. q \<notin> walk_bytes m \<longrightarrow> q \<notin> A \<longrightarrow> mem m' q = mem m q)"

lemma mem_step_refl: "pt_ok m \<Longrightarrow> mem_step A m m"
  by (simp add: mem_step_def)

lemma mem_step_trans: "mem_step A m m1 \<Longrightarrow> mem_step B m1 m2 \<Longrightarrow> mem_step (A \<union> B) m m2"
  unfolding mem_step_def by auto

lemma mem_step_mono: "mem_step A m m' \<Longrightarrow> A \<subseteq> B \<Longrightarrow> mem_step B m m'"
  unfolding mem_step_def by blast

lemma mem_step_mem: "mem_step A m m' \<Longrightarrow> q \<notin> walk_bytes m \<Longrightarrow> q \<notin> A \<Longrightarrow> mem m' q = mem m q"
  by (simp add: mem_step_def)

lemma mem_step_pt_ok: "mem_step A m m' \<Longrightarrow> pt_ok m'"
  by (simp add: mem_step_def)

lemma walk_bytes_page: "q AND 0xfffff000 = p AND 0xfffff000 \<Longrightarrow> q \<in> walk_bytes m \<longleftrightarrow> p \<in> walk_bytes m"
  by (simp add: walk_bytes_def)

lemma mem_step_write:
  assumes ok: "pt_ok m" and A: "\<And>q. q \<in> A \<Longrightarrow> q \<notin> walk_bytes m" and f: "\<And>q. q \<notin> A \<Longrightarrow> f q = mem m q"
  shows "mem_step A m (m\<lparr>mem := f\<rparr>)"
proof -
  have w: "f q = mem m q" if "q \<in> walk_bytes m" for q using f [of q] A [of q] that by blast
  note fr = translate_frame [of m f, OF w]
  have pd: "pd_base (m\<lparr>mem := f\<rparr>) = pd_base m" by (simp add: pd_base_def)
  have e: "pde_of (m\<lparr>mem := f\<rparr>) i = pde_of m i" if "i < 1024" for i
    using load32_page_cong [of "pd_base m" i f "mem m"] w that by (simp add: pde_of_def pd walk_bytes_def)
  have tb: "table_of (m\<lparr>mem := f\<rparr>) i = table_of m i" if "i < 1024" for i using e [OF that] by (simp add: table_of_def)
  have ht: "has_table (m\<lparr>mem := f\<rparr>) d = has_table m d" for d
    using e [of d] less_1023(1) [of d] by (auto simp: has_table_def)
  have pt: "pte_of (m\<lparr>mem := f\<rparr>) i j = pte_of m i j" if "i < 1024" "j < 1024" "pde_of m i AND PDE_P \<noteq> 0" for i j
    using load32_page_cong [of "table_of m i" j f "mem m"] w that tb [OF that(1)]
    by (auto simp: pte_of_table walk_bytes_def)
  have tb': "table_of (m\<lparr>mem := f\<rparr>) i = table_of m i" if "has_table m i" for i
    using tb [of i] less_1023(1) [of i] that by (simp add: has_table_def)
  have sm: "selfmap (m\<lparr>mem := f\<rparr>) = selfmap m" using e [of 1023] by (simp add: selfmap_def pd)
  have "pt_ok (m\<lparr>mem := f\<rparr>)"
    using ok ht tb' sm unfolding pt_ok_def pd by auto
  moreover have "pte_of (m\<lparr>mem := f\<rparr>) (vm_pdir_idx v) (vm_ptab_idx v) = pte_of m (vm_pdir_idx v) (vm_ptab_idx v)"
    if "translate m v = Inr q" for v q
    by (rule pt [OF vm_pdir_idx_less vm_ptab_idx_less]) (use that in \<open>auto simp: translate_def split: if_splits\<close>)
  ultimately show ?thesis
    unfolding mem_step_def using fr ht f by simp
qed

text \<open>\<open>obj m a p n\<close>: the \<open>n\<close> bytes at address \<open>a\<close> are the bytes at physical address \<open>p\<close>.\<close>

definition obj :: "mmu \<Rightarrow> u32 \<Rightarrow> u32 \<Rightarrow> nat \<Rightarrow> bool" where
  "obj m a p n \<longleftrightarrow> unat p + n \<le> 4294967296 \<and>
     (\<forall>i < n. translate m (a + of_nat i) = Inr (p + of_nat i) \<and> p + of_nat i \<notin> walk_bytes m \<and>
        vm_pdir_idx (a + of_nat i) \<noteq> 1023)"

definition obj_bytes :: "u32 \<Rightarrow> nat \<Rightarrow> u32 set" where
  "obj_bytes p n = (\<lambda>i. p + of_nat i) ` {..<n}"

lemma obj_step: "mem_step A m m' \<Longrightarrow> obj m a p n \<Longrightarrow> obj m' a p n"
  unfolding mem_step_def obj_def by auto

lemma obj_bytes_walk: "obj m a p n \<Longrightarrow> q \<in> obj_bytes p n \<Longrightarrow> q \<notin> walk_bytes m"
  by (auto simp: obj_def obj_bytes_def)

lemma obj_bytes_mem: "i < n \<Longrightarrow> p + of_nat i \<in> obj_bytes p n"
  by (auto simp: obj_bytes_def)

lemma obj_offset_inject:
  assumes "unat (p :: u32) + n \<le> 4294967296" and "i < n" and "j < n"
  shows "p + of_nat i = p + of_nat j \<longleftrightarrow> i = j"
proof -
  have "unat (p + of_nat x) = unat p + x" if "x < n" for x
    using assms(1) that by (subst unat_add_no_wrap) (auto simp: unat_of_nat take_bit_eq_mod)
  then show ?thesis using assms(2,3) by (metis add_left_cancel)
qed

lemma word_bytes: "a + of_nat off + 1 = a + of_nat (off + 1)" "a + of_nat off + 2 = a + of_nat (off + 2)"
  "a + of_nat off + 3 = a + (of_nat (off + 3) :: u32)"
  by simp_all

lemma obj_byte:
  assumes "obj m a p n" and "i < n"
  shows "translate m (a + of_nat i) = Inr (p + of_nat i)" and "p + of_nat i \<notin> walk_bytes m"
    and "vm_pdir_idx (a + of_nat i) \<noteq> 1023"
  using assms by (simp_all add: obj_def)

lemma obj_load:
  assumes "obj m a p n" and "off + 4 \<le> n"
  shows "vload32 m (a + of_nat off) = Inr (load32 (mem m) (p + of_nat off))"
proof -
  have "translate m (a + of_nat (off + i)) = Inr (p + of_nat (off + i))" if "i < 4" for i
    by (rule obj_byte [OF assms(1)]) (use assms(2) that in simp)
  from this [of 0] this [of 1] this [of 2] this [of 3] show ?thesis
    unfolding vload32_def vload8_def load32_def word_bytes by simp
qed

lemma obj_store:
  assumes ok: "pt_ok m" and ob: "obj m a p n" and off: "off + 4 \<le> n"
  shows "vstore32 m (a + of_nat off) v = Inr (m\<lparr>mem := store32 (mem m) (p + of_nat off) v\<rparr>)"
    and "mem_step (obj_bytes (p + of_nat off) 4) m (m\<lparr>mem := store32 (mem m) (p + of_nat off) v\<rparr>)"
proof -
  have tr: "translate m (a + of_nat (off + i)) = Inr (p + of_nat (off + i))" if "i < 4" for i
    by (rule obj_byte [OF ob]) (use off that in simp)
  from tr [of 0] tr [of 1] tr [of 2] tr [of 3]
  show "vstore32 m (a + of_nat off) v = Inr (m\<lparr>mem := store32 (mem m) (p + of_nat off) v\<rparr>)"
    unfolding vstore32_def store32_def word_bytes by simp
  show "mem_step (obj_bytes (p + of_nat off) 4) m (m\<lparr>mem := store32 (mem m) (p + of_nat off) v\<rparr>)"
  proof (rule mem_step_write [OF ok])
    fix q assume "q \<in> obj_bytes (p + of_nat off) 4"
    then obtain i where i: "i < 4" "q = p + of_nat (off + i)" by (auto simp: obj_bytes_def add.assoc)
    then show "q \<notin> walk_bytes m" using obj_byte(2) [OF ob, of "off + i"] off by simp
  next
    fix q assume q: "q \<notin> obj_bytes (p + of_nat off) 4"
    have "q \<noteq> p + of_nat off + of_nat i" if "i < 4" for i
      using q obj_bytes_mem [OF that, of "p + of_nat off"] by blast
    from this [of 0] this [of 1] this [of 2] this [of 3]
    show "store32 (mem m) (p + of_nat off) v q = mem m q" by (intro store32_other) simp
  qed
qed

lemma obj_copy:
  assumes ok: "pt_ok (kmmu k)" and d: "obj (kmmu k) dst dp (unat len)" and s: "obj (kmmu k) src sp (unat len)"
    and dis: "obj_bytes dp (unat len) \<inter> obj_bytes sp (unat len) = {}"
  obtains m' where "kcopy dst src len k = Inr (upd_mmu (\<lambda>_. m') k)"
    and "mem_step (obj_bytes dp (unat len)) (kmmu k) m'"
    and "\<And>i. i < unat len \<Longrightarrow> mem m' (dp + of_nat i) = mem (kmmu k) (sp + of_nat i)"
proof -
  let ?m = "kmmu k"
  have "\<exists>f. memcpy dst src (unat len) ?m = Inr (?m\<lparr>mem := f\<rparr>) \<and>
      (\<forall>i < unat len. f (dp + of_nat i) = mem ?m (sp + of_nat i)) \<and>
      (\<forall>p. p \<notin> (\<lambda>i. dp + of_nat i) ` {..<unat len} \<longrightarrow> f p = mem ?m p)"
  proof (rule memcpy_bytes)
    fix i j assume "i < unat len" "j < unat len"
    then show "dp + of_nat i \<noteq> sp + of_nat j" using dis obj_bytes_mem by (metis disjoint_iff)
  next
    show "inj_on (\<lambda>i. dp + of_nat i) {..<unat len}"
      using obj_offset_inject [of dp "unat len"] d by (auto simp: inj_on_def obj_def)
  qed (use obj_byte [OF d] obj_byte [OF s] in auto)
  then obtain f where f: "memcpy dst src (unat len) ?m = Inr (?m\<lparr>mem := f\<rparr>)"
    "\<forall>i < unat len. f (dp + of_nat i) = mem ?m (sp + of_nat i)"
    "\<forall>p. p \<notin> obj_bytes dp (unat len) \<longrightarrow> f p = mem ?m p" unfolding obj_bytes_def by blast
  have "mem_step (obj_bytes dp (unat len)) ?m (?m\<lparr>mem := f\<rparr>)"
    using obj_bytes_walk [OF d] f(3) by (intro mem_step_write [OF ok]) auto
  then show ?thesis using f by (intro that [of "?m\<lparr>mem := f\<rparr>"]) (simp_all add: kcopy_def)
qed

subsection \<open>Windows\<close>

text \<open>
  The kernel reaches the buffer of the other process by mapping its frame at a fixed
  address.  \<open>win_free m base\<close>: the window can be opened; \<open>win_open m base fr m1\<close>: \<open>m1\<close> is \<open>m\<close> with
  the window showing frame \<open>fr\<close>.
\<close>

definition win_free :: "mmu \<Rightarrow> u32 \<Rightarrow> bool" where
  "win_free m base \<longleftrightarrow> page_aligned base \<and> has_table m (vm_pdir_idx base) \<and>
     translate m base = Inl (PageFault base)"

definition win_open :: "mmu \<Rightarrow> u32 \<Rightarrow> u32 \<Rightarrow> mmu \<Rightarrow> bool" where
  "win_open m base fr m1 \<longleftrightarrow> pt_ok m1 \<and> walk_bytes m1 = walk_bytes m \<and> cr3 m1 = cr3 m \<and>
     (\<forall>d. has_table m1 d = has_table m d) \<and>
     (\<forall>w. vm_pdir_idx w \<noteq> 1023 \<longrightarrow> translate m1 w =
        (if w AND 0xfffff000 = base then Inr (fr + (w AND 0xfff)) else translate m w)) \<and>
     (\<forall>w. vm_pdir_idx w \<noteq> 1023 \<longrightarrow> w AND 0xfffff000 \<noteq> base \<longrightarrow> has_table m (vm_pdir_idx w) \<longrightarrow>
        pte_of m1 (vm_pdir_idx w) (vm_ptab_idx w) = pte_of m (vm_pdir_idx w) (vm_ptab_idx w)) \<and>
     (\<forall>q. q \<notin> walk_bytes m \<longrightarrow> mem m1 q = mem m q)"

lemma win_free_page:
  assumes "win_free m base" and "w AND 0xfffff000 = base"
  shows "translate m w = Inl (PageFault w)"
proof -
  have "base AND 0xfffff000 = base" using assms(1) page_of_aligned by (simp add: win_free_def)
  then have "vm_pdir_idx w = vm_pdir_idx base" "vm_ptab_idx w = vm_ptab_idx base"
    using same_page_iff [of w base] assms(2) by simp_all
  then show ?thesis using assms(1) by (auto simp: win_free_def translate_def split: if_splits)
qed

lemma npages_one: "0 < len \<Longrightarrow> unat len \<le> 4096 \<Longrightarrow> npages_of len = 1"
  by (auto simp: npages_of_unat word_gt_0 unat_eq_zero le_less)

lemma upd_vms_mmu: "vpm v = vpm (hvms (kheap k)) \<Longrightarrow> upd_vms v k = upd_mmu (\<lambda>_. vmmu v) k"
  by (simp add: upd_vms_def upd_mmu_def)

lemma window_map:
  assumes ok: "pt_ok (kmmu k)" and wf: "win_free (kmmu k) base" and va: "PALIGNDOWN va = base"
    and len: "0 < len" "unat len \<le> 4096"
  obtains m1 where "kmap p va len k = Inr (upd_mmu (\<lambda>_. m1) k)" and "win_open (kmmu k) base (PALIGNDOWN p) m1"
proof -
  let ?v = "hvms (kheap k)"
  have base: "base AND 0xfffff000 = base" using wf page_of_aligned by (simp add: win_free_def)
  have h: "pt_ok (vmmu ?v)" "has_table (vmmu ?v) (vm_pdir_idx base)" "low_flags 0"
    "translate (vmmu ?v) base = Inl (PageFault base)"
    using ok wf by (simp_all add: kmmu_def win_free_def low_flags_def)
  obtain v1 where v1: "map_page (PALIGNDOWN p) base 0 ?v = Inr v1" "vpm v1 = vpm ?v" "pt_ok (vmmu v1)"
    "cr3 (vmmu v1) = cr3 (vmmu ?v)" "\<And>d. has_table (vmmu v1) d = has_table (vmmu ?v) d"
    "walk_bytes (vmmu v1) = walk_bytes (vmmu ?v)"
    "\<And>w. vm_pdir_idx w \<noteq> 1023 \<Longrightarrow> translate (vmmu v1) w =
      (if w AND 0xfffff000 = base AND 0xfffff000 then Inr (PALIGNDOWN (PALIGNDOWN p) + (w AND 0xfff))
       else translate (vmmu ?v) w)"
    "\<And>q. q \<notin> walk_bytes (vmmu ?v) \<Longrightarrow> mem (vmmu v1) q = mem (vmmu ?v) q"
    "\<And>d l. has_table (vmmu ?v) d \<Longrightarrow> l < 1024 \<Longrightarrow> \<not> (d = vm_pdir_idx base \<and> l = vm_ptab_idx base) \<Longrightarrow>
      pte_of (vmmu v1) d l = pte_of (vmmu ?v) d l"
    by (rule map_page_absent [OF h]) (rule that)
  have mp: "kmap p va len k = Inr (upd_mmu (\<lambda>_. vmmu v1) k)"
    unfolding kmap_def map_pages_kfor npages_one [OF len] va
    using v1(1) upd_vms_mmu [OF v1(2)] by (simp add: page_at_def)
  have "win_open (kmmu k) base (PALIGNDOWN p) (vmmu v1)"
    unfolding win_open_def kmmu_def
  proof (intro conjI allI impI v1(3-6))
    fix w assume w: "vm_pdir_idx w \<noteq> 1023"
    show "translate (vmmu v1) w =
        (if w AND 0xfffff000 = base then Inr (PALIGNDOWN p + (w AND 0xfff)) else translate (vmmu ?v) w)"
      using v1(7) [OF w] unfolding base PALIGNDOWN_idem .
    assume "w AND 0xfffff000 \<noteq> base" and ht: "has_table (vmmu ?v) (vm_pdir_idx w)"
    then have "\<not> (vm_pdir_idx w = vm_pdir_idx base \<and> vm_ptab_idx w = vm_ptab_idx base)"
      using same_page_iff [of w base] base by simp
    then show "pte_of (vmmu v1) (vm_pdir_idx w) (vm_ptab_idx w) = pte_of (vmmu ?v) (vm_pdir_idx w) (vm_ptab_idx w)"
      by (rule v1(9) [OF ht vm_ptab_idx_less])
  next
    fix q assume "q \<notin> walk_bytes (vmmu ?v)"
    then show "mem (vmmu v1) q = mem (vmmu ?v) q" by (rule v1(8))
  qed
  with mp show ?thesis by (rule that)
qed

lemma win_open_obj:
  assumes wf: "win_free m base" and wo: "win_open m base fr m1" and ob: "obj m a p n"
  shows "obj m1 a p n"
proof -
  have "translate m1 (a + of_nat i) = Inr (p + of_nat i)" if "i < n" for i
  proof -
    have "(a + of_nat i) AND 0xfffff000 \<noteq> base"
      using win_free_page [OF wf, of "a + of_nat i"] obj_byte(1) [OF ob that] by auto
    then show ?thesis using wo obj_byte [OF ob that] by (simp add: win_open_def)
  qed
  then show ?thesis using wo ob by (simp add: obj_def win_open_def)
qed

text \<open>The buffer as seen through the window.\<close>

lemma win_open_window:
  assumes wf: "win_free m base" and wo: "win_open m base (PALIGNDOWN p) m1"
    and len: "unat (p AND 0xfff) + n \<le> 4096" and nw: "\<And>q. q \<in> obj_bytes p n \<Longrightarrow> q \<notin> walk_bytes m"
  shows "obj m1 (base + (p AND 0xfff)) p n"
proof -
  have base: "page_aligned base" "base AND 0xfffff000 = base" "vm_pdir_idx base \<noteq> 1023"
    using wf page_of_aligned by (auto simp: win_free_def has_table_def)
  have off: "unat ((p AND 0xfff) + of_nat i) = unat (p AND 0xfff) + i" if "i < n" for i
    using len that by (subst unat_add_no_wrap) (auto simp: unat_of_nat take_bit_eq_mod)
  have "translate m1 (base + (p AND 0xfff) + of_nat i) = Inr (p + of_nat i) \<and>
      vm_pdir_idx (base + (p AND 0xfff) + of_nat i) \<noteq> 1023" if i: "i < n" for i
  proof -
    let ?o = "(p AND 0xfff) + of_nat i"
    have o: "?o < 0x1000" using off [OF i] len i by (simp add: word_less_nat_alt)
    have w: "base + ?o AND 0xfffff000 = base" "base + ?o AND 0xfff = ?o"
      using page_add_offset(2,3) [OF base(1) o] by simp_all
    have idx: "vm_pdir_idx (base + ?o) = vm_pdir_idx base"
      using same_page_iff [of "base + ?o" base] w(1) base(2) by simp
    have "translate m1 (base + ?o) = Inr (PALIGNDOWN p + ?o)"
      using wo w idx base(3) by (simp add: win_open_def)
    moreover have "PALIGNDOWN p + ?o = p + of_nat i"
      using page_offset_sum [of p] by (simp add: PALIGNDOWN_eq add.assoc [symmetric])
    ultimately show ?thesis using idx base(3) by (simp add: add.assoc)
  qed
  moreover have "unat p + n \<le> 4294967296"
  proof -
    have "unat p = unat p div 4096 * 4096 + unat (p AND 0xfff)" by (simp add: unat_and_fff)
    moreover have "unat p div 4096 < 1048576"
      using unat_u32_less [of p] by (simp add: less_mult_imp_div_less)
    ultimately show ?thesis using len by linarith
  qed
  moreover have "walk_bytes m1 = walk_bytes m" using wo by (simp add: win_open_def)
  ultimately show ?thesis
    unfolding obj_def using nw obj_bytes_mem [of _ n p] by simp
qed

lemma window_unmap:
  assumes ok: "pt_ok m" and wf: "win_free m base" and wo: "win_open m base fr m1" and st: "mem_step A m1 (kmmu k)"
    and va: "PALIGNDOWN va = base" and len: "0 < len" "unat len \<le> 4096"
  obtains m3 where "kunmap va len k = Inr (upd_mmu (\<lambda>_. m3) k)" and "mem_step A m m3"
    and "\<And>q. q \<notin> walk_bytes m \<Longrightarrow> mem m3 q = mem (kmmu k) q"
proof -
  let ?v = "hvms (kheap k)"
  have base: "base AND 0xfffff000 = base" using wf page_of_aligned by (simp add: win_free_def)
  have wb: "walk_bytes (vmmu ?v) = walk_bytes m" and ok2: "pt_ok (vmmu ?v)"
    and ht: "\<And>d. has_table (vmmu ?v) d = has_table m d"
    using st wo by (simp_all add: mem_step_def win_open_def kmmu_def)
  have h: "has_table (vmmu ?v) (vm_pdir_idx base)" using wf ht by (simp add: win_free_def)
  obtain v3 where v3: "unmap_page base ?v = Inr v3" "vpm v3 = vpm ?v" "pt_ok (vmmu v3)"
    "\<And>d. has_table (vmmu v3) d = has_table (vmmu ?v) d"
    "\<And>w. vm_pdir_idx w \<noteq> 1023 \<Longrightarrow> translate (vmmu v3) w =
      (if w AND 0xfffff000 = base AND 0xfffff000 then Inl (PageFault w) else translate (vmmu ?v) w)"
    "walk_bytes (vmmu v3) = walk_bytes (vmmu ?v)" "cr3 (vmmu v3) = cr3 (vmmu ?v)"
    "\<And>q. q \<notin> walk_bytes (vmmu ?v) \<Longrightarrow> mem (vmmu v3) q = mem (vmmu ?v) q"
    "\<And>d l. has_table (vmmu ?v) d \<Longrightarrow> l < 1024 \<Longrightarrow> \<not> (d = vm_pdir_idx base \<and> l = vm_ptab_idx base) \<Longrightarrow>
      pte_of (vmmu v3) d l = pte_of (vmmu ?v) d l"
    by (rule unmap_page_effect [OF ok2 h]) (rule that)
  have un: "kunmap va len k = Inr (upd_mmu (\<lambda>_. vmmu v3) k)"
    unfolding kunmap_def unmap_pages_kfor npages_one [OF len] va
    using v3(1) upd_vms_mmu [OF v3(2)] by (simp add: page_at_def)
  have tr2: "translate (vmmu ?v) w = translate m1 w" if "vm_pdir_idx w \<noteq> 1023" for w
    using st that by (simp add: mem_step_def kmmu_def)
  have tr: "translate (vmmu v3) w = translate m w" if w: "vm_pdir_idx w \<noteq> 1023" for w
    using v3(5) [OF w] tr2 [OF w] wo w win_free_page [OF wf, of w] base by (auto simp: win_open_def)
  have "mem_step A m (vmmu v3)"
    unfolding mem_step_def
  proof (intro conjI allI impI)
    show "pt_ok (vmmu v3)" by (rule v3(3))
    show "walk_bytes (vmmu v3) = walk_bytes m" using v3(6) wb by simp
    show "cr3 (vmmu v3) = cr3 m" using v3(7) st wo by (simp add: mem_step_def win_open_def kmmu_def)
    show "has_table (vmmu v3) d = has_table m d" for d using v3(4) ht by simp
    show "vm_pdir_idx w \<noteq> 1023 \<Longrightarrow> translate (vmmu v3) w = translate m w" for w by (rule tr)
  next
    fix w q assume w: "vm_pdir_idx w \<noteq> 1023" and q: "translate m w = Inr q"
    have htw: "has_table m (vm_pdir_idx w)"
      using q less_1023(2) [OF vm_pdir_idx_less w] by (auto simp: has_table_def translate_def split: if_splits)
    have ne: "w AND 0xfffff000 \<noteq> base" using win_free_page [OF wf, of w] q by auto
    then have "\<not> (vm_pdir_idx w = vm_pdir_idx base \<and> vm_ptab_idx w = vm_ptab_idx base)"
      using same_page_iff [of w base] base by simp
    then have "pte_of (vmmu v3) (vm_pdir_idx w) (vm_ptab_idx w) = pte_of (vmmu ?v) (vm_pdir_idx w) (vm_ptab_idx w)"
      using v3(9) [OF _ vm_ptab_idx_less] htw ht by simp
    also have "\<dots> = pte_of m1 (vm_pdir_idx w) (vm_ptab_idx w)"
    proof -
      have "translate m1 w = Inr q" using wo w ne q by (simp add: win_open_def)
      then show ?thesis using st w by (simp add: mem_step_def kmmu_def)
    qed
    also have "\<dots> = pte_of m (vm_pdir_idx w) (vm_ptab_idx w)" using wo w ne htw by (simp add: win_open_def)
    finally show "pte_of (vmmu v3) (vm_pdir_idx w) (vm_ptab_idx w) = pte_of m (vm_pdir_idx w) (vm_ptab_idx w)" .
  next
    fix q assume q: "q \<notin> walk_bytes m" "q \<notin> A"
    then show "mem (vmmu v3) q = mem m q"
      using v3(8) [of q] wb mem_step_mem [OF st, of q] wo by (simp add: win_open_def kmmu_def)
  qed
  with un show ?thesis using v3(8) wb by (intro that [of "vmmu v3"]) (simp_all add: kmmu_def)
qed

subsection \<open>The kernel state under memory updates\<close>

lemma upd_mmu_simps [simp]:
  "kmmu (upd_mmu f k) = f (kmmu k)" "ktab (upd_mmu f k) = ktab k"
  "upd_mmu (\<lambda>_. m2) (upd_mmu (\<lambda>_. m1) k) = upd_mmu (\<lambda>_. m2) k"
  "upd_mmu (\<lambda>_. kmmu k) k = k"
  "set_pstate i st (upd_mmu f k) = upd_mmu f (set_pstate i st k)"
  "kmmu (set_pstate i st k) = kmmu k" "kheap (set_pstate i st k) = kheap k"
  "kmmu (k\<lparr>ktab := t\<rparr>) = kmmu k" "ktab (set_pstate i st k) = upd_proc i (\<lambda>p. p\<lparr>state := st\<rparr>) (ktab k)"
  by (simp_all add: kmmu_def upd_mmu_def set_pstate_def)

lemma kheap_upd_mmu: "kheap (upd_mmu (\<lambda>_. m) k) = (kheap k)\<lparr>hvms := (hvms (kheap k))\<lparr>vmmu := m\<rparr>\<rparr>"
  by (simp add: upd_mmu_def)

text \<open>Fields of objects in memory.\<close>

definition fld :: "mmu \<Rightarrow> u32 \<Rightarrow> nat \<Rightarrow> u32" where
  "fld m p off = load32 (mem m) (p + of_nat off)"

lemma msg_fields:
  "a + MSG_SENDER = a + of_nat 0" "a + MSG_RECEIVER = a + of_nat 4" "a + MSG_SEND_BUF = a + of_nat 8"
  "a + MSG_RECV_BUF = a + of_nat 12" "a + MSG_SEND_LEN = a + of_nat 16" "a + MSG_RECV_LEN = a + of_nat 20"
  "a + MSG_PHYS_SEND_BUF = a + of_nat 24" "a + MSG_PHYS_RECV_BUF = a + of_nat 28"
  "a + MSG_PHYS_MSG_PACKET = a + of_nat 32"
  by (simp_all add: MSG_SENDER_def MSG_RECEIVER_def MSG_SEND_BUF_def MSG_RECV_BUF_def MSG_SEND_LEN_def
      MSG_RECV_LEN_def MSG_PHYS_SEND_BUF_def MSG_PHYS_RECV_BUF_def MSG_PHYS_MSG_PACKET_def)

lemma kld_obj: "obj (kmmu k) a p n \<Longrightarrow> off + 4 \<le> n \<Longrightarrow> kld (a + of_nat off) k = Inr (fld (kmmu k) p off)"
  by (simp add: kld_def obj_load fld_def)

lemma fld_cong:
  assumes "\<And>i. i < 4 \<Longrightarrow> mem m' (p + of_nat (off + i)) = mem m (p + of_nat (off + i))"
  shows "fld m' p off = fld m p off"
  using assms [of 0] assms [of 1] assms [of 2] assms [of 3]
  unfolding fld_def load32_def word_bytes by simp

lemma fld_outside:
  assumes "obj m a p n" and "off + 4 \<le> n" and "\<And>q. q \<notin> walk_bytes m \<Longrightarrow> q \<notin> A \<Longrightarrow> mem m' q = mem m q"
    and "A \<inter> obj_bytes p n = {}"
  shows "fld m' p off = fld m p off"
proof (rule fld_cong)
  fix i :: nat assume "i < 4"
  then have i: "off + i < n" using assms(2) by simp
  then show "mem m' (p + of_nat (off + i)) = mem m (p + of_nat (off + i))"
    using assms(3,4) obj_byte(2) [OF assms(1) i] obj_bytes_mem [OF i, of p] by blast
qed

subsection \<open>Heap and queues under memory updates\<close>

definition heap_frames :: "u32 \<Rightarrow> u32 set" where
  "heap_frames hp = hphys hp ` {..<16384}"

lemma heap_mapped_step:
  assumes "heap_mapped m hp" and "mem_step A m m'"
  shows "heap_mapped m' hp"
proof -
  have "translate m' (haddr off) = translate m (haddr off)" if "off < 16384" for off
    using assms(2) haddr_page(3) [OF that] by (simp add: mem_step_def)
  then show ?thesis using assms by (simp add: heap_mapped_def mem_step_def)
qed

lemma hbyte_step:
  assumes "heap_mapped m hp" and "mem_step A m m'" and "A \<inter> heap_frames hp = {}" and "off < 16384"
  shows "hbyte m' hp off = hbyte m hp off"
proof -
  have "hphys hp off \<notin> walk_bytes m" "hphys hp off \<notin> A"
    using assms by (auto simp: heap_mapped_def heap_frames_def)
  then show ?thesis using mem_step_mem [OF assms(2)] by (simp add: hbyte_def)
qed

lemma heap_state_step:
  assumes hs: "heap_state m hp us" and st: "mem_step A m m'" "A \<inter> heap_frames hp = {}"
  shows "heap_state m' hp us"
proof -
  have hm: "heap_mapped m hp" using hs by (simp add: heap_state_def)
  have b: "block_at m' hp (node_off j) ty nx sz = block_at m hp (node_off j) ty nx sz"
    if "j \<le> length us" for j ty nx sz
  proof (rule block_at_cong)
    fix y assume "node_off j \<le> y" "y < node_off j + 12"
    then show "hbyte m' hp y = hbyte m hp y"
      using heap_state_bound [OF hs that] by (intro hbyte_step [OF hm st]) simp
  qed
  show ?thesis
    unfolding heap_state_def
  proof (intro conjI allI impI)
    show "block_at m' hp (node_off (length us)) BLOCK_UNUSED 0 (of_nat (16376 - node_off (length us)))"
      using b [OF le_refl] hs unfolding heap_state_def by blast
    show "block_at m' hp (node_off k) (if us ! k then BLOCK_USED else BLOCK_UNUSED) (haddr (node_off (Suc k))) 40"
      if "k < length us" for k
      using b [of k] that hs unfolding heap_state_def by simp
  qed (use hs heap_mapped_step [OF hm st(1)] in \<open>simp_all add: heap_state_def\<close>)
qed

lemma heap_rep_step:
  assumes "heap_rep hp (kheap k) L" and "mem_step A (kmmu k) m'" and "A \<inter> heap_frames hp = {}"
  shows "heap_rep hp (kheap (upd_mmu (\<lambda>_. m') k)) L"
  using assms heap_state_step [of "kmmu k" hp _ A m'] unfolding heap_rep_def kheap_upd_mmu kmmu_def by auto

lemma node_word_step:
  assumes "heap_mapped m hp" and "mem_step A m m'" and "A \<inter> heap_frames hp = {}" and "node_ok x" and "off + 4 \<le> 40"
  shows "node_word m' hp x off = node_word m hp x off"
proof -
  obtain j where j: "x = node_addr j" "node_off j + 64 \<le> 16384" using assms(4) by (auto simp: node_ok_def)
  have "hword m' hp (node_off j + 12 + off) = hword m hp (node_off j + 12 + off)"
    using j(2) assms(5) by (intro hword_cong hbyte_step [OF assms(1-3)]) simp
  then show ?thesis by (simp add: j(1) node_word_hword)
qed

lemma qrep_step:
  assumes "heap_mapped m hp" and "mem_step A m m'" and "A \<inter> heap_frames hp = {}" and "qrep m hp h xs"
  shows "qrep m' hp h xs"
proof (subst qrep_cong [of xs m' hp m])
  fix x assume "x \<in> set xs"
  then show "node_word m' hp x 36 = node_word m hp x 36"
    using assms(4) by (intro node_word_step [OF assms(1-3)]) (auto simp: qrep_def)
qed (rule assms(4))

lemma node_obj:
  assumes hm: "heap_mapped m hp" and x: "node_ok x"
  shows "obj m x (x - heap_pool_addr + hp) 40" and "obj_bytes (x - heap_pool_addr + hp) 40 \<subseteq> heap_frames hp"
proof -
  obtain j where j: "x = node_addr j" "node_off j + 64 \<le> 16384" using x by (auto simp: node_ok_def)
  have p: "x - heap_pool_addr + hp + of_nat i = hphys hp (node_off j + 12 + i)" for i
    by (simp add: j(1) node_addr_def haddr_def hphys_def)
  have a: "x + of_nat i = haddr (node_off j + 12 + i)" for i
    by (simp only: j(1) node_addr_def haddr_add)
  have "unat (x - heap_pool_addr + hp) = unat hp + (node_off j + 12)"
    using p [of 0] unat_hphys [OF hm, of "node_off j + 12"] j(2) by simp
  then show "obj m x (x - heap_pool_addr + hp) 40"
    unfolding obj_def p a using hm j(2) haddr_page(3) by (auto simp: heap_mapped_def)
  show "obj_bytes (x - heap_pool_addr + hp) 40 \<subseteq> heap_frames hp"
    unfolding obj_bytes_def p heap_frames_def using j(2) by auto
qed

lemma heap_upd_step:
  assumes ok: "pt_ok m" and hm: "heap_mapped m hp" and up: "heap_upd hp m m'"
  shows "mem_step (heap_frames hp) m m'"
proof -
  obtain f where f: "m' = m\<lparr>mem := f\<rparr>" "\<forall>p. p \<notin> heap_frames hp \<longrightarrow> f p = mem m p"
    using up by (auto simp: heap_upd_def heap_frames_def)
  show ?thesis
    unfolding f(1) using hm f(2)
    by (intro mem_step_write [OF ok]) (auto simp: heap_mapped_def heap_frames_def)
qed

text \<open>A queue survives a step that leaves the contents of its nodes alone.\<close>

lemma qrep_nodes_same:
  assumes q: "qrep m hp h xs"
    and same: "\<And>j i. node_addr j \<in> set xs \<Longrightarrow> node_off j + 64 \<le> 16384 \<Longrightarrow> i < 40 \<Longrightarrow>
      hbyte m' hp (node_off j + 12 + i) = hbyte m hp (node_off j + 12 + i)"
  shows "qrep m' hp h xs"
proof (subst qrep_cong [of xs m' hp m])
  fix x assume x: "x \<in> set xs"
  then obtain j where j: "x = node_addr j" "node_off j + 64 \<le> 16384"
    using q by (auto simp: qrep_def node_ok_def)
  have "hword m' hp (node_off j + 12 + 36) = hword m hp (node_off j + 12 + 36)"
  proof (rule hword_cong)
    fix y assume y: "node_off j + 12 + 36 \<le> y" "y \<le> node_off j + 12 + 36 + 3"
    then obtain i where "y = node_off j + 12 + i" "i < 40"
      by (intro that [of "y - (node_off j + 12)"]) auto
    then show "hbyte m' hp y = hbyte m hp y" using same [of j i] x j by simp
  qed
  then show "node_word m' hp x 36 = node_word m hp x 36" by (simp add: j(1) node_word_hword)
qed (rule q)

subsection \<open>Copying through a window\<close>

text \<open>
  Opening the window on the buffer at physical address \<open>p\<close>, copying \<open>len\<close> bytes from \<open>src\<close> into
  it and closing the window.  In between, objects of the old address space can be read.
\<close>

lemma window_write:
  assumes ok: "pt_ok (kmmu k)" and wf: "win_free (kmmu k) base"
    and len: "0 < len" "unat (p AND 0xfff) + unat len \<le> 4096"
    and nwb: "obj_bytes p (unat len) \<inter> walk_bytes (kmmu k) = {}"
    and src: "obj (kmmu k) src sp (unat len)" and dis: "obj_bytes p (unat len) \<inter> obj_bytes sp (unat len) = {}"
  obtains m1 m2 m3 where "kmap p base len k = Inr (upd_mmu (\<lambda>_. m1) k)"
    and "kcopy (base + (p AND 0xfff)) src len (upd_mmu (\<lambda>_. m1) k) = Inr (upd_mmu (\<lambda>_. m2) k)"
    and "kunmap base len (upd_mmu (\<lambda>_. m2) k) = Inr (upd_mmu (\<lambda>_. m3) k)"
    and "mem_step (obj_bytes p (unat len)) (kmmu k) m3"
    and "\<And>i. i < unat len \<Longrightarrow> mem m3 (p + of_nat i) = mem (kmmu k) (sp + of_nat i)"
    and "\<And>a q n. obj (kmmu k) a q n \<Longrightarrow> obj m1 a q n \<and> obj m2 a q n"
    and "\<And>q. q \<notin> walk_bytes (kmmu k) \<Longrightarrow> mem m1 q = mem (kmmu k) q"
    and "\<And>q. q \<notin> walk_bytes (kmmu k) \<Longrightarrow> q \<notin> obj_bytes p (unat len) \<Longrightarrow> mem m2 q = mem (kmmu k) q"
proof -
  have nw: "q \<notin> walk_bytes (kmmu k)" if "q \<in> obj_bytes p (unat len)" for q using nwb that by blast
  have l4: "unat len \<le> 4096" using len(2) by simp
  have base: "PALIGNDOWN base = base" using wf PALIGNDOWN_aligned by (simp add: win_free_def)
  obtain m1 where m1: "kmap p base len k = Inr (upd_mmu (\<lambda>_. m1) k)" "win_open (kmmu k) base (PALIGNDOWN p) m1"
    by (rule window_map [OF ok wf base len(1) l4]) (rule that)
  have ok1: "pt_ok m1" and wb1: "walk_bytes m1 = walk_bytes (kmmu k)"
    and mm1: "\<And>q. q \<notin> walk_bytes (kmmu k) \<Longrightarrow> mem m1 q = mem (kmmu k) q"
    using m1(2) by (simp_all add: win_open_def)
  have ob1: "obj m1 a q n" if "obj (kmmu k) a q n" for a q n by (rule win_open_obj [OF wf m1(2) that])
  have win: "obj m1 (base + (p AND 0xfff)) p (unat len)" by (rule win_open_window [OF wf m1(2) len(2) nw])
  let ?k1 = "upd_mmu (\<lambda>_. m1) k"
  have c: "pt_ok (kmmu ?k1)" "obj (kmmu ?k1) (base + (p AND 0xfff)) p (unat len)" "obj (kmmu ?k1) src sp (unat len)"
    using ok1 win ob1 [OF src] by simp_all
  obtain m2 where m2: "kcopy (base + (p AND 0xfff)) src len ?k1 = Inr (upd_mmu (\<lambda>_. m2) ?k1)"
    "mem_step (obj_bytes p (unat len)) (kmmu ?k1) m2"
    "\<And>i. i < unat len \<Longrightarrow> mem m2 (p + of_nat i) = mem (kmmu ?k1) (sp + of_nat i)"
    by (rule obj_copy [OF c dis]) (rule that)
  have st2: "mem_step (obj_bytes p (unat len)) m1 (kmmu (upd_mmu (\<lambda>_. m2) k))" using m2(2) by simp
  obtain m3 where m3: "kunmap base len (upd_mmu (\<lambda>_. m2) k) = Inr (upd_mmu (\<lambda>_. m3) (upd_mmu (\<lambda>_. m2) k))"
    "mem_step (obj_bytes p (unat len)) (kmmu k) m3"
    "\<And>q. q \<notin> walk_bytes (kmmu k) \<Longrightarrow> mem m3 q = mem (kmmu (upd_mmu (\<lambda>_. m2) k)) q"
    by (rule window_unmap [OF ok wf m1(2) st2 base len(1) l4]) (rule that)
  show ?thesis
  proof (rule that [of m1 m2 m3])
    show "kmap p base len k = Inr (upd_mmu (\<lambda>_. m1) k)" by (rule m1(1))
    show "kcopy (base + (p AND 0xfff)) src len (upd_mmu (\<lambda>_. m1) k) = Inr (upd_mmu (\<lambda>_. m2) k)"
      using m2(1) by simp
    show "kunmap base len (upd_mmu (\<lambda>_. m2) k) = Inr (upd_mmu (\<lambda>_. m3) k)" using m3(1) by simp
    show "mem_step (obj_bytes p (unat len)) (kmmu k) m3" by (rule m3(2))
    fix i assume i: "i < unat len"
    have "p + of_nat i \<notin> walk_bytes (kmmu k)" by (rule nw [OF obj_bytes_mem [OF i]])
    then show "mem m3 (p + of_nat i) = mem (kmmu k) (sp + of_nat i)"
      using m3(3) m2(3) [OF i] mm1 obj_byte(2) [OF src i] by simp
  next
    fix a q n assume "obj (kmmu k) a q n"
    then have "obj m1 a q n" by (rule ob1)
    moreover from this m2(2) have "obj m2 a q n" using obj_step by simp
    ultimately show "obj m1 a q n \<and> obj m2 a q n" ..
  next
    fix q assume "q \<notin> walk_bytes (kmmu k)"
    then show "mem m1 q = mem (kmmu k) q" by (rule mm1)
    assume "q \<notin> obj_bytes p (unat len)"
    with \<open>q \<notin> walk_bytes (kmmu k)\<close> show "mem m2 q = mem (kmmu k) q"
      using mem_step_mem [OF m2(2), of q] wb1 mm1 by simp
  qed
qed

subsection \<open>Reply\<close>

text \<open>
  What a reply needs: a first message \<open>x\<close> in the queue, its sender \<open>i\<close>, the caller's packet, and
  the answer in a mapped buffer.  The receive buffer of the sender, at physical address
  \<open>pr\<close>, lies in one page outside the page tables and the kernel heap.
\<close>

definition node_phys :: "u32 \<Rightarrow> u32 \<Rightarrow> u32" where
  "node_phys hp x = x - heap_pool_addr + hp"

definition rply_ready :: "u32 \<Rightarrow> kern \<Rightarrow> nat \<Rightarrow> u32 \<Rightarrow> u32 \<Rightarrow> u32 \<Rightarrow> u32 list \<Rightarrow> u32 set \<Rightarrow> u32 \<Rightarrow> nat \<Rightarrow> bool" where
  "rply_ready hp k c msg mp x xs L sp i \<longleftrightarrow>
     (let m = kmmu k; np = node_phys hp x; pr = fld m np 28; rl = fld m np 20 in
      pt_ok m \<and> heap_rep hp (kheap k) L \<and> set (x # xs) \<subseteq> L \<and> qrep m hp (recv_queue (procs (ktab k) c)) (x # xs) \<and>
      proc_find_by_pid (fld m np 0) (ktab k) = Some i \<and>
      win_free m 0xcafe0000 \<and> obj m msg mp 36 \<and> obj m (fld m mp 8) sp (unat rl) \<and>
      0 < rl \<and> unat (pr AND 0xfff) + unat rl \<le> 4096 \<and> fld m np 12 AND 0xfff = pr AND 0xfff \<and>
      obj_bytes pr (unat rl) \<inter> walk_bytes m = {} \<and> obj_bytes pr (unat rl) \<inter> heap_frames hp = {} \<and>
      obj_bytes pr (unat rl) \<inter> obj_bytes sp (unat rl) = {})"

lemma rply_first_effect:
  assumes ready: "rply_ready hp k c msg mp x xs L sp i"
  defines "m \<equiv> kmmu k"
  defines "pr \<equiv> fld m (node_phys hp x) 28" and "rl \<equiv> fld m (node_phys hp x) 20"
  shows "\<exists>k' h'. rply_first c msg k = Inr k' \<and>
    ktab k' = upd_proc i (\<lambda>p. p\<lparr>state := PROC_READY\<rparr>) (upd_proc c (\<lambda>p. p\<lparr>recv_queue := h'\<rparr>) (ktab k)) \<and>
    qrep (kmmu k') hp h' xs \<and> heap_rep hp (kheap k') (L - {x}) \<and>
    (\<forall>h ys. qrep m hp h ys \<longrightarrow> set ys \<subseteq> L \<longrightarrow> qrep (kmmu k') hp h ys) \<and>
    (\<forall>j < unat rl. mem (kmmu k') (pr + of_nat j) = mem m (sp + of_nat j)) \<and>
    (\<forall>w. vm_pdir_idx w \<noteq> 1023 \<longrightarrow> translate (kmmu k') w = translate m w) \<and>
    (\<forall>q. q \<notin> walk_bytes m \<union> obj_bytes pr (unat rl) \<union> heap_frames hp \<longrightarrow> mem (kmmu k') q = mem m q) \<and>
    cr3 (kmmu k') = cr3 m \<and> pt_ok (kmmu k') \<and> kseg k' = kseg k"
proof -
  let ?np = "node_phys hp x" and ?D = "obj_bytes pr (unat rl)"
  have r: "pt_ok m" "heap_rep hp (kheap k) L" "set (x # xs) \<subseteq> L" "qrep m hp (recv_queue (procs (ktab k) c)) (x # xs)"
    "proc_find_by_pid (fld m ?np 0) (ktab k) = Some i" "win_free m 0xcafe0000" "obj m msg mp 36"
    "obj m (fld m mp 8) sp (unat rl)" "0 < rl" "unat (pr AND 0xfff) + unat rl \<le> 4096"
    "fld m ?np 12 AND 0xfff = pr AND 0xfff" "?D \<inter> walk_bytes m = {}" "?D \<inter> heap_frames hp = {}"
    "?D \<inter> obj_bytes sp (unat rl) = {}"
    using ready unfolding rply_ready_def Let_def m_def pr_def rl_def by blast+
  have hm: "heap_mapped m hp" using r(2) by (auto simp: heap_rep_def heap_state_def m_def kmmu_def)
  have xL: "x \<in> L" using r(3) by simp
  have xo: "node_ok x" using r(2) xL by (rule heap_rep_node_ok)
  have nd: "obj m x ?np 40" and nb: "obj_bytes ?np 40 \<subseteq> heap_frames hp"
    using node_obj [OF hm xo] by (simp_all add: node_phys_def)
  obtain m1 m2 m3 where w: "kmap pr 0xcafe0000 rl k = Inr (upd_mmu (\<lambda>_. m1) k)"
    "kcopy (0xcafe0000 + (pr AND 0xfff)) (fld m mp 8) rl (upd_mmu (\<lambda>_. m1) k) = Inr (upd_mmu (\<lambda>_. m2) k)"
    "kunmap 0xcafe0000 rl (upd_mmu (\<lambda>_. m2) k) = Inr (upd_mmu (\<lambda>_. m3) k)" "mem_step ?D m m3"
    "\<And>j. j < unat rl \<Longrightarrow> mem m3 (pr + of_nat j) = mem m (sp + of_nat j)"
    "\<And>a q n. obj m a q n \<Longrightarrow> obj m1 a q n \<and> obj m2 a q n"
    "\<And>q. q \<notin> walk_bytes m \<Longrightarrow> mem m1 q = mem m q"
    "\<And>q. q \<notin> walk_bytes m \<Longrightarrow> q \<notin> ?D \<Longrightarrow> mem m2 q = mem m q"
    by (rule window_write [OF r(1,6,9,10)[unfolded m_def] r(12) [unfolded m_def] r(8,14) [unfolded m_def], folded m_def]) (rule that)
  have n1: "obj m1 x ?np 40" "obj m2 x ?np 40" "obj m1 msg mp 36" using w(6) nd r(7) by blast+
  have f1: "fld m1 mp 8 = fld m mp 8" "fld m1 ?np 20 = rl"
    using fld_outside [OF r(7), where off = 8 and m' = m1 and A = "{}"] fld_outside [OF nd, where off = 20 and m' = m1 and A = "{}"] w(7)
    by (simp_all add: rl_def)
  have f2: "fld m2 ?np 20 = rl"
    using fld_outside [OF nd, where off = 20 and m' = m2 and A = ?D] w(8) r(13) nb by (auto simp: rl_def)
  have hm3: "heap_mapped m3 hp" by (rule heap_mapped_step [OF hm w(4)])
  have q3: "qrep m3 hp (recv_queue (procs (ktab k) c)) (x # xs)" by (rule qrep_step [OF hm w(4) r(13,4)])
  obtain h' where h': "STAILQ_REMOVE_HEAD (recv_queue (procs (ktab k) c)) m3 = Inr h'" "qrep m3 hp h' xs"
    using qrep_remove_head [OF hm3 q3] by blast
  have hr3: "heap_rep hp (kheap (upd_mmu (\<lambda>_. m3) k)) L"
    using heap_rep_step [OF r(2), of ?D m3] w(4) r(13) by (simp add: m_def)
  let ?h3 = "kheap (upd_mmu (\<lambda>_. m3) k)"
  have km3: "vmmu (hvms ?h3) = m3" by (simp add: kheap_upd_mmu)
  obtain m4 where m4: "kfree x ?h3 = Inr (?h3\<lparr>hvms := (hvms ?h3)\<lparr>vmmu := m4\<rparr>\<rparr>)"
    "heap_rep hp (?h3\<lparr>hvms := (hvms ?h3)\<lparr>vmmu := m4\<rparr>\<rparr>) (L - {x})" "heap_upd hp m3 m4"
    "\<And>j i. node_addr j \<in> L \<Longrightarrow> node_off j + 64 \<le> 16384 \<Longrightarrow> i < 40 \<Longrightarrow>
      hbyte m4 hp (node_off j + 12 + i) = hbyte m3 hp (node_off j + 12 + i)"
    using kfree_node [OF hr3 xL] unfolding km3 by metis
  have st4: "mem_step (heap_frames hp) m3 m4"
    by (rule heap_upd_step [OF mem_step_pt_ok [OF w(4)] hm3 m4(3)])
  have st: "mem_step (?D \<union> heap_frames hp) m m4" by (rule mem_step_trans [OF w(4) st4])
  have qs: "qrep m4 hp h ys" if "qrep m3 hp h ys" "set ys \<subseteq> L" for h ys
    by (rule qrep_nodes_same [OF that(1)]) (use m4(4) that(2) in auto)
  have q4: "qrep m4 hp h' xs" using qs [OF h'(2)] r(3) by simp
  have others: "\<forall>h ys. qrep m hp h ys \<longrightarrow> set ys \<subseteq> L \<longrightarrow> qrep m4 hp h ys"
    using qs qrep_step [OF hm w(4) r(13)] by blast
  have ld: "kld (x + MSG_SENDER) k = Inr (fld m ?np 0)" "kld (x + MSG_RECV_BUF) k = Inr (fld m ?np 12)"
    "kld (x + MSG_PHYS_RECV_BUF) k = Inr pr" "kld (x + MSG_RECV_LEN) k = Inr rl"
    unfolding msg_fields pr_def rl_def m_def by (rule kld_obj [OF nd [unfolded m_def]]; simp)+
  have ld1: "kld (msg + MSG_SEND_BUF) (upd_mmu (\<lambda>_. m1) k) = Inr (fld m mp 8)"
    "kld (x + MSG_RECV_LEN) (upd_mmu (\<lambda>_. m1) k) = Inr rl"
    "kld (x + MSG_RECV_LEN) (upd_mmu (\<lambda>_. m2) k) = Inr rl"
    unfolding msg_fields using kld_obj [of "upd_mmu (\<lambda>_. m1) k" msg mp 36 8]
      kld_obj [of "upd_mmu (\<lambda>_. m1) k" x ?np 40 20] kld_obj [of "upd_mmu (\<lambda>_. m2) k" x ?np 40 20] n1 f1 f2
    by simp_all
  have fst: "STAILQ_FIRST (recv_queue (procs (ktab k) c)) = x" using r(4) by (simp add: qrep_def STAILQ_FIRST_def)
  let ?k3 = "(upd_mmu (\<lambda>_. m3) k)\<lparr>ktab := upd_proc c (\<lambda>p. p\<lparr>recv_queue := h'\<rparr>) (ktab k)\<rparr>"
  let ?k4 = "?k3\<lparr>kheap := ?h3\<lparr>hvms := (hvms ?h3)\<lparr>vmmu := m4\<rparr>\<rparr>\<rparr>"
  have kh: "kheap ?k3 = ?h3" by simp
  have "rply_first c msg k = Inr (set_pstate i PROC_READY ?k4)"
    unfolding rply_first_def Let_def fst ld kbind_Inr r(5,11) w(1) ld1 w(2,3) upd_mmu_simps h'(1) kh m4(1)
    by simp
  moreover have "kmmu ?k4 = m4" by (simp add: kmmu_def)
  ultimately show ?thesis
  proof (intro exI [of _ "set_pstate i PROC_READY ?k4"] exI [of _ h'] conjI)
    show "\<forall>j < unat rl. mem (kmmu (set_pstate i PROC_READY ?k4)) (pr + of_nat j) = mem m (sp + of_nat j)"
    proof (intro allI impI)
      fix j assume j: "j < unat rl"
      have D: "pr + of_nat j \<in> ?D" by (rule obj_bytes_mem [OF j])
      have wb3: "walk_bytes m3 = walk_bytes m" using w(4) by (simp add: mem_step_def)
      have "mem m4 (pr + of_nat j) = mem m3 (pr + of_nat j)"
        by (rule mem_step_mem [OF st4]) (use D r(12,13) wb3 in auto)
      then show "mem (kmmu (set_pstate i PROC_READY ?k4)) (pr + of_nat j) = mem m (sp + of_nat j)"
        using w(5) [OF j] by (simp add: set_pstate_def kmmu_def)
    qed
    show "\<forall>h ys. qrep m hp h ys \<longrightarrow> set ys \<subseteq> L \<longrightarrow> qrep (kmmu (set_pstate i PROC_READY ?k4)) hp h ys"
      using others by (simp add: set_pstate_def kmmu_def)
  qed (use q4 m4(2) st in \<open>auto simp: set_pstate_def mem_step_def kmmu_def upd_mmu_def\<close>)
qed

end
