(* ===== verification/Trap.thy ===== *)
theory Trap
  imports Devices Syscall
begin

unbundle bit_operations_syntax

text \<open>
  Dispatch of exceptions, hardware interrupts and software interrupts, \<^verbatim>\<open>kernel/idt.c\<close>, and the
  kernel as a transition system.

  A handler is a function pointer; calling it is the argument \<open>call\<close>.  \<open>kernel_call\<close> is that
  argument for the handlers the kernel itself installs, found by the addresses they are
  linked at.  The handlers of exceptions and software interrupts return nothing in C, so
  their dispatchers return the new state only.

  \<open>kstep\<close> is one entry into the kernel that returns: a timer or keyboard interrupt, a system
  call, a yield, a new process.  Shown: a timer interrupt ends in one scheduling step and
  one end-of-interrupt command; an interrupt handler with a page directory of its own
  always gets the old one back; in every reachable state the ids that are given are unique and
  the current and the idle process exist, and only a reply to the sender \<open>- 1\<close> makes a process without an id.
\<close>

section \<open>Definitions\<close>

type_synonym hcall = "u32 \<Rightarrow> u32 \<Rightarrow> sys \<Rightarrow> (u32 \<times> sys) res"

definition REGS_NUM :: u32 where "REGS_NUM = 48"

definition regs_num :: "u32 \<Rightarrow> sys \<Rightarrow> u32 res" where
  "regs_num regs s = vload32 (kmmu (sk s)) (regs + REGS_NUM)"

definition mark_screen :: "u32 \<Rightarrow> u16 \<Rightarrow> sys \<Rightarrow> sys res" where
  "mark_screen addr v s = kbind (vstore16 (kmmu (sk s)) addr v) (\<lambda>m. Inr (s\<lparr>sk := upd_mmu (\<lambda>_. m) (sk s)\<rparr>))"

definition isr_handler :: "hcall \<Rightarrow> u32 \<Rightarrow> sys \<Rightarrow> sys res" where
  "isr_handler call regs s =
     kbind (regs_num regs s) (\<lambda>num.
     if num < 32 then
       let handler = isr_handlers (kidt (sk s)) (unat num) in
       if handler \<noteq> 0 then kbind (call handler regs s) (\<lambda>(_, s). Inr s)
       else mark_screen 0xb8000 0xc053 s
     else Inr s)"

definition irq_dispatch :: "hcall \<Rightarrow> u32 \<Rightarrow> u32 \<Rightarrow> sys \<Rightarrow> (u32 \<times> sys) res" where
  "irq_dispatch call num regs s =
     (let e = irq_handlers (kidt (sk s)) (unat (num - 32)); handler = irq_fn e; pdir = irq_pdir e in
      if handler \<noteq> 0 then
        let saved_pdir = get_cr3 (kmmu (sk s));
            s = (if pdir \<noteq> 0 then s\<lparr>sk := upd_mmu (set_cr3 pdir) (sk s)\<rparr> else s) in
        kbind (call handler regs s) (\<lambda>(ret, s).
          Inr (ret, if pdir \<noteq> 0 then s\<lparr>sk := upd_mmu (set_cr3 saved_pdir) (sk s)\<rparr> else s))
      else kbind (mark_screen 0xb8002 0xc051 s) (\<lambda>s. Inr (regs, s)))"

definition irq_handler :: "hcall \<Rightarrow> u32 \<Rightarrow> sys \<Rightarrow> (u32 \<times> sys) res" where
  "irq_handler call regs s =
     kbind (regs_num regs s) (\<lambda>num.
     kbind (if num \<ge> 32 \<and> num < 48 then irq_dispatch call num regs s else Inr (regs, s)) (\<lambda>(ret, s).
     kbind (regs_num regs s) (\<lambda>num.
     let io = kio (sk s);
         io = (if num \<ge> 40 then outb 0xa0 0x20 io else io);
         io = outb 0x20 0x20 io
     in Inr (ret, s\<lparr>sk := (sk s)\<lparr>kio := io\<rparr>\<rparr>))))"

definition int_handler :: "hcall \<Rightarrow> u32 \<Rightarrow> sys \<Rightarrow> sys res" where
  "int_handler call regs s =
     kbind (regs_num regs s) (\<lambda>num.
     if num \<ge> 48 then
       if 256 \<le> num then Inl OutOfBounds else
       let handler = int_handlers (kidt (sk s)) (unat (num - (32 + 16))) in
       if handler \<noteq> 0 then kbind (call handler regs s) (\<lambda>(_, s). Inr s)
       else mark_screen 0xb8004 0xc04e s
     else Inr s)"

text \<open>The kernel's own handlers and the addresses they are linked at.\<close>

record handler_env =
  timer_fn :: u32
  kbd_fn :: u32
  sched_fn :: u32
  death_fn :: u32
  sys_rply_fn :: u32
  sys_send_fn :: u32
  sys_recv_fn :: u32

definition on_kern :: "(kern \<Rightarrow> (u32 \<times> kern) res) \<Rightarrow> sys \<Rightarrow> (u32 \<times> sys) res" where
  "on_kern f s = kbind (f (sk s)) (\<lambda>(ret, k). Inr (ret, s\<lparr>sk := k\<rparr>))"

definition kernel_call :: "handler_env \<Rightarrow> u32 \<Rightarrow> hcall \<Rightarrow> hcall" where
  "kernel_call env frame_addr other h regs s =
     (if h = timer_fn env then timer_handler regs s
      else if h = kbd_fn env then kbd_handler regs s
      else if h = sched_fn env then on_kern (proc_schedule_after_irq regs) s
      else if h = death_fn env then screen_of_death regs s
      else if h = sys_rply_fn env then on_kern (syscall_rply_msg frame_addr regs) s
      else if h = sys_send_fn env then on_kern (syscall_send_msg frame_addr regs) s
      else if h = sys_recv_fn env then on_kern (syscall_recv_msg frame_addr regs) s
      else other h regs s)"

text \<open>
  One entry into the kernel that returns, with any arguments the program that enters it chooses: the scheduler (from the
  timer interrupt or the yield), the three system calls, a new process; the kernel process turning scheduling off
  and on; the first process marked as running; and everything else that happens between two of these and does not
  write the process table: user programs, devices, the copying of memory.
\<close>

inductive kstep :: "kern \<Rightarrow> kern \<Rightarrow> bool" where
  sched: "proc_schedule_after_irq regs k = Inr (r, k') \<Longrightarrow> kstep k k'"
| send: "syscall_send_msg frame_addr regs k = Inr (r, k') \<Longrightarrow> kstep k k'"
| recv: "syscall_recv_msg frame_addr regs k = Inr (r, k') \<Longrightarrow> kstep k k'"
| rply: "syscall_rply_msg frame_addr regs k = Inr (r, k') \<Longrightarrow> kstep k k'"
| new: "proc_new_from_memory pl name priv su addr sz k = Inr (i, k') \<Longrightarrow> kstep k k'"
| sched_off: "kstep k (k\<lparr>ktab := proc_disable_scheduling (ktab k)\<rparr>)"
| sched_on: "kstep k (k\<lparr>ktab := proc_enable_scheduling (ktab k)\<rparr>)"
| kickoff: "current_proc (ktab k) = Some c \<Longrightarrow> kstep k (k\<lparr>ktab := upd_proc c (\<lambda>p. p\<lparr>state := PROC_RUNNING\<rparr>) (ktab k)\<rparr>)"
| other: "ktab k' = ktab k \<Longrightarrow> kstep k k'"

inductive kreach :: "kern \<Rightarrow> kern \<Rightarrow> bool" where
  start: "kreach k k"
| step: "kreach k k' \<Longrightarrow> kstep k' k'' \<Longrightarrow> kreach k k''"

section \<open>Lemmas\<close>

subsection \<open>What the parts of a system call leave of the process table\<close>

lemma ktab_upd_mmu [simp]: "ktab (upd_mmu f k) = ktab k"
  by (simp add: upd_mmu_def)

lemma ktab_upd_vms [simp]: "ktab (upd_vms v k) = ktab k"
  by (simp add: upd_vms_def)

lemma kst_ktab: "kst a v k = Inr k' \<Longrightarrow> ktab k' = ktab k"
  by (auto simp: kst_def kbind_Inr_iff)

lemma kcopy_ktab: "kcopy d a n k = Inr k' \<Longrightarrow> ktab k' = ktab k"
  by (auto simp: kcopy_def kbind_Inr_iff)

lemma kmap_ktab: "kmap p v n k = Inr k' \<Longrightarrow> ktab k' = ktab k"
  by (auto simp: kmap_def kbind_Inr_iff)

lemma kunmap_ktab: "kunmap v n k = Inr k' \<Longrightarrow> ktab k' = ktab k"
  by (auto simp: kunmap_def kbind_Inr_iff)

lemma copy_field_ktab: "copy_field d a f k = Inr k' \<Longrightarrow> ktab k' = ktab k"
  by (auto simp: copy_field_def kbind_Inr_iff dest: kst_ktab)

lemma phys_field_ktab: "phys_field d f a g k = Inr k' \<Longrightarrow> ktab k' = ktab k"
  by (auto simp: phys_field_def kbind_Inr_iff dest: kst_ktab)

lemmas access_ktab = kst_ktab kcopy_ktab kmap_ktab kunmap_ktab copy_field_ktab phys_field_ktab

lemma send_fill_ktab: "send_fill p msg x k = Inr k' \<Longrightarrow> ktab k' = ktab k"
  unfolding send_fill_def kbind_Inr_iff by (auto dest!: access_ktab)

lemma recv_fill_ktab: "recv_fill msg x k = Inr k' \<Longrightarrow> ktab k' = ktab k"
  unfolding recv_fill_def kbind_Inr_iff by (auto dest!: access_ktab)

lemma deliver_fields_ktab: "deliver_fields p msg x k = Inr k' \<Longrightarrow> ktab k' = ktab k"
  unfolding deliver_fields_def kbind_Inr_iff by (auto dest!: access_ktab)

lemma deliver_buffer_ktab: "deliver_buffer base b msg x k = Inr k' \<Longrightarrow> ktab k' = ktab k"
  unfolding deliver_buffer_def kbind_Inr_iff by (auto dest!: access_ktab)

lemma deliver_sender_ktab: "deliver_sender p x k = Inr k' \<Longrightarrow> ktab k' = ktab k"
  unfolding deliver_sender_def Let_def kbind_Inr_iff by (auto dest!: access_ktab)

lemma deliver_reply_ktab: "deliver_reply msg x k = Inr k' \<Longrightarrow> ktab k' = ktab k"
  unfolding deliver_reply_def kbind_Inr_iff by (auto dest!: access_ktab)

lemmas part_ktab = access_ktab send_fill_ktab recv_fill_ktab deliver_fields_ktab deliver_buffer_ktab deliver_sender_ktab deliver_reply_ktab

text \<open>
  \<open>names_typed t\<close>: every name is an array of 33 bytes whose last one is zero, as \<open>struct proc\<close> declares it and
  the strings need it.  \<open>tab_le R t t'\<close>: the table \<open>t'\<close> differs from \<open>t\<close> only in process states, message queues,
  saved frames and the scheduler's variables; no slot in use becomes unused, and no unused slot outside
  \<open>R\<close> becomes used.
\<close>

definition names_typed :: "pst \<Rightarrow> bool" where
  "names_typed t \<longleftrightarrow> (\<forall>i. length (pname (procs t i)) = 33 \<and> pname (procs t i) ! 32 = 0)"

definition tab_le :: "nat set \<Rightarrow> pst \<Rightarrow> pst \<Rightarrow> bool" where
  "tab_le R t t' \<longleftrightarrow> next_pid t' = next_pid t \<and> idle t' = idle t \<and> current_proc t' = current_proc t \<and>
     (\<forall>i. pid (procs t' i) = pid (procs t i) \<and> pname (procs t' i) = pname (procs t i) \<and>
        (state (procs t i) \<noteq> PROC_UNUSED \<longrightarrow> state (procs t' i) \<noteq> PROC_UNUSED) \<and>
        (i \<in> R \<or> (state (procs t' i) \<noteq> PROC_UNUSED \<longrightarrow> state (procs t i) \<noteq> PROC_UNUSED)))"

lemma tab_le_refl [simp]: "tab_le R t t"
  by (simp add: tab_le_def)

lemma tab_le_trans: "tab_le R t t1 \<Longrightarrow> tab_le R t1 t2 \<Longrightarrow> tab_le R t t2"
  unfolding tab_le_def by metis

lemma tab_le_used: "tab_le R t t' \<Longrightarrow> used_slot t i \<Longrightarrow> used_slot t' i"
  by (simp add: tab_le_def used_slot_def)

lemma tab_le_names: "tab_le R t t' \<Longrightarrow> names_typed t \<Longrightarrow> names_typed t'"
  by (simp add: tab_le_def names_typed_def)

lemma tab_le_state:
  "i \<in> R \<or> used_slot t i \<Longrightarrow> st \<noteq> PROC_UNUSED \<Longrightarrow> tab_le R t (upd_proc i (\<lambda>p. p\<lparr>state := st\<rparr>) t)"
  by (auto simp: tab_le_def upd_proc_def used_slot_def)

lemma tab_le_queue: "tab_le R t (upd_proc i (\<lambda>p. p\<lparr>recv_queue := h\<rparr>) t)"
  by (simp add: tab_le_def upd_proc_def)

lemma tab_le_flag [simp]:
  "tab_le R t (proc_disable_scheduling t)" "tab_le R t (proc_enable_scheduling t)"
  by (simp_all add: tab_le_def proc_disable_scheduling_def proc_enable_scheduling_def)

lemma set_pstate_tab_le:
  "i \<in> R \<or> used_slot (ktab k) i \<Longrightarrow> st \<noteq> PROC_UNUSED \<Longrightarrow> tab_le R (ktab k) (ktab (set_pstate i st k))"
  by (simp add: set_pstate_def tab_le_state)

lemma enqueue_tab_le: "enqueue i x k = Inr k' \<Longrightarrow> tab_le R (ktab k) (ktab k')"
  by (auto simp: enqueue_def kbind_Inr_iff tab_le_queue split: prod.splits)

lemma send_enqueue_tab_le:
  assumes "send_enqueue p msg r k = Inr k'"
  shows "tab_le R (ktab k) (ktab k')" "state (procs (ktab k') r) = state (procs (ktab k) r)"
  using assms
  by (auto simp: send_enqueue_def kbind_Inr_iff enqueue_def upd_proc_def tab_le_def
      dest!: part_ktab split: prod.splits if_splits)

lemma send_deliver_tab_le:
  assumes "send_deliver c p msg r k = Inr k'" and "c \<in> R \<or> used_slot (ktab k) c" and "r \<in> R \<or> used_slot (ktab k) r"
  shows "tab_le R (ktab k) (ktab k')"
proof -
  let ?k = "set_pstate c PROC_SEND_BLOCKED k"
  have "\<exists>k1. ktab k1 = ktab ?k \<and> k' = set_pstate r PROC_READY k1"
    using assms(1) unfolding send_deliver_def Let_def kbind_Inr_iff by (auto dest!: part_ktab)
  then obtain k1 where k1: "ktab k1 = ktab ?k" "k' = set_pstate r PROC_READY k1" by blast
  have le: "tab_le R (ktab k) (ktab ?k)" using assms(2) by (intro set_pstate_tab_le) simp_all
  have "r \<in> R \<or> used_slot (ktab k1) r" using tab_le_used [OF le] assms(3) k1(1) by auto
  then have "tab_le R (ktab k1) (ktab k')" unfolding k1(2) by (intro set_pstate_tab_le) simp_all
  then show ?thesis unfolding k1(1) by (rule tab_le_trans [OF le])
qed

lemma recv_block_tab_le:
  assumes "recv_block c msg k = Inr k'" and "c \<in> R \<or> used_slot (ktab k) c"
  shows "tab_le R (ktab k) (ktab k')"
proof -
  let ?k = "set_pstate c PROC_RECV_BLOCKED k"
  have "\<exists>k1 x. ktab k1 = ktab ?k \<and> enqueue c x k1 = Inr k'"
    using assms(1) by (fastforce simp: recv_block_def Let_def kbind_Inr_iff dest!: part_ktab)
  then obtain k1 x where k1: "ktab k1 = ktab ?k" "enqueue c x k1 = Inr k'" by blast
  have "tab_le R (ktab k) (ktab ?k)" using assms(2) by (intro set_pstate_tab_le) simp_all
  then show ?thesis using enqueue_tab_le [OF k1(2)] unfolding k1(1) by (rule tab_le_trans)
qed

lemma recv_take_ktab: "recv_take c msg k = Inr k' \<Longrightarrow> ktab k' = ktab k"
  unfolding recv_take_def Let_def kbind_Inr_iff by (auto dest!: part_ktab)

text \<open>A reply makes the slot ready that the sender's id is found in, whether it is in use or not.\<close>

lemma rply_first_table:
  assumes "rply_first c msg k = Inr k'"
  obtains v i h where "kld (STAILQ_FIRST (recv_queue (procs (ktab k) c)) + MSG_SENDER) k = Inr v"
    and "proc_find_by_pid v (ktab k) = Some i"
    and "ktab k' = upd_proc i (\<lambda>p. p\<lparr>state := PROC_READY\<rparr>) (upd_proc c (\<lambda>p. p\<lparr>recv_queue := h\<rparr>) (ktab k))"
proof -
  have "\<exists>v i h. kld (STAILQ_FIRST (recv_queue (procs (ktab k) c)) + MSG_SENDER) k = Inr v \<and>
      proc_find_by_pid v (ktab k) = Some i \<and>
      ktab k' = upd_proc i (\<lambda>p. p\<lparr>state := PROC_READY\<rparr>) (upd_proc c (\<lambda>p. p\<lparr>recv_queue := h\<rparr>) (ktab k))"
    using assms(1) unfolding rply_first_def Let_def
  proof (elim kbind_InrE)
    fix v rb pr rl k1 sb rl1 k2 rl2 k3 h hs
    assume v: "kld (STAILQ_FIRST (recv_queue (procs (ktab k) c)) + MSG_SENDER) k = Inr v"
      and st: "kmap pr 0xcafe0000 rl k = Inr k1" "kcopy (0xcafe0000 + (rb AND 0xfff)) sb rl1 k1 = Inr k2"
        "kunmap 0xcafe0000 rl2 k2 = Inr k3"
      and e: "(case proc_find_by_pid v (ktab k) of None \<Rightarrow> Inl NullDeref
        | Some i \<Rightarrow> Inr (set_pstate i PROC_READY
            (k3\<lparr>ktab := upd_proc c (\<lambda>p. p\<lparr>recv_queue := h\<rparr>) (ktab k3), kheap := hs\<rparr>))) = Inr k'"
    then have "ktab k3 = ktab k" by (auto dest!: part_ktab)
    with v e show ?thesis by (auto simp: set_pstate_def split: option.splits)
  qed
  then show ?thesis using that by blast
qed

subsection \<open>The entries, as changes of the process table\<close>

text \<open>
  The scheduler, whatever the ids are: the frame and the state of the current process change, and the process it picks
  is in use.
\<close>

lemma schedule_table:
  assumes res: "proc_schedule_after_irq fr k = Inr (r, k')"
  obtains t n where "(\<forall>c. current_proc (ktab k) = Some c \<longrightarrow> c \<in> R \<or> used_slot (ktab k) c) \<Longrightarrow> tab_le R (ktab k) t"
    and "tab_le UNIV (ktab k) t" and "ktab k' = t \<or> ktab k' = t\<lparr>current_proc := Some n\<rparr>"
    and "ktab k' = t \<or> idle (ktab k) = Some n \<or> used_slot t n"
proof (cases "\<exists>c. scheduling_enabled (ktab k) \<and> current_proc (ktab k) = Some c")
  case False
  then have "k' = k" using res by (auto simp: proc_schedule_after_irq_def split: if_splits option.splits)
  then show ?thesis by (intro that [of "ktab k"]) simp_all
next
  case True
  then obtain c where c: "scheduling_enabled (ktab k)" "current_proc (ktab k) = Some c" by blast
  let ?t1 = "upd_proc c (\<lambda>p. p\<lparr>trapframe := fr\<rparr>) (ktab k)"
  obtain b where b: "proc_is_blocked (pid (procs ?t1 c)) ?t1 = Inr b"
    using res c by (auto simp: proc_schedule_after_irq_def Let_def kbind_Inr_iff)
  let ?t2 = "if b then ?t1 else upd_proc c (\<lambda>p. p\<lparr>state := PROC_READY\<rparr>) ?t1"
  obtain q i where q: "find_next_proc PROC_READY ?t2 = (q, ?t2\<lparr>fnp_i := i\<rparr>)"
    "\<forall>n. q = Some n \<longrightarrow> eligible PROC_READY ?t2 n \<and> n < NPROCS"
  proof (cases rule: find_next_proc_cases [of PROC_READY ?t2])
    case (found j d)
    then have "j < NPROCS" by (simp add: NPROCS_def)
    with found show ?thesis by (auto intro: that)
  qed (auto intro: that)
  let ?t = "?t2\<lparr>fnp_i := i\<rparr>"
  have le: "tab_le R (ktab k) ?t" if "c \<in> R \<or> used_slot (ktab k) c" for R
    using that by (auto simp: tab_le_def upd_proc_def used_slot_def)
  have "proc_schedule_after_irq fr k =
      (let next_proc = (case q of None \<Rightarrow> idle ?t | Some n \<Rightarrow> Some n) in
       if next_proc = Some c then Inr (fr, k\<lparr>ktab := ?t\<rparr>)
       else case next_proc of None \<Rightarrow> Inl NullDeref
          | Some n \<Rightarrow> Inr (trapframe (procs ?t n), switch_to n (k\<lparr>ktab := ?t\<lparr>current_proc := Some n\<rparr>\<rparr>)))"
    unfolding proc_schedule_after_irq_def Let_def c(2) option.case b kbind_Inr q(1) prod.case using c(1) by simp
  then have "ktab k' = ?t \<or> (\<exists>n. (q = Some n \<or> idle (ktab k) = Some n) \<and> ktab k' = ?t\<lparr>current_proc := Some n\<rparr>)"
    using res by (cases q) (auto simp: Let_def switch_to_def upd_proc_def split: if_splits option.splits)
  then obtain n where n: "ktab k' = ?t \<or> (q = Some n \<or> idle (ktab k) = Some n) \<and> ktab k' = ?t\<lparr>current_proc := Some n\<rparr>" by blast
  have "used_slot ?t m" if "q = Some m" for m using q(2) that by (simp add: eligible_def used_slot_def)
  with n show ?thesis using le c(2) by (intro that [of ?t n]) auto
qed

lemma disable_ktab: "proc_find_by_pid p (proc_disable_scheduling t) = proc_find_by_pid p t"
  "procs (proc_disable_scheduling t) = procs t" "current_proc (proc_disable_scheduling t) = current_proc t"
  "used_slot (proc_disable_scheduling t) i = used_slot t i"
  by (simp_all add: proc_disable_scheduling_def proc_find_by_pid_def used_slot_def)

text \<open>
  A system call changes the table as \<open>tab_le\<close> says and then schedules.
\<close>

definition call_table :: "nat set \<Rightarrow> kern \<Rightarrow> kern \<Rightarrow> bool" where
  "call_table R k k' \<longleftrightarrow> tab_le R (ktab k) (ktab k') \<or>
     (\<exists>k1 fr r. tab_le R (ktab k) (ktab k1) \<and> proc_schedule_after_irq fr k1 = Inr (r, k'))"

lemma call_tableI:
  assumes "tab_le R (ktab k) (ktab k1)"
    and "proc_schedule_without_irq fr (k1\<lparr>ktab := proc_enable_scheduling (ktab k1)\<rparr>) = Inr (ret, k')"
  shows "call_table R k k'"
proof -
  let ?k1 = "k1\<lparr>ktab := proc_enable_scheduling (ktab k1)\<rparr>"
  have "tab_le R (ktab k) (ktab ?k1)" using assms(1) by (rule tab_le_trans) simp
  with assms(2) show ?thesis unfolding call_table_def proc_schedule_without_irq_def by blast
qed

lemma send_call_table:
  assumes res: "syscall_send_msg fr regs k = Inr (ret, k')"
    and u: "\<forall>c. current_proc (ktab k) = Some c \<longrightarrow> c \<in> R \<or> used_slot (ktab k) c"
  shows "call_table R k k'"
proof -
  let ?k = "k\<lparr>ktab := proc_disable_scheduling (ktab k)\<rparr>"
  obtain msg rcv where m: "kld (regs + REGS_EAX) ?k = Inr msg" "kld (msg + MSG_RECEIVER) ?k = Inr rcv"
    using res by (auto simp: syscall_send_msg_def Let_def kbind_Inr_iff)
  have le0: "tab_le R (ktab k) (ktab ?k)" by simp
  show ?thesis
  proof (cases "proc_find_by_pid rcv (ktab k)")
    case None
    then have "k' = ?k" using res m by (auto simp: syscall_send_msg_def Let_def disable_ktab)
    then show ?thesis using le0 by (simp add: call_table_def)
  next
    case (Some r)
    obtain c where c: "current_proc (ktab k) = Some c"
      using res m Some by (auto simp: syscall_send_msg_def Let_def disable_ktab split: option.splits)
    let ?p = "pid (procs (ktab k) c)"
    obtain k1 k2 where k1: "(if state (procs (ktab k) r) \<noteq> PROC_RECV_BLOCKED then send_enqueue ?p msg r ?k else Inr ?k) = Inr k1"
      and k2: "(case state (procs (ktab k1) r) of PROC_RECV_BLOCKED \<Rightarrow> send_deliver c ?p msg r k1
          | PROC_READY \<Rightarrow> Inr (set_pstate c PROC_REPLY_BLOCKED k1) | _ \<Rightarrow> Inr k1) = Inr k2"
      and k3: "proc_schedule_without_irq fr (k2\<lparr>ktab := proc_enable_scheduling (ktab k2)\<rparr>) = Inr (ret, k')"
      using res m Some c by (auto simp: syscall_send_msg_def Let_def disable_ktab kbind_Inr_iff)
    have le1: "tab_le R (ktab ?k) (ktab k1)"
      using k1 send_enqueue_tab_le(1) [of ?p msg r ?k k1] by (auto split: if_splits)
    have uc: "c \<in> R \<or> used_slot (ktab k1) c" using tab_le_used [OF le1] u c by (auto simp: disable_ktab)
    have ur: "used_slot (ktab k1) r" if "state (procs (ktab k1) r) = PROC_RECV_BLOCKED"
      using find_by_pid_Some [OF Some] that by (simp add: used_slot_def)
    have "tab_le R (ktab k1) (ktab k2)"
      using k2 uc ur send_deliver_tab_le [of c ?p msg r k1 k2 R] set_pstate_tab_le [OF uc]
      by (auto split: proc_state.splits)
    with le1 have "tab_le R (ktab ?k) (ktab k2)" by (rule tab_le_trans)
    with le0 have "tab_le R (ktab k) (ktab k2)" by (rule tab_le_trans)
    then show ?thesis using k3 by (rule call_tableI)
  qed
qed

lemma recv_call_table:
  assumes res: "syscall_recv_msg fr regs k = Inr (ret, k')"
    and u: "\<forall>c. current_proc (ktab k) = Some c \<longrightarrow> c \<in> R \<or> used_slot (ktab k) c"
  shows "call_table R k k'"
proof -
  let ?k = "k\<lparr>ktab := proc_disable_scheduling (ktab k)\<rparr>"
  obtain c where c: "current_proc (ktab k) = Some c"
    using res by (auto simp: syscall_recv_msg_def Let_def disable_ktab kbind_Inr_iff split: option.splits)
  obtain msg k1 where k1: "(if STAILQ_EMPTY (recv_queue (procs (ktab k) c)) then recv_block c msg ?k
        else recv_take c msg ?k) = Inr k1"
    and k2: "proc_schedule_without_irq fr (k1\<lparr>ktab := proc_enable_scheduling (ktab k1)\<rparr>) = Inr (ret, k')"
    using res c by (auto simp: syscall_recv_msg_def Let_def disable_ktab kbind_Inr_iff)
  have "c \<in> R \<or> used_slot (ktab ?k) c" using u c by (auto simp: disable_ktab)
  then have "tab_le R (ktab ?k) (ktab k1)"
    using k1 recv_block_tab_le [of c msg ?k k1 R] recv_take_ktab [of c msg ?k k1]
    by (cases "STAILQ_EMPTY (recv_queue (procs (ktab k) c))") simp_all
  moreover have "tab_le R (ktab k) (ktab ?k)" by simp
  ultimately have "tab_le R (ktab k) (ktab k1)" using tab_le_trans by blast
  then show ?thesis using k2 by (rule call_tableI)
qed

text \<open>The slot that a reply makes ready: the one where the sender of the first message is found.\<close>

definition answered :: "kern \<Rightarrow> nat option" where
  "answered k =
     (case current_proc (ktab k) of
        None \<Rightarrow> None
      | Some c \<Rightarrow>
          if STAILQ_EMPTY (recv_queue (procs (ktab k) c)) then None
          else case kld (STAILQ_FIRST (recv_queue (procs (ktab k) c)) + MSG_SENDER) k of
                 Inl _ \<Rightarrow> None
               | Inr v \<Rightarrow> proc_find_by_pid v (ktab k))"

text \<open>
  A reply to a message with the sender \<open>- 1\<close>: the id is found in an unused slot, if there is one left.
\<close>

definition answers_nobody :: "kern \<Rightarrow> bool" where
  "answers_nobody k \<longleftrightarrow> (\<exists>c. current_proc (ktab k) = Some c \<and> \<not> STAILQ_EMPTY (recv_queue (procs (ktab k) c)) \<and>
     kld (STAILQ_FIRST (recv_queue (procs (ktab k) c)) + MSG_SENDER) k = Inr (- 1))"

lemma rply_call_table:
  assumes res: "syscall_rply_msg fr regs k = Inr (ret, k')"
  obtains k1 where "\<forall>R. (\<forall>i. answered k = Some i \<longrightarrow> i \<in> R \<or> used_slot (ktab k) i) \<longrightarrow> tab_le R (ktab k) (ktab k1)"
    and "\<forall>i. answered k = Some i \<longrightarrow> state (procs (ktab k1) i) = PROC_READY"
    and "answered k = None \<longrightarrow> \<not> answers_nobody k"
    and "proc_schedule_without_irq fr (k1\<lparr>ktab := proc_enable_scheduling (ktab k1)\<rparr>) = Inr (ret, k')"
proof -
  let ?k = "k\<lparr>ktab := proc_disable_scheduling (ktab k)\<rparr>"
  have ld: "kld a ?k = kld a k" for a by (simp add: kld_def kmmu_def)
  obtain c where c: "current_proc (ktab k) = Some c"
    using res by (auto simp: syscall_rply_msg_def Let_def disable_ktab kbind_Inr_iff split: option.splits)
  let ?e = "STAILQ_EMPTY (recv_queue (procs (ktab k) c))"
  obtain msg k1 where k1: "(if \<not> ?e then rply_first c msg ?k else Inr ?k) = Inr k1"
    and k2: "proc_schedule_without_irq fr (k1\<lparr>ktab := proc_enable_scheduling (ktab k1)\<rparr>) = Inr (ret, k')"
    using res c by (auto simp: syscall_rply_msg_def Let_def disable_ktab kbind_Inr_iff)
  show ?thesis
  proof (cases ?e)
    case True
    then have "k1 = ?k" "answered k = None" "\<not> answers_nobody k" using k1 c by (simp_all add: answered_def answers_nobody_def)
    with k2 show ?thesis by (intro that [of k1]) simp_all
  next
    case False
    then obtain v i h where f: "kld (STAILQ_FIRST (recv_queue (procs (ktab k) c)) + MSG_SENDER) k = Inr v"
      "proc_find_by_pid v (ktab k) = Some i"
      "ktab k1 = upd_proc i (\<lambda>p. p\<lparr>state := PROC_READY\<rparr>) (upd_proc c (\<lambda>p. p\<lparr>recv_queue := h\<rparr>) (ktab ?k))"
      using k1 by (auto simp: disable_ktab ld elim!: rply_first_table)
    have a: "answered k = Some i" using f(1,2) c False by (simp add: answered_def)
    have le: "tab_le R (ktab k) (ktab k1)" if "i \<in> R \<or> used_slot (ktab k) i" for R
    proof -
      have "tab_le R (ktab k) (upd_proc c (\<lambda>p. p\<lparr>recv_queue := h\<rparr>) (ktab ?k))"
        by (rule tab_le_trans [OF _ tab_le_queue]) simp
      moreover from tab_le_used [OF this] that
      have "tab_le R (upd_proc c (\<lambda>p. p\<lparr>recv_queue := h\<rparr>) (ktab ?k)) (ktab k1)"
        unfolding f(3) by (intro tab_le_state) auto
      ultimately show ?thesis by (rule tab_le_trans)
    qed
    have "state (procs (ktab k1) i) = PROC_READY" by (simp add: f(3) upd_proc_def)
    with le a k2 show ?thesis by (intro that [of k1]) auto
  qed
qed

subsection \<open>The invariant of the process table\<close>

text \<open>
  Ids are given to slots in use, to each a different one, counting up; there are never more ids than slots in
  use, so the counter stays below 64 and does not wrap.  \<open>ids_given\<close>: every slot in use has an id.
\<close>

definition ids_ok :: "pst \<Rightarrow> bool" where
  "ids_ok t \<longleftrightarrow>
     (\<forall>i < NPROCS. pid (procs t i) \<noteq> - 1 \<longrightarrow> used_slot t i \<and> pid (procs t i) < next_pid t) \<and>
     (\<forall>i < NPROCS. \<forall>j < NPROCS. pid (procs t i) \<noteq> - 1 \<longrightarrow> pid (procs t i) = pid (procs t j) \<longrightarrow> i = j) \<and>
     unat (next_pid t) \<le> card {i. used_slot t i}"

definition tab_inv :: "pst \<Rightarrow> bool" where
  "tab_inv t \<longleftrightarrow> ids_ok t \<and> names_typed t \<and> (\<exists>c. current_proc t = Some c \<and> used_slot t c) \<and>
     (\<exists>d. idle t = Some d \<and> used_slot t d)"

definition ids_given :: "pst \<Rightarrow> bool" where
  "ids_given t \<longleftrightarrow> (\<forall>i. used_slot t i \<longrightarrow> pid (procs t i) \<noteq> - 1)"

definition tab_ok :: "pst \<Rightarrow> bool" where
  "tab_ok t \<longleftrightarrow> pids_ok t \<and> names_typed t \<and> (\<exists>c. current_proc t = Some c \<and> used_slot t c) \<and> (\<exists>d. idle t = Some d \<and> used_slot t d)"

lemma finite_used [simp]: "finite {i. used_slot t i}"
  by (rule finite_subset [of _ "{..<NPROCS}"]) (auto simp: used_slot_def)

lemma ids_ok_bound: "ids_ok t \<Longrightarrow> unat (next_pid t) \<le> 64"
  using card_mono [of "{..<NPROCS}" "{i. used_slot t i}"]
  by (force simp: ids_ok_def used_slot_def NPROCS_def)

lemma tab_le_ids_ok:
  assumes "tab_le R t t'" and "ids_ok t"
  shows "ids_ok t'"
proof -
  have u: "used_slot t i \<Longrightarrow> used_slot t' i" for i using assms(1) by (rule tab_le_used)
  have "card {i. used_slot t i} \<le> card {i. used_slot t' i}" using u by (intro card_mono) auto
  moreover have "next_pid t' = next_pid t" "\<And>i. pid (procs t' i) = pid (procs t i)"
    using assms(1) by (simp_all add: tab_le_def)
  ultimately show ?thesis using assms(2) u by (auto simp: ids_ok_def)
qed

lemma tab_le_inv: "tab_le R t t' \<Longrightarrow> tab_inv t \<Longrightarrow> tab_inv t'"
  using tab_le_ids_ok [of R t t'] tab_le_used [of R t t'] tab_le_names [of R t t']
  by (auto simp: tab_inv_def) (auto simp: tab_le_def)

lemma tab_le_given: "tab_le {} t t' \<Longrightarrow> ids_given t \<Longrightarrow> ids_given t'"
  by (auto simp: ids_given_def tab_le_def used_slot_def)

lemma tab_inv_current: "tab_inv t \<Longrightarrow> \<forall>c. current_proc t = Some c \<longrightarrow> c \<in> R \<or> used_slot t c"
  by (auto simp: tab_inv_def)

lemma schedule_inv:
  assumes res: "proc_schedule_after_irq fr k = Inr (r, k')" and inv: "tab_inv (ktab k)"
  shows "tab_inv (ktab k')" and "ids_given (ktab k) \<longleftrightarrow> ids_given (ktab k')"
proof -
  obtain t n where t: "tab_le {} (ktab k) t" "ktab k' = t \<or> ktab k' = t\<lparr>current_proc := Some n\<rparr>"
    "ktab k' = t \<or> idle (ktab k) = Some n \<or> used_slot t n"
    using schedule_table [OF res, of "{}"] tab_inv_current [OF inv, of "{}"] by metis
  have i: "tab_inv t" using t(1) inv by (rule tab_le_inv)
  have "used_slot t n" if "idle (ktab k) = Some n"
    using that i t(1) by (auto simp: tab_inv_def tab_le_def)
  then show "tab_inv (ktab k')"
    using t(2,3) i by (auto simp: tab_inv_def ids_ok_def names_typed_def used_slot_def)
  have "ids_given (ktab k) \<longleftrightarrow> ids_given t" using t(1) by (auto simp: ids_given_def tab_le_def used_slot_def)
  then show "ids_given (ktab k) \<longleftrightarrow> ids_given (ktab k')"
    using t(2) by (auto simp: ids_given_def used_slot_def)
qed

lemma call_table_inv:
  assumes "call_table R k k'" and "tab_inv (ktab k)"
  shows "tab_inv (ktab k')" and "R = {} \<Longrightarrow> ids_given (ktab k) \<Longrightarrow> ids_given (ktab k')"
proof -
  have "tab_inv (ktab k') \<and> (R = {} \<longrightarrow> ids_given (ktab k) \<longrightarrow> ids_given (ktab k'))"
    using assms tab_le_inv tab_le_given schedule_inv unfolding call_table_def by metis
  then show "tab_inv (ktab k')" "R = {} \<Longrightarrow> ids_given (ktab k) \<Longrightarrow> ids_given (ktab k')" by blast+
qed

lemma call_table_names:
  assumes "call_table R k k'" and "names_typed (ktab k)"
  shows "names_typed (ktab k')"
proof -
  have s: "names_typed (ktab k2)" if sch: "proc_schedule_after_irq fr k1 = Inr (r, k2)" and nt: "names_typed (ktab k1)" for fr k1 r k2
  proof -
    obtain t n where "tab_le UNIV (ktab k1) t" "ktab k2 = t \<or> ktab k2 = t\<lparr>current_proc := Some n\<rparr>"
      using sch by (rule schedule_table)
    then show ?thesis using nt tab_le_names [of UNIV "ktab k1" t] by (auto simp: names_typed_def)
  qed
  show ?thesis using assms s tab_le_names unfolding call_table_def by blast
qed

lemma answered_slot:
  assumes "answered k = Some i" and "ids_ok (ktab k)" and "ids_given (ktab k)"
  shows "used_slot (ktab k) i \<longleftrightarrow> \<not> answers_nobody k" and "i < NPROCS"
proof -
  obtain c v where v: "current_proc (ktab k) = Some c" "\<not> STAILQ_EMPTY (recv_queue (procs (ktab k) c))"
    "kld (STAILQ_FIRST (recv_queue (procs (ktab k) c)) + MSG_SENDER) k = Inr v" "proc_find_by_pid v (ktab k) = Some i"
    using assms(1) by (auto simp: answered_def split: option.splits if_splits sum.splits)
  note i = find_by_pid_Some [OF v(4)]
  show "i < NPROCS" using i by simp
  have "answers_nobody k \<longleftrightarrow> v = - 1" using v by (auto simp: answers_nobody_def)
  moreover have "used_slot (ktab k) i \<longleftrightarrow> pid (procs (ktab k) i) \<noteq> - 1"
    using assms(2,3) i by (auto simp: ids_ok_def ids_given_def)
  ultimately show "used_slot (ktab k) i \<longleftrightarrow> \<not> answers_nobody k" using i by simp
qed

lemma rply_inv:
  assumes res: "syscall_rply_msg fr regs k = Inr (ret, k')" and inv: "tab_inv (ktab k)"
  shows "tab_inv (ktab k')" and "ids_given (ktab k) \<Longrightarrow> ids_given (ktab k') \<longleftrightarrow> \<not> answers_nobody k"
proof -
  obtain k1 where k1: "\<forall>R. (\<forall>i. answered k = Some i \<longrightarrow> i \<in> R \<or> used_slot (ktab k) i) \<longrightarrow> tab_le R (ktab k) (ktab k1)"
    "\<forall>i. answered k = Some i \<longrightarrow> state (procs (ktab k1) i) = PROC_READY"
    "answered k = None \<longrightarrow> \<not> answers_nobody k"
    "proc_schedule_without_irq fr (k1\<lparr>ktab := proc_enable_scheduling (ktab k1)\<rparr>) = Inr (ret, k')"
    using res by (rule rply_call_table)
  let ?k1 = "k1\<lparr>ktab := proc_enable_scheduling (ktab k1)\<rparr>"
  have le: "tab_le UNIV (ktab k) (ktab k1)" using k1(1) by simp
  have i1: "tab_inv (ktab ?k1)" using tab_le_inv [OF tab_le_trans [OF le tab_le_flag(2)] inv] by simp
  note sch = schedule_inv [OF k1(4) [unfolded proc_schedule_without_irq_def] i1]
  show "tab_inv (ktab k')" by (rule sch(1))
  have g1: "ids_given (ktab k') \<longleftrightarrow> ids_given (ktab k1)"
    using sch(2) by (simp add: ids_given_def used_slot_def proc_enable_scheduling_def)
  assume g: "ids_given (ktab k)"
  have ok: "ids_ok (ktab k)" using inv by (simp add: tab_inv_def)
  show "ids_given (ktab k') \<longleftrightarrow> \<not> answers_nobody k"
  proof (cases "answered k")
    case None
    then have "\<not> answers_nobody k" using k1(3) by simp
    moreover have "tab_le {} (ktab k) (ktab k1)" using k1(1) None by simp
    ultimately show ?thesis using g1 tab_le_given g by blast
  next
    case (Some i)
    note a = answered_slot [OF Some ok g]
    show ?thesis
    proof (cases "answers_nobody k")
      case True
      then have "pid (procs (ktab k) i) = - 1" using a ok by (auto simp: ids_ok_def)
      then have "pid (procs (ktab k1) i) = - 1" using le by (simp add: tab_le_def)
      moreover have "used_slot (ktab k1) i" using k1(2) Some a(2) by (simp add: used_slot_def)
      ultimately show ?thesis using True g1 by (auto simp: ids_given_def)
    next
      case False
      then have "tab_le {} (ktab k) (ktab k1)" using a(1) Some k1(1) by simp
      then show ?thesis using False g1 tab_le_given g by blast
    qed
  qed
qed

lemma ids_ok_new:
  assumes ok: "ids_ok t" and i: "i < NPROCS" "state (procs t i) = PROC_UNUSED"
    and t': "procs t' = (procs t)(i := p)" "next_pid t' = next_pid t + 1" and p: "pid p = next_pid t" "state p \<noteq> PROC_UNUSED"
  shows "ids_ok t'" and "used_slot t' i" and "ids_given t \<Longrightarrow> ids_given t'"
proof -
  have b: "unat (next_pid t) \<le> 64" using ok by (rule ids_ok_bound)
  then have nx: "unat (next_pid t + 1) = unat (next_pid t) + 1" by (simp add: unat_word_ariths(1))
  then have less: "next_pid t < next_pid t + 1" by (simp add: word_less_nat_alt)
  have fresh: "next_pid t \<noteq> - 1" using b by (auto simp: unsigned_minus_1_eq_mask mask_eq_exp_minus_1)
  have u: "{j. used_slot t' j} = insert i {j. used_slot t j}" "\<not> used_slot t i"
    using i p(2) by (auto simp: used_slot_def t'(1))
  then show u': "used_slot t' i" by blast
  have "card {j. used_slot t' j} = Suc (card {j. used_slot t j})" using u by simp
  then have c: "unat (next_pid t') \<le> card {j. used_slot t' j}" using ok nx by (simp add: ids_ok_def t'(2))
  have old: "pid (procs t j) \<noteq> - 1 \<Longrightarrow> j < NPROCS \<Longrightarrow> pid (procs t j) < next_pid t" for j using ok by (simp add: ids_ok_def)
  have "used_slot t' j \<and> pid (procs t' j) < next_pid t'" if "j < NPROCS" "pid (procs t' j) \<noteq> - 1" for j
  proof (cases "j = i")
    case False
    then have "used_slot t j" "pid (procs t j) < next_pid t" using ok that by (simp_all add: ids_ok_def t'(1))
    moreover from this(1) have "used_slot t' j" using u(1) by blast
    ultimately show ?thesis using False less by (simp add: t')
  qed (use u' p(1) less in \<open>simp add: t'\<close>)
  moreover have "j = l" if "j < NPROCS" "l < NPROCS" "pid (procs t' j) \<noteq> - 1" "pid (procs t' j) = pid (procs t' l)" for j l
    using that ok old [of j] old [of l] p(1) by (auto simp: t'(1) ids_ok_def split: if_splits)
  ultimately show "ids_ok t'" using c by (simp add: ids_ok_def)
  show "ids_given t'" if "ids_given t"
    unfolding ids_given_def
  proof (intro allI impI)
    fix j assume "used_slot t' j"
    then show "pid (procs t' j) \<noteq> - 1"
      using that u(1) p(1) fresh by (cases "j = i") (auto simp: ids_given_def t'(1))
  qed
qed

lemma proc_new_table:
  assumes res: "proc_new pl name priv su k = Inr (i, k')"
  obtains p where "i < NPROCS" and "state (procs (ktab k) i) = PROC_UNUSED" and "procs (ktab k') = (procs (ktab k))(i := p)"
    and "next_pid (ktab k') = next_pid (ktab k) + 1" and "pid p = next_pid (ktab k)" and "state p \<noteq> PROC_UNUSED"
    and "current_proc (ktab k') = Some i" and "idle (ktab k') = idle (ktab k)" and "MAX_PROC_NAME_LEN \<le> length name"
    and "pname p = take MAX_PROC_NAME_LEN name @ drop MAX_PROC_NAME_LEN (pname (procs (ktab k) i))"
proof (cases rule: find_next_proc_cases [of PROC_UNUSED "ktab k"])
  case (found j d)
  then have j: "j < NPROCS" "state (procs (ktab k) j) = PROC_UNUSED" by (simp_all add: NPROCS_def eligible_def)
  show ?thesis
    using res j unfolding proc_new_def found(1) Let_def
    by (intro that [of "procs (ktab k') i"]) (auto simp: kbind_Inr_iff split: prod.splits if_splits)
next
  case none
  then show ?thesis using res unfolding proc_new_def none(1) Let_def by (auto simp: kbind_Inr_iff split: prod.splits)
qed

lemma from_memory_new:
  assumes "proc_new_from_memory pl name priv su addr sz k = Inr (i, k')"
  obtains k1 where "proc_new pl name priv su k = Inr (i, k1)"
    and "ktab k' = upd_proc i (\<lambda>p. p\<lparr>loc_address := addr, loc_size := sz\<rparr>) (ktab k1)"
  using assms by (auto simp: proc_new_from_memory_def kbind_Inr_iff)

lemma from_memory_table:
  assumes res: "proc_new_from_memory pl name priv su addr sz k = Inr (i, k')"
  obtains p where "i < NPROCS" and "state (procs (ktab k) i) = PROC_UNUSED" and "procs (ktab k') = (procs (ktab k))(i := p)"
    and "next_pid (ktab k') = next_pid (ktab k) + 1" and "pid p = next_pid (ktab k)" and "state p \<noteq> PROC_UNUSED"
    and "current_proc (ktab k') = Some i" and "idle (ktab k') = idle (ktab k)" and "MAX_PROC_NAME_LEN \<le> length name"
    and "pname p = take MAX_PROC_NAME_LEN name @ drop MAX_PROC_NAME_LEN (pname (procs (ktab k) i))"
proof -
  obtain k1 where k1: "proc_new pl name priv su k = Inr (i, k1)"
    "ktab k' = upd_proc i (\<lambda>p. p\<lparr>loc_address := addr, loc_size := sz\<rparr>) (ktab k1)"
    using res by (rule from_memory_new)
  show ?thesis
    by (rule proc_new_table [OF k1(1)],
        rule that [of "procs (ktab k') i"]) (simp_all add: k1(2) upd_proc_def)
qed

lemma new_ids:
  assumes res: "proc_new_from_memory pl name priv su addr sz k = Inr (i, k')" and ok: "ids_ok (ktab k)"
  shows "ids_ok (ktab k')" and "used_slot (ktab k') i" and "ids_given (ktab k) \<Longrightarrow> ids_given (ktab k')"
    and "used_slot (ktab k) j \<Longrightarrow> used_slot (ktab k') j"
proof -
  obtain p where p: "i < NPROCS" "state (procs (ktab k) i) = PROC_UNUSED" "procs (ktab k') = (procs (ktab k))(i := p)"
    "next_pid (ktab k') = next_pid (ktab k) + 1" "pid p = next_pid (ktab k)" "state p \<noteq> PROC_UNUSED"
    using res by (rule from_memory_table)
  note n = ids_ok_new [OF ok p]
  show "ids_ok (ktab k')" "used_slot (ktab k') i" "ids_given (ktab k) \<Longrightarrow> ids_given (ktab k')" using n by blast+
  show "used_slot (ktab k) j \<Longrightarrow> used_slot (ktab k') j" using p(2,3,6) by (auto simp: used_slot_def)
qed

lemma new_names:
  assumes res: "proc_new_from_memory pl name priv su addr sz k = Inr (i, k')" and nt: "names_typed (ktab k)"
  shows "names_typed (ktab k')"
proof -
  obtain p where p: "procs (ktab k') = (procs (ktab k))(i := p)" "MAX_PROC_NAME_LEN \<le> length name"
    "pname p = take MAX_PROC_NAME_LEN name @ drop MAX_PROC_NAME_LEN (pname (procs (ktab k) i))"
    using res by (rule from_memory_table)
  have "length (take 32 name) = 32" "pname p = take 32 name @ drop 32 (pname (procs (ktab k) i))"
    using p(2,3) by (simp_all add: MAX_PROC_NAME_LEN_def)
  moreover have "length (pname (procs (ktab k) i)) = 33" "pname (procs (ktab k) i) ! 32 = 0"
    using nt by (simp_all add: names_typed_def)
  ultimately have "length (pname p) = 33" "pname p ! 32 = 0" by (simp_all add: nth_append)
  with nt show ?thesis unfolding names_typed_def p(1) by simp
qed

lemma new_inv:
  assumes res: "proc_new_from_memory pl name priv su addr sz k = Inr (i, k')" and inv: "tab_inv (ktab k)"
  shows "tab_inv (ktab k')"
proof -
  have ok: "ids_ok (ktab k)" and nt: "names_typed (ktab k)" using inv by (simp_all add: tab_inv_def)
  note n = new_ids [OF res ok]
  have "current_proc (ktab k') = Some i" using res by (rule from_memory_table)
  moreover have "idle (ktab k') = idle (ktab k)" using res by (rule from_memory_table)
  ultimately show ?thesis using inv n(1,2,4) new_names [OF res nt] by (auto simp: tab_inv_def)
qed

lemma kickoff_tab_le:
  "current_proc t = Some c \<Longrightarrow> used_slot t c \<Longrightarrow> tab_le {} t (upd_proc c (\<lambda>p. p\<lparr>state := PROC_RUNNING\<rparr>) t)"
  by (rule tab_le_state) simp_all

subsection \<open>Steps and reachable states\<close>

lemma kstep_inv: "kstep k k' \<Longrightarrow> tab_inv (ktab k) \<Longrightarrow> tab_inv (ktab k')"
proof (induction rule: kstep.induct)
  case (kickoff k c)
  then have "tab_le {} (ktab k) (upd_proc c (\<lambda>p. p\<lparr>state := PROC_RUNNING\<rparr>) (ktab k))"
    by (intro kickoff_tab_le) (auto simp: tab_inv_def)
  then show ?case using kickoff.prems tab_le_inv by simp
next
  case (send frame_addr regs k r k')
  show ?case using call_table_inv(1) [OF send_call_table [OF send.hyps tab_inv_current]] send.prems by blast
next
  case (recv frame_addr regs k r k')
  show ?case using call_table_inv(1) [OF recv_call_table [OF recv.hyps tab_inv_current]] recv.prems by blast
qed (auto intro: schedule_inv rply_inv new_inv tab_le_inv [OF tab_le_flag(1)] tab_le_inv [OF tab_le_flag(2)])

lemma kstep_given:
  assumes "kstep k k'" and "tab_inv (ktab k)" and "ids_given (ktab k)" and "\<not> ids_given (ktab k')"
  shows "answers_nobody k \<and> (\<exists>fr regs r. syscall_rply_msg fr regs k = Inr (r, k'))"
  using assms
proof (induction rule: kstep.induct)
  case (kickoff k c)
  then have "tab_le {} (ktab k) (upd_proc c (\<lambda>p. p\<lparr>state := PROC_RUNNING\<rparr>) (ktab k))"
    by (intro kickoff_tab_le) (auto simp: tab_inv_def)
  then show ?case using kickoff.prems tab_le_given by simp
next
  case (send frame_addr regs k r k')
  show ?case using call_table_inv(2) [OF send_call_table [OF send.hyps tab_inv_current]] send.prems by blast
next
  case (recv frame_addr regs k r k')
  show ?case using call_table_inv(2) [OF recv_call_table [OF recv.hyps tab_inv_current]] recv.prems by blast
next
  case (rply frame_addr regs k r k')
  then show ?case using rply_inv(2) by blast
next
  case (new pl name priv su addr sz k i k')
  then show ?case using new_ids(3) by (auto simp: tab_inv_def)
next
  case (sched regs k r k')
  then show ?case using schedule_inv(2) by blast
qed (auto simp: ids_given_def used_slot_def proc_disable_scheduling_def proc_enable_scheduling_def)

lemma kstep_names: "kstep k k' \<Longrightarrow> names_typed (ktab k) \<Longrightarrow> names_typed (ktab k')"
proof (induction rule: kstep.induct)
  case (sched regs k r k')
  have "call_table UNIV k k'" unfolding call_table_def using sched.hyps tab_le_refl by blast
  then show ?case using sched.prems by (rule call_table_names)
next
  case (send frame_addr regs k r k')
  have "call_table UNIV k k'" using send.hyps by (rule send_call_table) simp
  then show ?case using send.prems by (rule call_table_names)
next
  case (recv frame_addr regs k r k')
  have "call_table UNIV k k'" using recv.hyps by (rule recv_call_table) simp
  then show ?case using recv.prems by (rule call_table_names)
next
  case (rply frame_addr regs k r k')
  have "call_table UNIV k k'" using rply.hyps
    by (rule rply_call_table) (rule call_tableI, auto)
  then show ?case using rply.prems by (rule call_table_names)
next
  case (new pl name priv su addr sz k i k')
  then show ?case by (rule new_names)
qed (auto simp: names_typed_def upd_proc_def proc_disable_scheduling_def proc_enable_scheduling_def)

lemma kreach_inv: "kreach k k' \<Longrightarrow> tab_inv (ktab k) \<Longrightarrow> tab_inv (ktab k')"
  by (induction rule: kreach.induct) (auto intro: kstep_inv)

lemma kreach_names: "kreach k k' \<Longrightarrow> names_typed (ktab k) \<Longrightarrow> names_typed (ktab k')"
  by (induction rule: kreach.induct) (auto intro: kstep_names)

lemma kreach_given:
  assumes "kreach k k'" and "tab_inv (ktab k)" and "ids_given (ktab k)"
  shows "ids_given (ktab k') \<or> (\<exists>k1 k2 fr regs r. kreach k k1 \<and> answers_nobody k1 \<and>
    syscall_rply_msg fr regs k1 = Inr (r, k2) \<and> kreach k2 k')"
  using assms
proof (induction rule: kreach.induct)
  case (step k k' k'')
  have inv: "tab_inv (ktab k')" using step.hyps(1) step.prems(1) by (rule kreach_inv)
  show ?case
  proof (cases "ids_given (ktab k')")
    case True
    then show ?thesis
      using kstep_given [OF step.hyps(2) inv] step.hyps(1) kreach.start by blast
  next
    case False
    then show ?thesis using step.IH step.prems kreach.step [OF _ step.hyps(2)] by blast
  qed
qed simp

lemma tab_ok_given:
  assumes inv: "tab_inv t"
  shows "tab_ok t \<longleftrightarrow> ids_given t"
proof -
  have ok: "ids_ok t" using inv by (simp add: tab_inv_def)
  then have "unat (next_pid t) \<le> 64" by (rule ids_ok_bound)
  then have "\<not> - 1 < next_pid t" by (auto simp: word_less_nat_alt unsigned_minus_1_eq_mask mask_eq_exp_minus_1)
  moreover have "pids_ok t" if "ids_given t"
    using that ok unfolding pids_ok_def ids_ok_def ids_given_def used_slot_def by blast
  ultimately show ?thesis using inv by (auto simp: tab_ok_def tab_inv_def pids_ok_def ids_given_def)
qed

text \<open>The two processes made at boot establish the invariant.\<close>

lemma earlyinit_steps:
  assumes res: "proc_earlyinit env k = Inr k'"
  obtains k0 i k1 j k2 where
    "ktab k0 = (ktab k)\<lparr>procs := (\<lambda>i. if i < NPROCS then (procs (ktab k) i)\<lparr>pid := - 1, state := PROC_UNUSED\<rparr>
                                   else procs (ktab k) i)\<rparr>"
    "proc_new_from_memory (proc_load_fn env) (kernel_name env) True True (msg_dispatcher_fn env) 0 k0 = Inr (i, k1)"
    "proc_new_from_memory (proc_load_fn env) (idle_name env) True True (proc_idle_fn env) 0
       (k1\<lparr>ktab := (ktab k1)\<lparr>current_proc := Some i\<rparr>\<rparr>) = Inr (j, k2)"
    "k' = k2\<lparr>ktab := (ktab k2)\<lparr>idle := Some j, current_proc := Some j\<rparr>\<rparr>"
proof -
  let ?t = "(ktab k)\<lparr>procs := (\<lambda>i. if i < NPROCS then (procs (ktab k) i)\<lparr>pid := - 1, state := PROC_UNUSED\<rparr>
                                   else procs (ktab k) i)\<rparr>"
  let ?k = "k\<lparr>ktab := ?t, kidt := idt_set_gate 0x7f (int127_stub env) 8 0xee (kidt k)\<rparr>"
  have "\<exists>dt i k1 j k2.
    proc_new_from_memory (proc_load_fn env) (kernel_name env) True True (msg_dispatcher_fn env) 0 (?k\<lparr>kidt := dt\<rparr>) = Inr (i, k1) \<and>
    proc_new_from_memory (proc_load_fn env) (idle_name env) True True (proc_idle_fn env) 0
       (k1\<lparr>ktab := (ktab k1)\<lparr>current_proc := Some i\<rparr>\<rparr>) = Inr (j, k2) \<and>
    k' = k2\<lparr>ktab := (ktab k2)\<lparr>idle := Some j, current_proc := Some j\<rparr>\<rparr>"
    using res unfolding proc_earlyinit_def Let_def kbind_Inr_iff
    by (auto simp: kbind_Inr_iff) (intro exI conjI, assumption, assumption, rule refl)
  then obtain dt i k1 j k2 where
    "proc_new_from_memory (proc_load_fn env) (kernel_name env) True True (msg_dispatcher_fn env) 0 (?k\<lparr>kidt := dt\<rparr>) = Inr (i, k1)"
    "proc_new_from_memory (proc_load_fn env) (idle_name env) True True (proc_idle_fn env) 0
       (k1\<lparr>ktab := (ktab k1)\<lparr>current_proc := Some i\<rparr>\<rparr>) = Inr (j, k2)"
    "k' = k2\<lparr>ktab := (ktab k2)\<lparr>idle := Some j, current_proc := Some j\<rparr>\<rparr>" by blast
  then show ?thesis by (rule that [of "?k\<lparr>kidt := dt\<rparr>", rotated]) simp
qed

lemma proc_earlyinit_names:
  assumes "proc_earlyinit env k = Inr k'" and "names_typed (ktab k)"
  shows "names_typed (ktab k')"
proof (rule earlyinit_steps [OF assms(1)])
  fix k0 i k1 j k2
  assume s: "ktab k0 = (ktab k)\<lparr>procs := (\<lambda>i. if i < NPROCS then (procs (ktab k) i)\<lparr>pid := - 1, state := PROC_UNUSED\<rparr>
                                   else procs (ktab k) i)\<rparr>"
    "proc_new_from_memory (proc_load_fn env) (kernel_name env) True True (msg_dispatcher_fn env) 0 k0 = Inr (i, k1)"
    "proc_new_from_memory (proc_load_fn env) (idle_name env) True True (proc_idle_fn env) 0
       (k1\<lparr>ktab := (ktab k1)\<lparr>current_proc := Some i\<rparr>\<rparr>) = Inr (j, k2)"
    "k' = k2\<lparr>ktab := (ktab k2)\<lparr>idle := Some j, current_proc := Some j\<rparr>\<rparr>"
  have "names_typed (ktab k0)" using assms(2) by (simp add: s(1) names_typed_def)
  then have "names_typed (ktab k1)" using s(2) new_names by blast
  then have "names_typed (ktab (k1\<lparr>ktab := (ktab k1)\<lparr>current_proc := Some i\<rparr>\<rparr>))" by (simp add: names_typed_def)
  then have "names_typed (ktab k2)" using s(3) new_names by blast
  then show ?thesis by (simp add: s(4) names_typed_def)
qed

lemma proc_earlyinit_inv:
  assumes "proc_earlyinit env k = Inr k'" and "next_pid (ktab k) = 0" and "names_typed (ktab k)"
  shows "tab_inv (ktab k')" and "ids_given (ktab k')"
proof -
  have "tab_inv (ktab k') \<and> ids_given (ktab k')"
  proof (rule earlyinit_steps [OF assms(1)])
    fix k0 i k1 j k2
    assume s: "ktab k0 = (ktab k)\<lparr>procs := (\<lambda>i. if i < NPROCS then (procs (ktab k) i)\<lparr>pid := - 1, state := PROC_UNUSED\<rparr>
                                     else procs (ktab k) i)\<rparr>"
      "proc_new_from_memory (proc_load_fn env) (kernel_name env) True True (msg_dispatcher_fn env) 0 k0 = Inr (i, k1)"
      "proc_new_from_memory (proc_load_fn env) (idle_name env) True True (proc_idle_fn env) 0
         (k1\<lparr>ktab := (ktab k1)\<lparr>current_proc := Some i\<rparr>\<rparr>) = Inr (j, k2)"
      "k' = k2\<lparr>ktab := (ktab k2)\<lparr>idle := Some j, current_proc := Some j\<rparr>\<rparr>"
    let ?k1 = "k1\<lparr>ktab := (ktab k1)\<lparr>current_proc := Some i\<rparr>\<rparr>"
    have "ids_ok (ktab k0)" "ids_given (ktab k0)"
      using assms(2) by (auto simp: s(1) ids_ok_def ids_given_def used_slot_def)
    then have "ids_ok (ktab k1)" "ids_given (ktab k1)" using new_ids [OF s(2)] by blast+
    then have "ids_ok (ktab ?k1)" "ids_given (ktab ?k1)" by (simp_all add: ids_ok_def ids_given_def used_slot_def)
    then have "ids_ok (ktab k2)" "ids_given (ktab k2)" "used_slot (ktab k2) j" using new_ids [OF s(3)] by blast+
    moreover have "names_typed (ktab k')" using assms(1,3) by (rule proc_earlyinit_names)
    ultimately show ?thesis by (simp add: s(4) tab_inv_def ids_ok_def ids_given_def used_slot_def names_typed_def)
  qed
  then show "tab_inv (ktab k')" "ids_given (ktab k')" by simp_all
qed

subsection \<open>Interrupts\<close>

lemma on_kern_Inr: "f (sk s) = Inr (r, k) \<Longrightarrow> on_kern f s = Inr (r, s\<lparr>sk := k\<rparr>)"
  by (simp add: on_kern_def)

text \<open>A handler with a page directory of its own: the old one is back afterwards.\<close>

lemma irq_pdir_restored:
  assumes "irq_dispatch call num regs s = Inr (ret, s')"
    and "irq_fn (irq_handlers (kidt (sk s)) (unat (num - 32))) \<noteq> 0"
    and "irq_pdir (irq_handlers (kidt (sk s)) (unat (num - 32))) \<noteq> 0"
  shows "cr3 (kmmu (sk s')) = cr3 (kmmu (sk s))"
  using assms
  by (auto simp: irq_dispatch_def Let_def kbind_Inr_iff upd_mmu_def kmmu_def set_cr3_def get_cr3_def)

subsection \<open>A machine for the witnesses\<close>

definition demo_pair :: pst where
  "demo_pair = demo_tab\<lparr>procs := (\<lambda>i. if i = 0 then demo_proc\<lparr>pid := 0, state := PROC_READY\<rparr>
     else if i = 1 then demo_proc\<lparr>pid := 1, state := PROC_READY\<rparr> else demo_proc), next_pid := 2,
     idle := Some 1, current_proc := Some 1, scheduling_enabled := True\<rparr>"

lemma demo_pair_ok: "tab_ok demo_pair"
proof -
  have st: "state (procs demo_pair i) \<noteq> PROC_UNUSED \<longleftrightarrow> i = 0 \<or> i = 1" for i
    by (simp add: demo_pair_def demo_proc_def)
  have pd: "pid (procs demo_pair 0) = 0" "pid (procs demo_pair 1) = 1"
    "i \<noteq> 0 \<Longrightarrow> i \<noteq> 1 \<Longrightarrow> pid (procs demo_pair i) = - 1" for i
    by (simp_all add: demo_pair_def demo_proc_def)
  have f: "next_pid demo_pair = 2" "current_proc demo_pair = Some 1" "idle demo_pair = Some 1"
    by (simp_all add: demo_pair_def)
  have "names_typed demo_pair" by (simp add: names_typed_def demo_pair_def demo_tab_def demo_proc_def)
  then show ?thesis using two_procs_ok [OF st pd f(1)] f by (simp add: tab_ok_def)
qed

lemma demo_pair_inv: "tab_inv demo_pair"
proof -
  have "used_slot demo_pair i \<longleftrightarrow> i \<in> {0, 1}" for i
    by (auto simp: used_slot_def demo_pair_def demo_proc_def NPROCS_def)
  then have u: "{i. used_slot demo_pair i} = {0, 1}" by blast
  have "ids_ok demo_pair" unfolding ids_ok_def u by (auto simp: used_slot_def demo_pair_def demo_proc_def NPROCS_def)
  then show ?thesis using demo_pair_ok by (simp add: tab_inv_def tab_ok_def)
qed

definition demo_sys :: sys where
  "demo_sys = \<lparr>sk = demo_kern\<lparr>ktab := demo_pair,
       kidt := demo_idt\<lparr>irq_handlers := (\<lambda>_. \<lparr>irq_fn = 0x100, irq_pdir = 0\<rparr>)\<rparr>,
       kheap := (kheap demo_kern)\<lparr>hvms := (hvms (kheap demo_kern))\<lparr>vmmu := demo_mmu\<lparr>mem := store32 (mem demo_mmu) 0x5030 32\<rparr>\<rparr>\<rparr>\<rparr>,
     timer_ticks = 0, key_buffer = 0, is_pressed = (\<lambda>_. 0), svga = demo_vga, sprint_lock = False, cr2 = 0\<rparr>"

definition demo_env :: handler_env where
  "demo_env = \<lparr>timer_fn = 0x100, kbd_fn = 0x200, sched_fn = 0x300, death_fn = 0x400, sys_rply_fn = 0x500,
     sys_send_fn = 0x600, sys_recv_fn = 0x700\<rparr>"

lemma demo_sys_num: "vload32 (kmmu (sk demo_sys)) (0x2000 + REGS_NUM) = Inr 32" "cr3 (kmmu (sk demo_sys)) = 0"
proof -
  let ?f = "store32 (mem demo_mmu) 0x5030 32"
  have km: "kmmu (sk demo_sys) = demo_mmu\<lparr>mem := ?f\<rparr>" by (simp add: kmmu_def demo_sys_def)
  have w: "?f q = mem demo_mmu q" if "q \<in> walk_bytes demo_mmu" for q
    by (rule store32_other) (use that in \<open>auto simp: demo_walk_bytes\<close>)
  have "translate demo_mmu (0x2000 + 0x30) = Inr (0x5000 + 0x30)" by (rule demo_translate_page) simp
  then have "translate (demo_mmu\<lparr>mem := ?f\<rparr>) 0x2030 = Inr 0x5030" using translate_frame [of demo_mmu ?f, OF w] by simp
  moreover have "aligned4 0x2030" by (simp add: aligned4_def)
  ultimately have "vload32 (demo_mmu\<lparr>mem := ?f\<rparr>) 0x2030 = Inr (load32 ?f 0x5030)"
    using vload32_aligned [of "demo_mmu\<lparr>mem := ?f\<rparr>" "0x2030" "0x5030"] by simp
  then show "vload32 (kmmu (sk demo_sys)) (0x2000 + REGS_NUM) = Inr 32" unfolding km by (simp add: REGS_NUM_def)
  show "cr3 (kmmu (sk demo_sys)) = 0" unfolding km by (simp add: demo_mmu_def)
qed

section \<open>Properties\<close>

text \<open>
  C3. Invariant of the kernel's process table.  In every state reachable by interrupts, system calls with any arguments,
  new processes and anything that user programs and devices do, from a state that satisfies it or the one
  \<open>proc_earlyinit\<close> leaves: the ids that are given belong to slots in use, no id is given twice, each is below the next
  one to be given, which never exceeds the number of slots in use and so never wraps; every name is a
  terminated string within its array; and the current and the idle process are in use.  One step alone can leave a
  slot in use without an id: a reply to a message whose sender is \<open>- 1\<close> (the receiver chose that value when it waited), which makes the first
  unused slot ready; every such reply that returns does it.  As long as none is made, \<open>tab_ok\<close> holds: all processes in
  use are found by their ids.
\<close>

theorem kernel_invariant:
  assumes "kreach k k'"
    and "tab_inv (ktab k) \<and> tab_ok (ktab k) \<or>
      (\<exists>env k0. proc_earlyinit env k0 = Inr k \<and> next_pid (ktab k0) = 0 \<and> names_typed (ktab k0))"
  shows "tab_inv (ktab k') \<and>
    (tab_ok (ktab k') \<or> (\<exists>k1 k2 fr regs r. kreach k k1 \<and> answers_nobody k1 \<and>
       syscall_rply_msg fr regs k1 = Inr (r, k2) \<and> kreach k2 k')) \<and>
    (\<forall>fr regs r k''. tab_ok (ktab k') \<and> answers_nobody k' \<and> syscall_rply_msg fr regs k' = Inr (r, k'') \<longrightarrow>
       \<not> tab_ok (ktab k''))"
proof -
  have k: "tab_inv (ktab k)" "ids_given (ktab k)" using assms(2) proc_earlyinit_inv tab_ok_given by blast+
  have inv: "tab_inv (ktab k')" using assms(1) k(1) by (rule kreach_inv)
  have "\<not> tab_ok (ktab k'')"
    if "tab_ok (ktab k')" "answers_nobody k'" "syscall_rply_msg fr regs k' = Inr (r, k'')" for fr regs r k''
    using rply_inv [OF that(3) inv] that(1,2) inv tab_ok_given by blast
  then show ?thesis using inv kreach_given [OF assms(1) k] tab_ok_given [OF inv] by blast
qed

theorem kernel_invariant_witness:
  "\<exists>k'. kstep (demo_kern\<lparr>ktab := demo_pair\<rparr>) k' \<and> tab_inv (ktab k') \<and> current_proc (ktab k') = Some 0"
proof -
  let ?k = "demo_kern\<lparr>ktab := demo_pair\<rparr>"
  have t: "scheduling_enabled (ktab ?k)" "current_proc (ktab ?k) = Some 1" "used_slot (ktab ?k) 1"
    "idle (ktab ?k) = Some 1" "pids_ok (ktab ?k)"
    using demo_pair_ok by (auto simp: demo_pair_def tab_ok_def)
  obtain n i t' where e: "t' = (ktab ?k)\<lparr>procs := (procs (ktab ?k))(1 := sched_save 0 (procs (ktab ?k) 1)), fnp_i := i\<rparr>"
    "eligible PROC_READY t' n \<and> n < NPROCS \<or> n = 1 \<and> (\<forall>j < NPROCS. \<not> eligible PROC_READY t' j)"
    "proc_schedule_after_irq 0 ?k = (if n = 1 then Inr (0, ?k\<lparr>ktab := t'\<rparr>)
      else Inr (trapframe (procs t' n), switch_to n (?k\<lparr>ktab := t'\<lparr>current_proc := Some n\<rparr>\<rparr>)))"
    by (rule proc_schedule_effect [OF t]) (rule that)
  have el: "eligible PROC_READY t' j \<longleftrightarrow> j = 0" for j
    by (simp add: eligible_def e(1) demo_pair_def demo_proc_def demo_tab_def)
  have "n = 0" using e(2) el [of n] el [of 0] by (auto simp: NPROCS_def)
  then obtain r k' where k': "proc_schedule_after_irq 0 ?k = Inr (r, k')" "current_proc (ktab k') = Some 0"
    using e(3) by (auto simp: switch_to_def Let_def)
  have "kstep ?k k'" using k'(1) by (rule kstep.sched)
  then have "kreach ?k k'" by (rule kreach.step [OF kreach.start])
  moreover have "tab_inv (ktab ?k) \<and> tab_ok (ktab ?k)" using demo_pair_ok demo_pair_inv by simp
  ultimately have "tab_inv (ktab k')" using kernel_invariant [of ?k k'] by blast
  with \<open>kstep ?k k'\<close> k'(2) show ?thesis by blast
qed

text \<open>
  C4. A timer interrupt preempts the current process.  With the timer handler installed on
  IRQ 0, scheduling enabled and the interrupted stack mapped in the address space of every
  process, \<open>irq_handler\<close> returns the frame of a process \<open>n\<close> that is ready (or idle, when none
  is), which is the new current process; the frame and the state of the interrupted
  process are saved; the tick counter has advanced by one, and exactly one command has
  been sent, the end of interrupt to the master controller.
\<close>

theorem timer_interrupt_preempts:
  assumes "vload32 (kmmu (sk s)) (regs + REGS_NUM) = Inr 32"
    and "\<forall>n. used_slot (ktab (sk s)) n \<longrightarrow> vload32 ((kmmu (sk s))\<lparr>cr3 := pdir (procs (ktab (sk s)) n)\<rparr>) (regs + REGS_NUM) = Inr 32"
    and "irq_handlers (kidt (sk s)) 0 = \<lparr>irq_fn = timer_fn env, irq_pdir = 0\<rparr>" and "timer_fn env \<noteq> 0"
    and "scheduling_enabled (ktab (sk s))" and "tab_ok (ktab (sk s))" and "current_proc (ktab (sk s)) = Some c"
  shows "\<exists>n s'. irq_handler (kernel_call env fr other) regs s = Inr (trapframe (procs (ktab (sk s')) n), s') \<and>
    current_proc (ktab (sk s')) = Some n \<and>
    (eligible PROC_READY (ktab (sk s')) n \<or> idle (ktab (sk s')) = Some n \<and>
       (\<forall>j < NPROCS. \<not> eligible PROC_READY (ktab (sk s')) j)) \<and>
    procs (ktab (sk s')) = (procs (ktab (sk s)))(c := sched_save regs (procs (ktab (sk s)) c)) \<and>
    timer_ticks s' = timer_ticks s + 1 \<and> out_log (kio (sk s')) = out_log (kio (sk s)) @ [(0x20, 0x20)]"
proof -
  let ?k = "sk s" and ?t = "ktab (sk s)"
  obtain d where t: "used_slot ?t c" "idle ?t = Some d" "used_slot ?t d" "pids_ok ?t"
    using assms(6,7) by (auto simp: tab_ok_def)
  obtain n i t' where e: "t' = ?t\<lparr>procs := (procs ?t)(c := sched_save regs (procs ?t c)), fnp_i := i\<rparr>"
    "eligible PROC_READY t' n \<and> n < NPROCS \<or> n = d \<and> (\<forall>j < NPROCS. \<not> eligible PROC_READY t' j)"
    "proc_schedule_after_irq regs ?k = (if n = c then Inr (regs, ?k\<lparr>ktab := t'\<rparr>)
      else Inr (trapframe (procs t' n), switch_to n (?k\<lparr>ktab := t'\<lparr>current_proc := Some n\<rparr>\<rparr>)))"
    by (rule proc_schedule_effect [OF assms(5,7) t(1,2,4)]) (rule that)
  define t2 where "t2 = t'\<lparr>current_proc := Some n\<rparr>"
  define k2 where "k2 = (if n = c then ?k\<lparr>ktab := t'\<rparr> else switch_to n (?k\<lparr>ktab := t2\<rparr>))"
  have tp: "procs t2 = (procs ?t)(c := sched_save regs (procs ?t c))" "idle t2 = Some d" "current_proc t2 = Some n"
    "trapframe (procs t2 c) = regs" "pdir (procs t2 n) = pdir (procs ?t n)"
    using t(2) by (simp_all add: t2_def e(1) sched_save_def)
  have tt: "n = c \<Longrightarrow> t' = t2" using assms(7) by (simp add: t2_def e(1))
  have k2: "ktab k2 = t2" "kio k2 = kio ?k" "kidt k2 = kidt ?k"
    using tt by (simp_all add: k2_def switch_to_def Let_def upd_mmu_def)
  have mm: "kmmu k2 = (if n = c then kmmu ?k else (kmmu ?k)\<lparr>cr3 := pdir (procs ?t n)\<rparr>)"
    using tp(5) by (simp add: k2_def switch_to_def Let_def upd_mmu_def kmmu_def set_cr3_def)
  have sch: "proc_schedule_after_irq regs ?k = Inr (trapframe (procs t2 n), k2)"
    using e(3) tp(4) tt by (simp add: k2_def t2_def)
  have "used_slot ?t n" using e(2) t(1,3) by (auto simp: used_slot_def e(1) eligible_def split: if_splits)
  then have ld: "vload32 (kmmu k2) (regs + REGS_NUM) = Inr 32" using assms(1,2) mm by simp
  let ?s1 = "s\<lparr>timer_ticks := timer_ticks s + 1, sk := k2\<rparr>"
  have disp: "irq_dispatch (kernel_call env fr other) 32 regs s = Inr (trapframe (procs t2 n), ?s1)"
    using assms(3,4) sch by (simp add: irq_dispatch_def Let_def kernel_call_def timer_handler_def)
  let ?s = "?s1\<lparr>sk := k2\<lparr>kio := outb 0x20 0x20 (kio k2)\<rparr>\<rparr>"
  have irq: "irq_handler (kernel_call env fr other) regs s = Inr (trapframe (procs t2 n), ?s)"
    using disp assms(1) ld by (simp add: irq_handler_def regs_num_def Let_def)
  have el: "eligible PROC_READY t' j = eligible PROC_READY t2 j" for j by (simp add: eligible_def t2_def)
  show ?thesis
    using irq e(2) tp(1-3) k2(1,2) unfolding el by (intro exI [of _ n] exI [of _ ?s]) (auto simp: outb_def)
qed

theorem timer_interrupt_preempts_witness:
  "\<exists>n s'. irq_handler (kernel_call demo_env 0 (\<lambda>_ _ _. Inl Halted)) 0x2000 demo_sys
     = Inr (trapframe (procs (ktab (sk s')) n), s') \<and> timer_ticks s' = 1"
proof -
  have tab: "ktab (sk demo_sys) = demo_pair" by (simp add: demo_sys_def)
  have h1: "\<forall>n. used_slot (ktab (sk demo_sys)) n \<longrightarrow> vload32 ((kmmu (sk demo_sys))\<lparr>cr3 := pdir (procs (ktab (sk demo_sys)) n)\<rparr>) (0x2000 + REGS_NUM) = Inr 32"
  proof (intro allI impI)
    fix n
    have "pdir (procs (ktab (sk demo_sys)) n) = 0" by (simp add: tab demo_pair_def demo_proc_def)
    then have "(kmmu (sk demo_sys))\<lparr>cr3 := pdir (procs (ktab (sk demo_sys)) n)\<rparr> = kmmu (sk demo_sys)"
      using demo_sys_num(2) by simp
    then show "vload32 ((kmmu (sk demo_sys))\<lparr>cr3 := pdir (procs (ktab (sk demo_sys)) n)\<rparr>) (0x2000 + REGS_NUM) = Inr 32"
      using demo_sys_num(1) by simp
  qed
  have h2: "irq_handlers (kidt (sk demo_sys)) 0 = \<lparr>irq_fn = timer_fn demo_env, irq_pdir = 0\<rparr>" "timer_fn demo_env \<noteq> 0"
    "scheduling_enabled (ktab (sk demo_sys))" "tab_ok (ktab (sk demo_sys))" "current_proc (ktab (sk demo_sys)) = Some 1"
    using demo_pair_ok by (simp_all add: demo_sys_def demo_env_def demo_pair_def)
  have "timer_ticks demo_sys = 0" by (simp add: demo_sys_def)
  then show ?thesis
    using timer_interrupt_preempts [OF demo_sys_num(1) h1 h2, where fr = 0 and other = "\<lambda>_ _ _. Inl Halted"] by auto
qed

end
