(* ===== verification/Sar.thy ===== *)
theory Sar
  imports Libc
begin

unbundle bit_operations_syntax

text \<open>
  The archive format of the initial RAM disk: the kernel's reader, \<^verbatim>\<open>kernel/sar.c\<close>, and the
  host tool that creates, lists and extracts archives, \<^verbatim>\<open>tools/sar.c\<close>.

  An archive in memory or in a file is the list of its bytes; a pointer into it is an
  offset, and reading outside is \<open>OutOfBounds\<close>.  The host's file system is a map from paths
  (C strings without their terminator) to contents; opening a file for reading fails when it
  does not exist, opening one for writing succeeds.  Whether \<open>malloc\<close> succeeds is the argument
  \<open>mok\<close>.  Messages on the terminal are left out, except for the listing itself.

  Shown: archives round trip.  Every file put into an archive by \<open>create\<close> is found by the
  kernel under its base name, with its contents at a page-aligned offset, and \<open>extract\<close>
  restores it; \<open>list\<close> lists exactly the files that were put in.
\<close>

section \<open>Definitions\<close>

subsection \<open>Format (sar.h)\<close>

definition SAR_MAGIC :: u32 where "SAR_MAGIC = 0x52415307"
definition SIZEOF_SAR_HEADER :: nat where "SIZEOF_SAR_HEADER = 4"
definition SIZEOF_SAR_FILE :: nat where "SIZEOF_SAR_FILE = 12"

record sar_file =
  fsize :: u32
  foffset :: u32
  fnamelen :: u32

definition le32 :: "u32 \<Rightarrow> u8 list" where
  "le32 v = [ucast v, ucast (drop_bit 8 v), ucast (drop_bit 16 v), ucast (drop_bit 24 v)]"

definition get32 :: "u8 list \<Rightarrow> nat \<Rightarrow> u32 res" where
  "get32 bs p =
     (if p + 4 \<le> length bs
      then Inr (ucast (bs ! p) OR push_bit 8 (ucast (bs ! (p + 1)))
             OR push_bit 16 (ucast (bs ! (p + 2))) OR push_bit 24 (ucast (bs ! (p + 3))))
      else Inl OutOfBounds)"

definition read_fhdr :: "u8 list \<Rightarrow> nat \<Rightarrow> sar_file res" where
  "read_fhdr bs p =
     kbind (get32 bs p) (\<lambda>s. kbind (get32 bs (p + 4)) (\<lambda>off. kbind (get32 bs (p + 8)) (\<lambda>n.
       Inr \<lparr>fsize = s, foffset = off, fnamelen = n\<rparr>)))"

definition fhdr_end :: "sar_file \<Rightarrow> bool" where
  "fhdr_end h \<longleftrightarrow> fsize h OR foffset h OR fnamelen h = 0"

definition FHDR_FNAME :: "u8 list \<Rightarrow> nat \<Rightarrow> u8 list" where
  "FHDR_FNAME bs p = drop (p + SIZEOF_SAR_FILE) bs"

definition fhdr_next :: "nat \<Rightarrow> sar_file \<Rightarrow> nat" where
  "fhdr_next p h = p + SIZEOF_SAR_FILE + unat (fnamelen h)"

lemma read_fhdr_bound: "read_fhdr bs p = Inr h \<Longrightarrow> p + 12 \<le> length bs"
  by (auto simp: read_fhdr_def kbind_Inr_iff get32_def split: if_splits)

lemma fhdr_next_less: "read_fhdr bs p = Inr h \<Longrightarrow> length bs - fhdr_next p h < length bs - p"
  using read_fhdr_bound [of bs p h] by (simp add: fhdr_next_def SIZEOF_SAR_FILE_def)

subsection \<open>The kernel's reader (kernel/sar.c)\<close>

function sar_lookup_from :: "u8 list \<Rightarrow> nat \<Rightarrow> u8 list \<Rightarrow> nat option res" where
  "sar_lookup_from file p fname =
     kbind (read_fhdr file p) (\<lambda>h.
     if fhdr_end h then Inr None
     else kbind (strcmp (FHDR_FNAME file p) fname) (\<lambda>r.
       if r = 0 then Inr (Some p) else sar_lookup_from file (fhdr_next p h) fname))"
  by pat_completeness auto
termination
  by (relation "measure (\<lambda>(file, p, _). length file - p)") (auto intro: fhdr_next_less)

declare sar_lookup_from.simps [simp del]

definition sar_lookup :: "u8 list \<Rightarrow> u8 list \<Rightarrow> nat option res" where
  "sar_lookup file fname = sar_lookup_from file SIZEOF_SAR_HEADER fname"

definition sar_get_contents :: "u8 list \<Rightarrow> u8 list \<Rightarrow> u32 option res" where
  "sar_get_contents file fname =
     kbind (sar_lookup file fname) (\<lambda>r.
       case r of None \<Rightarrow> Inr None | Some p \<Rightarrow> kbind (read_fhdr file p) (\<lambda>h. Inr (Some (foffset h))))"

subsection \<open>The tool (tools/sar.c)\<close>

definition PALIGN :: "u32 \<Rightarrow> u32" where
  "PALIGN addr = (addr + 4096 - 1) AND NOT (4096 - 1)"

text \<open>\<open>basename\<close> of \<^verbatim>\<open>libgen.h\<close>, \<open>write\<close> at the file position and \<open>pwrite\<close> at an offset.\<close>

definition base_name :: "u8 list \<Rightarrow> u8 list" where
  "base_name path =
     (let q = rev (dropWhile (\<lambda>c. c = 0x2f) (rev path)) in
      if path = [] then [0x2e] else if q = [] then [0x2f]
      else rev (takeWhile (\<lambda>c. c \<noteq> 0x2f) (rev q)))"

definition patch :: "nat \<Rightarrow> u8 list \<Rightarrow> u8 list \<Rightarrow> u8 list" where
  "patch off bs d =
     (let d' = d @ replicate (off - length d) 0 in take off d' @ bs @ drop (off + length bs) d')"

type_synonym fsys = "u8 list \<Rightarrow> u8 list option"

record sarst =
  sfs :: fsys
  apos :: nat

definition a_data :: "u8 list \<Rightarrow> sarst \<Rightarrow> u8 list" where
  "a_data arch st = (case sfs st arch of None \<Rightarrow> [] | Some d \<Rightarrow> d)"

definition a_pwrite :: "u8 list \<Rightarrow> nat \<Rightarrow> u8 list \<Rightarrow> sarst \<Rightarrow> sarst" where
  "a_pwrite arch off bs st =
     (if bs = [] then st else st\<lparr>sfs := (sfs st)(arch \<mapsto> patch off bs (a_data arch st))\<rparr>)"

definition a_write :: "u8 list \<Rightarrow> u8 list \<Rightarrow> sarst \<Rightarrow> sarst" where
  "a_write arch bs st = (a_pwrite arch (apos st) bs st)\<lparr>apos := apos st + length bs\<rparr>"

definition fhdr_bytes :: "sar_file \<Rightarrow> u8 list" where
  "fhdr_bytes h = le32 (fsize h) @ le32 (foffset h) @ le32 (fnamelen h)"

definition total_hdr_size :: "u8 list list \<Rightarrow> u32" where
  "total_hdr_size paths =
     PALIGN (foldl (\<lambda>t path. t + of_nat SIZEOF_SAR_FILE + of_nat (length (base_name path) + 1)) 0 paths
       + of_nat SIZEOF_SAR_HEADER + of_nat SIZEOF_SAR_FILE)"

text \<open>The second loop of \<open>create\<close>; \<open>Inr (Inl r)\<close> is a return with code \<open>r\<close>.\<close>

fun create_loop :: "(u32 \<Rightarrow> bool) \<Rightarrow> u8 list \<Rightarrow> u8 list list \<Rightarrow> sarst \<Rightarrow> u32 \<Rightarrow> u32 \<Rightarrow>
    ((nat \<times> sarst) + (sarst \<times> u32)) res" where
  "create_loop mok arch [] st last_file_offset last_fhdr_addr = Inr (Inr (st, last_fhdr_addr))"
| "create_loop mok arch (path # paths) st last_file_offset last_fhdr_addr =
     (case sfs st path of
        None \<Rightarrow> create_loop mok arch paths st last_file_offset last_fhdr_addr
      | Some contents \<Rightarrow>
          let name = base_name path @ [0];
              h = \<lparr>fsize = of_nat (length contents), foffset = last_file_offset, fnamelen = of_nat (length name)\<rparr>;
              last_fhdr_addr = last_fhdr_addr + of_nat SIZEOF_SAR_FILE + fnamelen h;
              room = PALIGN (fsize h)
          in if \<not> mok room then Inr (Inl (1, st))
             else if room < fsize h then Inl OutOfBounds
             else
               let buf = take (unat (fsize h)) contents @ replicate (unat room - unat (fsize h)) 0;
                   st = a_write arch (fhdr_bytes h) st;
                   st = a_write arch (take (unat (fnamelen h)) name) st;
                   st = a_pwrite arch (unat last_file_offset) buf st
               in create_loop mok arch paths st (last_file_offset + room) last_fhdr_addr)"

definition create :: "(u32 \<Rightarrow> bool) \<Rightarrow> u8 list list \<Rightarrow> fsys \<Rightarrow> (nat \<times> fsys) res" where
  "create mok args fs =
     (case args of
        arch # p # ps \<Rightarrow>
          let st = \<lparr>sfs = fs(arch \<mapsto> []), apos = 0\<rparr>;
              st = a_write arch (le32 SAR_MAGIC) st
          in kbind (create_loop mok arch (p # ps) st (total_hdr_size (p # ps)) (of_nat SIZEOF_SAR_HEADER)) (\<lambda>r.
               case r of
                 Inl (code, st) \<Rightarrow> Inr (code, sfs st)
               | Inr (st, last_fhdr_addr) \<Rightarrow>
                   Inr (0, sfs (a_pwrite arch (unat last_fhdr_addr) (replicate SIZEOF_SAR_FILE 0) st)))
      | _ \<Rightarrow> Inr (1, fs))"

text \<open>A line of the listing: name, size, offset.\<close>

function list_from :: "u8 list \<Rightarrow> nat \<Rightarrow> (u8 list \<times> u32 \<times> u32) list res" where
  "list_from buf p =
     kbind (read_fhdr buf p) (\<lambda>h.
     if fhdr_end h then Inr []
     else if 0 \<notin> set (FHDR_FNAME buf p) then Inl OutOfBounds
     else kbind (list_from buf (fhdr_next p h)) (\<lambda>ls.
       Inr ((cstr (FHDR_FNAME buf p), fsize h, foffset h) # ls)))"
  by pat_completeness auto
termination
  by (relation "measure (\<lambda>(buf, p). length buf - p)") (auto intro: fhdr_next_less)

declare list_from.simps [simp del]

fun list_archives :: "(u32 \<Rightarrow> bool) \<Rightarrow> u8 list list \<Rightarrow> fsys \<Rightarrow> (nat \<times> (u8 list \<times> u32 \<times> u32) list) res" where
  "list_archives mok [] fs = Inr (0, [])"
| "list_archives mok (a # as) fs =
     (case fs a of
        None \<Rightarrow> list_archives mok as fs
      | Some buf \<Rightarrow>
          if \<not> mok (of_nat (length buf)) then Inr (1, [])
          else kbind (list_from buf SIZEOF_SAR_HEADER) (\<lambda>ls.
            kbind (list_archives mok as fs) (\<lambda>(r, ls'). Inr (r, ls @ ls'))))"

function extract_from :: "u8 list \<Rightarrow> nat \<Rightarrow> fsys \<Rightarrow> fsys res" where
  "extract_from buf p fs =
     kbind (read_fhdr buf p) (\<lambda>h.
     if fhdr_end h then Inr fs
     else if 0 \<notin> set (FHDR_FNAME buf p) then Inl OutOfBounds
     else if fsize h \<noteq> 0 \<and> length buf < unat (foffset h) + unat (fsize h) then Inl OutOfBounds
     else extract_from buf (fhdr_next p h)
            (fs(cstr (FHDR_FNAME buf p) \<mapsto> take (unat (fsize h)) (drop (unat (foffset h)) buf))))"
  by pat_completeness auto
termination
  by (relation "measure (\<lambda>(buf, p, _). length buf - p)") (auto intro: fhdr_next_less)

declare extract_from.simps [simp del]

fun extract_archives :: "(u32 \<Rightarrow> bool) \<Rightarrow> u8 list list \<Rightarrow> fsys \<Rightarrow> (nat \<times> fsys) res" where
  "extract_archives mok [] fs = Inr (0, fs)"
| "extract_archives mok (a # as) fs =
     (case fs a of
        None \<Rightarrow> extract_archives mok as fs
      | Some buf \<Rightarrow>
          if \<not> mok (of_nat (length buf)) then Inr (1, fs)
          else kbind (extract_from buf SIZEOF_SAR_HEADER fs) (extract_archives mok as))"

datatype sar_cmd = Create | Extract | List_cmd

definition commands :: "(u8 \<times> sar_cmd) list" where
  "commands = [(0x63, Create), (0x65, Extract), (0x6c, List_cmd)]"

definition cmd_lookup :: "u8 \<Rightarrow> sar_cmd option" where
  "cmd_lookup ch = map_option snd (find (\<lambda>(c, _). c = ch) commands)"

definition sar_main :: "(u32 \<Rightarrow> bool) \<Rightarrow> u8 list list \<Rightarrow> fsys \<Rightarrow> (nat \<times> fsys \<times> (u8 list \<times> u32 \<times> u32) list) res" where
  "sar_main mok argv fs =
     (if length argv < 2 then Inr (1, fs, [])
      else let arg = argv ! 1; ch = (if arg = [] then 0 else hd arg) in
        case cmd_lookup ch of
          None \<Rightarrow> Inr (1, fs, [])
        | Some cmd \<Rightarrow>
            if length argv = 2 then Inr (1, fs, [])
            else let args = drop 2 argv in
              (case cmd of
                 Create \<Rightarrow> kbind (create mok args fs) (\<lambda>(r, fs). Inr (r, fs, []))
               | Extract \<Rightarrow> kbind (extract_archives mok args fs) (\<lambda>(r, fs). Inr (r, fs, []))
               | List_cmd \<Rightarrow> kbind (list_archives mok args fs) (\<lambda>(r, ls). Inr (r, fs, ls))))"

section \<open>Lemmas\<close>

subsection \<open>Segments of a file\<close>

definition seg :: "u8 list \<Rightarrow> nat \<Rightarrow> u8 list \<Rightarrow> bool" where
  "seg d off bs \<longleftrightarrow> (bs \<noteq> [] \<longrightarrow> off + length bs \<le> length d) \<and> (\<forall>i < length bs. d ! (off + i) = bs ! i)"

lemma length_patch: "length (patch off bs d) = max (length d) (off + length bs)"
  by (auto simp: patch_def Let_def max_def)

lemma nth_patch:
  assumes "i < length (patch off bs d)"
  shows "patch off bs d ! i = (if off \<le> i \<and> i < off + length bs then bs ! (i - off) else if i < length d then d ! i else 0)"
proof -
  define D where "D = d @ replicate (off - length d) 0"
  have D: "off \<le> length D" "\<And>i. i < length D \<Longrightarrow> D ! i = (if i < length d then d ! i else 0)" "length D = max off (length d)"
    by (auto simp: D_def nth_append)
  have p: "patch off bs d = take off D @ bs @ drop (off + length bs) D" by (simp add: patch_def D_def Let_def)
  have iD: "i < off + length bs \<or> i < length D" using assms D by (auto simp: p)
  show ?thesis
    using D(1) D(2) [of i] iD by (auto simp: p nth_append)
qed

lemma seg_patch_same: "seg (patch off bs d) off bs"
  by (simp add: seg_def length_patch nth_patch)

lemma seg_patch_other:
  assumes "seg d q cs" and "q + length cs \<le> off \<or> off + length bs \<le> q"
  shows "seg (patch off bs d) q cs"
  using assms by (auto simp: seg_def length_patch nth_patch)

lemma seg_append: "seg d off (xs @ ys) \<longleftrightarrow> seg d off xs \<and> seg d (off + length xs) ys"
proof -
  have "(\<forall>i < length xs + length ys. d ! (off + i) = (xs @ ys) ! i) \<longleftrightarrow>
      (\<forall>i < length xs. d ! (off + i) = xs ! i) \<and> (\<forall>i < length ys. d ! (off + length xs + i) = ys ! i)"
  proof (intro iffI conjI allI impI)
    fix i assume h: "\<forall>i < length xs + length ys. d ! (off + i) = (xs @ ys) ! i"
    show "i < length xs \<Longrightarrow> d ! (off + i) = xs ! i" using h by (auto simp: nth_append)
    show "i < length ys \<Longrightarrow> d ! (off + length xs + i) = ys ! i"
      using h [rule_format, of "length xs + i"] by (simp add: add.assoc)
  next
    fix i assume h: "(\<forall>i < length xs. d ! (off + i) = xs ! i) \<and> (\<forall>i < length ys. d ! (off + length xs + i) = ys ! i)"
      and i: "i < length xs + length ys"
    show "d ! (off + i) = (xs @ ys) ! i"
    proof (cases "i < length xs")
      case False
      then obtain j where j: "i = length xs + j" by (metis le_iff_add not_less)
      then show ?thesis using h i by (simp add: add.assoc)
    qed (use h in \<open>simp add: nth_append\<close>)
  qed
  then show ?thesis by (auto simp: seg_def)
qed

lemma seg_drop: "seg d off bs \<Longrightarrow> drop off d = bs @ drop (off + length bs) d"
proof (cases "bs = []")
  case False
  assume "seg d off bs"
  then show ?thesis using False by (intro nth_equalityI) (auto simp: seg_def nth_append)
qed simp

lemma seg_take: "seg d off bs \<Longrightarrow> take (length bs) (drop off d) = bs"
  by (simp add: seg_drop)

lemma length_le32: "length (le32 v) = 4"
  by (simp add: le32_def)

lemma get32_seg: "seg d p (le32 v) \<Longrightarrow> get32 d p = Inr v"
proof -
  assume s: "seg d p (le32 v)"
  have "d ! (p + i) = le32 v ! i" if "i < 4" for i using s that by (simp add: seg_def le32_def)
  from this [of 0] this [of 1] this [of 2] this [of 3]
  have "d ! p = ucast v" "d ! (p + 1) = ucast (drop_bit 8 v)" "d ! (p + 2) = ucast (drop_bit 16 v)"
    "d ! (p + 3) = ucast (drop_bit 24 v)" by (simp_all add: le32_def numeral_2_eq_2 numeral_3_eq_3)
  moreover have "p + 4 \<le> length d" using s by (simp add: seg_def le32_def)
  moreover have "load32 (store32 (\<lambda>_. 0) 0 v) 0 = v" by simp
  ultimately show ?thesis by (simp add: get32_def load32_def store32_def)
qed

lemma read_fhdr_seg: "seg d p (fhdr_bytes h) \<Longrightarrow> read_fhdr d p = Inr h"
proof -
  assume "seg d p (fhdr_bytes h)"
  then have "seg d p (le32 (fsize h))" "seg d (p + 4) (le32 (foffset h))" "seg d (p + 8) (le32 (fnamelen h))"
    by (simp_all add: fhdr_bytes_def seg_append length_le32 add.assoc)
  then show ?thesis by (simp add: read_fhdr_def get32_seg)
qed

subsection \<open>The layout of an archive\<close>

definition pal :: "nat \<Rightarrow> nat" where
  "pal n = (n + 4095) div 4096 * 4096"

fun hend :: "nat \<Rightarrow> (u8 list \<times> u8 list) list \<Rightarrow> nat" where
  "hend p [] = p"
| "hend p ((n, c) # fl) = hend (p + 13 + length n) fl"

fun cend :: "nat \<Rightarrow> (u8 list \<times> u8 list) list \<Rightarrow> nat" where
  "cend off [] = off"
| "cend off ((n, c) # fl) = cend (off + pal (length c)) fl"

definition entry_hdr :: "nat \<Rightarrow> u8 list \<Rightarrow> u8 list \<Rightarrow> sar_file" where
  "entry_hdr off n c = \<lparr>fsize = of_nat (length c), foffset = of_nat off, fnamelen = of_nat (length n + 1)\<rparr>"

fun laid :: "u8 list \<Rightarrow> nat \<Rightarrow> nat \<Rightarrow> (u8 list \<times> u8 list) list \<Rightarrow> bool" where
  "laid d p off [] \<longleftrightarrow> True"
| "laid d p off ((n, c) # fl) \<longleftrightarrow>
     seg d p (fhdr_bytes (entry_hdr off n c) @ n @ [0]) \<and> seg d off c \<and>
     laid d (p + 13 + length n) (off + pal (length c)) fl"

lemma pal_ge: "n \<le> pal n"
proof -
  have "(n + 4095) mod 4096 < 4096" by simp
  moreover have "pal n + (n + 4095) mod 4096 = n + 4095" unfolding pal_def by simp
  ultimately show ?thesis by linarith
qed

lemma hend_ge: "p \<le> hend p fl"
  by (induction p fl rule: hend.induct) auto

lemma cend_ge: "off \<le> cend off fl"
  by (induction off fl rule: cend.induct) auto

lemma length_fhdr_bytes [simp]: "length (fhdr_bytes h) = 12"
  by (simp add: fhdr_bytes_def le32_def)

lemma unat_PALIGN:
  assumes "pal (unat x) < 4294967296"
  shows "unat (PALIGN x) = pal (unat x)"
proof -
  have "unat x + 4095 < 4294967296"
  proof (rule ccontr)
    assume "\<not> ?thesis"
    then have "1048576 \<le> (unat x + 4095) div 4096" by simp
    then show False using assms by (simp add: pal_def)
  qed
  moreover have "PALIGN x = PALIGNUP x" by (simp add: PALIGN_def PALIGNUP_def PAGE_SIZE_def)
  ultimately show ?thesis using unat_PALIGNUP [of x] by (simp add: pal_def)
qed

text \<open>Writing in the gap after the headers leaves the layout alone.\<close>

lemma laid_patch:
  assumes "laid d p off fl" and "hend p fl \<le> q" and "q + length bs \<le> off"
  shows "laid (patch q bs d) p off fl"
  using assms
proof (induction d p off fl rule: laid.induct)
  case (2 d p off n c fl)
  have "p + 13 + length n \<le> q" using 2(3) hend_ge [of "p + 13 + length n" fl] by simp
  then show ?case using 2 by (auto intro!: seg_patch_other)
qed simp

subsection \<open>Creating an archive\<close>

text \<open>The files among \<open>paths\<close> that exist, as pairs of base name and contents.\<close>

fun present :: "fsys \<Rightarrow> u8 list list \<Rightarrow> (u8 list \<times> u8 list) list" where
  "present fs [] = []"
| "present fs (p # ps) = (case fs p of None \<Rightarrow> present fs ps | Some c \<Rightarrow> (base_name p, c) # present fs ps)"

lemma present_upd: "arch \<notin> set paths \<Longrightarrow> present (fs(arch \<mapsto> d)) paths = present fs paths"
  by (induction paths) (auto split: option.splits)

lemma a_pwrite_data:
  "bs \<noteq> [] \<Longrightarrow> a_data arch (a_pwrite arch off bs st) = patch off bs (a_data arch st)"
  "q \<noteq> arch \<Longrightarrow> sfs (a_pwrite arch off bs st) q = sfs st q" "apos (a_pwrite arch off bs st) = apos st"
  by (simp_all add: a_pwrite_def a_data_def)

lemma patch_Nil_seg: "seg (a_data arch st) q cs \<Longrightarrow> seg (a_data arch (a_pwrite arch off [] st)) q cs"
  by (simp add: a_pwrite_def)

lemma a_pwrite_seg_other:
  assumes "seg (a_data arch st) q cs" and "q + length cs \<le> off \<or> off + length bs \<le> q"
  shows "seg (a_data arch (a_pwrite arch off bs st)) q cs"
proof (cases "bs = []")
  case False
  then show ?thesis using seg_patch_other [OF assms] by (simp add: a_pwrite_data)
qed (use assms in \<open>simp add: a_pwrite_def\<close>)

lemma a_pwrite_seg_same:
  assumes "bs \<noteq> []"
  shows "seg (a_data arch (a_pwrite arch off bs st)) off bs"
  using assms by (simp add: a_pwrite_data seg_patch_same)

text \<open>
  One file: its header and name at position \<open>p\<close>, its contents at \<open>off\<close>; segments elsewhere stay.
\<close>

definition add_entry :: "u8 list \<Rightarrow> nat \<Rightarrow> u8 list \<Rightarrow> u8 list \<Rightarrow> sarst \<Rightarrow> sarst" where
  "add_entry arch off n c st =
     a_pwrite arch off (c @ replicate (pal (length c) - length c) 0)
       (a_write arch (n @ [0]) (a_write arch (fhdr_bytes (entry_hdr off n c)) st))"

lemma add_entry_effect:
  assumes st: "apos st = p" and gap: "p + 13 + length n \<le> off"
  shows "apos (add_entry arch off n c st) = p + 13 + length n"
    and "\<And>q. q \<noteq> arch \<Longrightarrow> sfs (add_entry arch off n c st) q = sfs st q"
    and "seg (a_data arch (add_entry arch off n c st)) p (fhdr_bytes (entry_hdr off n c) @ n @ [0])"
    and "seg (a_data arch (add_entry arch off n c st)) off c"
    and "\<And>q bs. seg (a_data arch st) q bs \<Longrightarrow> (q + length bs \<le> p \<or> p + 13 + length n \<le> q) \<Longrightarrow> q + length bs \<le> off \<Longrightarrow>
      seg (a_data arch (add_entry arch off n c st)) q bs"
proof -
  let ?h = "fhdr_bytes (entry_hdr off n c)" and ?c = "c @ replicate (pal (length c) - length c) 0"
  define s1 where "s1 = a_pwrite arch p ?h st"
  define s2 where "s2 = a_pwrite arch (p + 12) (n @ [0]) (s1\<lparr>apos := p + 12\<rparr>)"
  have ne: "?h \<noteq> []" by (simp add: fhdr_bytes_def le32_def)
  have e: "add_entry arch off n c st = a_pwrite arch off ?c (s2\<lparr>apos := p + 12 + (length n + 1)\<rparr>)"
    by (simp add: add_entry_def a_write_def st s1_def s2_def a_pwrite_data)
  have ad: "a_data arch (t\<lparr>apos := x\<rparr>) = a_data arch t" for t x by (simp add: a_data_def)
  show "apos (add_entry arch off n c st) = p + 13 + length n" by (simp add: e a_pwrite_data)
  show "q \<noteq> arch \<Longrightarrow> sfs (add_entry arch off n c st) q = sfs st q" for q
    by (simp add: e s2_def s1_def a_pwrite_data)
  have h1: "seg (a_data arch s1) p ?h" unfolding s1_def using ne by (rule a_pwrite_seg_same)
  have h2: "seg (a_data arch s2) p ?h"
    unfolding s2_def using h1 by (intro a_pwrite_seg_other) (simp_all add: ad)
  have n2: "seg (a_data arch s2) (p + 12) (n @ [0])"
    unfolding s2_def by (rule a_pwrite_seg_same) simp
  have "seg (a_data arch s2) p (?h @ n @ [0])" using h2 n2 by (simp only: seg_append length_fhdr_bytes)
  then show "seg (a_data arch (add_entry arch off n c st)) p (?h @ n @ [0])"
    unfolding e using gap by (intro a_pwrite_seg_other) (simp_all add: ad)
  show "seg (a_data arch (add_entry arch off n c st)) off c"
  proof (cases "c = []")
    case True
    then show ?thesis by (simp add: seg_def)
  next
    case False
    then have "seg (a_data arch (add_entry arch off n c st)) off ?c" unfolding e by (intro a_pwrite_seg_same) simp
    then show ?thesis unfolding seg_append by blast
  qed
  fix q bs assume q: "seg (a_data arch st) q bs" "q + length bs \<le> p \<or> p + 13 + length n \<le> q" "q + length bs \<le> off"
  have "seg (a_data arch s1) q bs" unfolding s1_def using q by (intro a_pwrite_seg_other) auto
  then have "seg (a_data arch s2) q bs" unfolding s2_def using q by (intro a_pwrite_seg_other) (auto simp: ad)
  then show "seg (a_data arch (add_entry arch off n c st)) q bs"
    unfolding e using q(3) by (intro a_pwrite_seg_other) (auto simp: ad)
qed

lemma create_loop_step:
  assumes st: "sfs st path = Some c" and mok: "\<forall>r. mok r" and off: "off + pal (length c) < 4294967296"
    and n: "length (base_name path) + 1 < 4294967296"
  shows "create_loop mok arch (path # paths) st (of_nat off) lfa =
    create_loop mok arch paths (add_entry arch off (base_name path) c st) (of_nat (off + pal (length c)))
      (lfa + of_nat (13 + length (base_name path)))"
proof -
  let ?n = "base_name path"
  have l: "length c < 4294967296" "pal (length c) < 4294967296" using off pal_ge [of "length c"] by linarith+
  have sz: "unat (of_nat (length c) :: u32) = length c" using l(1) by (simp add: unat_of_nat take_bit_eq_mod)
  have room: "unat (PALIGN (of_nat (length c))) = pal (length c)" using unat_PALIGN [of "of_nat (length c)"] l(2) sz by simp
  have rw: "PALIGN (of_nat (length c)) = of_nat (pal (length c))"
    using room l(2) by (simp add: u32_eq_iff unat_of_nat take_bit_eq_mod)
  have nl: "unat (of_nat (length ?n + 1) :: u32) = length ?n + 1" using n by (simp add: unat_of_nat take_bit_eq_mod del: of_nat_Suc of_nat_add)
  have ofs: "unat (of_nat off :: u32) = off" using off by (simp add: unat_of_nat take_bit_eq_mod)
  have ge: "\<not> PALIGN (of_nat (length c)) < of_nat (length c)" using room sz pal_ge [of "length c"] by (simp add: word_less_nat_alt)
  have h: "\<lparr>fsize = of_nat (length c), foffset = of_nat off, fnamelen = of_nat (length (?n @ [0]))\<rparr> = entry_hdr off ?n c"
    by (simp add: entry_hdr_def)
  have sel: "fsize (entry_hdr off ?n c) = of_nat (length c)" "fnamelen (entry_hdr off ?n c) = of_nat (length ?n + 1)"
    by (simp_all add: entry_hdr_def)
  show ?thesis
    unfolding create_loop.simps st option.case Let_def h sel nl sz room ofs
    using mok ge by (simp add: add_entry_def rw SIZEOF_SAR_FILE_def algebra_simps)
qed

lemma create_loop_laid:
  assumes "\<forall>r. mok r" and "arch \<notin> set paths" and "present (sfs st) paths = fl"
    and "apos st = p" and "hend p fl \<le> off" and "cend off fl < 4294967296"
  shows "\<exists>st'. create_loop mok arch paths st (of_nat off) (of_nat p) = Inr (Inr (st', of_nat (hend p fl))) \<and>
    laid (a_data arch st') p off fl \<and> (\<forall>q. q \<noteq> arch \<longrightarrow> sfs st' q = sfs st q) \<and>
    (\<forall>q bs. seg (a_data arch st) q bs \<longrightarrow> q + length bs \<le> p \<or> hend p fl \<le> q \<and> q + length bs \<le> off \<longrightarrow>
       seg (a_data arch st') q bs)"
  using assms
proof (induction paths arbitrary: st p off fl)
  case Nil
  then show ?case by simp
next
  case (Cons path paths)
  show ?case
  proof (cases "sfs st path")
    case None
    then show ?thesis using Cons by simp
  next
    case (Some c)
    let ?n = "base_name path"
    obtain fl' where fl: "fl = (?n, c) # fl'" "present (sfs st) paths = fl'" using Cons.prems(3) Some by auto
    have h: "hend (p + 13 + length ?n) fl' \<le> off" "cend (off + pal (length c)) fl' < 4294967296"
      using Cons.prems(5,6) fl(1) by simp_all
    have gap: "p + 13 + length ?n \<le> off" using h(1) hend_ge [of "p + 13 + length ?n" fl'] by linarith
    have o2: "off + pal (length c) < 4294967296" using h(2) cend_ge [of "off + pal (length c)" fl'] by linarith
    let ?s = "add_entry arch off ?n c st"
    note ae = add_entry_effect [OF Cons.prems(4) gap, where arch = arch and c = c]
    have pr: "present (sfs ?s) paths = fl'"
    proof -
      have "sfs ?s q = sfs st q" if "q \<in> set paths" for q using ae(2) [of q] Cons.prems(2) that by auto
      then have "present (sfs ?s) paths = present (sfs st) paths" by (induction paths) (auto split: option.splits)
      then show ?thesis using fl(2) by simp
    qed
    have nb: "length ?n + 1 < 4294967296" using gap o2 by simp
    have st: "create_loop mok arch (path # paths) st (of_nat off) (of_nat p) =
        create_loop mok arch paths ?s (of_nat (off + pal (length c))) (of_nat (p + 13 + length ?n))"
      using create_loop_step [where arch = arch and paths = paths and lfa = "of_nat p", OF Some Cons.prems(1) o2 nb] by (simp add: add.assoc)
    have h': "hend (p + 13 + length ?n) fl' \<le> off + pal (length c)" using h(1) by simp
    obtain st' where st': "create_loop mok arch paths ?s (of_nat (off + pal (length c))) (of_nat (p + 13 + length ?n)) =
        Inr (Inr (st', of_nat (hend (p + 13 + length ?n) fl')))"
      "laid (a_data arch st') (p + 13 + length ?n) (off + pal (length c)) fl'"
      "\<forall>q. q \<noteq> arch \<longrightarrow> sfs st' q = sfs ?s q"
      "\<forall>q bs. seg (a_data arch ?s) q bs \<longrightarrow> q + length bs \<le> p + 13 + length ?n \<or>
         hend (p + 13 + length ?n) fl' \<le> q \<and> q + length bs \<le> off + pal (length c) \<longrightarrow> seg (a_data arch st') q bs"
      using Cons.IH [OF Cons.prems(1) _ pr ae(1) h' h(2)] Cons.prems(2) by auto
    have "seg (a_data arch st') p (fhdr_bytes (entry_hdr off ?n c) @ ?n @ [0])" using st'(4) ae(3) by simp
    moreover have "seg (a_data arch st') off c" using st'(4) ae(4) h(1) pal_ge [of "length c"] by simp
    moreover have "seg (a_data arch st') q bs"
      if "seg (a_data arch st) q bs" "q + length bs \<le> p \<or> hend p fl \<le> q \<and> q + length bs \<le> off" for q bs
    proof -
      have hp: "p + 13 + length ?n \<le> hend p fl" using fl(1) hend_ge [of "p + 13 + length ?n" fl'] by simp
      then have "seg (a_data arch ?s) q bs" using that gap by (intro ae(5)) auto
      then show ?thesis using st'(4) that hp fl(1) by auto
    qed
    ultimately show ?thesis
      using st st'(1-3) ae(2) fl(1) by (intro exI [of _ st']) simp
  qed
qed

subsection \<open>Reading an archive\<close>

lemma cstr_terminated_list: "0 \<notin> set x \<Longrightarrow> cstr (x @ 0 # ys) = x"
  by (induction x) (auto simp: cstr_def)

text \<open>What a reader relies on: names without zero bytes, sizes that fit, a terminating header.\<close>

fun readable :: "nat \<Rightarrow> (u8 list \<times> u8 list) list \<Rightarrow> bool" where
  "readable off [] \<longleftrightarrow> True"
| "readable off ((n, c) # fl) \<longleftrightarrow> 0 \<notin> set n \<and> length n + 1 < 4294967296 \<and> off + length c < 4294967296 \<and>
     readable (off + pal (length c)) fl"

lemma entry_hdr_sel:
  assumes "length n + 1 < 4294967296" and "off + length c < 4294967296"
  shows "unat (fsize (entry_hdr off n c)) = length c" and "unat (foffset (entry_hdr off n c)) = off"
    and "unat (fnamelen (entry_hdr off n c)) = length n + 1" and "\<not> fhdr_end (entry_hdr off n c)"
proof -
  show n: "unat (fnamelen (entry_hdr off n c)) = length n + 1"
    using assms(1) by (simp add: entry_hdr_def unat_of_nat take_bit_eq_mod del: of_nat_Suc of_nat_add)
  show "unat (fsize (entry_hdr off n c)) = length c" "unat (foffset (entry_hdr off n c)) = off"
    using assms(2) by (simp_all add: entry_hdr_def unat_of_nat take_bit_eq_mod)
  have "fnamelen (entry_hdr off n c) \<noteq> 0" using n by (metis add_is_0 one_neq_zero unat_0)
  then show "\<not> fhdr_end (entry_hdr off n c)" by (auto simp: fhdr_end_def or_eq_0_iff)
qed

lemma laid_first:
  assumes "laid d p off ((n, c) # fl)" and "0 \<notin> set n" and "length n + 1 < 4294967296" and "off + length c < 4294967296"
  shows "read_fhdr d p = Inr (entry_hdr off n c)" and "0 \<in> set (FHDR_FNAME d p)" and "cstr (FHDR_FNAME d p) = n"
    and "fhdr_next p (entry_hdr off n c) = p + 13 + length n"
    and "take (length c) (drop off d) = c" and "c \<noteq> [] \<Longrightarrow> off + length c \<le> length d"
proof -
  have s: "seg d p (fhdr_bytes (entry_hdr off n c))" "seg d (p + 12) (n @ [0])" "seg d off c"
    using assms(1) by (simp_all only: laid.simps seg_append length_fhdr_bytes)
  show "read_fhdr d p = Inr (entry_hdr off n c)" using s(1) by (rule read_fhdr_seg)
  have dr: "FHDR_FNAME d p = n @ 0 # drop (p + 12 + length (n @ [0 :: u8])) d"
    using seg_drop [OF s(2)] by (simp add: FHDR_FNAME_def SIZEOF_SAR_FILE_def)
  show "0 \<in> set (FHDR_FNAME d p)" unfolding dr by simp
  show "cstr (FHDR_FNAME d p) = n" unfolding dr using assms(2) by (rule cstr_terminated_list)
  show "fhdr_next p (entry_hdr off n c) = p + 13 + length n"
    using entry_hdr_sel(3) [OF assms(3,4)] by (simp add: fhdr_next_def SIZEOF_SAR_FILE_def)
  show "take (length c) (drop off d) = c" using s(3) by (rule seg_take)
  show "c \<noteq> [] \<Longrightarrow> off + length c \<le> length d" using s(3) by (simp add: seg_def)
qed

definition end_hdr :: sar_file where
  "end_hdr = \<lparr>fsize = 0, foffset = 0, fnamelen = 0\<rparr>"

lemma read_end: "seg d p (replicate 12 0) \<Longrightarrow> read_fhdr d p = Inr end_hdr \<and> fhdr_end end_hdr"
proof -
  assume "seg d p (replicate 12 0)"
  moreover have "fhdr_bytes end_hdr = replicate 12 0" by (simp add: fhdr_bytes_def end_hdr_def le32_def numeral_eq_Suc)
  ultimately show ?thesis using read_fhdr_seg [of d p end_hdr] by (simp add: fhdr_end_def end_hdr_def)
qed

text \<open>Where the entry of a name is, and where its contents are.\<close>

fun entry_pos :: "nat \<Rightarrow> nat \<Rightarrow> (u8 list \<times> u8 list) list \<Rightarrow> u8 list \<Rightarrow> (nat \<times> nat) option" where
  "entry_pos p off [] x = None"
| "entry_pos p off ((n, c) # fl) x =
     (if n = x then Some (p, off) else entry_pos (p + 13 + length n) (off + pal (length c)) fl x)"

lemma lookup_laid:
  assumes "laid d p off fl" and "readable off fl" and "seg d (hend p fl) (replicate 12 0)" and "0 \<notin> set x"
  shows "sar_lookup_from d p (x @ [0]) = Inr (map_option fst (entry_pos p off fl x))"
  using assms
proof (induction p off fl x rule: entry_pos.induct)
  case (1 p off x)
  then show ?case using read_end [of d p] by (subst sar_lookup_from.simps) simp
next
  case (2 p off n c fl x)
  then have h: "0 \<notin> set n" "length n + 1 < 4294967296" "off + length c < 4294967296" by simp_all
  note f = laid_first [OF "2.prems"(1) h]
  have cx: "cstr (x @ [0]) = x" using "2.prems"(4) by (simp add: cstr_terminated_list)
  obtain r where r: "strcmp (FHDR_FNAME d p) (x @ [0]) = Inr r" "r = 0 \<longleftrightarrow> n = x"
    using strcmp_terminated [OF f(2), of "x @ [0]"] f(3) cx by auto
  show ?case
  proof (cases "n = x")
    case True
    then show ?thesis using f(1) entry_hdr_sel(4) [OF h(2,3)] r by (subst sar_lookup_from.simps) simp
  next
    case False
    have "sar_lookup_from d (p + 13 + length n) (x @ [0]) =
        Inr (map_option fst (entry_pos (p + 13 + length n) (off + pal (length c)) fl x))"
      using "2.IH" [OF False] "2.prems" by simp
    then show ?thesis
      using f(1,4) entry_hdr_sel(4) [OF h(2,3)] r False by (subst sar_lookup_from.simps) simp
  qed
qed

lemma entry_pos_map_of:
  "entry_pos p off fl x = None \<longleftrightarrow> map_of fl x = None"
  by (induction p off fl x rule: entry_pos.induct) auto

lemma entry_pos_found:
  assumes "laid d p off fl" and "readable off fl" and "entry_pos p off fl x = Some (q, o')" and "4096 dvd off"
  shows "\<exists>c. map_of fl x = Some c \<and> read_fhdr d q = Inr (entry_hdr o' x c) \<and> 4096 dvd o' \<and>
    unat (fsize (entry_hdr o' x c)) = length c \<and> unat (foffset (entry_hdr o' x c)) = o' \<and>
    take (length c) (drop o' d) = c"
  using assms
proof (induction p off fl x rule: entry_pos.induct)
  case (2 p off n c fl x)
  show ?case
  proof (cases "n = x")
    case True
    then have h: "0 \<notin> set n" "length n + 1 < 4294967296" "off + length c < 4294967296" "q = p" "o' = off"
      using 2 by simp_all
    then show ?thesis
      using laid_first(1,5) [OF "2.prems"(1) h(1-3)] entry_hdr_sel(1,2) [OF h(2,3)] True "2.prems"(4) by simp
  next
    case False
    have "4096 dvd off + pal (length c)" using "2.prems"(4) by (simp add: pal_def)
    then show ?thesis using "2.IH" [OF False] "2.prems" False by simp
  qed
qed simp

fun listing :: "nat \<Rightarrow> (u8 list \<times> u8 list) list \<Rightarrow> (u8 list \<times> u32 \<times> u32) list" where
  "listing off [] = []"
| "listing off ((n, c) # fl) = (n, of_nat (length c), of_nat off) # listing (off + pal (length c)) fl"

lemma list_laid:
  assumes "laid d p off fl" and "readable off fl" and "seg d (hend p fl) (replicate 12 0)"
  shows "list_from d p = Inr (listing off fl)"
  using assms
proof (induction d p off fl rule: laid.induct)
  case (1 d p off)
  then show ?case using read_end [of d p] by (subst list_from.simps) simp
next
  case (2 d p off n c fl)
  then have h: "0 \<notin> set n" "length n + 1 < 4294967296" "off + length c < 4294967296" by simp_all
  note f = laid_first [OF "2.prems"(1) h]
  have "list_from d (p + 13 + length n) = Inr (listing (off + pal (length c)) fl)"
    using "2.IH" "2.prems" by simp
  then show ?case
    using f(1-4) entry_hdr_sel(4) [OF h(2,3)] by (subst list_from.simps) (simp add: entry_hdr_def)
qed

definition unpack :: "fsys \<Rightarrow> u8 list \<times> u8 list \<Rightarrow> fsys" where
  "unpack fs e = fs(fst e \<mapsto> snd e)"

lemma extract_laid:
  assumes "laid d p off fl" and "readable off fl" and "seg d (hend p fl) (replicate 12 0)"
  shows "extract_from d p fs = Inr (foldl unpack fs fl)"
  using assms
proof (induction d p off fl arbitrary: fs rule: laid.induct)
  case (1 d p off)
  then show ?case using read_end [of d p] by (subst extract_from.simps) simp
next
  case (2 d p off n c fl)
  then have h: "0 \<notin> set n" "length n + 1 < 4294967296" "off + length c < 4294967296" by simp_all
  note f = laid_first [OF "2.prems"(1) h] and e = entry_hdr_sel [OF h(2,3)]
  have c: "\<not> (fsize (entry_hdr off n c) \<noteq> 0 \<and> length d < off + length c)"
    using f(6) by (cases "c = []") (auto simp: entry_hdr_def)
  have "extract_from d (p + 13 + length n) (fs(n \<mapsto> c)) = Inr (foldl unpack (fs(n \<mapsto> c)) fl)"
    using "2.IH" "2.prems" by simp
  then show ?case
    using f(1-5) e c by (subst extract_from.simps) (simp add: unpack_def)
qed

lemma foldl_upd_map_of: "foldl unpack fs fl x = (case map_of (rev fl) x of None \<Rightarrow> fs x | Some c \<Rightarrow> Some c)"
  by (induction fl arbitrary: fs rule: rev_induct) (auto simp: unpack_def split: prod.splits)

subsection \<open>The whole archive\<close>

definition hdr_total :: "u8 list list \<Rightarrow> nat" where
  "hdr_total paths = pal (16 + sum_list (map (\<lambda>p. 13 + length (base_name p)) paths))"

lemma hdr_total_word:
  assumes "hdr_total paths < 4294967296"
  shows "total_hdr_size paths = of_nat (hdr_total paths)"
proof -
  let ?n = "16 + sum_list (map (\<lambda>p. 13 + length (base_name p)) paths)"
  have "foldl (\<lambda>t path. t + of_nat SIZEOF_SAR_FILE + of_nat (length (base_name path) + 1)) x paths =
      x + (of_nat (sum_list (map (\<lambda>p. 13 + length (base_name p)) paths)) :: u32)" for x
    by (induction paths arbitrary: x) (simp_all add: SIZEOF_SAR_FILE_def algebra_simps)
  then have t: "total_hdr_size paths = PALIGN (of_nat ?n)"
    by (simp add: total_hdr_size_def SIZEOF_SAR_HEADER_def SIZEOF_SAR_FILE_def algebra_simps)
  have "?n < 4294967296" using assms pal_ge [of ?n] unfolding hdr_total_def by linarith
  then have u: "unat (of_nat ?n :: u32) = ?n" by (simp add: unat_of_nat take_bit_eq_mod del: of_nat_add)
  have "unat (PALIGN (of_nat ?n)) = hdr_total paths"
    using unat_PALIGN [of "of_nat ?n"] assms unfolding u hdr_total_def by blast
  then show ?thesis unfolding t using assms by (simp add: u32_eq_iff unat_of_nat take_bit_eq_mod del: of_nat_add)
qed

lemma hend_present: "hend p (present fs paths) + 12 \<le> p + 12 + sum_list (map (\<lambda>p. 13 + length (base_name p)) paths)"
proof (induction paths arbitrary: p)
  case (Cons q paths)
  show ?case using Cons.IH [of p] Cons.IH [of "p + 13 + length (base_name q)"] by (auto split: option.splits)
qed simp

lemma readable_cend:
  "cend off fl < 4294967296 \<Longrightarrow> hend p fl < 4294967296 \<Longrightarrow> \<forall>(n, c) \<in> set fl. 0 \<notin> set n \<Longrightarrow> readable off fl"
proof (induction off fl arbitrary: p rule: readable.induct)
  case (2 off n c fl)
  have "off + pal (length c) < 4294967296" using "2.prems"(1) cend_ge [of "off + pal (length c)" fl] by simp
  moreover have "p + 13 + length n < 4294967296" using "2.prems"(2) hend_ge [of "p + 13 + length n" fl] by simp
  ultimately show ?case using "2.IH" [of "p + 13 + length n"] "2.prems" pal_ge [of "length c"] by auto
qed simp

lemma present_names: "\<forall>q \<in> set paths. 0 \<notin> set (base_name q) \<Longrightarrow> \<forall>(n, c) \<in> set (present fs paths). 0 \<notin> set n"
  by (induction paths) (auto split: option.splits)

text \<open>The archive that \<open>create\<close> writes.\<close>

lemma create_archive:
  assumes mok: "\<forall>r. mok r" and ne: "paths \<noteq> []" and arch: "arch \<notin> set paths"
    and names: "\<forall>q \<in> set paths. 0 \<notin> set (base_name q)"
    and fit: "cend (hdr_total paths) (present fs paths) < 4294967296"
  obtains d where "create mok (arch # paths) fs = Inr (0, fs(arch \<mapsto> d))"
    and "laid d 4 (hdr_total paths) (present fs paths)" and "readable (hdr_total paths) (present fs paths)"
    and "seg d (hend 4 (present fs paths)) (replicate 12 0)" and "seg d 0 (le32 SAR_MAGIC)"
proof -
  let ?fl = "present fs paths" and ?H = "hdr_total paths"
  let ?s0 = "a_write arch (le32 SAR_MAGIC) \<lparr>sfs = fs(arch \<mapsto> []), apos = 0\<rparr>"
  have gap: "hend 4 ?fl + 12 \<le> ?H"
    using hend_present [of 4 fs paths] pal_ge [of "16 + sum_list (map (\<lambda>p. 13 + length (base_name p)) paths)"]
    unfolding hdr_total_def by linarith
  have H: "?H < 4294967296" using fit cend_ge [of ?H ?fl] by linarith
  have m: "le32 SAR_MAGIC \<noteq> []" by (simp add: le32_def)
  have s0: "apos ?s0 = 4" "present (sfs ?s0) paths = ?fl" "seg (a_data arch ?s0) 0 (le32 SAR_MAGIC)"
    "\<And>q. q \<noteq> arch \<Longrightarrow> sfs ?s0 q = fs q"
  proof -
    show "apos ?s0 = 4" by (simp add: a_write_def length_le32)
    have "sfs ?s0 = fs(arch \<mapsto> patch 0 (le32 SAR_MAGIC) [])" using m by (simp add: a_write_def a_pwrite_def a_data_def)
    then show "present (sfs ?s0) paths = ?fl" "\<And>q. q \<noteq> arch \<Longrightarrow> sfs ?s0 q = fs q" using present_upd [OF arch] by simp_all
    show "seg (a_data arch ?s0) 0 (le32 SAR_MAGIC)"
      using a_pwrite_seg_same [OF m, of arch 0] by (simp add: a_write_def a_data_def)
  qed
  obtain st where st: "create_loop mok arch paths ?s0 (of_nat ?H) (of_nat 4) = Inr (Inr (st, of_nat (hend 4 ?fl)))"
    "laid (a_data arch st) 4 ?H ?fl" "\<forall>q. q \<noteq> arch \<longrightarrow> sfs st q = sfs ?s0 q"
    "\<forall>q bs. seg (a_data arch ?s0) q bs \<longrightarrow> q + length bs \<le> 4 \<or> hend 4 ?fl \<le> q \<and> q + length bs \<le> ?H \<longrightarrow>
       seg (a_data arch st) q bs"
    using create_loop_laid [OF mok arch s0(2,1) _ fit] gap by auto
  let ?z = "replicate 12 0 :: u8 list"
  define d where "d = patch (hend 4 ?fl) ?z (a_data arch st)"
  have u: "unat (of_nat (hend 4 ?fl) :: u32) = hend 4 ?fl" using gap H by (simp add: unat_of_nat take_bit_eq_mod)
  have fs': "sfs (a_pwrite arch (hend 4 ?fl) ?z st) = fs(arch \<mapsto> d)"
  proof
    fix q show "sfs (a_pwrite arch (hend 4 ?fl) ?z st) q = (fs(arch \<mapsto> d)) q"
      using st(3) s0(4) by (cases "q = arch") (auto simp: a_pwrite_def d_def)
  qed
  obtain p ps where pp: "paths = p # ps" using ne by (cases paths) auto
  have cr: "create mok (arch # paths) fs =
      kbind (create_loop mok arch paths ?s0 (total_hdr_size paths) (of_nat SIZEOF_SAR_HEADER)) (\<lambda>r.
        case r of Inl (code, st) \<Rightarrow> Inr (code, sfs st)
        | Inr (st, last_fhdr_addr) \<Rightarrow>
            Inr (0, sfs (a_pwrite arch (unat last_fhdr_addr) (replicate SIZEOF_SAR_FILE 0) st)))"
    unfolding create_def pp list.case Let_def ..
  have "create mok (arch # paths) fs = Inr (0, fs(arch \<mapsto> d))"
    unfolding cr hdr_total_word [OF H] SIZEOF_SAR_HEADER_def st(1) SIZEOF_SAR_FILE_def
    using fs' u by simp
  moreover have "laid d 4 ?H ?fl" unfolding d_def by (rule laid_patch [OF st(2)]) (use gap in simp_all)
  moreover have "readable ?H ?fl"
    using readable_cend [OF fit _ present_names [OF names], of 4] gap H by simp
  moreover have "seg d (hend 4 ?fl) ?z" unfolding d_def by (rule seg_patch_same)
  moreover have "seg d 0 (le32 SAR_MAGIC)"
    unfolding d_def using st(4) s0(3) hend_ge [of 4 ?fl]
    by (intro seg_patch_other) (auto simp: length_le32)
  ultimately show ?thesis by (rule that)
qed

section \<open>Properties\<close>

text \<open>
  C27. The kernel finds what the tool packed.  When the archive fits in 4 GiB, is not one of
  its own members and memory suffices, \<open>create\<close> returns 0 and changes no other file; and for
  every name, \<open>sar_lookup\<close> on the archive finds the first existing file with that base name:
  the header it returns has the size of the file and a page-aligned offset at which the
  contents are.  A name that is not in the archive is reported as missing, and
  \<open>sar_get_contents\<close> returns the offset.
\<close>

theorem sar_lookup_create:
  assumes "\<forall>r. mok r" and "paths \<noteq> []" and "arch \<notin> set paths"
    and "\<forall>q \<in> set paths. 0 \<notin> set (base_name q)"
    and "cend (hdr_total paths) (present fs paths) < 4294967296" and "0 \<notin> set x"
  shows "\<exists>d. create mok (arch # paths) fs = Inr (0, fs(arch \<mapsto> d)) \<and>
    (case map_of (present fs paths) x of
       None \<Rightarrow> sar_lookup d (x @ [0]) = Inr None \<and> sar_get_contents d (x @ [0]) = Inr None
     | Some c \<Rightarrow> \<exists>p h. sar_lookup d (x @ [0]) = Inr (Some p) \<and> read_fhdr d p = Inr h \<and>
         sar_get_contents d (x @ [0]) = Inr (Some (foffset h)) \<and>
         unat (fsize h) = length c \<and> 4096 dvd unat (foffset h) \<and>
         take (unat (fsize h)) (drop (unat (foffset h)) d) = c)"
proof -
  let ?fl = "present fs paths" and ?H = "hdr_total paths"
  obtain d where d: "create mok (arch # paths) fs = Inr (0, fs(arch \<mapsto> d))" "laid d 4 ?H ?fl" "readable ?H ?fl"
    "seg d (hend 4 ?fl) (replicate 12 0)" by (rule create_archive [OF assms(1-5)]) (rule that)
  have lk: "sar_lookup d (x @ [0]) = Inr (map_option fst (entry_pos 4 ?H ?fl x))"
    using lookup_laid [OF d(2-4) assms(6)] by (simp add: sar_lookup_def SIZEOF_SAR_HEADER_def)
  show ?thesis
  proof (cases "entry_pos 4 ?H ?fl x")
    case None
    then have "map_of ?fl x = None" by (simp add: entry_pos_map_of)
    then show ?thesis using d(1) lk None by (auto simp: sar_get_contents_def)
  next
    case (Some r)
    then obtain q o' where e: "entry_pos 4 ?H ?fl x = Some (q, o')" by (cases r) auto
    have "4096 dvd ?H" by (simp add: hdr_total_def pal_def)
    from entry_pos_found [OF d(2,3) e this] obtain c where c: "map_of ?fl x = Some c"
      "read_fhdr d q = Inr (entry_hdr o' x c)" "4096 dvd o'" "unat (fsize (entry_hdr o' x c)) = length c"
      "unat (foffset (entry_hdr o' x c)) = o'" "take (length c) (drop o' d) = c" by blast
    show ?thesis
      by (rule exI [of _ d]) (use d(1) lk e c in \<open>auto simp: sar_get_contents_def\<close>)
  qed
qed

definition demo_fs :: fsys where
  "demo_fs = [[0x62, 0x2f, 0x61] \<mapsto> [1, 2, 3], [0x63] \<mapsto> [4]]"

lemma demo_present:
  "present demo_fs [[0x62, 0x2f, 0x61], [0x63]] = [([0x61], [1, 2, 3]), ([0x63], [4])]"
  "hdr_total [[0x62, 0x2f, 0x61], [0x63]] = 4096"
  by (simp_all add: demo_fs_def base_name_def hdr_total_def pal_def)

theorem sar_lookup_create_witness:
  "\<exists>d p h. create (\<lambda>_. True) [[0x7a], [0x62, 0x2f, 0x61], [0x63]] demo_fs = Inr (0, demo_fs([0x7a] \<mapsto> d)) \<and>
     sar_lookup d [0x61, 0] = Inr (Some p) \<and> read_fhdr d p = Inr h \<and>
     take (unat (fsize h)) (drop (unat (foffset h)) d) = [1, 2, 3]"
proof -
  let ?ps = "[[0x62, 0x2f, 0x61], [0x63]] :: u8 list list"
  have h: "\<forall>r. (\<lambda>_. True) (r :: u32)" "?ps \<noteq> []" "[0x7a] \<notin> set ?ps"
    "\<forall>q \<in> set ?ps. 0 \<notin> set (base_name q)" "cend (hdr_total ?ps) (present demo_fs ?ps) < 4294967296"
    "0 \<notin> set [0x61 :: u8]"
    unfolding demo_present by (simp_all add: base_name_def pal_def)
  from sar_lookup_create [OF h] show ?thesis unfolding demo_present by auto
qed

text \<open>
  C28. Archives round trip through the tool: under the same conditions \<open>extract\<close> applied to a
  created archive writes, for every packed file, its contents under its base name (the
  last one packed under a name wins) and changes no other file, and \<open>list\<close> prints exactly
  the packed names with their sizes and offsets, in order.
\<close>

theorem sar_extract_create:
  assumes "\<forall>r. mok r" and "paths \<noteq> []" and "arch \<notin> set paths"
    and "\<forall>q \<in> set paths. 0 \<notin> set (base_name q)"
    and "cend (hdr_total paths) (present fs paths) < 4294967296"
  shows "\<exists>fs1 fs2. create mok (arch # paths) fs = Inr (0, fs1) \<and> extract_archives mok [arch] fs1 = Inr (0, fs2) \<and>
    (\<forall>x. fs2 x = (case map_of (rev (present fs paths)) x of Some c \<Rightarrow> Some c | None \<Rightarrow> fs1 x)) \<and>
    list_archives mok [arch] fs1 = Inr (0, listing (hdr_total paths) (present fs paths))"
proof -
  let ?fl = "present fs paths" and ?H = "hdr_total paths"
  obtain d where d: "create mok (arch # paths) fs = Inr (0, fs(arch \<mapsto> d))" "laid d 4 ?H ?fl" "readable ?H ?fl"
    "seg d (hend 4 ?fl) (replicate 12 0)" by (rule create_archive [OF assms(1-5)]) (rule that)
  let ?fs2 = "foldl unpack (fs(arch \<mapsto> d)) ?fl"
  have "extract_archives mok [arch] (fs(arch \<mapsto> d)) = Inr (0, ?fs2)"
    using extract_laid [OF d(2-4), of "fs(arch \<mapsto> d)"] assms(1) by (simp add: SIZEOF_SAR_HEADER_def)
  moreover have "list_archives mok [arch] (fs(arch \<mapsto> d)) = Inr (0, listing ?H ?fl)"
    using list_laid [OF d(2-4)] assms(1) by (simp add: SIZEOF_SAR_HEADER_def)
  moreover have "\<forall>x. ?fs2 x = (case map_of (rev ?fl) x of Some c \<Rightarrow> Some c | None \<Rightarrow> (fs(arch \<mapsto> d)) x)"
    by (simp only: foldl_upd_map_of option.case_eq_if) simp
  ultimately show ?thesis using d(1) by blast
qed

theorem sar_extract_create_witness:
  "\<exists>fs1 fs2. create (\<lambda>_. True) [[0x7a], [0x62, 0x2f, 0x61], [0x63]] demo_fs = Inr (0, fs1) \<and>
     extract_archives (\<lambda>_. True) [[0x7a]] fs1 = Inr (0, fs2) \<and> fs2 [0x61] = Some [1, 2, 3]"
proof -
  let ?ps = "[[0x62, 0x2f, 0x61], [0x63]] :: u8 list list"
  have h: "\<forall>r. (\<lambda>_. True) (r :: u32)" "?ps \<noteq> []" "[0x7a] \<notin> set ?ps"
    "\<forall>q \<in> set ?ps. 0 \<notin> set (base_name q)" "cend (hdr_total ?ps) (present demo_fs ?ps) < 4294967296"
    unfolding demo_present by (simp_all add: base_name_def pal_def)
  from sar_extract_create [OF h] obtain fs1 fs2 where e:
    "create (\<lambda>_. True) ([0x7a] # ?ps) demo_fs = Inr (0, fs1)" "extract_archives (\<lambda>_. True) [[0x7a]] fs1 = Inr (0, fs2)"
    "\<forall>x. fs2 x = (case map_of (rev (present demo_fs ?ps)) x of Some c \<Rightarrow> Some c | None \<Rightarrow> fs1 x)" by blast
  from e(3) [rule_format, of "[0x61]"] have "fs2 [0x61] = Some [1, 2, 3]" unfolding demo_present by simp
  with e(1,2) show ?thesis by blast
qed

end
