(* ===== verification/Aspace.thy ===== *)
theory Aspace
  imports Vmm
begin

unbundle bit_operations_syntax

text \<open>
  Address spaces seen from the loaders: a partial map from virtual pages to frames, and a
  memory of which only the bytes outside the page tables and the free frames count.

  \<^verbatim>\<open>map_page\<close> neither clears a new page table nor checks whether memory is left, so a loader can
  rely on it only in a clean state: the page tables are well formed, and the free frames are
  zero and not part of the page tables.  In such states \<open>map_page\<close> is an update of the
  partial map, whether or not the page table exists, at the price of at most one free frame,
  and no byte that counts changes.  The locale \<open>page_mapper\<close> states that contract, proves
  from it what mapping a list of pages does, and is interpreted on \<open>map_page\<close>.
\<close>

section \<open>Definitions\<close>

definition user_page :: "u32 \<Rightarrow> bool" where
  "user_page v \<longleftrightarrow> page_aligned v \<and> vm_pdir_idx v \<noteq> 1023"

definition page_look :: "vms \<Rightarrow> u32 \<Rightarrow> u32 option" where
  "page_look s v =
     (if user_page v then case translate (vmmu s) v of Inl _ \<Rightarrow> None | Inr p \<Rightarrow> Some p else None)"

definition free_frames :: "vms \<Rightarrow> nat set" where
  "free_frames s = {n. n < PM_NPAGES \<and> \<not> pm_used (vpm s) n}"

definition spare_byte :: "vms \<Rightarrow> u32 \<Rightarrow> bool" where
  "spare_byte s q \<longleftrightarrow> (\<exists>n \<in> free_frames s. q AND 0xfffff000 = pm_page (vpm s) n)"

definition byte_at :: "vms \<Rightarrow> u32 \<Rightarrow> u8 option" where
  "byte_at s q = (if q \<in> walk_bytes (vmmu s) \<or> spare_byte s q then None else Some (mem (vmmu s) q))"

definition clean :: "vms \<Rightarrow> bool" where
  "clean s \<longleftrightarrow> pt_ok (vmmu s) \<and> page_aligned (pm_page_pool (vpm s)) \<and>
     (\<forall>q. spare_byte s q \<longrightarrow> mem (vmmu s) q = 0 \<and> q \<notin> walk_bytes (vmmu s))"

definition room :: "vms \<Rightarrow> nat" where
  "room s = card (free_frames s)"

text \<open>A byte at a virtual address, and the words at it; \<open>None\<close> where it does not count.\<close>

definition vbyte :: "vms \<Rightarrow> u32 \<Rightarrow> u8 option" where
  "vbyte s a =
     (case page_look s (a AND 0xfffff000) of None \<Rightarrow> None | Some p \<Rightarrow> byte_at s (p + (a AND 0xfff)))"

text \<open>
  What the entries of a mapped page allow, as the processor combines them: writing, and access from
  ring 3 (\<open>u\<close>) or, by the entry of the page, from ring 0 only.
\<close>

definition page_access :: "bool \<Rightarrow> vms \<Rightarrow> u32 \<Rightarrow> bool" where
  "page_access u s v \<longleftrightarrow>
     (let pde = pde_of (vmmu s) (vm_pdir_idx v); pte = pte_of (vmmu s) (vm_pdir_idx v) (vm_ptab_idx v) in
      pde AND pte AND PTE_W \<noteq> 0 \<and> (if u then pde AND pte AND PTE_U \<noteq> 0 else pte AND PTE_U = 0))"

fun map_list :: "('f \<Rightarrow> u32 \<Rightarrow> u32 \<Rightarrow> 's \<Rightarrow> 's res) \<Rightarrow> 'f \<Rightarrow> (u32 \<times> u32) list \<Rightarrow> 's \<Rightarrow> 's res" where
  "map_list map1 f [] s = Inr s"
| "map_list map1 f ((v, p) # l) s = kbind (map1 f p v s) (map_list map1 f l)"

section \<open>Lemmas\<close>

lemma finite_free_frames [simp]: "finite (free_frames s)"
  unfolding free_frames_def by (rule finite_subset [of _ "{..<PM_NPAGES}"]) auto

lemma user_page_of: "vm_pdir_idx a \<noteq> 1023 \<Longrightarrow> user_page (a AND 0xfffff000)"
proof -
  have "(a AND 0xfffff000) AND 0xfffff000 = a AND 0xfffff000" by (simp add: and.assoc)
  then have "vm_pdir_idx (a AND 0xfffff000) = vm_pdir_idx a" using same_page_iff by blast
  then show "vm_pdir_idx a \<noteq> 1023 \<Longrightarrow> user_page (a AND 0xfffff000)" by (simp add: user_page_def)
qed

lemma user_page_self: "user_page v \<Longrightarrow> v AND 0xfffff000 = v" "user_page v \<Longrightarrow> v AND 0xfff = 0"
  using PALIGNDOWN_aligned [of v] by (simp_all add: user_page_def PALIGNDOWN_eq page_aligned_def)

lemma page_look_None:
  "user_page v \<Longrightarrow> page_look s v = None \<longleftrightarrow> translate (vmmu s) v = Inl (PageFault v)"
  by (auto simp: page_look_def translate_def)

lemma page_look_translate:
  assumes "page_look s (a AND 0xfffff000) = Some p"
  shows "translate (vmmu s) a = Inr (p + (a AND 0xfff))" and "page_aligned p"
proof -
  let ?v = "a AND 0xfffff000"
  have v: "user_page ?v" "translate (vmmu s) ?v = Inr p"
    using assms by (auto simp: page_look_def split: if_splits sum.splits)
  then show p: "page_aligned p"
    using user_page_self(2) [OF v(1)] by (auto simp: translate_def split: if_splits)
  then have "p AND 0xfffff000 = p" using PALIGNDOWN_aligned [of p] by (simp add: PALIGNDOWN_eq)
  then show "translate (vmmu s) a = Inr (p + (a AND 0xfff))"
    using translate_same_page [OF v(2), of a] by (simp add: and.assoc)
qed

lemma vbyte_load: "vbyte s a = Some b \<Longrightarrow> vload8 (vmmu s) a = Inr b"
  by (auto simp: vbyte_def vload8_def byte_at_def page_look_translate(1) split: option.splits if_splits)

lemma vbyte_mono:
  assumes "page_look s \<subseteq>\<^sub>m page_look s'" and "byte_at s \<subseteq>\<^sub>m byte_at s'" and "vbyte s a = Some b"
  shows "vbyte s' a = Some b"
proof -
  obtain p where p: "page_look s (a AND 0xfffff000) = Some p" "byte_at s (p + (a AND 0xfff)) = Some b"
    using assms(3) by (auto simp: vbyte_def split: option.splits)
  then have "page_look s' (a AND 0xfffff000) = Some p" "byte_at s' (p + (a AND 0xfff)) = Some b"
    using assms(1,2) by (metis domI map_le_def)+
  then show ?thesis by (simp add: vbyte_def)
qed

subsection \<open>Access rights\<close>

lemma and_flag_bit: "(x :: u32) AND 2 = 0 \<longleftrightarrow> \<not> bit x 1" "x AND 4 = 0 \<longleftrightarrow> \<not> bit x 2"
proof -
  have "(2 :: u32) = 2 ^ 1" "(4 :: u32) = 2 ^ 2" by simp_all
  then show "x AND 2 = 0 \<longleftrightarrow> \<not> bit x 1" "x AND 4 = 0 \<longleftrightarrow> \<not> bit x 2"
    by (simp_all only: bit_iff_and_push_bit_not_eq_0 push_bit_of_1 not_not)
qed

lemma page_access_bits:
  "page_access u s v \<longleftrightarrow>
     (let pde = pde_of (vmmu s) (vm_pdir_idx v); pte = pte_of (vmmu s) (vm_pdir_idx v) (vm_ptab_idx v) in
      bit pde 1 \<and> bit pte 1 \<and> (if u then bit pde 2 \<and> bit pte 2 else \<not> bit pte 2))"
  by (simp add: page_access_def Let_def flag_defs and.assoc [symmetric] and_flag_bit bit_and_iff)

text \<open>
  The two entries written by \<open>map_page\<close>: the new page gets the flags; the others keep theirs, or
  gain some in their directory entry.
\<close>

lemma page_access_written:
  assumes ok: "pt_ok (vmmu s)" and i: "vm_pdir_idx v \<noteq> 1023" and ok1: "pt_ok (set_pde (vmmu s) (vm_pdir_idx v) d)"
    and ht1: "has_table (set_pde (vmmu s) (vm_pdir_idx v) d) (vm_pdir_idx v)"
    and d: "\<And>n. bit (entry_flags f) n \<Longrightarrow> bit d n"
    and old: "has_table (vmmu s) (vm_pdir_idx v) \<Longrightarrow> d AND 0xfffff000 = table_of (vmmu s) (vm_pdir_idx v) \<and>
      (\<forall>n. bit (pde_of (vmmu s) (vm_pdir_idx v)) n \<longrightarrow> bit d n)"
    and nl: "page_look s v = None" and v: "user_page v"
    and s': "vmmu s' = set_pte (set_pde (vmmu s) (vm_pdir_idx v) d) (vm_pdir_idx v) (vm_ptab_idx v) (PALIGNDOWN p OR entry_flags f)"
  shows "page_access (f AND PTE_U \<noteq> 0) s' v"
    and "page_look s w \<noteq> None \<Longrightarrow> page_access b s w \<Longrightarrow> page_access b s' w"
proof -
  let ?m = "vmmu s" and ?i = "vm_pdir_idx v" and ?j = "vm_ptab_idx v" and ?e = "PALIGNDOWN p OR entry_flags f"
  let ?m1 = "set_pde ?m ?i d"
  have lt: "?i < 1024" "?i < 1023" "?j < 1024" using i vm_pdir_idx_less vm_ptab_idx_less by (auto simp: less_1023)
  have pde: "pde_of (vmmu s') k = (if k = ?i then d else pde_of ?m k)" if "k < 1024" for k
    using pde_of_set_pte [OF ok1 ht1 lt(3) that] pde_of_set_pde [OF lt(1) that] by (simp add: s')
  have pte: "pte_of (vmmu s') k l = (if k = ?i \<and> l = ?j then ?e else pte_of ?m1 k l)"
    if "has_table ?m1 k" "l < 1024" for k l
    using pte_of_set_pte [OF ok1 ht1 lt(3) that] by (simp add: s')
  have e: "bit ?e 1" "bit ?e 2 = (f AND PTE_U \<noteq> 0)" "bit d 1" "f AND PTE_U \<noteq> 0 \<Longrightarrow> bit d 2"
    using d [of 1] d [of 2]
    by (auto simp: entry_flags_def flag_defs bit_or_iff and_flag_bit PALIGNDOWN_eq bit_and_iff)
  show "page_access (f AND PTE_U \<noteq> 0) s' v"
    using e pde [OF lt(1)] pte [OF ht1 lt(3)] by (simp add: page_access_bits)
  assume w: "page_look s w \<noteq> None" "page_access b s w"
  let ?k = "vm_pdir_idx w" and ?l = "vm_ptab_idx w"
  have up: "user_page w" using w(1) by (auto simp: page_look_def split: if_splits)
  have ht: "has_table ?m ?k"
    using w(1) up vm_pdir_idx_less [of w]
    by (auto simp: page_look_def has_table_def translate_def user_page_def less_1023 split: if_splits)
  have ne: "\<not> (?k = ?i \<and> ?l = ?j)"
  proof
    assume "?k = ?i \<and> ?l = ?j"
    then have "w = v" using same_page_iff [of w v] user_page_self(1) [OF up] user_page_self(1) [OF v] by simp
    then show False using w(1) nl by simp
  qed
  have p1: "pte_of ?m1 ?k ?l = pte_of ?m ?k ?l"
    by (rule pte_of_set_pde_other [OF ok lt(2) ht vm_ptab_idx_less]) (use old ht in simp)
  have "has_table ?m1 ?k" using ht ht1 by (cases "?k = ?i") (auto simp: has_table_set_pde [OF lt(2)])
  then have p: "pte_of (vmmu s') ?k ?l = pte_of ?m ?k ?l" using pte vm_ptab_idx_less ne p1 by auto
  have q: "bit (pde_of ?m ?k) n \<Longrightarrow> bit (pde_of (vmmu s') ?k) n" for n
    using pde [OF vm_pdir_idx_less] old ht by auto
  show "page_access b s' w" using w(2) p q by (auto simp: page_access_bits Let_def split: if_splits)
qed
definition keeps_access :: "vms \<Rightarrow> vms \<Rightarrow> bool" where
  "keeps_access s s' \<longleftrightarrow> (\<forall>b w. page_look s w \<noteq> None \<longrightarrow> page_access b s w \<longrightarrow> page_access b s' w)"

subsection \<open>map\_page in a clean state\<close>

lemma page_lookI:
  assumes v: "user_page v" and p: "page_aligned p"
    and tr: "\<And>w. vm_pdir_idx w \<noteq> 1023 \<Longrightarrow> translate (vmmu s') w =
      (if w AND 0xfffff000 = v AND 0xfffff000 then Inr (PALIGNDOWN p + (w AND 0xfff))
       else translate (vmmu s) w)"
  shows "page_look s' = (page_look s)(v \<mapsto> p)"
proof
  fix w show "page_look s' w = ((page_look s)(v \<mapsto> p)) w"
  proof (cases "user_page w")
    case True
    then have w: "vm_pdir_idx w \<noteq> 1023" by (simp add: user_page_def)
    show ?thesis
      using tr [OF w] True v user_page_self [OF True] user_page_self [OF v] PALIGNDOWN_aligned [OF p]
      by (auto simp: page_look_def)
  next
    case False
    with v show ?thesis by (auto simp: page_look_def)
  qed
qed

lemma map_page_clean_old:
  assumes cl: "clean s" and f: "low_flags f" and v: "user_page v" and p: "page_aligned p"
    and nl: "page_look s v = None" and ht: "has_table (vmmu s) (vm_pdir_idx v)"
  shows "\<exists>s'. map_page p v f s = Inr s' \<and> clean s' \<and> page_look s' = (page_look s)(v \<mapsto> p) \<and>
    vpm s' = vpm s \<and> byte_at s' = byte_at s \<and> page_access (f AND PTE_U \<noteq> 0) s' v \<and> keeps_access s s'"
proof -
  have ok: "pt_ok (vmmu s)" using cl by (simp add: clean_def)
  have tr: "translate (vmmu s) v = Inl (PageFault v)" using nl page_look_None [OF v] by simp
  obtain s' where s': "map_page p v f s = Inr s'" "vpm s' = vpm s" "pt_ok (vmmu s')"
    "walk_bytes (vmmu s') = walk_bytes (vmmu s)"
    "\<And>w. vm_pdir_idx w \<noteq> 1023 \<Longrightarrow> translate (vmmu s') w =
        (if w AND 0xfffff000 = v AND 0xfffff000 then Inr (PALIGNDOWN p + (w AND 0xfff))
         else translate (vmmu s) w)"
    "\<And>q. q \<notin> walk_bytes (vmmu s) \<Longrightarrow> mem (vmmu s') q = mem (vmmu s) q"
    by (rule map_page_absent [OF ok ht f tr]) (rule that)
  have sp: "spare_byte s' = spare_byte s" by (simp add: fun_eq_iff spare_byte_def free_frames_def s'(2))
  have "clean s'" using cl s'(2-4,6) sp by (auto simp: clean_def)
  moreover have "byte_at s' = byte_at s" using s'(4,6) sp by (auto simp: byte_at_def fun_eq_iff)
  moreover have "page_access (f AND PTE_U \<noteq> 0) s' v" "keeps_access s s'"
  proof -
    let ?d = "pde_of (vmmu s) (vm_pdir_idx v) OR entry_flags f"
    have i: "vm_pdir_idx v \<noteq> 1023" using v by (simp add: user_page_def)
    have m: "vmmu s' = set_pte (set_pde (vmmu s) (vm_pdir_idx v) ?d) (vm_pdir_idx v) (vm_ptab_idx v) (PALIGNDOWN p OR entry_flags f)"
      using map_page_existing_table [OF ok ht f, of p] pte_absent_iff [OF ht] tr s'(1) by auto
    have k: "pt_ok (set_pde (vmmu s) (vm_pdir_idx v) ?d)" "has_table (set_pde (vmmu s) (vm_pdir_idx v) ?d) (vm_pdir_idx v)"
      using set_pde_keeps_table(1,2) [OF ok ht f] ht by simp_all
    have d: "?d AND 0xfffff000 = table_of (vmmu s) (vm_pdir_idx v)" using entry_flags_page [OF f] by (simp add: table_of_def)
    have w: "page_access (f AND PTE_U \<noteq> 0) s' v \<and> (page_look s w \<noteq> None \<longrightarrow> page_access b s w \<longrightarrow> page_access b s' w)" for b w
      using page_access_written [OF ok i k _ _ nl v m] d by (auto simp: bit_or_iff)
    then show "page_access (f AND PTE_U \<noteq> 0) s' v" "keeps_access s s'" by (simp_all add: keeps_access_def)
  qed
  ultimately show ?thesis using s'(1,2) page_lookI [OF v p s'(5)] by blast
qed

lemma walk_bytes_new_table:
  assumes "i < 1024" and "e AND PDE_P \<noteq> 0" and "pde_of m i AND PDE_P = 0"
  shows "walk_bytes (set_pde m i e) = walk_bytes m \<union> {q. q AND 0xfffff000 = e AND 0xfffff000}"
  unfolding walk_bytes_def pd_base_set
  using assms pde_of_set_pde [OF assms(1), of _ m e] table_of_set_pde [OF assms(1), of _ m e]
  by (auto split: if_splits)

lemma map_page_clean_new:
  assumes cl: "clean s" and f: "low_flags f" and v: "user_page v" and p: "page_aligned p"
    and nl: "page_look s v = None"
    and nt: "pde_of (vmmu s) (vm_pdir_idx v) AND PDE_P = 0" and al: "pm_alloc (vpm s) = Inr (t, pm')"
    and t: "page_aligned t" "\<And>q. q AND 0xfffff000 = t \<Longrightarrow> mem (vmmu s) q = 0 \<and> q \<notin> walk_bytes (vmmu s)"
  shows "\<exists>s'. map_page p v f s = Inr s' \<and> vpm s' = pm' \<and> pt_ok (vmmu s') \<and>
    page_look s' = (page_look s)(v \<mapsto> p) \<and>
    walk_bytes (vmmu s') = walk_bytes (vmmu s) \<union> {q. q AND 0xfffff000 = t} \<and>
    (\<forall>q. q \<notin> walk_bytes (vmmu s') \<longrightarrow> mem (vmmu s') q = mem (vmmu s) q) \<and>
    page_access (f AND PTE_U \<noteq> 0) s' v \<and> keeps_access s s'"
proof -
  let ?m = "vmmu s" and ?i = "vm_pdir_idx v" and ?d = "t OR entry_flags f" and ?e = "PALIGNDOWN p OR entry_flags f"
  let ?m1 = "set_pde ?m ?i ?d"
  let ?s = "s\<lparr>vmmu := set_pte ?m1 ?i (vm_ptab_idx v) ?e, vpm := pm'\<rparr>"
  have ok: "pt_ok ?m" using cl by (simp add: clean_def)
  have i: "?i \<noteq> 1023" "?i < 1023" using v vm_pdir_idx_less [of v] by (auto simp: user_page_def less_1023)
  have tt: "t AND 0xfffff000 = t" using PALIGNDOWN_aligned [OF t(1)] by (simp add: PALIGNDOWN_eq)
  then have tn: "t \<notin> walk_bytes ?m" using t(2) by blast
  have pd: "t \<noteq> pd_base ?m" using tn tt by (auto simp: walk_bytes_def)
  have tb: "table_of ?m k \<noteq> t" if "has_table ?m k" for k
    using tn tt that less_1023(1) [of k] by (auto simp: walk_bytes_def has_table_def)
  note mp = map_page_new_table [OF ok i(1) nt f al t(1) pd tb]
  have te: "?d AND 0xfffff000 = t" using entry_flags_page [OF f] tt by simp
  have pr: "?d AND PDE_P \<noteq> 0" "?e AND PTE_P \<noteq> 0" using entry_flags_present by (simp_all add: flag_defs)
  have z: "load32 (mem ?m) (t + 4 * vm_ptab_idx w) = 0" for w
  proof -
    have "(t + 4 * vm_ptab_idx w + k) AND 0xfffff000 = t" if "k < 4" for k
      using aligned4_same_page(1) [OF aligned4_entry [OF t(1)] that]
        page_add_offset(2) [OF t(1) mult4_less [OF vm_ptab_idx_less]] by simp
    from this [of 0] this [of 1] this [of 2] this [of 3] show ?thesis
      using t(2) by (simp add: load32_def)
  qed
  have tr: "translate (vmmu ?s) w =
      (if w AND 0xfffff000 = v AND 0xfffff000 then Inr (PALIGNDOWN p + (w AND 0xfff)) else translate ?m w)"
    if w: "vm_pdir_idx w \<noteq> 1023" for w
    using translate_set_pte [OF mp(2,3) vm_ptab_idx_less w, of v ?e] same_page_iff [of w v]
      translate_set_pde_new [OF ok i(2) pr(1) _ w] te pd pr(2) page_or_flags [OF f] z [of w] nt
    by (auto simp: translate_def)
  have wb: "walk_bytes (vmmu ?s) = walk_bytes ?m \<union> {q. q AND 0xfffff000 = t}"
    using walk_bytes_set_pte [OF mp(2,3) vm_ptab_idx_less] walk_bytes_new_table [OF vm_pdir_idx_less pr(1) nt] te
    by simp
  have wb1: "walk_bytes ?m1 = walk_bytes ?m \<union> {q. q AND 0xfffff000 = t}"
    using walk_bytes_new_table [OF vm_pdir_idx_less pr(1) nt] te by simp
  have out: "mem (vmmu ?s) q = mem ?m q" if "q \<notin> walk_bytes (vmmu ?s)" for q
    using that mem_set_outside(2) [OF _ mp(3) vm_ptab_idx_less, of q] mem_set_outside(1) [OF _ vm_pdir_idx_less, of q ?m]
    unfolding wb wb1 by simp
  have "pt_ok (vmmu ?s)" using pt_ok_set_pte [OF mp(2,3) vm_ptab_idx_less] by simp
  moreover have "page_access (f AND PTE_U \<noteq> 0) ?s v \<and> (page_look s w \<noteq> None \<longrightarrow> page_access b s w \<longrightarrow> page_access b ?s w)" for b w
    using page_access_written [OF ok i(1) mp(2,3) _ _ nl v, where s' = ?s] nt by (auto simp: bit_or_iff has_table_def)
  then have "page_access (f AND PTE_U \<noteq> 0) ?s v" "keeps_access s ?s" by (simp_all add: keeps_access_def)
  ultimately show ?thesis using mp(1) wb out page_lookI [OF v p tr] by (intro exI [of _ ?s]) simp
qed

lemma take_frame:
  assumes "0 < room s"
  obtains n pm' where "n \<in> free_frames s" and "pm_alloc (vpm s) = Inr (pm_page (vpm s) n, pm')"
    and "\<And>m. free_frames (s\<lparr>vmmu := m, vpm := pm'\<rparr>) = free_frames s - {n}"
    and "pm_page pm' = pm_page (vpm s)" and "pm_page_pool pm' = pm_page_pool (vpm s)"
proof -
  have "free_frames s \<noteq> {}" using assms by (auto simp: room_def)
  then have "\<exists>n < PM_NPAGES. \<not> pm_used (vpm s) n" by (auto simp: free_frames_def)
  then obtain n pm' where n: "n < PM_NPAGES" "\<not> pm_used (vpm s) n" "pm_alloc (vpm s) = Inr (pm_page (vpm s) n, pm')"
    "\<forall>k. pm_used pm' k \<longleftrightarrow> pm_used (vpm s) k \<or> k = n" "pm_page pm' = pm_page (vpm s)"
    using pmf.alloc_free by blast
  have "pm_page_pool pm' = pm_page_pool (vpm s)"
    using fun_cong [OF n(5), of 0] by (simp add: pm_page_def v2p_def)
  with n show ?thesis by (intro that [of n pm']) (auto simp: free_frames_def)
qed

lemma spare_byte_take:
  assumes "n \<in> free_frames s" and "free_frames s' = free_frames s - {n}" and "pm_page (vpm s') = pm_page (vpm s)"
  shows "spare_byte s' q \<longleftrightarrow> spare_byte s q \<and> q AND 0xfffff000 \<noteq> pm_page (vpm s) n"
  using assms pm_page_inject [of "vpm s" n] by (fastforce simp: spare_byte_def free_frames_def)

lemma room_take: "n \<in> free_frames s \<Longrightarrow> free_frames s' = free_frames s - {n} \<Longrightarrow> room s = Suc (room s')"
  using card_Suc_Diff1 [OF finite_free_frames, of n s] by (simp add: room_def)

lemma map_page_clean:
  assumes cl: "clean s" and f: "low_flags f" and v: "user_page v" and p: "page_aligned p"
    and nl: "page_look s v = None" and rm: "0 < room s"
  shows "\<exists>s'. map_page p v f s = Inr s' \<and> clean s' \<and> page_look s' = (page_look s)(v \<mapsto> p) \<and>
    room s \<le> Suc (room s') \<and> byte_at s \<subseteq>\<^sub>m byte_at s' \<and> free_frames s' \<subseteq> free_frames s \<and>
    pm_page (vpm s') = pm_page (vpm s) \<and> page_access (f AND PTE_U \<noteq> 0) s' v \<and> keeps_access s s'"
proof (cases "pde_of (vmmu s) (vm_pdir_idx v) AND PDE_P = 0")
  case False
  then have "has_table (vmmu s) (vm_pdir_idx v)"
    using v vm_pdir_idx_less [of v] by (simp add: has_table_def user_page_def less_1023)
  from map_page_clean_old [OF cl f v p nl this] obtain s' where
    "map_page p v f s = Inr s'" "clean s'" "page_look s' = (page_look s)(v \<mapsto> p)" "vpm s' = vpm s"
    "byte_at s' = byte_at s" "page_access (f AND PTE_U \<noteq> 0) s' v" "keeps_access s s'" by blast
  then show ?thesis by (intro exI [of _ s']) (simp add: room_def free_frames_def)
next
  case True
  obtain n pm' where n: "n \<in> free_frames s" "pm_alloc (vpm s) = Inr (pm_page (vpm s) n, pm')"
    "\<And>m. free_frames (s\<lparr>vmmu := m, vpm := pm'\<rparr>) = free_frames s - {n}"
    "pm_page pm' = pm_page (vpm s)" "pm_page_pool pm' = pm_page_pool (vpm s)"
    by (rule take_frame [OF rm]) (rule that)
  let ?t = "pm_page (vpm s) n"
  have z: "mem (vmmu s) q = 0 \<and> q \<notin> walk_bytes (vmmu s)" if "q AND 0xfffff000 = ?t" for q
    using that cl n(1) unfolding clean_def spare_byte_def by blast
  have t: "page_aligned ?t" using cl by (simp add: clean_def pm_page_aligned)
  from map_page_clean_new [OF cl f v p nl True n(2) t z] obtain s' where s': "map_page p v f s = Inr s'"
    "vpm s' = pm'" "pt_ok (vmmu s')" "page_look s' = (page_look s)(v \<mapsto> p)"
    "walk_bytes (vmmu s') = walk_bytes (vmmu s) \<union> {q. q AND 0xfffff000 = ?t}"
    "\<forall>q. q \<notin> walk_bytes (vmmu s') \<longrightarrow> mem (vmmu s') q = mem (vmmu s) q"
    "page_access (f AND PTE_U \<noteq> 0) s' v" "keeps_access s s'" by blast
  have ff: "free_frames s' = free_frames s - {n}" using n(3) [of "vmmu s"] s'(2) by (simp add: free_frames_def)
  have sp: "spare_byte s' q \<longleftrightarrow> spare_byte s q \<and> q AND 0xfffff000 \<noteq> ?t" for q
    by (rule spare_byte_take [OF n(1) ff]) (simp add: s'(2) n(4))
  have "clean s'" using cl s'(2,3,6) n(5) sp by (auto simp: clean_def s'(5))
  moreover have "byte_at s \<subseteq>\<^sub>m byte_at s'"
    unfolding map_le_def using s'(6) sp n(1) by (auto simp: byte_at_def s'(5) spare_byte_def)
  ultimately show ?thesis
    using s'(1,2,4,7,8) n(4) ff room_take [OF n(1) ff] by (intro exI [of _ s']) auto
qed

subsection \<open>The contract of a page mapper\<close>

locale page_mapper =
  fixes map1 :: "'f \<Rightarrow> u32 \<Rightarrow> u32 \<Rightarrow> 's \<Rightarrow> 's res"
    and okf :: "'f \<Rightarrow> bool" and ok :: "'s \<Rightarrow> bool" and look :: "'s \<Rightarrow> u32 \<Rightarrow> u32 option"
    and left :: "'s \<Rightarrow> nat" and data :: "'s \<Rightarrow> u32 \<Rightarrow> u8 option" and free :: "'s \<Rightarrow> u32 set"
    and opens :: "'f \<Rightarrow> bool" and acc :: "bool \<Rightarrow> 's \<Rightarrow> u32 \<Rightarrow> bool"
  assumes map1_new: "okf f \<Longrightarrow> ok s \<Longrightarrow> user_page v \<Longrightarrow> page_aligned p \<Longrightarrow> look s v = None \<Longrightarrow> 0 < left s \<Longrightarrow>
      \<exists>s'. map1 f p v s = Inr s' \<and> ok s' \<and> look s' = (look s)(v \<mapsto> p) \<and> left s \<le> Suc (left s') \<and>
        data s \<subseteq>\<^sub>m data s' \<and> free s' \<subseteq> free s \<and> acc (opens f) s' v \<and>
        (\<forall>b w. look s w \<noteq> None \<longrightarrow> acc b s w \<longrightarrow> acc b s' w)"
begin

text \<open>Mapping a list of new pages adds exactly these pages, with the access rights of the flags.\<close>

lemma map_list_new:
  assumes "okf f" and "ok s" and "\<forall>(v, p) \<in> set l. user_page v \<and> page_aligned p \<and> look s v = None"
    and "distinct (map fst l)" and "length l \<le> left s"
  shows "\<exists>s'. map_list map1 f l s = Inr s' \<and> ok s' \<and> look s' = look s ++ map_of l \<and>
    left s \<le> left s' + length l \<and> data s \<subseteq>\<^sub>m data s' \<and> free s' \<subseteq> free s \<and>
    (\<forall>(v, p) \<in> set l. acc (opens f) s' v) \<and> (\<forall>b w. look s w \<noteq> None \<longrightarrow> acc b s w \<longrightarrow> acc b s' w)"
  using assms(2-)
proof (induction l arbitrary: s)
  case Nil
  then show ?case by simp
next
  case (Cons e l)
  obtain v p where e: "e = (v, p)" by (cases e)
  from Cons.prems e have "user_page v" "page_aligned p" "look s v = None" "0 < left s" by auto
  from map1_new [OF assms(1) Cons.prems(1) this] obtain t where t: "map1 f p v s = Inr t" "ok t"
    "look t = (look s)(v \<mapsto> p)" "left s \<le> Suc (left t)" "data s \<subseteq>\<^sub>m data t" "free t \<subseteq> free s"
    "acc (opens f) t v" "\<forall>b w. look s w \<noteq> None \<longrightarrow> acc b s w \<longrightarrow> acc b t w" by blast
  have "\<exists>s'. map_list map1 f l t = Inr s' \<and> ok s' \<and> look s' = look t ++ map_of l \<and>
    left t \<le> left s' + length l \<and> data t \<subseteq>\<^sub>m data s' \<and> free s' \<subseteq> free t \<and>
    (\<forall>(v, p) \<in> set l. acc (opens f) s' v) \<and> (\<forall>b w. look t w \<noteq> None \<longrightarrow> acc b t w \<longrightarrow> acc b s' w)"
    using Cons.prems t(4) e by (intro Cons.IH t(2)) (force simp: t(3))+
  then obtain s' where s': "map_list map1 f l t = Inr s'" "ok s'" "look s' = look t ++ map_of l"
    "left t \<le> left s' + length l" "data t \<subseteq>\<^sub>m data s'" "free s' \<subseteq> free t"
    "\<forall>(v, p) \<in> set l. acc (opens f) s' v" "\<forall>b w. look t w \<noteq> None \<longrightarrow> acc b t w \<longrightarrow> acc b s' w" by blast
  have "acc (opens f) s' v" using s'(8) t(3,7) by simp
  then have new: "\<forall>(v, p) \<in> set (e # l). acc (opens f) s' v" using s'(7) e by simp
  have keep: "\<forall>b w. look s w \<noteq> None \<longrightarrow> acc b s w \<longrightarrow> acc b s' w" using s'(8) t(3,8) by simp
  have "v \<notin> dom (map_of l)" using Cons.prems(3) e by (simp add: dom_map_of_conv_image_fst)
  then have "look s' = look s ++ map_of (e # l)"
    unfolding s'(3) t(3) e by (auto simp: fun_eq_iff map_add_def split: option.splits)
  moreover have "map_list map1 f (e # l) s = Inr s'" using s'(1) t(1) e by simp
  moreover have "left s \<le> left s' + length (e # l)" using s'(4) t(4) by simp
  ultimately show ?case using s'(2,6) t(6) map_le_trans [OF t(5) s'(5)] new keep by blast
qed

end

definition free_pages :: "vms \<Rightarrow> u32 set" where
  "free_pages s = pm_page (vpm s) ` free_frames s"

interpretation pgm: page_mapper "\<lambda>f p v. map_page p v f" low_flags clean page_look room byte_at free_pages
  "\<lambda>f. f AND PTE_U \<noteq> 0" page_access
proof unfold_locales
  fix f s v p
  assume "low_flags f" "clean s" "user_page v" "page_aligned p" "page_look s v = None" "0 < room s"
  from map_page_clean [OF this(2,1,3-6)]
  show "\<exists>s'. map_page p v f s = Inr s' \<and> clean s' \<and> page_look s' = (page_look s)(v \<mapsto> p) \<and>
    room s \<le> Suc (room s') \<and> byte_at s \<subseteq>\<^sub>m byte_at s' \<and> free_pages s' \<subseteq> free_pages s \<and>
    page_access (f AND PTE_U \<noteq> 0) s' v \<and> (\<forall>b w. page_look s w \<noteq> None \<longrightarrow> page_access b s w \<longrightarrow> page_access b s' w)"
    unfolding free_pages_def keeps_access_def by (metis image_mono)
qed

subsection \<open>Fresh pages\<close>

text \<open>
  The body of \<open>vm_alloc_pages_at\<close>: a page backed by a free frame.  The frame is not cleared; its bytes count from
  now on, with the values they have.
\<close>

definition kept_frame :: "vms \<Rightarrow> vms \<Rightarrow> u32 \<Rightarrow> bool" where
  "kept_frame s s' p \<longleftrightarrow> (\<forall>q. q AND 0xfffff000 = p \<longrightarrow> byte_at s' q = Some (mem (vmmu s) q))"

lemma kept_frame_mono: "byte_at s \<subseteq>\<^sub>m byte_at s' \<Longrightarrow> kept_frame s0 s p \<Longrightarrow> kept_frame s0 s' p"
  unfolding kept_frame_def map_le_def by (metis domI)

lemma free_page_zero: "clean s \<Longrightarrow> p \<in> free_pages s \<Longrightarrow> q AND 0xfffff000 = p \<Longrightarrow> mem (vmmu s) q = 0"
  unfolding clean_def spare_byte_def free_pages_def by blast

lemma alloc_step_clean:
  assumes cl: "clean s" and f: "low_flags f" and v: "user_page (page_at va i)"
    and nl: "page_look s (page_at va i) = None" and rm: "2 \<le> room s"
  shows "\<exists>s' p. alloc_step va f i s = Inr s' \<and> p \<in> free_pages s \<and> clean s' \<and>
    page_look s' = (page_look s)(page_at va i \<mapsto> p) \<and> room s \<le> room s' + 2 \<and> byte_at s \<subseteq>\<^sub>m byte_at s' \<and>
    free_pages s' \<subseteq> free_pages s - {p} \<and> kept_frame s s' p \<and>
    page_access (f AND PTE_U \<noteq> 0) s' (page_at va i) \<and> keeps_access s s'"
proof -
  have "0 < room s" using rm by simp
  then obtain n pm' where n: "n \<in> free_frames s" "pm_alloc (vpm s) = Inr (pm_page (vpm s) n, pm')"
    "\<And>m. free_frames (s\<lparr>vmmu := m, vpm := pm'\<rparr>) = free_frames s - {n}"
    "pm_page pm' = pm_page (vpm s)" "pm_page_pool pm' = pm_page_pool (vpm s)"
    by (rule take_frame) (rule that)
  let ?p = "pm_page (vpm s) n" and ?s = "s\<lparr>vpm := pm'\<rparr>"
  have ff: "free_frames ?s = free_frames s - {n}" using n(3) [of "vmmu s"] by (simp add: free_frames_def)
  have sp: "spare_byte ?s q \<longleftrightarrow> spare_byte s q \<and> q AND 0xfffff000 \<noteq> ?p" for q
    by (rule spare_byte_take [OF n(1) ff]) (simp add: n(4))
  have cl1: "clean ?s" using cl sp n(5) by (auto simp: clean_def)
  have rm1: "0 < room ?s" "room s = Suc (room ?s)" using room_take [OF n(1) ff] rm by auto
  have z: "spare_byte s q \<and> mem (vmmu s) q = 0 \<and> q \<notin> walk_bytes (vmmu s)" if "q AND 0xfffff000 = ?p" for q
    using that cl n(1) unfolding clean_def spare_byte_def by blast
  then have zf: "kept_frame s ?s ?p" by (simp add: kept_frame_def byte_at_def sp)
  have ka: "keeps_access ?s t \<Longrightarrow> keeps_access s t" for t
    by (simp add: keeps_access_def page_look_def page_access_def)
  have le: "byte_at s \<subseteq>\<^sub>m byte_at ?s" by (auto simp: map_le_def byte_at_def sp split: if_splits)
  have al: "page_aligned ?p" using cl by (simp add: clean_def pm_page_aligned)
  have nl1: "page_look ?s = page_look s" by (simp add: page_look_def fun_eq_iff)
  from map_page_clean [OF cl1 f v al _ rm1(1)] nl nl1 obtain s' where s': "map_page ?p (page_at va i) f ?s = Inr s'"
    "clean s'" "page_look s' = (page_look s)(page_at va i \<mapsto> ?p)" "room ?s \<le> Suc (room s')"
    "byte_at ?s \<subseteq>\<^sub>m byte_at s'" "free_frames s' \<subseteq> free_frames ?s" "pm_page (vpm s') = pm_page (vpm ?s)"
    "page_access (f AND PTE_U \<noteq> 0) s' (page_at va i)" "keeps_access ?s s'" by auto
  have "pm_page (vpm s) ` (free_frames s - {n}) \<subseteq> pm_page (vpm s) ` free_frames s - {?p}"
    using pm_page_inject [of "vpm s" _ n] n(1) by (auto simp: free_frames_def)
  then have "free_pages s' \<subseteq> free_pages s - {?p}"
    using image_mono [OF s'(6), of "pm_page (vpm s)"] s'(7) n(4) unfolding free_pages_def ff by simp
  moreover have "?p \<in> free_pages s" using n(1) by (simp add: free_pages_def)
  moreover have "alloc_step va f i s = Inr s'" using n(2) s'(1) by (simp add: alloc_step_def)
  ultimately show ?thesis
    using s' rm1(2) map_le_trans [OF le s'(5)] kept_frame_mono [OF s'(5) zf] ka
    by (intro exI [of _ s'] exI [of _ ?p]) simp
qed

lemma alloc_pages_clean:
  assumes cl: "clean s" and f: "low_flags f" and al: "page_aligned va" and n: "n \<le> 1048576"
    and v: "\<forall>k < n. user_page (page_at va k) \<and> page_look s (page_at va k) = None" and rm: "2 * n \<le> room s"
  shows "\<exists>s' ps. kfor n (alloc_step va f) s = Inr s' \<and> length ps = n \<and> distinct ps \<and> set ps \<subseteq> free_pages s \<and>
    clean s' \<and> page_look s' = page_look s ++ map_of (zip (map (page_at va) [0..<n]) ps) \<and>
    byte_at s \<subseteq>\<^sub>m byte_at s' \<and> (\<forall>p \<in> set ps. kept_frame s s' p) \<and>
    (\<forall>k < n. page_access (f AND PTE_U \<noteq> 0) s' (page_at va k)) \<and> keeps_access s s'"
proof -
  define P where "P i t \<longleftrightarrow> (\<exists>ps. length ps = i \<and> distinct ps \<and> set ps \<subseteq> free_pages s \<and> clean t \<and>
    page_look t = page_look s ++ map_of (zip (map (page_at va) [0..<i]) ps) \<and> byte_at s \<subseteq>\<^sub>m byte_at t \<and>
    (\<forall>p \<in> set ps. kept_frame s t p) \<and> free_pages t \<subseteq> free_pages s - set ps \<and> room s \<le> room t + 2 * i \<and>
    (\<forall>k < i. page_access (f AND PTE_U \<noteq> 0) t (page_at va k)) \<and> keeps_access s t)"
    for i and t :: vms
  have "\<exists>s'. kfor n (alloc_step va f) s = Inr s' \<and> P n s'"
  proof (rule kfor_total)
    show "P 0 s" using cl by (simp add: P_def keeps_access_def)
  next
    fix i t assume i: "i < n" and "P i t"
    then obtain ps where ps: "length ps = i" "distinct ps" "set ps \<subseteq> free_pages s" "clean t"
      "page_look t = page_look s ++ map_of (zip (map (page_at va) [0..<i]) ps)" "byte_at s \<subseteq>\<^sub>m byte_at t"
      "\<forall>p \<in> set ps. kept_frame s t p" "free_pages t \<subseteq> free_pages s - set ps" "room s \<le> room t + 2 * i"
      "\<forall>k < i. page_access (f AND PTE_U \<noteq> 0) t (page_at va k)" "keeps_access s t"
      by (auto simp: P_def)
    have new: "page_at va i \<notin> set (map (page_at va) [0..<i])"
      using i n page_at_inject [of va i] by fastforce
    then have nm: "map_of (zip (map (page_at va) [0..<i]) ps) (page_at va i) = None"
      using ps(1) by (simp add: map_of_zip_is_None)
    then have "page_look t (page_at va i) = None" unfolding ps(5) using v i by simp
    from alloc_step_clean [OF ps(4) f _ this] v i ps(9) rm obtain t' p where t': "alloc_step va f i t = Inr t'"
      "p \<in> free_pages t" "clean t'" "page_look t' = (page_look t)(page_at va i \<mapsto> p)" "room t \<le> room t' + 2"
      "byte_at t \<subseteq>\<^sub>m byte_at t'" "free_pages t' \<subseteq> free_pages t - {p}" "kept_frame t t' p"
      "page_access (f AND PTE_U \<noteq> 0) t' (page_at va i)" "keeps_access t t'" by force
    have z: "zip (map (page_at va) [0..<Suc i]) (ps @ [p]) = zip (map (page_at va) [0..<i]) ps @ [(page_at va i, p)]"
      using ps(1) by simp
    have lk: "page_look t' = page_look s ++ map_of (zip (map (page_at va) [0..<Suc i]) (ps @ [p]))"
      unfolding t'(4) ps(5) z using nm by (auto simp: fun_eq_iff map_add_def split: option.splits)
    have "mem (vmmu t) q = mem (vmmu s) q" if "q AND 0xfffff000 = p" for q
      using free_page_zero [OF ps(4) t'(2) that] free_page_zero [OF cl _ that] t'(2) ps(8) by auto
    then have "kept_frame s t' p" using t'(8) by (simp add: kept_frame_def)
    then have zf: "\<forall>p \<in> set (ps @ [p]). kept_frame s t' p"
      using ps(7) kept_frame_mono [OF t'(6)] by auto
    have lk0: "page_look t (page_at va k) \<noteq> None" if "k < i" for k
    proof -
      have "page_at va k \<in> set (map (page_at va) [0..<i])" using that by auto
      then have "map_of (zip (map (page_at va) [0..<i]) ps) (page_at va k) \<noteq> None" using ps(1) by (simp add: map_of_zip_is_None)
      then show ?thesis unfolding ps(5) by (auto simp: map_add_def)
    qed
    then have ac: "\<forall>k < Suc i. page_access (f AND PTE_U \<noteq> 0) t' (page_at va k)"
      using ps(10) t'(9,10) unfolding keeps_access_def less_Suc_eq by blast
    have "page_look t w \<noteq> None" if "page_look s w \<noteq> None" for w
      using that unfolding ps(5) by (auto simp: map_add_def split: option.splits)
    then have ka: "keeps_access s t'" using ps(11) t'(10) unfolding keeps_access_def by blast
    have "P (Suc i) t'" unfolding P_def
    proof (intro exI [of _ "ps @ [p]"] conjI lk zf ac ka t'(3))
      show "byte_at s \<subseteq>\<^sub>m byte_at t'" using ps(6) t'(6) by (rule map_le_trans)
    qed (use ps t' in auto)
    with t'(1) show "\<exists>t'. alloc_step va f i t = Inr t' \<and> P (Suc i) t'" by blast
  qed
  then show ?thesis unfolding P_def by blast
qed

subsection \<open>Memory given by its words\<close>

text \<open>The words \<open>ws\<close> (index and value) written into the page \<open>p\<close>, for concrete memories.\<close>

definition put_words :: "u32 \<Rightarrow> (u32 \<times> u32) list \<Rightarrow> (u32 \<Rightarrow> u8) \<Rightarrow> u32 \<Rightarrow> u8" where
  "put_words p ws m = fold (\<lambda>(i, w) m. store32 m (p + 4 * i) w) ws m"

lemma put_words_load:
  assumes "page_aligned p" and "page_aligned q" and "j < 1024" and "\<forall>(i, w) \<in> set ws. i < 1024"
  shows "load32 (put_words p ws m) (q + 4 * j) =
    (case map_of (rev ws) j of Some w \<Rightarrow> if p = q then w else load32 m (q + 4 * j) | None \<Rightarrow> load32 m (q + 4 * j))"
  using assms(4)
proof (induction ws rule: rev_induct)
  case (snoc e ws)
  obtain i w where e: "e = (i, w)" by (cases e)
  then have "put_words p (ws @ [e]) m = store32 (put_words p ws m) (p + 4 * i) w" by (simp add: put_words_def)
  with snoc e load32_store_entry [OF assms(1,2) _ assms(3), of i] show ?case by (auto split: option.splits)
qed (simp add: put_words_def)

lemma put_words_other:
  assumes "page_aligned p" and "\<forall>(i, w) \<in> set ws. i < 1024" and "q AND 0xfffff000 \<noteq> p"
  shows "put_words p ws m q = m q"
  using assms(2)
proof (induction ws rule: rev_induct)
  case (snoc e ws)
  then show ?case
    using page_store_frame [OF assms(1) _ assms(3)] by (cases e) (simp add: put_words_def)
qed (simp add: put_words_def)

end
