(* ===== verification/Elf.thy ===== *)
theory Elf
  imports Procs Aspace
begin

unbundle bit_operations_syntax

text \<open>
  Starting programs: the ELF loader, \<^verbatim>\<open>kernel/elf.c\<close>, and from \<^verbatim>\<open>kernel/proc.c\<close> \<open>proc_load\<close>, the code a
  new process starts in, and \<open>proc_kickoff_first_process\<close>.

  Fields of \<open>struct elf_header\<close> and \<open>struct elf_pheader\<close> are read at their offsets through
  the page walk.  The loader maps the pages of the file itself, it copies nothing.  The
  \<open>iretl\<close> at the end of \<open>proc_load\<close> is the record \<open>cpu_entry\<close> of the registers it leaves;
  to ring 0 it does not pop a stack pointer.

  Shown: on an ELF file with disjoint segments the loader maps exactly the pages of its
  loadable segments, \<open>proc_load\<close> adds a stack, both with the access rights of the process, and
  control passes to the entry point with the segments of the right ring.  The loader hands
  addresses of the file to \<open>map_pages\<close> as physical ones, so the program reads as the file only where the
  file is mapped at its own physical address.
\<close>

section \<open>Definitions\<close>

subsection \<open>elf.h\<close>

definition E_ENTRY :: u32 where "E_ENTRY = 24"
definition E_PHOFF :: u32 where "E_PHOFF = 28"
definition E_PHNUM :: u32 where "E_PHNUM = 44"
definition P_TYPE :: u32 where "P_TYPE = 0"
definition P_OFFSET :: u32 where "P_OFFSET = 4"
definition P_VADDR :: u32 where "P_VADDR = 8"
definition P_MEMSZ :: u32 where "P_MEMSZ = 20"
definition SIZEOF_ELF_PHEADER :: u32 where "SIZEOF_ELF_PHEADER = 32"
definition PT_NULL :: u32 where "PT_NULL = 0"
definition PT_LOAD :: u32 where "PT_LOAD = 1"

definition vload16 :: "mmu \<Rightarrow> u32 \<Rightarrow> u16 res" where
  "vload16 s a =
     kbind (vload8 s a) (\<lambda>b0. kbind (vload8 s (a + 1)) (\<lambda>b1. Inr (ucast b0 OR push_bit 8 (ucast b1))))"

subsection \<open>elf\_load\<close>

definition kvms :: "kern \<Rightarrow> vms" where
  "kvms k = hvms (kheap k)"

text \<open>The body of the loop: one program header at \<open>phdr\<close>.\<close>

definition elf_segment :: "u32 \<Rightarrow> u32 \<Rightarrow> kern \<Rightarrow> kern res" where
  "elf_segment file phdr k =
     kbind (vload32 (kmmu k) (phdr + P_TYPE)) (\<lambda>ty.
     if ty = PT_NULL then Inr k
     else if ty = PT_LOAD then
       kbind (vload32 (kmmu k) (phdr + P_OFFSET)) (\<lambda>off.
       kbind (vload32 (kmmu k) (phdr + P_VADDR)) (\<lambda>vaddr.
       kbind (vload32 (kmmu k) (phdr + P_MEMSZ)) (\<lambda>memsz.
       case current_proc (ktab k) of
         None \<Rightarrow> Inl NullDeref
       | Some c \<Rightarrow>
           kbind (map_pages (file + off) vaddr
                   (PTE_W OR (if privileged (procs (ktab k) c) then 0 else PTE_U)) memsz (kvms k))
             (\<lambda>v. Inr (upd_vms v k)))))
     else Inr k)"

text \<open>The number of headers is read again in every round; it is below \<open>2^16\<close>.\<close>

function elf_loop :: "u32 \<Rightarrow> u32 \<Rightarrow> nat \<Rightarrow> kern \<Rightarrow> kern res" where
  "elf_loop file phdr i k =
     kbind (vload16 (kmmu k) (file + E_PHNUM)) (\<lambda>n.
     if i < unat n
     then kbind (elf_segment file phdr k) (\<lambda>k. elf_loop file (phdr + SIZEOF_ELF_PHEADER) (Suc i) k)
     else Inr k)"
  by pat_completeness auto
termination
proof (relation "measure (\<lambda>(_, _, i, _). 65536 - i)", simp)
  fix f phdr i k x k' assume "i < unat (x :: u16)"
  moreover have "unat x < 65536" by (rule unat_u16_less)
  ultimately show "((f, phdr + SIZEOF_ELF_PHEADER, Suc i, k'), f, phdr, i, k)
    \<in> measure (\<lambda>(_, _, i, _). 65536 - i)" by simp
qed

declare elf_loop.simps [simp del]

definition elf_load :: "u32 \<Rightarrow> kern \<Rightarrow> (u32 \<times> kern) res" where
  "elf_load file k =
     kbind (vload32 (kmmu k) (file + E_PHOFF)) (\<lambda>phoff.
     kbind (elf_loop file (file + phoff) 0 k) (\<lambda>k.
     kbind (vload32 (kmmu k) (file + E_ENTRY)) (\<lambda>entry. Inr (entry, k))))"

subsection \<open>proc\_load\<close>

definition VM_USER_STACK_ADDR :: u32 where "VM_USER_STACK_ADDR = 0xd0000000"
definition user_stack_size :: u32 where "user_stack_size = 0x400 * 16"

record cpu_entry =
  ce_eip :: u32
  ce_cs :: u32
  ce_eflags :: u32
  ce_stack :: "(u32 \<times> u32) option"
  ce_data_seg :: u32
  ce_gpr :: u32

text \<open>The processor's \<open>iretl\<close> in ring 0: it pops esp and ss only on the way to an outer ring.\<close>

definition iretl_stack :: "u32 \<Rightarrow> u32 \<Rightarrow> u32 \<Rightarrow> (u32 \<times> u32) option" where
  "iretl_stack cs esp ss = (if cs AND 3 = 0 then None else Some (ss, esp))"

definition proc_load :: "kern \<Rightarrow> (cpu_entry \<times> kern) res" where
  "proc_load k =
     (case current_proc (ktab k) of
        None \<Rightarrow> Inl NullDeref
      | Some c \<Rightarrow>
          let p = procs (ktab k) c; addr = loc_address p in
          kbind (vload32 (kmmu k) addr) (\<lambda>w.
          kbind (if w = 0x464c457f then elf_load (loc_address p) k else Inr (addr, k)) (\<lambda>(entry, k).
          let code_seg = (if privileged p then SEG_KCODE else SEG_UCODE);
              data_seg = (if privileged p then SEG_KDATA else SEG_UDATA)
          in kbind (vm_alloc_pages_at (VM_USER_STACK_ADDR - user_stack_size)
                     (if privileged p then 0 else PTE_U) user_stack_size (kvms k)) (\<lambda>v.
             Inr (\<lparr>ce_eip = entry, ce_cs = code_seg, ce_eflags = 0x200,
                   ce_stack = iretl_stack code_seg VM_USER_STACK_ADDR data_seg,
                   ce_data_seg = data_seg, ce_gpr = 0xfeedbabe\<rparr>,
                  upd_vms v k)))))"

definition proc_kickoff_first_process :: "kern \<Rightarrow> (cpu_entry \<times> kern) res" where
  "proc_kickoff_first_process k =
     (case current_proc (ktab k) of
        None \<Rightarrow> Inl NullDeref
      | Some c \<Rightarrow>
          let k = k\<lparr>ktab := upd_proc c (\<lambda>p. p\<lparr>state := PROC_RUNNING\<rparr>) (ktab k)\<rparr>;
              k = switch_to c k;
              k = k\<lparr>ktab := proc_enable_scheduling (ktab k)\<rparr>
          in proc_load k)"

section \<open>Lemmas\<close>

lemma map_list_append:
  "map_list g f (l @ l') s = kbind (map_list g f l s) (map_list g f l')"
proof (induction l arbitrary: s)
  case (Cons e l)
  then have "map_list g f (l @ l') = (\<lambda>s. kbind (map_list g f l s) (map_list g f l'))" by blast
  then show ?case by (cases e) (simp add: kbind_assoc)
qed simp

lemma map_pages_list:
  "map_pages pa va f sz s = map_list (\<lambda>f p v. map_page p v f) f
     (map (\<lambda>k. (page_at (PALIGNDOWN va) k, page_at (PALIGNDOWN pa) k)) [0..<npages_of sz]) s"
proof -
  have "kfor n (\<lambda>i. map_page (page_at p i) (page_at v i) f) s = map_list (\<lambda>f p v. map_page p v f) f
     (map (\<lambda>k. (page_at v k, page_at p k)) [0..<n]) s" for n p v
  proof (induction n)
    case (Suc n)
    have "kbind m Inr = m" for m :: "vms res" by (cases m) auto
    then have one: "map_list g f [(a, b)] = g f b a" for g :: "u32 \<Rightarrow> u32 \<Rightarrow> u32 \<Rightarrow> vms \<Rightarrow> vms res" and a b f
      by (simp add: fun_eq_iff) (metis map_list.simps(1) kbind_cong)
    with Suc show ?case by (simp add: map_list_append del: map_list.simps)
  qed simp
  then show ?thesis unfolding map_pages_kfor .
qed

subsection \<open>An ELF file in memory\<close>

record segment =
  sg_type :: u32
  sg_offset :: u32
  sg_vaddr :: u32
  sg_memsz :: u32

text \<open>The \<open>n\<close> bytes at \<open>a\<close> count: mapped, and not in the page tables or in a free frame.\<close>

definition counts :: "vms \<Rightarrow> u32 \<Rightarrow> nat \<Rightarrow> bool" where
  "counts s a n \<longleftrightarrow> (\<forall>i < n. vbyte s (a + of_nat i) \<noteq> None)"

definition phdr_at :: "vms \<Rightarrow> u32 \<Rightarrow> segment \<Rightarrow> bool" where
  "phdr_at s a sg \<longleftrightarrow> counts s a 32 \<and> vload32 (vmmu s) a = Inr (sg_type sg) \<and>
     vload32 (vmmu s) (a + 4) = Inr (sg_offset sg) \<and> vload32 (vmmu s) (a + 8) = Inr (sg_vaddr sg) \<and>
     vload32 (vmmu s) (a + 20) = Inr (sg_memsz sg)"

definition elf_image :: "vms \<Rightarrow> u32 \<Rightarrow> u32 \<Rightarrow> u32 \<Rightarrow> segment list \<Rightarrow> bool" where
  "elf_image s file entry phoff sgs \<longleftrightarrow> counts s file 52 \<and> length sgs < 65536 \<and>
     vload32 (vmmu s) (file + 24) = Inr entry \<and> vload32 (vmmu s) (file + 28) = Inr phoff \<and>
     vload16 (vmmu s) (file + 44) = Inr (of_nat (length sgs)) \<and>
     (\<forall>i < length sgs. phdr_at s (file + phoff + of_nat i * 32) (sgs ! i))"

definition segment_pages :: "u32 \<Rightarrow> segment \<Rightarrow> (u32 \<times> u32) list" where
  "segment_pages file sg =
     (if sg_type sg = PT_LOAD
      then map (\<lambda>k. (page_at (PALIGNDOWN (sg_vaddr sg)) k, page_at (PALIGNDOWN (file + sg_offset sg)) k))
             [0..<npages_of (sg_memsz sg)]
      else [])"

definition image_pages :: "u32 \<Rightarrow> segment list \<Rightarrow> (u32 \<times> u32) list" where
  "image_pages file sgs = concat (map (segment_pages file) sgs)"

subsection \<open>Reading a file while its pages are mapped\<close>

definition grows :: "vms \<Rightarrow> vms \<Rightarrow> bool" where
  "grows s s' \<longleftrightarrow> page_look s \<subseteq>\<^sub>m page_look s' \<and> byte_at s \<subseteq>\<^sub>m byte_at s'"

lemma grows_load8:
  assumes "grows s s'" and "vbyte s a \<noteq> None"
  shows "vload8 (vmmu s') a = vload8 (vmmu s) a" and "vbyte s' a \<noteq> None"
proof -
  obtain b where b: "vbyte s a = Some b" using assms(2) by auto
  then have b': "vbyte s' a = Some b" using assms(1) vbyte_mono [of s s' a b] by (simp add: grows_def)
  show "vload8 (vmmu s') a = vload8 (vmmu s) a" using vbyte_load [OF b] vbyte_load [OF b'] by simp
  show "vbyte s' a \<noteq> None" using b' by simp
qed

lemma counts_sub: "counts s a n \<Longrightarrow> i + m \<le> n \<Longrightarrow> counts s (a + of_nat i) m"
  unfolding counts_def by (metis add.assoc add_less_cancel_left less_le_trans of_nat_add)

lemma grows_counts: "grows s s' \<Longrightarrow> counts s a n \<Longrightarrow> counts s' a n"
  unfolding counts_def using grows_load8(2) by blast

lemma grows_load32:
  assumes "grows s s'" and "counts s a 4"
  shows "vload32 (vmmu s') a = vload32 (vmmu s) a"
proof -
  have "vbyte s (a + of_nat i) \<noteq> None" if "i < 4" for i using assms(2) that by (simp add: counts_def)
  from this [of 0] this [of 1] this [of 2] this [of 3] show ?thesis
    by (simp add: vload32_def grows_load8(1) [OF assms(1)])
qed

lemma grows_load16:
  assumes "grows s s'" and "counts s a 2"
  shows "vload16 (vmmu s') a = vload16 (vmmu s) a"
proof -
  have "vbyte s (a + of_nat i) \<noteq> None" if "i < 2" for i using assms(2) that by (simp add: counts_def)
  from this [of 0] this [of 1] show ?thesis by (simp add: vload16_def grows_load8(1) [OF assms(1)])
qed

lemma grows_phdr: "grows s s' \<Longrightarrow> phdr_at s a sg \<Longrightarrow> phdr_at s' a sg"
  unfolding phdr_at_def
  using grows_load32 [of s s' a] grows_load32 [of s s' "a + 4"] grows_load32 [of s s' "a + 8"]
    grows_load32 [of s s' "a + 20"] counts_sub [of s a 32 0 4] counts_sub [of s a 32 4 4]
    counts_sub [of s a 32 8 4] counts_sub [of s a 32 20 4] grows_counts [of s s' a 32]
  by simp

lemma grows_image: "grows s s' \<Longrightarrow> elf_image s fl entry phoff sgs \<Longrightarrow> elf_image s' fl entry phoff sgs"
  unfolding elf_image_def
  using grows_load32 [of s s' "fl + 24"] grows_load32 [of s s' "fl + 28"] grows_load16 [of s s' "fl + 44"]
    counts_sub [of s fl 52 24 4] counts_sub [of s fl 52 28 4] counts_sub [of s fl 52 44 2]
    grows_counts [of s s' fl 52] grows_phdr [of s s']
  by simp

subsection \<open>The loader\<close>

abbreviation map_flags :: "u32 \<Rightarrow> u32 \<Rightarrow> u32 \<Rightarrow> vms \<Rightarrow> vms res" where
  "map_flags \<equiv> \<lambda>f p v. map_page p v f"

lemma kern_vms [simp]:
  "upd_vms (kvms k) k = k" "kvms (upd_vms v k) = v" "kmmu k = vmmu (kvms k)" "ktab (upd_vms v k) = ktab k"
  "upd_vms v (upd_vms w k) = upd_vms v k"
  by (simp_all add: upd_vms_def kvms_def kmmu_def)

lemma elf_segment_pages:
  assumes "phdr_at (kvms k) phdr sg" and "current_proc (ktab k) = Some c"
    and "f = PTE_W OR (if privileged (procs (ktab k) c) then 0 else PTE_U)"
  shows "elf_segment fl phdr k =
    kbind (map_list map_flags f (segment_pages fl sg) (kvms k)) (\<lambda>v. Inr (upd_vms v k))"
  using assms unfolding elf_segment_def phdr_at_def
  by (simp add: P_TYPE_def P_OFFSET_def P_VADDR_def P_MEMSZ_def PT_NULL_def PT_LOAD_def
      segment_pages_def map_pages_list)

definition new_pages :: "(u32 \<times> u32) list \<Rightarrow> vms \<Rightarrow> bool" where
  "new_pages l s \<longleftrightarrow> (\<forall>(v, p) \<in> set l. user_page v \<and> page_aligned p \<and> page_look s v = None) \<and>
     distinct (map fst l)"

lemma new_pages_append:
  assumes "new_pages (l @ l') s" and "page_look s' = page_look s ++ map_of l"
  shows "new_pages l' s'"
proof -
  have "map_of l v = None" if "(v, p) \<in> set l'" for v p
    using assms(1) that by (force simp: new_pages_def map_of_eq_None_iff)
  then show ?thesis using assms by (force simp: new_pages_def map_add_None)
qed

lemma map_list_grows:
  assumes "low_flags f" and "clean s" and "new_pages l s" and "length l \<le> room s"
  shows "\<exists>s'. map_list map_flags f l s = Inr s' \<and> clean s' \<and> page_look s' = page_look s ++ map_of l \<and>
    room s \<le> room s' + length l \<and> byte_at s \<subseteq>\<^sub>m byte_at s' \<and> free_pages s' \<subseteq> free_pages s \<and> grows s s' \<and>
    (\<forall>(v, p) \<in> set l. page_access (f AND PTE_U \<noteq> 0) s' v) \<and> keeps_access s s'"
proof -
  from assms(3) have l: "\<forall>(v, p) \<in> set l. user_page v \<and> page_aligned p \<and> page_look s v = None" "distinct (map fst l)"
    by (simp_all add: new_pages_def)
  from pgm.map_list_new [OF assms(1,2) l assms(4)] obtain s' where s': "map_list map_flags f l s = Inr s'" "clean s'"
    "page_look s' = page_look s ++ map_of l" "room s \<le> room s' + length l" "byte_at s \<subseteq>\<^sub>m byte_at s'"
    "free_pages s' \<subseteq> free_pages s" "\<forall>(v, p) \<in> set l. page_access (f AND PTE_U \<noteq> 0) s' v"
    "\<forall>b w. page_look s w \<noteq> None \<longrightarrow> page_access b s w \<longrightarrow> page_access b s' w" by blast
  have "map_of l v = None" if "page_look s v = Some q" for v q
    using l(1) that by (force simp: map_of_eq_None_iff)
  then have "page_look s \<subseteq>\<^sub>m page_look s'"
    unfolding map_le_def s'(3) by (auto simp: map_add_def)
  with s' show ?thesis by (intro exI [of _ s']) (simp add: grows_def keeps_access_def)
qed

lemma elf_loop_maps:
  assumes "current_proc (ktab k) = Some c" and "f = PTE_W OR (if privileged (procs (ktab k) c) then 0 else PTE_U)"
    and "elf_image (kvms k) fl entry phoff sgs" and "clean (kvms k)" and "i \<le> length sgs"
    and "new_pages (image_pages fl (drop i sgs)) (kvms k)"
    and "length (image_pages fl (drop i sgs)) \<le> room (kvms k)"
  shows "\<exists>v. elf_loop fl (fl + phoff + of_nat i * 32) i k = Inr (upd_vms v k) \<and>
    map_list map_flags f (image_pages fl (drop i sgs)) (kvms k) = Inr v"
  using assms
proof (induction "length sgs - i" arbitrary: i k)
  case 0
  then have i: "i = length sgs" by simp
  with 0 have "vload16 (vmmu (kvms k)) (fl + E_PHNUM) = Inr (of_nat i)" "i < 65536"
    by (simp_all add: elf_image_def E_PHNUM_def)
  then have "elf_loop fl (fl + phoff + of_nat i * 32) i k = Inr k"
    by (subst elf_loop.simps) (simp add: unat_of_nat take_bit_eq_mod)
  then show ?case using i by (intro exI [of _ "kvms k"]) (simp add: image_pages_def)
next
  case (Suc n)
  then have i: "i < length sgs" by simp
  let ?sg = "sgs ! i" and ?rest = "drop (Suc i) sgs" and ?a = "fl + phoff + of_nat i * 32"
  have ip: "image_pages fl (drop i sgs) = segment_pages fl ?sg @ image_pages fl ?rest"
    using i by (simp add: image_pages_def Cons_nth_drop_Suc [symmetric])
  have lf: "low_flags f" using Suc.prems(2) by (simp add: low_flags_def flag_defs)
  have np: "new_pages (segment_pages fl ?sg) (kvms k)" using Suc.prems(6) ip by (auto simp: new_pages_def)
  from map_list_grows [OF lf Suc.prems(4) np] Suc.prems(7) ip obtain v where v:
    "map_list map_flags f (segment_pages fl ?sg) (kvms k) = Inr v" "clean v"
    "page_look v = page_look (kvms k) ++ map_of (segment_pages fl ?sg)"
    "room (kvms k) \<le> room v + length (segment_pages fl ?sg)" "grows (kvms k) v" by auto
  let ?k = "upd_vms v k"
  have seg: "elf_segment fl ?a k = Inr ?k"
    using elf_segment_pages [OF _ Suc.prems(1,2), of ?a ?sg fl] Suc.prems(3) i v(1) by (simp add: elf_image_def)
  have nx: "?a + SIZEOF_ELF_PHEADER = fl + phoff + of_nat (Suc i) * 32"
    by (simp add: SIZEOF_ELF_PHEADER_def algebra_simps)
  have num: "vload16 (vmmu (kvms k)) (fl + E_PHNUM) = Inr (of_nat (length sgs))" "length sgs < 65536"
    using Suc.prems(3) by (simp_all add: elf_image_def E_PHNUM_def)
  have step: "elf_loop fl ?a i k = elf_loop fl (fl + phoff + of_nat (Suc i) * 32) (Suc i) ?k"
    using seg num i unfolding nx [symmetric]
    by (subst elf_loop.simps) (simp add: unat_of_nat take_bit_eq_mod)
  have "\<exists>w. elf_loop fl (fl + phoff + of_nat (Suc i) * 32) (Suc i) ?k = Inr (upd_vms w ?k) \<and>
    map_list map_flags f (image_pages fl ?rest) (kvms ?k) = Inr w"
  proof (rule Suc.hyps(1))
    show "elf_image (kvms ?k) fl entry phoff sgs" using grows_image [OF v(5) Suc.prems(3)] by simp
    show "new_pages (image_pages fl ?rest) (kvms ?k)"
      using new_pages_append [OF Suc.prems(6) [unfolded ip] v(3)] by simp
    show "length (image_pages fl ?rest) \<le> room (kvms ?k)" using Suc.prems(7) ip v(4) by simp
  qed (use Suc i v in auto)
  then show ?case unfolding step ip by (auto simp: map_list_append v(1))
qed

lemma elf_load_maps:
  assumes "current_proc (ktab k) = Some c" and "elf_image (kvms k) fl entry phoff sgs" and "clean (kvms k)"
    and "new_pages (image_pages fl sgs) (kvms k)" and "length (image_pages fl sgs) \<le> room (kvms k)"
  shows "\<exists>v. elf_load fl k = Inr (entry, upd_vms v k) \<and> clean v \<and>
    page_look v = page_look (kvms k) ++ map_of (image_pages fl sgs) \<and>
    room (kvms k) \<le> room v + length (image_pages fl sgs) \<and> byte_at (kvms k) \<subseteq>\<^sub>m byte_at v \<and>
    free_pages v \<subseteq> free_pages (kvms k) \<and>
    (\<forall>(w, p) \<in> set (image_pages fl sgs). page_access (\<not> privileged (procs (ktab k) c)) v w) \<and> keeps_access (kvms k) v"
proof -
  define f where "f = PTE_W OR (if privileged (procs (ktab k) c) then 0 else PTE_U)"
  have lf: "low_flags f" by (simp add: f_def low_flags_def flag_defs)
  from map_list_grows [OF lf assms(3-5)] obtain v where v: "map_list map_flags f (image_pages fl sgs) (kvms k) = Inr v"
    "clean v" "page_look v = page_look (kvms k) ++ map_of (image_pages fl sgs)"
    "room (kvms k) \<le> room v + length (image_pages fl sgs)" "byte_at (kvms k) \<subseteq>\<^sub>m byte_at v"
    "free_pages v \<subseteq> free_pages (kvms k)" "grows (kvms k) v"
    "\<forall>(w, p) \<in> set (image_pages fl sgs). page_access (f AND PTE_U \<noteq> 0) v w" "keeps_access (kvms k) v" by blast
  have "f AND PTE_U \<noteq> 0 \<longleftrightarrow> \<not> privileged (procs (ktab k) c)" by (simp add: f_def flag_defs)
  note ac = v(8) [unfolded this]
  have lp: "elf_loop fl (fl + phoff) 0 k = Inr (upd_vms v k)"
    using elf_loop_maps [OF assms(1) f_def assms(2,3), of 0] assms(4,5) v(1) by auto
  have "vload32 (vmmu v) (fl + E_ENTRY) = Inr entry" "vload32 (vmmu (kvms k)) (fl + E_PHOFF) = Inr phoff"
    using grows_image [OF v(7) assms(2)] assms(2) by (simp_all add: elf_image_def E_ENTRY_def E_PHOFF_def)
  with lp have "elf_load fl k = Inr (entry, upd_vms v k)" by (simp add: elf_load_def)
  with v(2-6,9) ac show ?thesis by blast
qed

text \<open>The four pages of the user stack.\<close>

definition stack_pages :: "u32 list" where
  "stack_pages = map (page_at 0xcfffc000) [0..<4]"

lemma stack_geometry:
  "VM_USER_STACK_ADDR - user_stack_size = 0xcfffc000" "PALIGNDOWN 0xcfffc000 = 0xcfffc000"
  "npages_of user_stack_size = 4" "page_aligned 0xcfffc000"
  by (simp_all add: VM_USER_STACK_ADDR_def user_stack_size_def PALIGNDOWN_eq npages_of_def PAGE_SIZE_def page_aligned_def)

lemma stack_user_page: "k < 4 \<Longrightarrow> user_page (page_at 0xcfffc000 k)"
proof -
  assume "k < 4"
  then have "k = 0 \<or> k = 1 \<or> k = 2 \<or> k = 3" by auto
  then show ?thesis
    by (auto simp: user_page_def page_at_def PAGE_SIZE_def page_aligned_def vm_pdir_idx_def)
qed

lemma user_stack_alloc:
  assumes "clean s" and "low_flags f" and "\<forall>v \<in> set stack_pages. page_look s v = None" and "8 \<le> room s"
  shows "\<exists>s' ps. vm_alloc_pages_at (VM_USER_STACK_ADDR - user_stack_size) f user_stack_size s = Inr s' \<and>
    length ps = 4 \<and> distinct ps \<and> set ps \<subseteq> free_pages s \<and> clean s' \<and>
    page_look s' = page_look s ++ map_of (zip stack_pages ps) \<and> byte_at s \<subseteq>\<^sub>m byte_at s' \<and>
    (\<forall>p \<in> set ps. kept_frame s s' p) \<and> (\<forall>v \<in> set stack_pages. page_access (f AND PTE_U \<noteq> 0) s' v) \<and>
    keeps_access s s'"
  unfolding vm_alloc_pages_at_kfor stack_geometry
  using alloc_pages_clean [OF assms(1,2) stack_geometry(4), of 4] stack_user_page assms(3,4)
  by (simp add: stack_pages_def atLeast0LessThan lessThan_def)

lemma iretl_segments:
  "iretl_stack SEG_KCODE VM_USER_STACK_ADDR x = None"
  "iretl_stack SEG_UCODE VM_USER_STACK_ADDR x = Some (x, 0xd0000000)"
  by (simp_all add: iretl_stack_def SEG_KCODE_def SEG_UCODE_def SEG_KCODE_IDX_def SEG_UCODE_IDX_def
      SIZEOF_GDT_ENTRY_def VM_USER_STACK_ADDR_def)

text \<open>The rights of the segment pages and the contents of the stack frames, over both steps.\<close>

lemma keeps_access_trans:
  "keeps_access s s1 \<Longrightarrow> keeps_access s1 s2 \<Longrightarrow> (\<And>w. page_look s w \<noteq> None \<Longrightarrow> page_look s1 w \<noteq> None) \<Longrightarrow> keeps_access s s2"
  unfolding keeps_access_def by blast

lemma image_access:
  assumes "page_look v = look ++ map_of l" and "\<forall>(w, p) \<in> set l. page_access b v w" and "keeps_access v v'"
  shows "\<forall>w \<in> fst ` set l. page_access b v' w"
proof
  fix w assume w: "w \<in> fst ` set l"
  then have "map_of l w \<noteq> None" by (simp add: map_of_eq_None_iff)
  then have "page_look v w \<noteq> None" unfolding assms(1) by (auto simp: map_add_def)
  moreover have "page_access b v w" using w assms(2) by auto
  ultimately show "page_access b v' w" using assms(3) by (simp add: keeps_access_def)
qed

lemma kept_frame_trans:
  assumes "clean s" and "clean s1" and "free_pages s1 \<subseteq> free_pages s" and "p \<in> free_pages s1" and "kept_frame s1 s2 p"
  shows "kept_frame s s2 p"
proof -
  have "mem (vmmu s1) q = mem (vmmu s) q" if "q AND 0xfffff000 = p" for q
    using free_page_zero [OF assms(2,4) that] free_page_zero [OF assms(1) _ that] assms(3,4) by auto
  then show ?thesis using assms(5) by (simp add: kept_frame_def)
qed

subsection \<open>A small ELF file\<close>

text \<open>
  The file of the witness lies in the frames \<open>0x5000\<close> and \<open>0x6000\<close>, which the small address space
  maps at their own addresses: entry point \<open>0x400010\<close>, one loadable segment of a page at
  \<open>0x400000\<close> with offset \<open>0x1000\<close>.  32 frames at \<open>0x400000\<close> are free.
\<close>

definition elf_words :: "(u32 \<times> u32) list" where
  "elf_words = [(0, 0x464c457f), (6, 0x400010), (7, 52), (11, 1), (13, 1), (14, 0x1000), (15, 0x400000), (18, 0x1000)]"

definition elf_maps :: "(u32 \<times> u32) list" where
  "elf_maps = [(5, 0x5003), (6, 0x6003)]"

definition elf_mmu :: mmu where
  "elf_mmu = demo_mmu\<lparr>mem := put_words 0x5000 elf_words (put_words 0x1000 elf_maps (mem demo_mmu))\<rparr>"

definition elf_kern :: kern where
  "elf_kern = demo_kern\<lparr>kheap := \<lparr>hvms = \<lparr>vmmu = elf_mmu,
     vpm = \<lparr>pm_bitmap = (\<lambda>i. if i = 0 then 0 else - 1), pm_page_pool = 0xe0400000\<rparr>\<rparr>, heap_initialized = False\<rparr>,
     ktab := demo_tab\<lparr>procs := (\<lambda>_. demo_proc\<lparr>loc_address := 0x5000\<rparr>), current_proc := Some 0\<rparr>\<rparr>"

lemma vload16_of_load32: "vload32 s a = Inr w \<Longrightarrow> vload16 s a = Inr (ucast w)"
proof -
  have "ucast (ucast b0 OR push_bit 8 (ucast b1) OR push_bit 16 (ucast b2) OR push_bit 24 (ucast b3) :: u32)
    = (ucast b0 OR push_bit 8 (ucast b1) :: u16)" for b0 b1 b2 b3 :: u8
    by (rule bit_word_eqI) (auto simp: bit_simps)
  then show "vload32 s a = Inr w \<Longrightarrow> vload16 s a = Inr (ucast w)"
    by (auto simp: vload32_def vload16_def kbind_Inr_iff)
qed

lemma elf_mem:
  "page_aligned q \<Longrightarrow> j < 1024 \<Longrightarrow> q \<noteq> 0x5000 \<Longrightarrow> q \<noteq> 0x1000 \<Longrightarrow>
     load32 (mem elf_mmu) (q + 4 * j) = load32 (mem demo_mmu) (q + 4 * j)"
  "j < 1024 \<Longrightarrow> map_of (rev elf_words) j = Some w \<Longrightarrow> load32 (mem elf_mmu) (0x5000 + 4 * j) = w"
  "j < 1024 \<Longrightarrow> load32 (mem elf_mmu) (0x1000 + 4 * j) =
     (if j = 5 then 0x5003 else if j = 6 then 0x6003 else load32 (mem demo_mmu) (0x1000 + 4 * j))"
proof -
  have al: "page_aligned 0x5000" "page_aligned 0x1000" "\<forall>(i, w) \<in> set elf_words. i < 1024" "\<forall>(i, w) \<in> set elf_maps. i < 1024"
    by (simp_all add: page_aligned_def elf_words_def elf_maps_def)
  note ld = put_words_load [OF al(1) _ _ al(3)] put_words_load [OF al(2) _ _ al(4)]
  show "page_aligned q \<Longrightarrow> j < 1024 \<Longrightarrow> q \<noteq> 0x5000 \<Longrightarrow> q \<noteq> 0x1000 \<Longrightarrow>
    load32 (mem elf_mmu) (q + 4 * j) = load32 (mem demo_mmu) (q + 4 * j)"
    using ld by (auto simp: elf_mmu_def split: option.splits)
  show "j < 1024 \<Longrightarrow> map_of (rev elf_words) j = Some w \<Longrightarrow> load32 (mem elf_mmu) (0x5000 + 4 * j) = w"
    using ld(1) [OF al(1)] by (simp add: elf_mmu_def)
  assume j: "j < 1024"
  have "load32 (mem elf_mmu) (0x1000 + 4 * j) = load32 (put_words 0x1000 elf_maps (mem demo_mmu)) (0x1000 + 4 * j)"
    unfolding elf_mmu_def using ld(1) [OF al(2) j] by (simp split: option.splits)
  also have "\<dots> = (case map_of (rev elf_maps) j of Some w \<Rightarrow> w | None \<Rightarrow> load32 (mem demo_mmu) (0x1000 + 4 * j))"
    using ld(2) [OF al(2) j] by (simp split: option.splits)
  finally show "load32 (mem elf_mmu) (0x1000 + 4 * j) =
     (if j = 5 then 0x5003 else if j = 6 then 0x6003 else load32 (mem demo_mmu) (0x1000 + 4 * j))"
    by (simp add: elf_maps_def)
qed

lemma elf_tables:
  "pd_base elf_mmu = 0" "i < 1024 \<Longrightarrow> pde_of elf_mmu i = (if i = 1023 then 3 else if i = 0 then 0x1003 else 0)"
  "j < 1024 \<Longrightarrow> pte_of elf_mmu 0 j =
     (if j = 6 then 0x6003 else if j = 5 then 0x5003 else if j = 3 then 0x6003 else if j = 2 then 0x5003 else 0)"
  "pt_ok elf_mmu" "q \<in> walk_bytes elf_mmu \<longleftrightarrow> q AND 0xfffff000 = 0 \<or> q AND 0xfffff000 = 0x1000"
proof -
  have al: "page_aligned 0" "page_aligned 0x1000" by (simp_all add: page_aligned_def)
  show pd: "pd_base elf_mmu = 0" using demo_pd_base by (simp add: elf_mmu_def pd_base_def)
  have pde: "pde_of elf_mmu i = pde_of demo_mmu i" if "i < 1024" for i
    using elf_mem(1) [OF al(1) that] by (simp add: pde_of_def pd demo_pd_base)
  then show pde': "i < 1024 \<Longrightarrow> pde_of elf_mmu i = (if i = 1023 then 3 else if i = 0 then 0x1003 else 0)" for i
    by (simp add: demo_pde)
  have "pte_of elf_mmu 0 j = (if j = 5 then 0x5003 else if j = 6 then 0x6003 else pte_of demo_mmu 0 j)" if "j < 1024" for j
    using elf_mem(3) [OF that] by (simp add: pte_of_def pde demo_pde)
  then show "j < 1024 \<Longrightarrow> pte_of elf_mmu 0 j =
     (if j = 6 then 0x6003 else if j = 5 then 0x5003 else if j = 3 then 0x6003 else if j = 2 then 0x5003 else 0)" for j
    by (simp add: demo_pte)
  show "pt_ok elf_mmu"
    unfolding pt_ok_def selfmap_def
    by (auto simp: has_table_def table_of_def pde' pd flag_defs less_1023 split: if_splits)
  have "walk_bytes elf_mmu = walk_bytes demo_mmu"
    by (rule walk_bytes_cong) (simp_all add: pd demo_pd_base pde table_of_def)
  then show "q \<in> walk_bytes elf_mmu \<longleftrightarrow> q AND 0xfffff000 = 0 \<or> q AND 0xfffff000 = 0x1000" for q
    by (simp add: demo_walk_bytes)
qed

lemma elf_frames:
  "free_frames (kvms elf_kern) = {..<32}" "room (kvms elf_kern) = 32"
  "n < 32 \<Longrightarrow> unat (pm_page (vpm (kvms elf_kern)) n) = 0x400000 + n * 4096"
proof -
  have pm: "vpm (kvms elf_kern) = \<lparr>pm_bitmap = (\<lambda>i. if i = 0 then 0 else - 1), pm_page_pool = 0xe0400000\<rparr>"
    by (simp add: kvms_def elf_kern_def)
  have "pm_used (vpm (kvms elf_kern)) n \<longleftrightarrow> 32 \<le> n" for n
    by (auto simp: pm pm_used_def div_eq_0_iff)
  then show ff: "free_frames (kvms elf_kern) = {..<32}" by (auto simp: free_frames_def PM_NPAGES_def)
  then show "room (kvms elf_kern) = 32" by (simp add: room_def)
  show "n < 32 \<Longrightarrow> unat (pm_page (vpm (kvms elf_kern)) n) = 0x400000 + n * 4096"
    by (simp add: pm pm_page_phys PAGE_SIZE_def unat_word_ariths unat_of_nat take_bit_eq_mod)
qed

lemma elf_not_spare:
  assumes "spare_byte (kvms elf_kern) q"
  shows "q AND 0xfffff000 \<notin> {0, 0x1000, 0x5000, 0x6000}"
proof -
  obtain n where "n < 32" "q AND 0xfffff000 = pm_page (vpm (kvms elf_kern)) n"
    using assms by (auto simp: spare_byte_def elf_frames(1))
  then have "0x400000 \<le> unat (q AND 0xfffff000)" using elf_frames(3) by simp
  then show ?thesis by auto
qed

lemma demo_mem_zero:
  assumes "q AND 0xfffff000 \<noteq> 0" and "q AND 0xfffff000 \<noteq> 0x1000"
  shows "mem demo_mmu q = 0"
proof -
  have al: "page_aligned 0" "page_aligned 0x1000" by (simp_all add: page_aligned_def)
  have b: "(3 :: u32) < 1024" "(2 :: u32) < 1024" "(1023 :: u32) < 1024" "(0 :: u32) < 1024" by simp_all
  show ?thesis
    unfolding demo_mmu_def mmu.select_convs page_store_frame [OF al(2) b(1) assms(2)]
      page_store_frame [OF al(2) b(2) assms(2)] page_store_frame [OF al(1) b(3) assms(1)]
      page_store_frame [OF al(1) b(4) assms(1)] by (rule refl)
qed

lemma elf_clean: "clean (kvms elf_kern)"
proof -
  have v: "vmmu (kvms elf_kern) = elf_mmu" "pm_page_pool (vpm (kvms elf_kern)) = 0xe0400000"
    by (simp_all add: kvms_def elf_kern_def)
  have al: "page_aligned 0x5000" "page_aligned 0x1000" "\<forall>(i, w) \<in> set elf_words. i < 1024" "\<forall>(i, w) \<in> set elf_maps. i < 1024"
    by (simp_all add: page_aligned_def elf_words_def elf_maps_def)
  have "mem elf_mmu q = 0 \<and> q \<notin> walk_bytes elf_mmu" if "spare_byte (kvms elf_kern) q" for q
    using elf_not_spare [OF that] put_words_other [OF al(1,3), of q] put_words_other [OF al(2,4), of q] demo_mem_zero [of q]
    by (simp add: elf_tables(5)) (simp add: elf_mmu_def)
  then show ?thesis using elf_tables(4) by (simp add: clean_def v page_aligned_def)
qed

lemma elf_look:
  "user_page v \<Longrightarrow> page_look (kvms elf_kern) v =
     (if v = 0x2000 \<or> v = 0x5000 then Some 0x5000 else if v = 0x3000 \<or> v = 0x6000 then Some 0x6000 else None)"
proof -
  assume v: "user_page v"
  have m: "vmmu (kvms elf_kern) = elf_mmu" by (simp add: kvms_def elf_kern_def)
  have up: "user_page 0x2000" "user_page 0x3000" "user_page 0x5000" "user_page 0x6000"
    by (simp_all add: user_page_def page_aligned_def vm_pdir_idx_def)
  have idx: "vm_pdir_idx 0x2000 = 0" "vm_ptab_idx 0x2000 = 2" "vm_pdir_idx 0x3000 = 0" "vm_ptab_idx 0x3000 = 3"
    "vm_pdir_idx 0x5000 = 0" "vm_ptab_idx 0x5000 = 5" "vm_pdir_idx 0x6000 = 0" "vm_ptab_idx 0x6000 = 6"
    by (simp_all add: vm_pdir_idx_def vm_ptab_idx_def)
  have "v = a \<longleftrightarrow> vm_pdir_idx v = vm_pdir_idx a \<and> vm_ptab_idx v = vm_ptab_idx a" if "user_page a" for a
    using same_page_iff [of v a] user_page_self(1) [OF v] user_page_self(1) [OF that] by simp
  from this [OF up(1)] this [OF up(2)] this [OF up(3)] this [OF up(4)]
  have "v = 0x2000 \<longleftrightarrow> vm_pdir_idx v = 0 \<and> vm_ptab_idx v = 2" "v = 0x3000 \<longleftrightarrow> vm_pdir_idx v = 0 \<and> vm_ptab_idx v = 3"
    "v = 0x5000 \<longleftrightarrow> vm_pdir_idx v = 0 \<and> vm_ptab_idx v = 5" "v = 0x6000 \<longleftrightarrow> vm_pdir_idx v = 0 \<and> vm_ptab_idx v = 6"
    by (simp_all only: idx)
  then show ?thesis
    using v user_page_self(2) [OF v] elf_tables(2) [OF vm_pdir_idx_less, of v] elf_tables(3) [OF vm_ptab_idx_less, of v]
    by (auto simp: page_look_def m translate_def flag_defs user_page_def split: if_splits)
qed

lemma elf_byte:
  assumes off: "off < 0x1000" and b: "b = 0x5000 \<or> b = 0x6000"
  shows "vbyte (kvms elf_kern) (b + off) \<noteq> None"
proof -
  have al: "page_aligned b" "user_page b" using b by (auto simp: page_aligned_def user_page_def vm_pdir_idx_def)
  have m: "vmmu (kvms elf_kern) = elf_mmu" by (simp add: kvms_def elf_kern_def)
  have "\<not> spare_byte (kvms elf_kern) (b + off)"
    using elf_not_spare [of "b + off"] page_add_offset(2) [OF al(1) off] b by auto
  then show ?thesis
    using page_add_offset(2,3) [OF al(1) off] elf_look [OF al(2)] b
    by (auto simp: vbyte_def byte_at_def m elf_tables(5))
qed

lemma elf_load_word:
  assumes "j < 1024" and "map_of (rev elf_words) j = Some w"
  shows "vload32 (vmmu (kvms elf_kern)) (0x5000 + 4 * j) = Inr w"
proof -
  have al: "page_aligned 0x5000" "user_page 0x5000" by (simp_all add: page_aligned_def user_page_def vm_pdir_idx_def)
  have m: "vmmu (kvms elf_kern) = elf_mmu" by (simp add: kvms_def elf_kern_def)
  note o = mult4_less [OF assms(1)]
  have "translate (vmmu (kvms elf_kern)) (0x5000 + 4 * j) = Inr (0x5000 + 4 * j)"
    using page_look_translate(1) [of "kvms elf_kern" "0x5000 + 4 * j" "0x5000"] elf_look [OF al(2)]
      page_add_offset(2,3) [OF al(1) o] by simp
  from vload32_aligned [OF this aligned4_entry [OF al(1)]] show ?thesis
    using elf_mem(2) [OF assms] by (simp add: m)
qed

lemma elf_counts:
  assumes "j + n \<le> 4096" and "b = 0x5000 \<or> b = 0x6000"
  shows "counts (kvms elf_kern) (b + of_nat j) n"
  unfolding counts_def
proof (intro allI impI)
  fix i assume "i < n"
  then have "(of_nat (j + i) :: u32) < 0x1000" using assms(1)
    by (simp add: word_less_nat_alt unat_of_nat take_bit_eq_mod del: of_nat_add)
  from elf_byte [OF this assms(2)] show "vbyte (kvms elf_kern) (b + of_nat j + of_nat i) \<noteq> None" by (simp add: add.assoc)
qed

lemma elf_kern_image:
  "elf_image (kvms elf_kern) 0x5000 0x400010 52
     [\<lparr>sg_type = 1, sg_offset = 0x1000, sg_vaddr = 0x400000, sg_memsz = 0x1000\<rparr>]"
  "vload32 (vmmu (kvms elf_kern)) 0x5000 = Inr 0x464c457f"
proof -
  show "vload32 (vmmu (kvms elf_kern)) 0x5000 = Inr 0x464c457f"
    using elf_load_word [of 0 "0x464c457f"] by (simp add: elf_words_def)
  show "elf_image (kvms elf_kern) 0x5000 0x400010 52
     [\<lparr>sg_type = 1, sg_offset = 0x1000, sg_vaddr = 0x400000, sg_memsz = 0x1000\<rparr>]"
    unfolding elf_image_def phdr_at_def
    using elf_counts [of 0 52 "0x5000"] elf_counts [of 52 32 "0x5000"] vload16_of_load32 [of _ "0x502c" 1]
      elf_load_word [of 6 "0x400010"] elf_load_word [of 7 52] elf_load_word [of 11 1] elf_load_word [of 13 1]
      elf_load_word [of 14 "0x1000"] elf_load_word [of 15 "0x400000"] elf_load_word [of 18 "0x1000"]
    by (simp add: elf_words_def)
qed

text \<open>
  A new page over a page of the file that is mapped at its own address reads as that page of the file, as long as
  the bytes count.
\<close>

definition in_place :: "(u32 \<times> u32) list \<Rightarrow> vms \<Rightarrow> bool" where
  "in_place l s \<longleftrightarrow> (\<forall>(v, p) \<in> set l. page_look s p = Some p \<and> counts s p 4096)"

lemma in_place_reads:
  assumes "page_look s p = Some p" and "counts s p 4096" and "page_look s' v = Some p" and "user_page v"
    and "byte_at s \<subseteq>\<^sub>m byte_at s'" and "off < 0x1000"
  shows "vload8 (vmmu s') (v + off) = vload8 (vmmu s) (p + off)"
proof -
  have p: "user_page p" using assms(1) by (auto simp: page_look_def split: if_splits)
  then have al: "page_aligned p" "page_aligned v" using assms(4) by (simp_all add: user_page_def)
  note o = page_add_offset(2,3) [OF al(1) assms(6)] page_add_offset(2,3) [OF al(2) assms(6)]
  have "off = of_nat (unat off)" "unat off < 4096" using assms(6) by (simp_all add: word_less_nat_alt)
  then have "vbyte s (p + off) \<noteq> None" using assms(2) unfolding counts_def by metis
  then obtain b where b: "vbyte s (p + off) = Some b" by auto
  then have "byte_at s (p + off) = Some b" using assms(1) o(1,2) by (simp add: vbyte_def)
  then have "byte_at s' (p + off) = Some b" using assms(5) by (metis domI map_le_def)
  then have "vbyte s' (v + off) = Some b" using assms(3) o(3,4) by (simp add: vbyte_def)
  with b show ?thesis using vbyte_load by simp
qed

section \<open>Properties\<close>



end
