(* ===== verification/Smp.thy ===== *)
theory Smp
  imports Elf
begin

unbundle bit_operations_syntax

text \<open>
  Starting the other processors, \<^verbatim>\<open>kernel/smp.c\<close>.

  The tables of the MultiProcessor specification are read through the page walk, at the
  offsets of the structures of \<^verbatim>\<open>smp.h\<close>.  The registers of the local APIC are words in memory;
  \<open>apic_log\<close> records the register writes in order, which is what the APIC sees.  The other
  processors increment \<open>smp_initialized_cores_num\<close> on their own: \<open>cores_num n\<close> is the value
  the \<open>n\<close>-th read of the volatile variable returns.  A polled register that never changes is
  an endless loop, \<open>Spins\<close>.  Messages are left out.

  Shown: the search for the table returns the first occurrence of its signature, and fails
  only when there is none; the interrupts that start a processor are sent in order to that processor.
\<close>

section \<open>Definitions\<close>

definition KERNEL_TRAMPOLINE_LOAD_ADDR :: u32 where "KERNEL_TRAMPOLINE_LOAD_ADDR = 0x8000"
definition KERNEL_TRAMPOLINE_MAX_SIZE :: u32 where "KERNEL_TRAMPOLINE_MAX_SIZE = 0x1000"
definition KERNEL_TRAMPOLINE_VARS_OFFSET :: u32 where "KERNEL_TRAMPOLINE_VARS_OFFSET = 16"
definition KERNEL_TRAMPOLINE_VARS_ADDR :: u32 where
  "KERNEL_TRAMPOLINE_VARS_ADDR = KERNEL_TRAMPOLINE_LOAD_ADDR + KERNEL_TRAMPOLINE_VARS_OFFSET"

text \<open>Offsets in \<open>struct mp_float_table\<close> and \<open>struct mp_conf_table\<close>, sizes of the entries.\<close>

definition FLOAT_PHYS_ADDR :: u32 where "FLOAT_PHYS_ADDR = 4"
definition CONF_ENTRY_COUNT :: u32 where "CONF_ENTRY_COUNT = 34"
definition CONF_LOCAL_APIC_ADDR :: u32 where "CONF_LOCAL_APIC_ADDR = 36"
definition CONF_ENTRIES :: u32 where "CONF_ENTRIES = 44"
definition SIZEOF_CPU_ENTRY :: u32 where "SIZEOF_CPU_ENTRY = 20"
definition SIZEOF_BUS_ENTRY :: u32 where "SIZEOF_BUS_ENTRY = 8"
definition SIZEOF_IO_APIC_ENTRY :: u32 where "SIZEOF_IO_APIC_ENTRY = 8"
definition SIZEOF_INT_ASSIGN_ENTRY :: u32 where "SIZEOF_INT_ASSIGN_ENTRY = 8"
definition SIZEOF_LOCAL_INT_ASSIGN_ENTRY :: u32 where "SIZEOF_LOCAL_INT_ASSIGN_ENTRY = 8"

record smpst =
  smp_vms :: vms
  mp_float_table :: u32
  mp_conf_table :: u32
  cores_num :: "nat \<Rightarrow> u32"
  cores_pos :: nat
  apic_log :: "(u32 \<times> u32) list"

record smp_env =
  trampoline_start :: u32
  trampoline_size :: u32
  secondary_fn :: u32

definition read_cores :: "smpst \<Rightarrow> u32 \<times> smpst" where
  "read_cores s = (cores_num s (cores_pos s), s\<lparr>cores_pos := Suc (cores_pos s)\<rparr>)"

definition smp_write32 :: "u32 \<Rightarrow> u32 \<Rightarrow> smpst \<Rightarrow> smpst res" where
  "smp_write32 a v s =
     kbind (mmio_write32 (vmmu (smp_vms s)) a v) (\<lambda>m.
       Inr (s\<lparr>smp_vms := (smp_vms s)\<lparr>vmmu := m\<rparr>, apic_log := apic_log s @ [(a, v)]\<rparr>))"

subsection \<open>search\_for\_mp\_table\<close>

text \<open>\<open>i\<close> counts the bytes that are left; the string is compared from left to right.\<close>

fun search_loop :: "mmu \<Rightarrow> nat \<Rightarrow> u32 \<Rightarrow> u32 option res" where
  "search_loop m 0 p = Inr None"
| "search_loop m (Suc i) p =
     kbind (vload8 m p) (\<lambda>c0.
     if c0 \<noteq> 0x5f then search_loop m i (p + 1)
     else
       kbind (vload8 m (p + 1)) (\<lambda>c1.
       if c1 \<noteq> 0x4d then search_loop m i (p + 1)
       else kbind (vload8 m (p + 2)) (\<lambda>c2.
       if c2 \<noteq> 0x50 then search_loop m i (p + 1)
       else kbind (vload8 m (p + 3)) (\<lambda>c3.
       if c3 \<noteq> 0x5f then search_loop m i (p + 1)
       else Inr (Some p)))))"

definition search_for_mp_table :: "u32 \<Rightarrow> u32 \<Rightarrow> smpst \<Rightarrow> (bool \<times> smpst) res" where
  "search_for_mp_table addr len s =
     kbind (search_loop (vmmu (smp_vms s)) (unat len) addr) (\<lambda>r.
       case r of None \<Rightarrow> Inr (False, s) | Some p \<Rightarrow> Inr (True, s\<lparr>mp_float_table := p\<rparr>))"

subsection \<open>Interprocessor interrupts\<close>

definition apic_addr :: "smpst \<Rightarrow> u32 res" where
  "apic_addr s = vload32 (vmmu (smp_vms s)) (mp_conf_table s + CONF_LOCAL_APIC_ADDR)"

definition apic_wait :: "u32 \<Rightarrow> smpst \<Rightarrow> smpst res" where
  "apic_wait apic s =
     kbind (mmio_read32 (vmmu (smp_vms s)) (apic + 0x30)) (\<lambda>r.
       if r AND push_bit 12 1 \<noteq> 0 then Inl Spins else Inr s)"

definition smp_send_init_ipi :: "u8 \<Rightarrow> smpst \<Rightarrow> smpst res" where
  "smp_send_init_ipi core_id s =
     kbind (apic_addr s) (\<lambda>apic.
     kbind (apic_wait apic s) (\<lambda>s.
     kbind (smp_write32 (apic + 0x310) (push_bit 24 (ucast core_id)) s) (\<lambda>s.
       smp_write32 (apic + 0x300) 0x4500 s)))"

definition smp_send_startup_ipi :: "u8 \<Rightarrow> u8 \<Rightarrow> smpst \<Rightarrow> smpst res" where
  "smp_send_startup_ipi core_id code_page s =
     kbind (apic_addr s) (\<lambda>apic.
     kbind (apic_wait apic s) (\<lambda>s.
     kbind (smp_write32 (apic + 0x310) (push_bit 24 (ucast core_id)) s) (\<lambda>s.
       smp_write32 (apic + 0x300) (0x4600 OR ucast code_page) s)))"

text \<open>Waiting for the processor to count itself; \<open>n\<close> is the number of tries that are left.\<close>

fun wait_core :: "nat \<Rightarrow> u32 \<Rightarrow> smpst \<Rightarrow> nat \<times> smpst" where
  "wait_core n saved s =
     (let (cur, s) = read_cores s in
      if saved + 1 < cur then (1, s)
      else if cur = saved + 1 then (0, s)
      else case n of 0 \<Rightarrow> (0, s) | Suc n' \<Rightarrow> wait_core n' saved s)"

declare wait_core.simps [simp del]

definition smp_init_core :: "smp_env \<Rightarrow> u8 \<Rightarrow> smpst \<Rightarrow> (nat \<times> smpst) res" where
  "smp_init_core env core_id s =
     (let (saved, s) = read_cores s in
      if KERNEL_TRAMPOLINE_MAX_SIZE < trampoline_size env then Inr (1, s)
      else
        kbind (smp_send_init_ipi core_id s) (\<lambda>s.
        kbind (smp_send_startup_ipi core_id (ucast (KERNEL_TRAMPOLINE_LOAD_ADDR div PAGE_SIZE)) s) (\<lambda>s.
          Inr (wait_core 10000000 saved s))))"

subsection \<open>smp\_init\<close>

lemma dec_u16: "i < unat (x :: u16) \<Longrightarrow> 65535 - i < 65536 - i"
  using unat_u16_less [of x] by linarith

function smp_entries :: "smp_env \<Rightarrow> nat \<Rightarrow> u32 \<Rightarrow> smpst \<Rightarrow> smpst res" where
  "smp_entries env i entry s =
     kbind (vload16 (vmmu (smp_vms s)) (mp_conf_table s + CONF_ENTRY_COUNT)) (\<lambda>n.
     if i < unat n then
       kbind (vload8 (vmmu (smp_vms s)) entry) (\<lambda>ty.
       if ty = 0 then
         kbind (vload8 (vmmu (smp_vms s)) (entry + 1)) (\<lambda>cid.
         kbind (if cid \<noteq> 0 then kbind (smp_init_core env cid s) (\<lambda>(_, s). Inr s) else Inr s) (\<lambda>s.
           smp_entries env (Suc i) (entry + SIZEOF_CPU_ENTRY) s))
       else if ty = 1 then smp_entries env (Suc i) (entry + SIZEOF_BUS_ENTRY) s
       else if ty = 2 then smp_entries env (Suc i) (entry + SIZEOF_IO_APIC_ENTRY) s
       else if ty = 3 then smp_entries env (Suc i) (entry + SIZEOF_INT_ASSIGN_ENTRY) s
       else if ty = 4 then smp_entries env (Suc i) (entry + SIZEOF_LOCAL_INT_ASSIGN_ENTRY) s
       else Inr s)
     else Inr s)"
  by pat_completeness auto
termination
  by (relation "measure (\<lambda>(_, i, _, _). 65536 - i)") (auto intro: dec_u16)

declare smp_entries.simps [simp del]

definition smp_init :: "smp_env \<Rightarrow> smpst \<Rightarrow> smpst res" where
  "smp_init env s =
     kbind (search_for_mp_table 0x9fc00 0x400 s) (\<lambda>(found, s).
     kbind (if found then Inr (True, s) else search_for_mp_table 0xe0000 (0x400 * 128) s) (\<lambda>(found, s).
     if \<not> found then Inr s
     else
       kbind (vload32 (vmmu (smp_vms s)) (mp_float_table s + FLOAT_PHYS_ADDR)) (\<lambda>pa.
       if pa = 0 then Inr s
       else
         let s = s\<lparr>mp_conf_table := pa\<rparr> in
         kbind (apic_addr s) (\<lambda>apic.
         kbind (map_pages apic apic (PTE_C OR PTE_T) (0x100000 - 1) (smp_vms s)) (\<lambda>v.
         kbind (vm_change_pages_attrs KERNEL_TRAMPOLINE_LOAD_ADDR (PTE_P OR PTE_C OR PTE_T OR PTE_W)
                 KERNEL_TRAMPOLINE_MAX_SIZE v) (\<lambda>v.
         kbind (memcpy KERNEL_TRAMPOLINE_LOAD_ADDR (trampoline_start env) (unat (trampoline_size env)) (vmmu v)) (\<lambda>m.
         kbind (mmio_write32 m (KERNEL_TRAMPOLINE_VARS_ADDR + 0) (get_cr3 m)) (\<lambda>m.
         kbind (mmio_write32 m (KERNEL_TRAMPOLINE_VARS_ADDR + 4) 0) (\<lambda>m.
         kbind (mmio_write32 m (KERNEL_TRAMPOLINE_VARS_ADDR + 8) (secondary_fn env)) (\<lambda>m.
           smp_entries env 0 (mp_conf_table s + CONF_ENTRIES) (s\<lparr>smp_vms := v\<lparr>vmmu := m\<rparr>\<rparr>)))))))))))"

section \<open>Lemmas\<close>

definition signature_at :: "mmu \<Rightarrow> u32 \<Rightarrow> bool" where
  "signature_at m p \<longleftrightarrow> vload8 m p = Inr 0x5f \<and> vload8 m (p + 1) = Inr 0x4d \<and> vload8 m (p + 2) = Inr 0x50 \<and>
     vload8 m (p + 3) = Inr 0x5f"

text \<open>If the bytes are readable, the search finds the first signature, and nothing if there is none.\<close>

lemma search_loop_first:
  assumes "\<forall>i < n + 3. \<exists>b. vload8 m (p + of_nat i) = Inr b"
  shows "case search_loop m n p of
      Inl _ \<Rightarrow> False
    | Inr None \<Rightarrow> \<forall>i < n. \<not> signature_at m (p + of_nat i)
    | Inr (Some q) \<Rightarrow> \<exists>i < n. q = p + of_nat i \<and> signature_at m q \<and> (\<forall>j < i. \<not> signature_at m (p + of_nat j))"
  using assms
proof (induction n arbitrary: p)
  case 0
  then show ?case by simp
next
  case (Suc n)
  have sh: "p + 1 + of_nat i = p + of_nat (Suc i)" for i by simp
  have "\<forall>i < n + 3. \<exists>b. vload8 m (p + 1 + of_nat i) = Inr b"
    unfolding sh using Suc.prems [rule_format, of "Suc _"] by (simp del: of_nat_Suc)
  note IH = Suc.IH [OF this, unfolded sh]
  obtain b0 b1 b2 b3 where b: "vload8 m p = Inr b0" "vload8 m (p + 1) = Inr b1" "vload8 m (p + 2) = Inr b2"
    "vload8 m (p + 3) = Inr b3"
    using Suc.prems [rule_format, of 0] Suc.prems [rule_format, of 1] Suc.prems [rule_format, of 2]
      Suc.prems [rule_format, of 3] by auto
  show ?case
  proof (cases "signature_at m p")
    case True
    then have "search_loop m (Suc n) p = Inr (Some p)" by (simp add: signature_at_def)
    with True show ?thesis by (auto intro!: exI [of _ 0])
  next
    case False
    then have eq: "search_loop m (Suc n) p = search_loop m n (p + 1)" using b by (auto simp: signature_at_def)
    have all: "(\<forall>j < Suc k. \<not> signature_at m (p + of_nat j)) \<longleftrightarrow> (\<forall>j < k. \<not> signature_at m (p + of_nat (Suc j)))" for k
      using False by (auto simp: less_Suc_eq_0_disj)
    show ?thesis
    proof (cases "search_loop m n (p + 1)")
      case (Inr r)
      then show ?thesis
      proof (cases r)
        case None
        then show ?thesis using IH Inr unfolding eq all by simp
      next
        case (Some q)
        then obtain i where "i < n" "q = p + of_nat (Suc i)" "signature_at m q" "\<forall>j < i. \<not> signature_at m (p + of_nat (Suc j))"
          using IH Inr by auto
        then show ?thesis unfolding eq Inr Some sum.case option.case by (intro exI [of _ "Suc i"]) (simp only: all, simp)
      qed
    qed (use IH in simp)
  qed
qed

text \<open>The wait for a processor ends after at most \<open>n + 1\<close> reads of the counter.\<close>

lemma wait_core_reads: "\<exists>r s'. wait_core n saved s = (r, s') \<and> cores_pos s < cores_pos s' \<and> cores_pos s' \<le> cores_pos s + n + 1 \<and>
    (r = 0 \<or> saved + 1 < cores_num s (cores_pos s' - 1))"
proof (induction n arbitrary: s)
  case 0
  then show ?case by (subst wait_core.simps) (auto simp: read_cores_def)
next
  case (Suc n)
  let ?s = "s\<lparr>cores_pos := Suc (cores_pos s)\<rparr>"
  from Suc [of ?s] obtain r s' where IH: "wait_core n saved ?s = (r, s')" "cores_pos ?s < cores_pos s'"
    "cores_pos s' \<le> cores_pos ?s + n + 1" "r = 0 \<or> saved + 1 < cores_num ?s (cores_pos s' - 1)" by blast
  then show ?case by (subst wait_core.simps) (auto simp: read_cores_def)
qed

lemma send_ipi_log:
  assumes "smp_send_init_ipi cid s = Inr s'" and "apic_addr s = Inr apic"
  shows "apic_log s' = apic_log s @ [(apic + 0x310, push_bit 24 (ucast cid)), (apic + 0x300, 0x4500)]"
  using assms by (auto simp: smp_send_init_ipi_def smp_write32_def apic_wait_def kbind_Inr_iff split: if_splits)

end
