(* ===== verification/Boot.thy ===== *)
theory Boot
  imports Trap Sar Smp
begin

unbundle bit_operations_syntax

text \<open>
  Booting, \<^verbatim>\<open>kernel/kernel.c\<close>: the correction of the boot loader's memory map, and \<open>kmain\<close>, which
  brings up every component in order, creates the processes of the initial RAM disk and
  starts the first one.

  The memory map is a list; reading or writing behind its end is \<open>OutOfBounds\<close>.
  \<open>base_low\<close> is a pointer to 32-bit words in the source, so adding a length to it scales by 4 and the
  difference of two of them is divided by 4 (\<open>ptr_diff\<close>).  Addresses and sizes the linker provides are
  the record \<open>boot_env\<close>; the bytes that follow a string literal in memory are part of it,
  because \<open>proc_new\<close> copies 32 bytes from every name.  The archive is the bytes at \<open>initrd_addr\<close>, up
  to the first one that is not mapped.

  Shown: with the 16 entries that \<open>struct kern_bootinfo\<close> declares, \<open>adjust_the_memory_map\<close> always
  leaves the array.
\<close>

section \<open>Definitions\<close>

subsection \<open>adjust\_the\_memory\_map\<close>

type_synonym mmap = "memory_map_entry list"

definition get_entry :: "nat \<Rightarrow> mmap \<Rightarrow> memory_map_entry res" where
  "get_entry i mm = (if i < length mm then Inr (mm ! i) else Inl OutOfBounds)"

definition set_entry :: "nat \<Rightarrow> memory_map_entry \<Rightarrow> mmap \<Rightarrow> mmap res" where
  "set_entry i e mm = (if i < length mm then Inr (mm[i := e]) else Inl OutOfBounds)"

text \<open>\<open>for (k = 62; k > i; k--) memory_map[k + 1] = memory_map[k];\<close>\<close>

fun shift_up :: "nat \<Rightarrow> nat \<Rightarrow> mmap \<Rightarrow> mmap res" where
  "shift_up 0 i mm = Inr mm"
| "shift_up (Suc k) i mm =
     (if i < Suc k
      then kbind (get_entry (Suc k) mm) (\<lambda>e. kbind (set_entry (Suc k + 1) e mm) (shift_up k i))
      else Inr mm)"

definition ptr_diff :: "u32 \<Rightarrow> u32 \<Rightarrow> u32" where
  "ptr_diff a b = signed_drop_bit 2 (a - b)"

definition ptr_add :: "u32 \<Rightarrow> u32 \<Rightarrow> u32" where
  "ptr_add a n = a + 4 * n"

definition kernentry :: "u32 \<Rightarrow> u32 \<Rightarrow> memory_map_entry" where
  "kernentry kernel_phys kernel_size =
     \<lparr>base_low = kernel_phys, base_high = 0, len_low = kernel_size + 0x400 * 4 + 0x100000 * 4, len_high = 0,
      mtype = 2, acpi_ext = 0\<rparr>"

text \<open>The body of the first loop for entry \<open>i\<close>; the result has the new value of \<open>i\<close>.\<close>

definition adjust_entry :: "memory_map_entry \<Rightarrow> nat \<Rightarrow> memory_map_entry \<Rightarrow> mmap \<Rightarrow> (nat \<times> mmap) res" where
  "adjust_entry kern i e mm =
     (let d = ptr_diff (base_low kern) (base_low e) in
      if mtype e = 1 \<and> base_low e \<le> base_low kern \<and> len_low kern + d \<le> len_low e then
        let pre = e\<lparr>len_low := d, len_high := 0\<rparr>;
            pre_align = e\<lparr>base_low := ptr_add (base_low pre) (len_low pre), base_high := 0,
                         len_low := len_low e - len_low pre, len_high := 0\<rparr>
        in kbind (if 0 <s d then
                    kbind (shift_up 62 i mm) (\<lambda>mm.
                    kbind (set_entry i pre mm) (\<lambda>mm.
                    kbind (set_entry (i + 1) pre_align mm) (\<lambda>mm. Inr (i + 1, mm))))
                  else Inr (i, mm)) (\<lambda>(i, mm).
           kbind (set_entry i kern mm) (\<lambda>mm.
           if 0 < len_low e - len_low kern - d then
             let post = \<lparr>base_low = ptr_add (base_low kern) (len_low kern), base_high = 0,
                         len_low = ptr_diff (ptr_add (base_low e) (len_low e)) (ptr_add (base_low kern) (len_low kern)),
                         len_high = 0, mtype = 1, acpi_ext = 0\<rparr>
             in kbind (shift_up 62 i mm) (\<lambda>mm.
                kbind (set_entry (i + 1) post mm) (\<lambda>mm. Inr (i, mm)))
           else Inr (i, mm)))
      else Inr (i, mm))"

lemma adjust_entry_index: "adjust_entry kern i e mm = Inr (i', mm') \<Longrightarrow> i \<le> i'"
  by (auto simp: adjust_entry_def Let_def kbind_Inr_iff split: if_splits)

function adjust_loop :: "memory_map_entry \<Rightarrow> nat \<Rightarrow> mmap \<Rightarrow> mmap res" where
  "adjust_loop kern i mm =
     (if i < 61 then
        kbind (get_entry i mm) (\<lambda>e.
        kbind (adjust_entry kern i e mm) (\<lambda>(i, mm). adjust_loop kern (i + 1) mm))
      else Inr mm)"
  by pat_completeness auto
termination
  by (relation "measure (\<lambda>(_, i, _). 61 - i)") (auto dest: adjust_entry_index)

declare adjust_loop.simps [simp del]

text \<open>\<open>while ((e + j)->type == e->type)\<close> for \<open>e = &memory_map[i]\<close>\<close>

lemma get_entry_bound: "get_entry i mm = Inr e \<Longrightarrow> i < length mm"
  by (simp add: get_entry_def split: if_splits)

lemma set_entry_length: "set_entry i e mm = Inr mm' \<Longrightarrow> length mm' = length mm"
  by (auto simp: set_entry_def split: if_splits)

function merge_run :: "nat \<Rightarrow> nat \<Rightarrow> mmap \<Rightarrow> (nat \<times> mmap) res" where
  "merge_run i j mm =
     kbind (get_entry i mm) (\<lambda>e. kbind (get_entry (i + j) mm) (\<lambda>f.
       if mtype f = mtype e
       then kbind (set_entry i (e\<lparr>len_low := len_low e + len_low f\<rparr>) mm) (merge_run i (j + 1))
       else Inr (j, mm)))"
  by pat_completeness auto
termination
  by (relation "measure (\<lambda>(i, j, mm). length mm - (i + j))") (auto dest!: get_entry_bound set_entry_length)

declare merge_run.simps [simp del]

definition merge_at :: "nat \<Rightarrow> mmap \<Rightarrow> mmap res" where
  "merge_at i mm =
     kbind (get_entry i mm) (\<lambda>e.
     if len_low e OR len_high e = 0 then Inr mm
     else kbind (get_entry (i + 1) mm) (\<lambda>f.
       if mtype f = mtype e then
         kbind (merge_run i 1 mm) (\<lambda>(j, mm).
           kfold [i + 1 ..< 64 - i - 1] (\<lambda>k mm. kbind (get_entry (k + (j - 1)) mm) (\<lambda>p. set_entry k p mm)) mm)
       else Inr mm))"

definition adjust_the_memory_map :: "u32 \<Rightarrow> u32 \<Rightarrow> mmap \<Rightarrow> u32 \<Rightarrow> (mmap \<times> u32) res" where
  "adjust_the_memory_map kernel_phys kernel_size mm mem_avail =
     kbind (adjust_loop (kernentry kernel_phys kernel_size) 0 mm) (\<lambda>mm.
     kbind (kfor 64 merge_at mm) (\<lambda>mm.
     kbind (kfor 64 (\<lambda>i avail. kbind (get_entry i mm) (\<lambda>e.
              Inr (if mtype e = 1 \<or> mtype e = 3 then avail + len_low e else avail))) mem_avail) (\<lambda>avail.
       Inr (mm, avail))))"

subsection \<open>kmain\<close>

definition essential_initrd_processes :: "string list" where
  "essential_initrd_processes = [''screen'', ''kbd'', ''shell'', ''angle'']"

record boot_env =
  be_kernel_phys :: u32
  be_kernel_size :: u32
  be_gdt_addr :: u32
  be_tss_addr :: u32
  be_stack_top :: u32
  be_idt_addr :: u32
  be_stub :: "nat \<Rightarrow> u32"
  be_death_fn :: u32
  be_kbd_fn :: u32
  be_timer_fn :: u32
  be_syscalls :: syscall_env
  be_link :: link_env
  be_smp :: smp_env
  be_after :: "string \<Rightarrow> u8 list"

record boot =
  bsys :: sys
  initrd_addr :: u32
  initrd_size :: u32
  mem_avail :: u32
  memory_map :: mmap
  bsmp :: smpst

definition on_sys :: "(sys \<Rightarrow> sys res) \<Rightarrow> boot \<Rightarrow> boot res" where
  "on_sys f b = kbind (f (bsys b)) (\<lambda>s. Inr (b\<lparr>bsys := s\<rparr>))"

definition on_kern :: "(kern \<Rightarrow> kern res) \<Rightarrow> boot \<Rightarrow> boot res" where
  "on_kern f = on_sys (\<lambda>s. kbind (f (sk s)) (\<lambda>k. Inr (s\<lparr>sk := k\<rparr>)))"

definition boot_print_init :: "sys \<Rightarrow> sys res" where
  "boot_print_init s =
     kbind (print_init \<lparr>con_io = kio (sk s), con_vga = svga s, print_lock = sprint_lock s\<rparr>) (\<lambda>c.
       Inr (s\<lparr>sk := (sk s)\<lparr>kio := con_io c\<rparr>, svga := con_vga c, sprint_lock := print_lock c\<rparr>))"

definition boot_idt_init :: "boot_env \<Rightarrow> kern \<Rightarrow> kern res" where
  "boot_idt_init env k =
     (let (io, d) = idt_init (be_stub env) (be_idt_addr env) (be_death_fn env) (kio k) (kidt k)
      in Inr (k\<lparr>kio := io, kidt := d\<rparr>))"

definition boot_pm_init :: "mmap \<Rightarrow> kern \<Rightarrow> kern res" where
  "boot_pm_init mm k =
     kbind (pm_init mm (vpm (kvms k))) (\<lambda>(_, p). Inr (upd_vms ((kvms k)\<lparr>vpm := p\<rparr>) k))"

definition boot_smp_init :: "boot_env \<Rightarrow> boot \<Rightarrow> boot res" where
  "boot_smp_init env b =
     kbind (smp_init (be_smp env) ((bsmp b)\<lparr>smp_vms := kvms (sk (bsys b))\<rparr>)) (\<lambda>s.
       Inr (b\<lparr>bsmp := s, bsys := (bsys b)\<lparr>sk := upd_vms (smp_vms s) (sk (bsys b))\<rparr>\<rparr>))"

fun mapped_bytes :: "mmu \<Rightarrow> u32 \<Rightarrow> nat \<Rightarrow> u8 list" where
  "mapped_bytes m a 0 = []"
| "mapped_bytes m a (Suc n) = (case vload8 m a of Inl _ \<Rightarrow> [] | Inr x \<Rightarrow> x # mapped_bytes m (a + 1) n)"

definition initrd :: "boot \<Rightarrow> u8 list" where
  "initrd b = mapped_bytes (kmmu (sk (bsys b))) (initrd_addr b) (unat (initrd_size b))"

text \<open>The loop over the processes; the flag is \<open>all_processes_loaded\<close>.\<close>

fun load_processes :: "boot_env \<Rightarrow> string list \<Rightarrow> bool \<times> boot \<Rightarrow> (bool \<times> boot) res" where
  "load_processes env [] (all, b) = Inr (all, b)"
| "load_processes env (name # names) (all, b) =
     kbind (sar_lookup (initrd b) (cstring name)) (\<lambda>r.
     case r of
       Some p \<Rightarrow>
         kbind (read_fhdr (initrd b) p) (\<lambda>h.
         kbind (on_sys (sys_kprintf (cstring ''[initrd] loading process %s\<newline>'') [VStr (cstring name)]) b) (\<lambda>b.
         kbind (on_kern (\<lambda>k. kbind (proc_new_from_memory (proc_load_fn (be_link env)) (cstring name @ be_after env name)
                   False True (initrd_addr b + foffset h) (fsize h) k) (\<lambda>(_, k). Inr k)) b) (\<lambda>b.
           load_processes env names (all, b))))
     | None \<Rightarrow>
         kbind (on_sys (sys_kprintf (cstring (''error: process '' @ [CHR 0x27] @ ''%s'' @ [CHR 0x27] @
                   '' was not found in the initrd!\<newline>'')) [VStr (cstring name)]) b) (\<lambda>b.
           load_processes env names (False, b)))"

definition kmain_init :: "boot_env \<Rightarrow> boot \<Rightarrow> boot res" where
  "kmain_init env b =
     kbind (adjust_the_memory_map (be_kernel_phys env) (be_kernel_size env) (memory_map b) (mem_avail b)) (\<lambda>(mm, avail).
     let b = b\<lparr>memory_map := mm, mem_avail := avail\<rparr> in
     kbind (on_sys boot_print_init b) (\<lambda>b.
     kbind (on_sys (sys_kprintf (cstring ''[kern] available memory detected %d MiB\<newline>'')
             [VInt (mem_avail b div 1024 div 1024)]) b) (\<lambda>b.
     kbind (on_kern (\<lambda>k. kbind (gdt_init (be_gdt_addr env) (be_tss_addr env) (be_stack_top env) (kseg k))
             (\<lambda>g. Inr (k\<lparr>kseg := g\<rparr>))) b) (\<lambda>b.
     kbind (on_kern (boot_idt_init env) b) (\<lambda>b.
     kbind (on_kern (boot_pm_init (memory_map b)) b) (\<lambda>b.
     kbind (on_sys (kbd_install (be_kbd_fn env)) b) (\<lambda>b.
     kbind (on_sys (timer_install (be_timer_fn env)) b) (\<lambda>b.
     kbind (on_kern (\<lambda>k. kbind (heap_init (kheap k)) (\<lambda>h. Inr (k\<lparr>kheap := h\<rparr>))) b) (\<lambda>b.
     kbind (on_kern (\<lambda>k. kbind (syscall_install (be_syscalls env) (kidt k)) (\<lambda>d. Inr (k\<lparr>kidt := d\<rparr>))) b) (\<lambda>b.
     kbind (on_kern (proc_earlyinit (be_link env)) b) (\<lambda>b.
     kbind (on_sys pci_init b) (boot_smp_init env))))))))))))"

definition kmain :: "boot_env \<Rightarrow> boot \<Rightarrow> (cpu_entry \<times> boot) res" where
  "kmain env b =
     kbind (kmain_init env b) (\<lambda>b.
     kbind (load_processes env essential_initrd_processes (True, b)) (\<lambda>(all, b).
     if \<not> all then Inl Halted
     else kbind (proc_kickoff_first_process (sk (bsys b))) (\<lambda>(ce, k).
       Inr (ce, b\<lparr>bsys := (bsys b)\<lparr>sk := k\<rparr>\<rparr>))))"

text \<open>The locked increment is one step.\<close>

definition atomic_inc :: "u32 \<Rightarrow> u32" where
  "atomic_inc v = v + 1"

text \<open>A secondary processor: its descriptor tables, the counter, then \<open>hlt\<close> for ever.\<close>

definition kmain_secondary_cores :: "boot_env \<Rightarrow> segst \<Rightarrow> idtst \<Rightarrow> u32 \<Rightarrow> segst \<times> idtst \<times> u32" where
  "kmain_secondary_cores env g d cores =
     (gdt_install (be_gdt_addr env) g, idt_install (be_idt_addr env) d, atomic_inc cores)"

section \<open>Lemmas\<close>

lemma shift_up_short: "length mm = 16 \<Longrightarrow> i < 61 \<Longrightarrow> shift_up 62 i mm = Inl OutOfBounds"
  using shift_up.simps(2) [of 61 i mm] by (simp add: get_entry_def)

lemma adjust_entry_short:
  assumes "length mm = 16" and "i < 61"
  shows "adjust_entry kern i e mm = Inl OutOfBounds \<or> (\<exists>mm'. adjust_entry kern i e mm = Inr (i, mm') \<and> length mm' = 16)"
  using shift_up_short assms by (auto simp: adjust_entry_def Let_def set_entry_def)

lemma adjust_loop_short:
  assumes "length mm = 16" and "i < 61"
  shows "adjust_loop kern i mm = Inl OutOfBounds"
  using assms
proof (induction "61 - i" arbitrary: i mm)
  case (Suc n)
  show ?case
  proof (cases "i < 16")
    case False
    then show ?thesis using Suc.prems by (subst adjust_loop.simps) (simp add: get_entry_def)
  next
    case True
    then have g: "get_entry i mm = Inr (mm ! i)" using Suc.prems by (simp add: get_entry_def)
    from adjust_entry_short [OF Suc.prems, of kern "mm ! i"] show ?thesis
    proof (elim disjE exE conjE)
      fix mm' assume e: "adjust_entry kern i (mm ! i) mm = Inr (i, mm')" "length mm' = 16"
      have "adjust_loop kern (i + 1) mm' = Inl OutOfBounds"
        using Suc.hyps(1) [of "i + 1" mm'] Suc.hyps(2) e(2) True by simp
      then show ?thesis using g e(1) Suc.prems(2) by (subst adjust_loop.simps) simp
    qed (use g Suc.prems(2) in \<open>subst adjust_loop.simps, simp\<close>)
  qed
qed simp

section \<open>Properties\<close>

text \<open>
  C40. The memory map of \<open>struct kern_bootinfo\<close> has 16 entries, and \<open>adjust_the_memory_map\<close> treats it as
  having 64: whatever the boot loader left in it and wherever the kernel lies, the function
  accesses an entry behind the end of the array.
\<close>

theorem adjust_the_memory_map_overruns:
  assumes "length mm = 16"
  shows "adjust_the_memory_map kernel_phys kernel_size mm avail = Inl OutOfBounds"
  using adjust_loop_short [OF assms, of 0] by (simp add: adjust_the_memory_map_def)

theorem adjust_the_memory_map_overruns_witness:
  "adjust_the_memory_map 0x100000 0x20000
     (replicate 16 \<lparr>base_low = 0, base_high = 0, len_low = 0, len_high = 0, mtype = 0, acpi_ext = 0\<rparr>) 0 = Inl OutOfBounds"
  by (rule adjust_the_memory_map_overruns) simp

end
