(* ===== verification/Ipc.thy ===== *)
theory Ipc
  imports Syscall Aspace
begin

unbundle bit_operations_syntax

text \<open>
  The effect of complete message-passing system calls of \<^verbatim>\<open>kernel/syscall.c\<close>, up to and
  including the scheduling step that ends them.

  Shown: a receive with a message waiting copies it into the caller's buffer and names its
  sender; a reply delivers the answer, takes the message off the queue, releases its node
  and makes the sender ready; a message to an unknown process is dropped and leaves
  scheduling switched off.
\<close>

section \<open>Lemmas\<close>

lemma pids_ok_procs:
  assumes "pids_ok t" and "next_pid t' = next_pid t" and "\<And>j. pid (procs t' j) = pid (procs t j)"
    and "\<And>j. j < NPROCS \<Longrightarrow> (state (procs t' j) = PROC_UNUSED) = (state (procs t j) = PROC_UNUSED)"
  shows "pids_ok t'"
  using assms unfolding pids_ok_def used_slot_def by metis

lemma rply_ready_tab:
  assumes "procs t = procs (ktab k)"
  shows "rply_ready hp (k\<lparr>ktab := t\<rparr>) c msg mp x xs L sp i = rply_ready hp k c msg mp x xs L sp i"
  using assms by (simp add: rply_ready_def proc_find_by_pid_def)

lemma kld_tab [simp]: "kld a (k\<lparr>ktab := t\<rparr>) = kld a k"
  by (simp add: kld_def)

text \<open>The call ends with a scheduling step of the caller \<open>c\<close>.\<close>

definition resched :: "kern \<Rightarrow> nat \<Rightarrow> u32 \<Rightarrow> u32 \<Rightarrow> kern \<Rightarrow> bool" where
  "resched k c fr r k' \<longleftrightarrow> (\<exists>n. current_proc (ktab k') = Some n \<and> r = trapframe (procs (ktab k') n) \<and>
     scheduling_enabled (ktab k') \<and> mem (kmmu k') = mem (kmmu k) \<and>
     heap_initialized (kheap k') = heap_initialized (kheap k) \<and>
     idle (ktab k') = idle (ktab k) \<and> next_pid (ktab k') = next_pid (ktab k) \<and>
     cr3 (kmmu k') = (if n = c then cr3 (kmmu k) else pdir (procs (ktab k') n)) \<and>
     procs (ktab k') = (procs (ktab k))(c := sched_save fr (procs (ktab k) c)))"

lemma schedule_resched:
  assumes "scheduling_enabled (ktab k)" and "current_proc (ktab k) = Some c" and "used_slot (ktab k) c"
    and "idle (ktab k) = Some d" and "pids_ok (ktab k)"
  shows "\<exists>r k'. proc_schedule_without_irq fr k = Inr (r, k') \<and> resched k c fr r k'"
proof -
  obtain n i t where t: "t = (ktab k)\<lparr>procs := (procs (ktab k))(c := sched_save fr (procs (ktab k) c)), fnp_i := i\<rparr>"
    and res: "proc_schedule_after_irq fr k = (if n = c then Inr (fr, k\<lparr>ktab := t\<rparr>)
      else Inr (trapframe (procs t n), switch_to n (k\<lparr>ktab := t\<lparr>current_proc := Some n\<rparr>\<rparr>)))"
    by (rule proc_schedule_effect [OF assms, of fr]) (rule that)
  show ?thesis
  proof (cases "n = c")
    case True
    then have "resched k c fr fr (k\<lparr>ktab := t\<rparr>)"
      using assms(1,2) by (auto simp: resched_def t sched_save_def)
    with res True show ?thesis by (auto simp: proc_schedule_without_irq_def)
  next
    case False
    then have "resched k c fr (trapframe (procs t n)) (switch_to n (k\<lparr>ktab := t\<lparr>current_proc := Some n\<rparr>\<rparr>))"
      using assms(1) by (simp add: resched_def t switch_to_def Let_def upd_mmu_def kmmu_def set_cr3_def)
    with res False show ?thesis by (auto simp: proc_schedule_without_irq_def)
  qed
qed

subsection \<open>Reply\<close>

text \<open>The complete call.\<close>

lemma rply_answers:
  assumes ready: "rply_ready hp k c msg mp x xs L sp i" and eax: "kld (regs + REGS_EAX) k = Inr msg"
    and cur: "current_proc (ktab k) = Some c" and us: "used_slot (ktab k) c" and us': "used_slot (ktab k) i"
    and idle: "idle (ktab k) = Some d" and pok: "pids_ok (ktab k)"
    and st: "state (procs (ktab k) c) = PROC_RUNNING \<or> state (procs (ktab k) c) = PROC_READY"
  defines "pr \<equiv> fld (kmmu k) (node_phys hp x) 28" and "rl \<equiv> unat (fld (kmmu k) (node_phys hp x) 20)"
  obtains r k' m' n where "syscall_rply_msg fr regs k = Inr (r, k')" and "(kmmu k')\<lparr>cr3 := cr3 (kmmu k)\<rparr> = m'"
    and "\<forall>j < rl. mem m' (pr + of_nat j) = mem (kmmu k) (sp + of_nat j)"
    and "qrep m' hp (recv_queue (procs (ktab k') c)) xs" and "heap_rep hp (kheap (upd_mmu (\<lambda>_. m') k')) (L - {x})"
    and "state (procs (ktab k') i) = PROC_READY" and "state (procs (ktab k') c) = PROC_READY" and "trapframe (procs (ktab k') c) = fr"
    and "\<forall>j. j \<noteq> c \<longrightarrow> j \<noteq> i \<longrightarrow> procs (ktab k') j = procs (ktab k) j"
    and "current_proc (ktab k') = Some n" and "r = trapframe (procs (ktab k') n)" and "scheduling_enabled (ktab k')"
    and "\<forall>w. vm_pdir_idx w \<noteq> 1023 \<longrightarrow> translate m' w = translate (kmmu k) w"
    and "\<forall>q. q \<notin> walk_bytes (kmmu k) \<union> obj_bytes pr rl \<union> heap_frames hp \<longrightarrow> mem m' q = mem (kmmu k) q"
    and "\<forall>h ys. qrep (kmmu k) hp h ys \<longrightarrow> set ys \<subseteq> L \<longrightarrow> qrep m' hp h ys"
    and "i \<noteq> c \<longrightarrow> procs (ktab k') i = (procs (ktab k) i)\<lparr>state := PROC_READY\<rparr>"
proof -
  let ?k0 = "k\<lparr>ktab := proc_disable_scheduling (ktab k)\<rparr>"
  have "rply_ready hp ?k0 c msg mp x xs L sp i"
    using ready by (subst rply_ready_tab) (simp_all add: proc_disable_scheduling_def)
  from rply_first_effect [OF this] obtain k1 h' where k1: "rply_first c msg ?k0 = Inr k1"
    "ktab k1 = upd_proc i (\<lambda>p. p\<lparr>state := PROC_READY\<rparr>)
      (upd_proc c (\<lambda>p. p\<lparr>recv_queue := h'\<rparr>) (proc_disable_scheduling (ktab k)))"
    "qrep (kmmu k1) hp h' xs" "heap_rep hp (kheap k1) (L - {x})"
    "\<forall>j < rl. mem (kmmu k1) (pr + of_nat j) = mem (kmmu k) (sp + of_nat j)"
    "\<forall>w. vm_pdir_idx w \<noteq> 1023 \<longrightarrow> translate (kmmu k1) w = translate (kmmu k) w"
    "\<forall>q. q \<notin> walk_bytes (kmmu k) \<union> obj_bytes pr rl \<union> heap_frames hp \<longrightarrow> mem (kmmu k1) q = mem (kmmu k) q"
    "cr3 (kmmu k1) = cr3 (kmmu k)" "\<forall>h ys. qrep (kmmu k) hp h ys \<longrightarrow> set ys \<subseteq> L \<longrightarrow> qrep (kmmu k1) hp h ys"
    by (auto simp: pr_def rl_def)
  let ?k2 = "k1\<lparr>ktab := proc_enable_scheduling (ktab k1)\<rparr>"
  have ps: "procs (ktab k1) = (procs (ktab k))(c := (procs (ktab k) c)\<lparr>recv_queue := h'\<rparr>,
      i := ((if i = c then (procs (ktab k) c)\<lparr>recv_queue := h'\<rparr> else procs (ktab k) i)\<lparr>state := PROC_READY\<rparr>))"
    by (auto simp: k1(2) upd_proc_def proc_disable_scheduling_def)
  have t2: "scheduling_enabled (ktab ?k2)" "current_proc (ktab ?k2) = Some c" "idle (ktab ?k2) = Some d"
    "next_pid (ktab ?k2) = next_pid (ktab k)" "procs (ktab ?k2) = procs (ktab k1)"
    using cur idle by (simp_all add: k1(2) upd_proc_def proc_disable_scheduling_def proc_enable_scheduling_def)
  have pk: "pids_ok (ktab ?k2)" using pok
    by (rule pids_ok_procs) (use t2 us' in \<open>auto simp: ps used_slot_def\<close>)
  have us: "used_slot (ktab ?k2) c" using us t2(5) by (simp add: used_slot_def ps)
  from schedule_resched [OF t2(1,2) us t2(3) pk, of fr] obtain r k' where s:
    "proc_schedule_without_irq fr ?k2 = Inr (r, k')" "resched ?k2 c fr r k'" by blast
  have ne: "\<not> STAILQ_EMPTY (recv_queue (procs (ktab k) c))"
    using ready qrep_empty by (fastforce simp: rply_ready_def Let_def)
  have call: "syscall_rply_msg fr regs k = Inr (r, k')"
    using eax cur ne k1(1) s(1) by (simp add: syscall_rply_msg_def proc_disable_scheduling_def)
  obtain n where n: "current_proc (ktab k') = Some n" "r = trapframe (procs (ktab k') n)" "scheduling_enabled (ktab k')"
    "mem (kmmu k') = mem (kmmu k1)" "heap_initialized (kheap k') = heap_initialized (kheap k1)"
    "procs (ktab k') = (procs (ktab k1))(c := sched_save fr (procs (ktab k1) c))"
    using s(2) t2(5) by (auto simp: resched_def)
  have m': "(kmmu k')\<lparr>cr3 := cr3 (kmmu k)\<rparr> = kmmu k1" using n(4) k1(8) by (simp add: mmu.equality)
  have hp: "heap_rep hp (kheap (upd_mmu (\<lambda>_. kmmu k1) k')) (L - {x})"
    using k1(4) n(5) by (simp add: heap_rep_def kheap_upd_mmu) (simp add: kmmu_def)
  have pc: "recv_queue (procs (ktab k') c) = h'" "trapframe (procs (ktab k') c) = fr"
    "state (procs (ktab k') i) = PROC_READY" "state (procs (ktab k') c) = PROC_READY"
    "\<forall>j. j \<noteq> c \<longrightarrow> j \<noteq> i \<longrightarrow> procs (ktab k') j = procs (ktab k) j"
    "i \<noteq> c \<longrightarrow> procs (ktab k') i = (procs (ktab k) i)\<lparr>state := PROC_READY\<rparr>"
    using st unfolding n(6) ps by (auto simp: sched_save_def)
  show ?thesis
    by (rule that [of r k' "kmmu k1" n, OF call m' k1(5) _ hp pc(3,4,2,5) n(1-3) k1(6,7,9) pc(6)]) (simp add: pc(1) k1(3))
qed

subsection \<open>Receive\<close>

text \<open>
  Opening the window on the sender's buffer at physical address \<open>p\<close>, copying \<open>rl\<close> bytes out of
  it to \<open>dst\<close> and closing the window.
\<close>

lemma window_read:
  assumes ok: "pt_ok (kmmu k)" and wf: "win_free (kmmu k) base" and sl: "0 < sl" "unat sl \<le> 4096"
    and len: "unat (p AND 0xfff) + unat rl \<le> 4096"
    and nwb: "obj_bytes p (unat rl) \<inter> walk_bytes (kmmu k) = {}"
    and dst: "obj (kmmu k) dst dp (unat rl)" and dis: "obj_bytes dp (unat rl) \<inter> obj_bytes p (unat rl) = {}"
  obtains m1 m2 m3 where "kmap p base sl k = Inr (upd_mmu (\<lambda>_. m1) k)"
    and "kcopy dst (base + (p AND 0xfff)) rl (upd_mmu (\<lambda>_. m1) k) = Inr (upd_mmu (\<lambda>_. m2) k)"
    and "kunmap (base + (p AND 0xfff)) sl (upd_mmu (\<lambda>_. m2) k) = Inr (upd_mmu (\<lambda>_. m3) k)"
    and "mem_step (obj_bytes dp (unat rl)) (kmmu k) m3"
    and "\<And>i. i < unat rl \<Longrightarrow> mem m3 (dp + of_nat i) = mem (kmmu k) (p + of_nat i)"
    and "\<And>a q n. obj (kmmu k) a q n \<Longrightarrow> obj m1 a q n \<and> obj m2 a q n"
    and "\<And>q. q \<notin> walk_bytes (kmmu k) \<Longrightarrow> mem m1 q = mem (kmmu k) q"
    and "\<And>q. q \<notin> walk_bytes (kmmu k) \<Longrightarrow> q \<notin> obj_bytes dp (unat rl) \<Longrightarrow> mem m2 q = mem (kmmu k) q"
proof -
  have nw: "q \<notin> walk_bytes (kmmu k)" if "q \<in> obj_bytes p (unat rl)" for q using nwb that by blast
  have al: "page_aligned base" using wf by (simp add: win_free_def)
  have base: "PALIGNDOWN base = base" using al by (rule PALIGNDOWN_aligned)
  have "p AND 0xfff < 0x1000" by (simp add: word_less_nat_alt unat_and_fff)
  then have base': "PALIGNDOWN (base + (p AND 0xfff)) = base"
    using page_add_offset(2) [OF al] by (simp add: PALIGNDOWN_eq)
  obtain m1 where m1: "kmap p base sl k = Inr (upd_mmu (\<lambda>_. m1) k)" "win_open (kmmu k) base (PALIGNDOWN p) m1"
    by (rule window_map [OF ok wf base sl]) (rule that)
  have ok1: "pt_ok m1" and wb1: "walk_bytes m1 = walk_bytes (kmmu k)"
    and mm1: "\<And>q. q \<notin> walk_bytes (kmmu k) \<Longrightarrow> mem m1 q = mem (kmmu k) q"
    using m1(2) by (simp_all add: win_open_def)
  have ob1: "obj m1 a q n" if "obj (kmmu k) a q n" for a q n by (rule win_open_obj [OF wf m1(2) that])
  have win: "obj m1 (base + (p AND 0xfff)) p (unat rl)" by (rule win_open_window [OF wf m1(2) len nw])
  let ?k1 = "upd_mmu (\<lambda>_. m1) k"
  have c: "pt_ok (kmmu ?k1)" "obj (kmmu ?k1) dst dp (unat rl)" "obj (kmmu ?k1) (base + (p AND 0xfff)) p (unat rl)"
    using ok1 win ob1 [OF dst] by simp_all
  obtain m2 where m2: "kcopy dst (base + (p AND 0xfff)) rl ?k1 = Inr (upd_mmu (\<lambda>_. m2) ?k1)"
    "mem_step (obj_bytes dp (unat rl)) (kmmu ?k1) m2"
    "\<And>i. i < unat rl \<Longrightarrow> mem m2 (dp + of_nat i) = mem (kmmu ?k1) (p + of_nat i)"
    by (rule obj_copy [OF c dis]) (rule that)
  have st2: "mem_step (obj_bytes dp (unat rl)) m1 (kmmu (upd_mmu (\<lambda>_. m2) k))" using m2(2) by simp
  obtain m3 where m3: "kunmap (base + (p AND 0xfff)) sl (upd_mmu (\<lambda>_. m2) k) = Inr (upd_mmu (\<lambda>_. m3) (upd_mmu (\<lambda>_. m2) k))"
    "mem_step (obj_bytes dp (unat rl)) (kmmu k) m3"
    "\<And>q. q \<notin> walk_bytes (kmmu k) \<Longrightarrow> mem m3 q = mem (kmmu (upd_mmu (\<lambda>_. m2) k)) q"
    by (rule window_unmap [OF ok wf m1(2) st2 base' sl]) (rule that)
  show ?thesis
  proof (rule that [of m1 m2 m3])
    show "kmap p base sl k = Inr (upd_mmu (\<lambda>_. m1) k)" by (rule m1(1))
    show "kcopy dst (base + (p AND 0xfff)) rl (upd_mmu (\<lambda>_. m1) k) = Inr (upd_mmu (\<lambda>_. m2) k)" using m2(1) by simp
    show "kunmap (base + (p AND 0xfff)) sl (upd_mmu (\<lambda>_. m2) k) = Inr (upd_mmu (\<lambda>_. m3) k)" using m3(1) by simp
    show "mem_step (obj_bytes dp (unat rl)) (kmmu k) m3" by (rule m3(2))
    fix i assume i: "i < unat rl"
    have "p + of_nat i \<notin> walk_bytes (kmmu k)" by (rule nw [OF obj_bytes_mem [OF i]])
    then show "mem m3 (dp + of_nat i) = mem (kmmu k) (p + of_nat i)"
      using m3(3) m2(3) [OF i] mm1 obj_byte(2) [OF dst i] by simp
  next
    fix a q n assume "obj (kmmu k) a q n"
    then have "obj m1 a q n" by (rule ob1)
    moreover from this m2(2) have "obj m2 a q n" using obj_step by simp
    ultimately show "obj m1 a q n \<and> obj m2 a q n" ..
  next
    fix q assume "q \<notin> walk_bytes (kmmu k)"
    then show "mem m1 q = mem (kmmu k) q" by (rule mm1)
    assume "q \<notin> obj_bytes dp (unat rl)"
    with \<open>q \<notin> walk_bytes (kmmu k)\<close> show "mem m2 q = mem (kmmu k) q"
      using mem_step_mem [OF m2(2), of q] wb1 mm1 by simp
  qed
qed

text \<open>
  What a receive with a waiting message needs: the message \<open>x\<close> at the head of the queue, the
  sender's buffer in one page outside the page tables, the caller's packet at \<open>msg\<close> and its
  buffer mapped, outside the kernel heap and apart from each other.
\<close>

definition recv_ready :: "u32 \<Rightarrow> kern \<Rightarrow> nat \<Rightarrow> u32 \<Rightarrow> u32 \<Rightarrow> u32 \<Rightarrow> u32 list \<Rightarrow> u32 \<Rightarrow> bool" where
  "recv_ready hp k c msg mp x xs dp \<longleftrightarrow>
     (let m = kmmu k; np = node_phys hp x; ps = fld m np 24; sl = fld m np 16; rl = fld m mp 20 in
      pt_ok m \<and> heap_mapped m hp \<and> node_ok x \<and> qrep m hp (recv_queue (procs (ktab k) c)) (x # xs) \<and>
      win_free m 0xbabe0000 \<and> obj m msg mp 36 \<and> obj m (fld m mp 12) dp (unat rl) \<and>
      0 < sl \<and> unat sl \<le> 4096 \<and> unat (ps AND 0xfff) + unat rl \<le> 4096 \<and> fld m np 8 AND 0xfff = ps AND 0xfff \<and>
      obj_bytes ps (unat rl) \<inter> walk_bytes m = {} \<and> obj_bytes dp (unat rl) \<inter> obj_bytes ps (unat rl) = {} \<and>
      obj_bytes dp (unat rl) \<inter> heap_frames hp = {} \<and> obj_bytes dp (unat rl) \<inter> obj_bytes mp 36 = {} \<and>
      obj_bytes mp 36 \<inter> heap_frames hp = {})"

lemma recv_take_effect:
  assumes ready: "recv_ready hp k c msg mp x xs dp"
  defines "m \<equiv> kmmu k"
  defines "ps \<equiv> fld m (node_phys hp x) 24" and "rl \<equiv> unat (fld m mp 20)"
  shows "\<exists>m'. recv_take c msg k = Inr (upd_mmu (\<lambda>_. m') k) \<and>
    (\<forall>j < rl. mem m' (dp + of_nat j) = mem m (ps + of_nat j)) \<and> fld m' mp 0 = fld m (node_phys hp x) 0 \<and>
    mem_step (obj_bytes dp rl \<union> obj_bytes mp 4) m m'"
proof -
  let ?np = "node_phys hp x" and ?D = "obj_bytes dp rl"
  define sl where "sl = fld m ?np 16"
  define rl' where "rl' = fld m mp 20"
  have rl: "rl = unat rl'" by (simp add: rl_def rl'_def)
  have r: "pt_ok m" "heap_mapped m hp" "node_ok x" "qrep m hp (recv_queue (procs (ktab k) c)) (x # xs)"
    "win_free m 0xbabe0000" "obj m msg mp 36" "obj m (fld m mp 12) dp (unat rl')" "0 < sl" "unat sl \<le> 4096"
    "unat (ps AND 0xfff) + unat rl' \<le> 4096" "fld m ?np 8 AND 0xfff = ps AND 0xfff"
    "obj_bytes ps (unat rl') \<inter> walk_bytes m = {}" "obj_bytes dp (unat rl') \<inter> obj_bytes ps (unat rl') = {}"
    "?D \<inter> heap_frames hp = {}" "?D \<inter> obj_bytes mp 36 = {}" "obj_bytes mp 36 \<inter> heap_frames hp = {}"
    using ready unfolding recv_ready_def Let_def m_def ps_def rl_def sl_def rl'_def by blast+
  have nd: "obj m x ?np 40" and nb: "obj_bytes ?np 40 \<subseteq> heap_frames hp"
    using node_obj [OF r(2,3)] by (simp_all add: node_phys_def)
  obtain m1 m2 m3 where w: "kmap ps 0xbabe0000 sl k = Inr (upd_mmu (\<lambda>_. m1) k)"
    "kcopy (fld m mp 12) (0xbabe0000 + (ps AND 0xfff)) rl' (upd_mmu (\<lambda>_. m1) k) = Inr (upd_mmu (\<lambda>_. m2) k)"
    "kunmap (0xbabe0000 + (ps AND 0xfff)) sl (upd_mmu (\<lambda>_. m2) k) = Inr (upd_mmu (\<lambda>_. m3) k)" "mem_step (obj_bytes dp (unat rl')) m m3"
    "\<And>j. j < unat rl' \<Longrightarrow> mem m3 (dp + of_nat j) = mem m (ps + of_nat j)"
    "\<And>a q n. obj m a q n \<Longrightarrow> obj m1 a q n \<and> obj m2 a q n"
    "\<And>q. q \<notin> walk_bytes m \<Longrightarrow> mem m1 q = mem m q"
    "\<And>q. q \<notin> walk_bytes m \<Longrightarrow> q \<notin> obj_bytes dp (unat rl') \<Longrightarrow> mem m2 q = mem m q"
    by (rule window_read [OF r(1,5,8,9,10,12)[unfolded m_def] r(7,13) [unfolded m_def], folded m_def]) (rule that)
  note w = w [folded rl]
  have o3: "obj m3 x ?np 40" "obj m3 msg mp 36" using obj_step [OF w(4)] nd r(6) by blast+
  have n1: "obj m1 msg mp 36" "obj m2 x ?np 40" using w(6) nd r(6) by blast+
  have f1: "fld m1 mp 12 = fld m mp 12" "fld m1 mp 20 = rl'"
    using fld_outside [OF r(6), where off = 12 and m' = m1 and A = "{}"]
      fld_outside [OF r(6), where off = 20 and m' = m1 and A = "{}"] w(7) by (simp_all add: rl'_def)
  have nD: "?D \<inter> obj_bytes ?np 40 = {}" using r(14) nb by blast
  have f2: "fld m2 ?np 16 = sl" "fld m3 ?np 0 = fld m ?np 0"
    using fld_outside [OF nd, where off = 16 and m' = m2 and A = ?D] w(8) nD
      fld_outside [OF nd, where off = 0 and m' = m3 and A = ?D] mem_step_mem [OF w(4)] by (simp_all add: sl_def)
  let ?k1 = "upd_mmu (\<lambda>_. m1) k" and ?k2 = "upd_mmu (\<lambda>_. m2) k" and ?k3 = "upd_mmu (\<lambda>_. m3) k"
  have ld: "kld (x + MSG_SEND_BUF) k = Inr (fld m ?np 8)" "kld (x + MSG_PHYS_SEND_BUF) k = Inr ps"
    "kld (x + MSG_SEND_LEN) k = Inr sl"
    unfolding msg_fields ps_def sl_def m_def by (rule kld_obj [OF nd [unfolded m_def]]; simp)+
  have ld1: "kld (msg + MSG_RECV_BUF) ?k1 = Inr (fld m mp 12)" "kld (msg + MSG_RECV_LEN) ?k1 = Inr rl'"
    "kld (x + MSG_SEND_LEN) ?k2 = Inr sl" "kld (x + MSG_SENDER) ?k3 = Inr (fld m ?np 0)"
    unfolding msg_fields using kld_obj [of ?k1 msg mp 36 12] kld_obj [of ?k1 msg mp 36 20] kld_obj [of ?k2 x ?np 40 16]
      kld_obj [of ?k3 x ?np 40 0] n1 f1 f2 o3 by simp_all
  have fst: "STAILQ_FIRST (recv_queue (procs (ktab k) c)) = x" using r(4) by (simp add: qrep_def STAILQ_FIRST_def)
  let ?v = "fld m ?np 0"
  let ?m4 = "m3\<lparr>mem := store32 (mem m3) (mp + of_nat 0) ?v\<rparr>"
  have st: "vstore32 m3 (msg + of_nat 0) ?v = Inr ?m4" "mem_step (obj_bytes (mp + of_nat 0) 4) m3 ?m4"
    by (rule obj_store [OF mem_step_pt_ok [OF w(4)] o3(2)], simp)+
  have "kst (msg + MSG_SENDER) ?v ?k3 = Inr (upd_mmu (\<lambda>_. ?m4) k)"
    unfolding msg_fields kst_def using st(1) by simp
  then have "recv_take c msg k = Inr (upd_mmu (\<lambda>_. ?m4) k)"
    unfolding recv_take_def Let_def fst ld kbind_Inr r(11) w(1) ld1 w(2,3) .
  moreover have "mem ?m4 (dp + of_nat j) = mem m (ps + of_nat j)" if j: "j < rl" for j
  proof -
    have D: "dp + of_nat j \<in> ?D" by (rule obj_bytes_mem [OF j])
    then have "dp + of_nat j \<notin> obj_bytes mp 36" using r(15) by blast
    moreover have "obj_bytes (mp + of_nat 0) 4 \<subseteq> obj_bytes mp 36" by (auto simp: obj_bytes_def)
    moreover have "dp + of_nat j \<notin> walk_bytes m3"
      using obj_bytes_walk [OF r(7), of "dp + of_nat j"] D w(4) by (simp add: rl mem_step_def)
    ultimately have "mem ?m4 (dp + of_nat j) = mem m3 (dp + of_nat j)"
      using mem_step_mem [OF st(2), of "dp + of_nat j"] by blast
    then show ?thesis using w(5) [OF j] by simp
  qed
  moreover have "fld ?m4 mp 0 = ?v" by (simp add: fld_def)
  moreover have "mem_step (?D \<union> obj_bytes mp 4) m ?m4" using mem_step_trans [OF w(4) st(2)] by simp
  ultimately show ?thesis by blast
qed

lemma obj_bytes_mono: "n \<le> n' \<Longrightarrow> obj_bytes p n \<subseteq> obj_bytes p n'"
  by (auto simp: obj_bytes_def)

lemma recv_ready_tab:
  assumes "procs t = procs (ktab k)"
  shows "recv_ready hp (k\<lparr>ktab := t\<rparr>) c msg mp x xs dp = recv_ready hp k c msg mp x xs dp"
  using assms by (simp add: recv_ready_def)

text \<open>The complete call.\<close>

lemma recv_takes:
  assumes ready: "recv_ready hp k c msg mp x xs dp" and eax: "kld (regs + REGS_EAX) k = Inr msg"
    and cur: "current_proc (ktab k) = Some c" and us: "used_slot (ktab k) c" and idle: "idle (ktab k) = Some d"
    and pok: "pids_ok (ktab k)" and st: "state (procs (ktab k) c) = PROC_RUNNING \<or> state (procs (ktab k) c) = PROC_READY"
  obtains r k' n m' where "syscall_recv_msg fr regs k = Inr (r, k')" and "(kmmu k')\<lparr>cr3 := cr3 (kmmu k)\<rparr> = m'"
    and "\<And>j. j < unat (fld (kmmu k) mp 20) \<Longrightarrow> mem m' (dp + of_nat j) = mem (kmmu k) (fld (kmmu k) (node_phys hp x) 24 + of_nat j)"
    and "fld m' mp 0 = fld (kmmu k) (node_phys hp x) 0"
    and "mem_step (obj_bytes dp (unat (fld (kmmu k) mp 20)) \<union> obj_bytes mp 4) (kmmu k) m'"
    and "procs (ktab k') = (procs (ktab k))(c := (procs (ktab k) c)\<lparr>trapframe := fr, state := PROC_READY\<rparr>)"
    and "qrep m' hp (recv_queue (procs (ktab k) c)) (x # xs)"
    and "current_proc (ktab k') = Some n" and "r = trapframe (procs (ktab k') n)" and "scheduling_enabled (ktab k')"
    and "heap_initialized (kheap k') = heap_initialized (kheap k)"
proof -
  let ?k0 = "k\<lparr>ktab := proc_disable_scheduling (ktab k)\<rparr>" and ?m = "kmmu k"
  have rr: "recv_ready hp ?k0 c msg mp x xs dp"
    using ready by (subst recv_ready_tab) (simp_all add: proc_disable_scheduling_def)
  from recv_take_effect [OF rr] obtain m' where m': "recv_take c msg ?k0 = Inr (upd_mmu (\<lambda>_. m') ?k0)"
    "\<forall>j < unat (fld ?m mp 20). mem m' (dp + of_nat j) = mem ?m (fld ?m (node_phys hp x) 24 + of_nat j)"
    "fld m' mp 0 = fld ?m (node_phys hp x) 0" "mem_step (obj_bytes dp (unat (fld ?m mp 20)) \<union> obj_bytes mp 4) ?m m'" by auto
  let ?k2 = "(upd_mmu (\<lambda>_. m') ?k0)\<lparr>ktab := proc_enable_scheduling (ktab ?k0)\<rparr>"
  have t2: "scheduling_enabled (ktab ?k2)" "current_proc (ktab ?k2) = Some c" "idle (ktab ?k2) = Some d"
    "procs (ktab ?k2) = procs (ktab k)" "pids_ok (ktab ?k2)" "used_slot (ktab ?k2) c"
    using cur us idle pok by (simp_all add: proc_disable_scheduling_def proc_enable_scheduling_def pids_ok_def used_slot_def)
  from schedule_resched [OF t2(1,2,6,3,5), of fr] obtain r k' where s:
    "proc_schedule_without_irq fr ?k2 = Inr (r, k')" "resched ?k2 c fr r k'" by blast
  have "qrep ?m hp (recv_queue (procs (ktab k) c)) (x # xs)" "heap_mapped ?m hp"
    "(obj_bytes dp (unat (fld ?m mp 20)) \<union> obj_bytes mp 4) \<inter> heap_frames hp = {}"
    using ready obj_bytes_mono [of 4 36 mp] by (auto simp: recv_ready_def Let_def)
  then have q: "qrep m' hp (recv_queue (procs (ktab k) c)) (x # xs)" "\<not> STAILQ_EMPTY (recv_queue (procs (ktab k) c))"
    using qrep_step [OF _ m'(4)] qrep_empty by auto
  have call: "syscall_recv_msg fr regs k = Inr (r, k')"
    using eax cur q(2) m'(1) s(1) by (simp add: syscall_recv_msg_def proc_disable_scheduling_def)
  obtain n where n: "current_proc (ktab k') = Some n" "r = trapframe (procs (ktab k') n)" "scheduling_enabled (ktab k')"
    "mem (kmmu k') = mem m'" "procs (ktab k') = (procs (ktab k))(c := sched_save fr (procs (ktab k) c))"
    "heap_initialized (kheap k') = heap_initialized (kheap k)"
    using s(2) t2(4) by (auto simp: resched_def kheap_upd_mmu)
  have mm: "(kmmu k')\<lparr>cr3 := cr3 ?m\<rparr> = m'" using n(4) m'(4) by (simp add: mmu.equality mem_step_def)
  have sv: "sched_save fr (procs (ktab k) c) = (procs (ktab k) c)\<lparr>trapframe := fr, state := PROC_READY\<rparr>"
    using st by (auto simp: sched_save_def)
  show ?thesis by (rule that [OF call mm _ m'(3,4) n(5) [unfolded sv] q(1) n(1-3,6)]) (use m'(2) in blast)
qed

subsection \<open>Concrete address spaces\<close>

text \<open>
  Frame 0 holds a page directory with tables for the heap pool (at \<open>0x2000\<close>), for the
  directory entry \<open>win\<close> (at \<open>0x3000\<close>, with the entries \<open>ts\<close>) and for the window at \<open>0xdead0000\<close> (at
  \<open>0x4000\<close>, empty).  The pool lies at \<open>0x10000\<close> and starts
  with the words \<open>hs\<close>; the frame at \<open>0x21000\<close> holds the words \<open>us\<close>.
\<close>

definition ipc_mmu :: "u32 \<Rightarrow> (u32 \<times> u32) list \<Rightarrow> (u32 \<times> u32) list \<Rightarrow> (u32 \<times> u32) list \<Rightarrow> mmu" where
  "ipc_mmu win ts hs us = \<lparr>mem = put_words 0x21000 us (put_words 0x10000 hs
     (put_words 0x3000 ts (put_words 0x2000 [(0, 0x10003), (1, 0x11003), (2, 0x12003), (3, 0x13003)]
       (put_words 0 [(0x390, 0x2003), (0x37a, 0x4003), (win, 0x3003), (1023, 3)] (\<lambda>_. 0))))), cr3 = 0\<rparr>"

definition small_idx :: "(u32 \<times> u32) list \<Rightarrow> bool" where
  "small_idx ws \<longleftrightarrow> (\<forall>(i, w) \<in> set ws. i < 1024)"

definition ipc_ok :: "u32 \<Rightarrow> (u32 \<times> u32) list \<Rightarrow> (u32 \<times> u32) list \<Rightarrow> (u32 \<times> u32) list \<Rightarrow> bool" where
  "ipc_ok win ts hs us \<longleftrightarrow> win < 1023 \<and> win \<noteq> 0x390 \<and> win \<noteq> 0x37a \<and> small_idx ts \<and> small_idx hs \<and> small_idx us"

abbreviation word_in :: "(u32 \<times> u32) list \<Rightarrow> u32 \<Rightarrow> u32" where
  "word_in ws j \<equiv> (case map_of (rev ws) j of Some w \<Rightarrow> w | None \<Rightarrow> 0)"

lemma less4_cases: "(j :: u32) < 4 \<longleftrightarrow> j = 0 \<or> j = 1 \<or> j = 2 \<or> j = 3"
proof
  assume "j < 4"
  then have "unat j < 4" by (simp add: word_less_nat_alt)
  then have "unat j = 0 \<or> unat j = 1 \<or> unat j = 2 \<or> unat j = 3" by arith
  then show "j = 0 \<or> j = 1 \<or> j = 2 \<or> j = 3" by (simp add: u32_eq_iff)
qed auto

lemma ipc_load:
  assumes ok: "ipc_ok win ts hs us" and q: "page_aligned q" and j: "j < 1024"
  shows "load32 (mem (ipc_mmu win ts hs us)) (q + 4 * j) =
    (if q = 0x21000 then word_in us j else if q = 0x10000 then word_in hs j else if q = 0x3000 then word_in ts j
     else if q = 0x2000 then if j < 4 then 0x10003 + 0x1000 * j else 0
     else if q = 0 then if j = 1023 then 3 else if j = win then 0x3003 else if j = 0x37a then 0x4003 else if j = 0x390 then 0x2003 else 0
     else 0)"
proof -
  have z: "load32 (\<lambda>_. 0) a = 0" for a by (simp add: load32_def)
  have al: "page_aligned 0" "page_aligned 0x2000" "page_aligned 0x10000" "page_aligned 0x3000" "page_aligned 0x21000"
    by (simp_all add: page_aligned_def)
  have b: "\<forall>(i, w) \<in> set hs. i < 1024" "\<forall>(i, w) \<in> set [(0x390 :: u32, 0x2003 :: u32), (0x37a, 0x4003), (win, 0x3003), (1023, 3)]. i < 1024"
    "\<forall>(i, w) \<in> set [(0 :: u32, 0x10003 :: u32), (1, 0x11003), (2, 0x12003), (3, 0x13003)]. i < 1024"
    "\<forall>(i, w) \<in> set ts. i < 1024" "\<forall>(i, w) \<in> set us. i < 1024"
    using ok by (simp_all add: ipc_ok_def small_idx_def less_1023)
  have if_out: "(case o' of Some w \<Rightarrow> if p = q then w else x | None \<Rightarrow> x) = (if p = q then case o' of Some w \<Rightarrow> w | None \<Rightarrow> x else x)"
    for o' :: "u32 option" and p x by (cases o') auto
  have pt: "(case map_of (rev [(0 :: u32, 0x10003 :: u32), (1, 0x11003), (2, 0x12003), (3, 0x13003)]) j of Some w \<Rightarrow> w | None \<Rightarrow> 0)
    = (if j < 4 then 0x10003 + 0x1000 * j else 0)" unfolding less4_cases by auto
  have pd: "(case map_of (rev [(0x390 :: u32, 0x2003 :: u32), (0x37a, 0x4003), (win, 0x3003), (1023, 3)]) j of Some w \<Rightarrow> w | None \<Rightarrow> 0)
    = (if j = 1023 then 3 else if j = win then 0x3003 else if j = 0x37a then 0x4003 else if j = 0x390 then 0x2003 else 0)" by simp
  show ?thesis
    unfolding ipc_mmu_def mmu.select_convs put_words_load [OF al(5) q j b(5)] put_words_load [OF al(3) q j b(1)]
      put_words_load [OF al(4) q j b(4)] put_words_load [OF al(2) q j b(3)] put_words_load [OF al(1) q j b(2)] z if_out
      pt [symmetric] pd [symmetric]
    by (cases "q = 0x21000"; cases "q = 0x10000"; cases "q = 0x3000"; cases "q = 0x2000"; cases "q = 0";
        simp del: rev.simps map_of.simps append.simps)
qed

lemma ipc_tables:
  assumes ok: "ipc_ok win ts hs us"
  defines "m \<equiv> ipc_mmu win ts hs us"
  shows "i < 1024 \<Longrightarrow> pde_of m i = (if i = 1023 then 3 else if i = win then 0x3003 else if i = 0x37a then 0x4003 else if i = 0x390 then 0x2003 else 0)"
    and "j < 1024 \<Longrightarrow> pte_of m 0x390 j = (if j < 4 then 0x10003 + 0x1000 * j else 0)"
    and "j < 1024 \<Longrightarrow> pte_of m win j = word_in ts j"
    and "pt_ok m" and "q \<in> walk_bytes m \<longleftrightarrow> q AND 0xfffff000 \<in> {0, 0x2000, 0x3000, 0x4000}"
    and "j < 1024 \<Longrightarrow> pte_of m 0x37a j = 0"
proof -
  note ld = ipc_load [OF ok, folded m_def]
  have w: "win < 1024" "win \<noteq> 1023" "win \<noteq> 0x390" "win \<noteq> 0x37a" using ok by (auto simp: ipc_ok_def less_1023)
  have al: "page_aligned 0" "page_aligned 0x2000" "page_aligned 0x3000" "page_aligned 0x4000" by (simp_all add: page_aligned_def)
  have pd: "pd_base m = 0" by (simp add: m_def pd_base_def ipc_mmu_def)
  show pde: "i < 1024 \<Longrightarrow> pde_of m i = (if i = 1023 then 3 else if i = win then 0x3003 else if i = 0x37a then 0x4003 else if i = 0x390 then 0x2003 else 0)" for i
    using ld [OF al(1)] by (simp add: pde_of_def pd)
  show "j < 1024 \<Longrightarrow> pte_of m 0x390 j = (if j < 4 then 0x10003 + 0x1000 * j else 0)"
    using ld [OF al(2)] w by (simp add: pte_of_def pde)
  show "j < 1024 \<Longrightarrow> pte_of m win j = word_in ts j" using ld [OF al(3)] w by (simp add: pte_of_def pde)
  show "j < 1024 \<Longrightarrow> pte_of m 0x37a j = 0" using ld [OF al(4)] w by (simp add: pte_of_def pde)
  show "pt_ok m"
    unfolding pt_ok_def selfmap_def
    by (auto simp: has_table_def table_of_def pde pd flag_defs less_1023 split: if_splits)
  show "q \<in> walk_bytes m \<longleftrightarrow> q AND 0xfffff000 \<in> {0, 0x2000, 0x3000, 0x4000}"
    unfolding walk_bytes_def using w
    by (auto simp: table_of_def pde pd flag_defs split: if_splits intro: exI [of _ "0x390"] exI [of _ "0x37a"] exI [of _ win])
qed

lemma ipc_pool:
  assumes ok: "ipc_ok win ts hs us"
  shows "heap_mapped (ipc_mmu win ts hs us) 0x10000"
proof (rule pool_mapped)
  fix off :: nat assume off: "off < 16384"
  have "unat (hphys 0x10000 off) = 0x10000 + off"
    using off unfolding hphys_def by (subst unat_add_no_wrap) (auto simp: unat_of_nat take_bit_eq_mod)
  then have "0x10000 \<le> unat (hphys 0x10000 off AND 0xfffff000)" by (simp add: unat_page)
  then show "hphys 0x10000 off \<notin> walk_bytes (ipc_mmu win ts hs us)" unfolding ipc_tables(5) [OF ok] by auto
next
  fix w k assume w: "w AND 0xfffff000 = page_at heap_pool_addr k" and k: "k < 4"
  have pa: "page_at heap_pool_addr k AND 0xfffff000 = page_at heap_pool_addr k"
    by (rule page_of_page_at) (simp add: page_aligned_def heap_pool_addr_def)
  have i: "vm_pdir_idx w = vm_pdir_idx (page_at heap_pool_addr k)" "vm_ptab_idx w = vm_ptab_idx (page_at heap_pool_addr k)"
    using same_page_iff [of w "page_at heap_pool_addr k"] w pa by simp_all
  have "k = 0 \<or> k = 1 \<or> k = 2 \<or> k = 3" using k by arith
  then have "vm_pdir_idx w = 0x390 \<and> vm_ptab_idx w = of_nat k \<and> (of_nat k :: u32) < 4 \<and>
    (0x10003 + 0x1000 * of_nat k) AND 0xfffff000 = page_at 0x10000 k \<and> (0x10003 + 0x1000 * of_nat k :: u32) AND 1 \<noteq> 0"
    unfolding i by (auto simp: page_at_def heap_pool_addr_def PAGE_SIZE_def vm_pdir_idx_def vm_ptab_idx_def)
  then show "translate (ipc_mmu win ts hs us) w = Inr (page_at 0x10000 k + (w AND 0xfff))"
    using ipc_tables(2) [OF ok, of "of_nat k"] of_nat_1024 [of k] k ok
    by (simp add: translate_def ipc_tables(1) [OF ok] flag_defs ipc_ok_def)
qed (simp_all add: page_aligned_def)

lemma ipc_word:
  assumes "ipc_ok win ts hs us" and "j < 1024"
  shows "hword (ipc_mmu win ts hs us) 0x10000 (4 * j) = word_in hs (of_nat j)"
    and "load32 (mem (ipc_mmu win ts hs us)) (0x21000 + 4 * of_nat j) = word_in us (of_nat j)"
proof -
  have "page_aligned 0x10000" "page_aligned 0x21000" by (simp_all add: page_aligned_def)
  then show "hword (ipc_mmu win ts hs us) 0x10000 (4 * j) = word_in hs (of_nat j)"
    "load32 (mem (ipc_mmu win ts hs us)) (0x21000 + 4 * of_nat j) = word_in us (of_nat j)"
    using ipc_load [OF assms(1), of _ "of_nat j"] of_nat_1024 [OF assms(2)] by (simp_all add: hword_def hphys_def)
qed

text \<open>The page that entry 1 of the window's table maps to the frame \<open>0x21000\<close>.\<close>

lemma ipc_page:
  assumes ok: "ipc_ok win [(1, 0x21003)] hs us" and b: "page_aligned b" "vm_pdir_idx b = win" "vm_ptab_idx b = 1"
    and len: "unat off + n \<le> 4096"
  shows "obj (ipc_mmu win [(1, 0x21003)] hs us) (b + off) (0x21000 + off) n"
proof -
  let ?m = "ipc_mmu win [(1, 0x21003)] hs us"
  have al: "page_aligned 0x21000" by (simp add: page_aligned_def)
  have w: "win \<noteq> 1023" using ok by (auto simp: ipc_ok_def)
  have "translate ?m (b + off + of_nat i) = Inr (0x21000 + off + of_nat i) \<and>
    0x21000 + off + of_nat i \<notin> walk_bytes ?m \<and> vm_pdir_idx (b + off + of_nat i) \<noteq> 1023" if "i < n" for i
  proof -
    let ?o = "off + of_nat i"
    have "unat ?o = unat off + i"
      using len that by (subst unat_add_no_wrap) (auto simp: unat_of_nat take_bit_eq_mod)
    then have o: "?o < 0x1000" using len that by (simp add: word_less_nat_alt)
    note pa = page_add_offset [OF b(1) o] page_add_offset [OF al o]
    have "vm_pdir_idx (b + ?o) = win" "vm_ptab_idx (b + ?o) = 1"
      using same_page_iff [of "b + ?o" b] pa(2) b page_of_aligned [OF b(1)] by simp_all
    then show ?thesis
      using pa(3,5) w ipc_tables(1) [OF ok, of win] ipc_tables(3) [OF ok, of 1] ok
      by (simp add: translate_def ipc_tables(5) [OF ok] flag_defs add.assoc ipc_ok_def less_1023)
  qed
  moreover have "unat (0x21000 + off) + n \<le> 4294967296"
    using len unat_add_no_wrap [of "0x21000" off] by simp
  ultimately show ?thesis by (auto simp: obj_def)
qed

subsection \<open>A message waiting for its reply\<close>

text \<open>
  Three nodes of the pool are in use: the queued message, the caller's packet, and a buffer
  with the answer and the saved \<open>eax\<close>.
\<close>

definition rply_words :: "(u32 \<times> u32) list" where
  "rply_words =
     [(0, 0xffbabe), (1, 0xe4000034), (2, 40), (6, 0x20000), (8, 4), (10, 0x20000),
      (13, 0xffbabe), (14, 0xe4000068), (15, 40), (18, 0xe4000074),
      (26, 0xffbabe), (27, 0xe400009c), (28, 40), (29, 0x12345678), (30, 0xe4000040),
      (39, 0xbabe), (40, 0), (41, 16220)]"

definition rply_mmu :: mmu where
  "rply_mmu = ipc_mmu 0x32b [] rply_words []"

lemma rply_ok: "ipc_ok 0x32b [] rply_words []"
  by (simp add: ipc_ok_def small_idx_def rply_words_def)

lemmas rply_tables = ipc_tables [OF rply_ok, folded rply_mmu_def]
lemmas rply_pool = ipc_pool [OF rply_ok, folded rply_mmu_def]
lemmas rply_hword = ipc_word(1) [OF rply_ok, folded rply_mmu_def]

lemma load32_byte2: "m (a + 2) = ucast (drop_bit 16 (load32 m a))"
  unfolding load32_def by (rule bit_word_eqI) (auto simp: bit_simps dest: bit_imp_le_length)

lemma rply_nodes: "heap_state rply_mmu 0x10000 [True, True, True]"
proof -
  have t: "hbyte rply_mmu 0x10000 (4 * j + 2) = ucast (drop_bit 16 (hword rply_mmu 0x10000 (4 * j)))" for j
    using load32_byte2 [of "mem rply_mmu" "0x10000 + of_nat (4 * j)"]
    by (simp add: hbyte_def hword_def hphys_def add.assoc)
  note w = rply_hword [of 0] rply_hword [of 1] rply_hword [of 2] rply_hword [of 13] rply_hword [of 14] rply_hword [of 15]
    rply_hword [of 26] rply_hword [of 27] rply_hword [of 28] rply_hword [of 39] rply_hword [of 40] rply_hword [of 41]
  show ?thesis
    unfolding heap_state_def block_at_def
    using rply_pool w t [of 0] t [of 13] t [of 26] t [of 39]
    by (simp add: node_off_def BLOCK_USED_def BLOCK_UNUSED_def haddr_def heap_pool_addr_def rply_words_def
        less_Suc_eq numeral_3_eq_3 all_conj_distrib)
qed

definition rply_tab :: pst where
  "rply_tab = demo_tab\<lparr>procs := (\<lambda>i. if i = 0 then demo_proc\<lparr>pid := 0, state := PROC_REPLY_BLOCKED\<rparr>
     else if i = 1 then demo_proc\<lparr>pid := 1, state := PROC_RUNNING,
       recv_queue := \<lparr>stqh_first = node_addr 0, stqh_last = NextOf (node_addr 0)\<rparr>\<rparr> else demo_proc), next_pid := 2,
     idle := Some 1, current_proc := Some 1\<rparr>"

definition rply_kern :: kern where
  "rply_kern = demo_kern\<lparr>kheap := \<lparr>hvms = \<lparr>vmmu = rply_mmu, vpm = pm_fresh\<rparr>, heap_initialized = True\<rparr>, ktab := rply_tab\<rparr>"

lemma rply_demo_tab_ok: "pids_ok rply_tab" "used_slot rply_tab 0" "used_slot rply_tab 1"
proof -
  have st: "state (procs rply_tab i) \<noteq> PROC_UNUSED \<longleftrightarrow> i = 0 \<or> i = 1" for i
    by (simp add: rply_tab_def demo_proc_def)
  have pd: "pid (procs rply_tab 0) = 0" "pid (procs rply_tab 1) = 1"
    "i \<noteq> 0 \<Longrightarrow> i \<noteq> 1 \<Longrightarrow> pid (procs rply_tab i) = - 1" for i
    by (simp_all add: rply_tab_def demo_proc_def)
  have "next_pid rply_tab = 2" by (simp add: rply_tab_def)
  from two_procs_ok [OF st pd this] show "pids_ok rply_tab" "used_slot rply_tab 0" "used_slot rply_tab 1" by simp_all
qed

lemma obj_less: "obj m a p n \<Longrightarrow> n' \<le> n \<Longrightarrow> obj m a p n'"
  by (auto simp: obj_def)

lemma obj_bytes4: "obj_bytes p 4 = {p, p + 1, p + 2, p + 3}"
proof -
  have "{..<4} = {0, 1, 2, 3 :: nat}" by auto
  then show ?thesis by (simp add: obj_bytes_def)
qed

lemma obj_bytes_range:
  assumes "q \<in> obj_bytes p n" and "unat p + n \<le> 4294967296"
  shows "unat p \<le> unat q \<and> unat q < unat p + n"
proof -
  obtain i where i: "i < n" "q = p + of_nat i" using assms(1) by (auto simp: obj_bytes_def)
  then have "unat q = unat p + i"
    using assms(2) by (simp, subst unat_add_no_wrap) (auto simp: unat_of_nat take_bit_eq_mod)
  with i(1) show ?thesis by simp
qed

lemma obj_bytes_apart:
  assumes "unat p + n \<le> 4294967296" and "unat q + l \<le> 4294967296" and "unat p + n \<le> unat q \<or> unat q + l \<le> unat p"
  shows "obj_bytes p n \<inter> obj_bytes q l = {}"
  using assms obj_bytes_range [of _ p n] obj_bytes_range [of _ q l] by fastforce

lemma frames_range: "q \<in> heap_frames 0x10000 \<Longrightarrow> 0x10000 \<le> unat q \<and> unat q < 0x14000"
proof -
  assume "q \<in> heap_frames 0x10000"
  then obtain off where off: "off < 16384" "q = hphys 0x10000 off" by (auto simp: heap_frames_def)
  then have "unat q = 0x10000 + off"
    unfolding hphys_def by (simp, subst unat_add_no_wrap) (auto simp: unat_of_nat take_bit_eq_mod)
  with off(1) show ?thesis by simp
qed

lemma frames_apart: "0x14000 \<le> unat p \<Longrightarrow> unat p + n \<le> 4294967296 \<Longrightarrow> obj_bytes p n \<inter> heap_frames 0x10000 = {}"
  using frames_range obj_bytes_range [of _ p n] by fastforce

lemma rply_fld:
  "fld rply_mmu 0x1000c 0 = 0" "fld rply_mmu 0x1000c 12 = 0x20000" "fld rply_mmu 0x1000c 20 = 4"
  "fld rply_mmu 0x1000c 28 = 0x20000" "fld rply_mmu 0x1000c 36 = 0" "fld rply_mmu 0x10040 8 = 0xe4000074"
  using rply_hword [of 3] rply_hword [of 6] rply_hword [of 8] rply_hword [of 10] rply_hword [of 12] rply_hword [of 18]
  by (simp_all add: fld_def hword_def hphys_def rply_words_def)

lemma rply_addr:
  "node_addr 0 = 0xe400000c" "node_addr 1 = 0xe4000040" "node_addr 2 = 0xe4000074" "node_phys 0x10000 0xe400000c = 0x1000c"
  "node_ok 0xe400000c" "node_ok 0xe4000040" "node_ok 0xe4000074"
proof -
  show ad: "node_addr 0 = 0xe400000c" "node_addr 1 = 0xe4000040" "node_addr 2 = 0xe4000074" "node_phys 0x10000 0xe400000c = 0x1000c"
    by (simp_all add: node_addr_def haddr_def node_off_def heap_pool_addr_def node_phys_def)
  have "node_ok (node_addr 0)" "node_ok (node_addr 1)" "node_ok (node_addr 2)"
    unfolding node_ok_def by (auto simp: node_off_def)
  then show "node_ok 0xe400000c" "node_ok 0xe4000040" "node_ok 0xe4000074" unfolding ad .
qed

lemma rply_kern_ready:
  "rply_ready 0x10000 rply_kern 1 0xe4000040 0x10040 0xe400000c [] {0xe400000c, 0xe4000040, 0xe4000074} 0x10074 0"
proof -
  have m: "kmmu rply_kern = rply_mmu" "ktab rply_kern = rply_tab" by (simp_all add: kmmu_def rply_kern_def)
  have "nodes_of [True, True, True] = node_addr ` {0, 1, 2}"
    unfolding nodes_of_def by (rule arg_cong [of _ _ "(`) node_addr"]) (auto simp: less_Suc_eq numeral_3_eq_3 numeral_2_eq_2)
  then have L: "nodes_of [True, True, True] = {0xe400000c, 0xe4000040, 0xe4000074}" using rply_addr by simp
  have hr: "heap_rep 0x10000 (kheap rply_kern) {0xe400000c, 0xe4000040, 0xe4000074}"
    unfolding heap_rep_def using rply_nodes L by (auto simp: rply_kern_def)
  have q: "qrep rply_mmu 0x10000 (recv_queue (procs rply_tab 1)) [0xe400000c]"
    using rply_fld(5) rply_addr(1,5) by (simp add: qrep_def rply_tab_def node_word_def fld_def heap_pool_addr_def)
  have wf: "win_free rply_mmu 0xcafe0000"
    by (simp add: win_free_def page_aligned_def has_table_def vm_pdir_idx_def vm_ptab_idx_def translate_def
        rply_tables(1,3) flag_defs)
  have ob: "obj rply_mmu 0xe4000040 0x10040 36" "obj rply_mmu 0xe4000074 0x10074 4"
    using node_obj(1) [OF rply_pool rply_addr(6)] node_obj(1) [OF rply_pool rply_addr(7)]
    by (auto intro: obj_less simp: heap_pool_addr_def)
  have pr: "q \<in> obj_bytes 0x20000 4 \<longleftrightarrow> q \<in> {0x20000, 0x20001, 0x20002, 0x20003}" for q
    by (simp add: obj_bytes4)
  have sp: "q \<in> obj_bytes 0x10074 4 \<longleftrightarrow> q \<in> {0x10074, 0x10075, 0x10076, 0x10077}" for q
    by (simp add: obj_bytes4)
  have hf: "obj_bytes 0x20000 4 \<inter> heap_frames 0x10000 = {}" by (simp add: frames_apart)
  have "obj_bytes 0x20000 4 \<inter> walk_bytes rply_mmu = {}" using pr by (auto simp: rply_tables(5))
  moreover have "obj_bytes 0x20000 4 \<inter> obj_bytes 0x10074 4 = {}" using pr sp by auto
  moreover have "proc_find_by_pid 0 rply_tab = Some 0"
    using find_by_pid_unique [OF rply_demo_tab_ok(1,2)] by (simp add: rply_tab_def)
  ultimately show ?thesis
    unfolding rply_ready_def Let_def m rply_addr(4) rply_fld using rply_tables(4) hr q wf ob hf by simp
qed

subsection \<open>A message waiting to be received\<close>

text \<open>
  The same pool with one queued message; the table for the window at \<open>0xbabe0000\<close> lies at \<open>0x3000\<close> and
  maps \<open>0xba801000\<close>, where the caller has its packet and its buffer, to the frame \<open>0x21000\<close>.
\<close>

definition recv_mmu :: mmu where
  "recv_mmu = ipc_mmu 0x2ea [(1, 0x21003)] [(3, 7), (5, 0x20000), (7, 4), (9, 0x20000)]
     [(3, 0xba801040), (5, 4), (32, 0xba801000)]"

lemma recv_ok: "ipc_ok 0x2ea [(1, 0x21003)] [(3, 7), (5, 0x20000), (7, 4), (9, 0x20000)]
     [(3, 0xba801040), (5, 4), (32, 0xba801000)]"
  by (simp add: ipc_ok_def small_idx_def)

lemmas recv_tables = ipc_tables [OF recv_ok, folded recv_mmu_def]
lemmas recv_pool = ipc_pool [OF recv_ok, folded recv_mmu_def]
lemmas recv_word = ipc_word [OF recv_ok, folded recv_mmu_def]

definition recv_kern :: kern where
  "recv_kern = rply_kern\<lparr>kheap := \<lparr>hvms = \<lparr>vmmu = recv_mmu, vpm = pm_fresh\<rparr>, heap_initialized = True\<rparr>\<rparr>"

lemma recv_fld:
  "fld recv_mmu 0x1000c 0 = 7" "fld recv_mmu 0x1000c 8 = 0x20000" "fld recv_mmu 0x1000c 16 = 4"
  "fld recv_mmu 0x1000c 24 = 0x20000" "fld recv_mmu 0x1000c 36 = 0" "fld recv_mmu 0x21000 12 = 0xba801040"
  "fld recv_mmu 0x21000 20 = 4" "fld recv_mmu 0x21000 4 = 0" "fld recv_mmu 0x21080 0 = 0xba801000"
  using recv_word(1) [of 3] recv_word(1) [of 5] recv_word(1) [of 7] recv_word(1) [of 9] recv_word(1) [of 12]
    recv_word(2) [of 3] recv_word(2) [of 5] recv_word(2) [of 1] recv_word(2) [of 32]
  by (simp_all add: fld_def hword_def hphys_def)

lemma recv_page: "unat off + n \<le> 4096 \<Longrightarrow> obj recv_mmu (0xba801000 + off) (0x21000 + off) n"
  unfolding recv_mmu_def
  by (rule ipc_page [OF recv_ok]) (simp_all add: page_aligned_def vm_pdir_idx_def vm_ptab_idx_def)

lemma recv_kern_ready: "recv_ready 0x10000 recv_kern 1 0xba801000 0x21000 0xe400000c [] 0x21040"
proof -
  have m: "kmmu recv_kern = recv_mmu" "ktab recv_kern = rply_tab" by (simp_all add: kmmu_def recv_kern_def rply_kern_def)
  have q: "qrep recv_mmu 0x10000 (recv_queue (procs rply_tab 1)) [0xe400000c]"
    using recv_fld(5) rply_addr(1,5) by (simp add: qrep_def rply_tab_def node_word_def fld_def heap_pool_addr_def)
  have wf: "win_free recv_mmu 0xbabe0000"
    by (simp add: win_free_def page_aligned_def has_table_def vm_pdir_idx_def vm_ptab_idx_def translate_def
        recv_tables(1,3) flag_defs)
  have ob: "obj recv_mmu 0xba801000 0x21000 36" "obj recv_mmu 0xba801040 0x21040 4"
    using recv_page [of 0 36] recv_page [of "0x40" 4] by simp_all
  have d: "obj_bytes 0x21040 4 \<inter> obj_bytes 0x21000 36 = {}" "obj_bytes 0x21000 36 \<inter> heap_frames 0x10000 = {}"
    "obj_bytes 0x21040 4 \<inter> heap_frames 0x10000 = {}"
    by (simp_all add: obj_bytes_apart frames_apart)
  have "obj_bytes 0x20000 4 \<inter> walk_bytes recv_mmu = {}" by (auto simp: obj_bytes4 recv_tables(5))
  moreover have "obj_bytes 0x21040 4 \<inter> obj_bytes 0x20000 4 = {}" by (auto simp: obj_bytes4)
  ultimately show ?thesis
    unfolding recv_ready_def Let_def m rply_addr(4) recv_fld
    using recv_tables(4) recv_pool rply_addr(5) q wf ob d by simp
qed

lemma recv_eax: "kld (0xba801054 + REGS_EAX) recv_kern = Inr 0xba801000" "kld (0xba801000 + MSG_RECEIVER) recv_kern = Inr 0"
proof -
  have m: "kmmu recv_kern = recv_mmu" by (simp add: kmmu_def recv_kern_def)
  show "kld (0xba801054 + REGS_EAX) recv_kern = Inr 0xba801000"
    using kld_obj [of recv_kern "0xba801080" "0x21080" 4 0] recv_page [of "0x80" 4] recv_fld(9)
    by (simp add: m REGS_EAX_def)
  show "kld (0xba801000 + MSG_RECEIVER) recv_kern = Inr 0"
    using kld_obj [of recv_kern "0xba801000" "0x21000" 36 4] recv_page [of 0 36] recv_fld(8) by (simp add: m MSG_RECEIVER_def)
qed

section \<open>Properties\<close>

text \<open>
  C15. A reply.  The caller \<open>c\<close> has a message \<open>x\<close> at the head of its queue, whose sender is process
  \<open>i\<close>, and answers from a mapped buffer; the sender's receive buffer lies in one page outside
  page tables and kernel heap.  The call returns; the sender's buffer then holds the bytes
  of the answer, the queue has lost exactly its first message, the heap node of that
  message is free again and the other nodes are not, the sender is ready, the caller keeps
  the processor's state in its frame and is ready; of the sender only the state changes and of other
  processes nothing.  All
  memory outside the buffer, the kernel heap and the page tables is as before, and seen
  from the caller's address space every address is mapped as before.  Every queue of messages in use is
  left alone, but for the first message of the caller's.
\<close>

theorem syscall_rply_msg_correct:
  assumes "rply_ready hp k c msg mp x xs L sp i" and "kld (regs + REGS_EAX) k = Inr msg"
    and "current_proc (ktab k) = Some c" and "used_slot (ktab k) c" and "used_slot (ktab k) i"
    and "idle (ktab k) = Some d" and "pids_ok (ktab k)" and "state (procs (ktab k) c) = PROC_RUNNING \<or> state (procs (ktab k) c) = PROC_READY"
  shows "\<exists>r k'. syscall_rply_msg fr regs k = Inr (r, k') \<and>
    (let m = kmmu k; m' = (kmmu k')\<lparr>cr3 := cr3 m\<rparr>; pr = fld m (node_phys hp x) 28; rl = unat (fld m (node_phys hp x) 20) in
     (\<forall>j < rl. mem m' (pr + of_nat j) = mem m (sp + of_nat j)) \<and>
     qrep m' hp (recv_queue (procs (ktab k') c)) xs \<and>
     heap_rep hp (kheap (upd_mmu (\<lambda>_. m') k')) (L - {x}) \<and>
     state (procs (ktab k') i) = PROC_READY \<and> state (procs (ktab k') c) = PROC_READY \<and>
     trapframe (procs (ktab k') c) = fr \<and>
     (\<forall>j. j \<noteq> c \<longrightarrow> j \<noteq> i \<longrightarrow> procs (ktab k') j = procs (ktab k) j) \<and>
     (i \<noteq> c \<longrightarrow> procs (ktab k') i = (procs (ktab k) i)\<lparr>state := PROC_READY\<rparr>) \<and>
     (\<exists>n. current_proc (ktab k') = Some n \<and> r = trapframe (procs (ktab k') n)) \<and> scheduling_enabled (ktab k') \<and>
     (\<forall>w. vm_pdir_idx w \<noteq> 1023 \<longrightarrow> translate m' w = translate m w) \<and>
     (\<forall>q. q \<notin> walk_bytes m \<union> obj_bytes pr rl \<union> heap_frames hp \<longrightarrow> mem m' q = mem m q) \<and>
     (\<forall>h ys. qrep m hp h ys \<longrightarrow> set ys \<subseteq> L \<longrightarrow> qrep m' hp h ys))"
proof -
  let ?m = "kmmu k" and ?pr = "fld (kmmu k) (node_phys hp x) 28" and ?rl = "unat (fld (kmmu k) (node_phys hp x) 20)"
  obtain r k' m' n where s: "syscall_rply_msg fr regs k = Inr (r, k')" "(kmmu k')\<lparr>cr3 := cr3 ?m\<rparr> = m'"
    "\<forall>j < ?rl. mem m' (?pr + of_nat j) = mem ?m (sp + of_nat j)" "qrep m' hp (recv_queue (procs (ktab k') c)) xs"
    "heap_rep hp (kheap (upd_mmu (\<lambda>_. m') k')) (L - {x})" "state (procs (ktab k') i) = PROC_READY"
    "state (procs (ktab k') c) = PROC_READY" "trapframe (procs (ktab k') c) = fr"
    "\<forall>j. j \<noteq> c \<longrightarrow> j \<noteq> i \<longrightarrow> procs (ktab k') j = procs (ktab k) j"
    "current_proc (ktab k') = Some n" "r = trapframe (procs (ktab k') n)" "scheduling_enabled (ktab k')"
    "\<forall>w. vm_pdir_idx w \<noteq> 1023 \<longrightarrow> translate m' w = translate ?m w"
    "\<forall>q. q \<notin> walk_bytes ?m \<union> obj_bytes ?pr ?rl \<union> heap_frames hp \<longrightarrow> mem m' q = mem ?m q"
    "\<forall>h ys. qrep ?m hp h ys \<longrightarrow> set ys \<subseteq> L \<longrightarrow> qrep m' hp h ys"
    "i \<noteq> c \<longrightarrow> procs (ktab k') i = (procs (ktab k) i)\<lparr>state := PROC_READY\<rparr>"
    by (rule rply_answers [OF assms, of fr]) (rule that)
  show ?thesis
    by (intro exI [of _ r] exI [of _ k'] conjI s(1))
      (unfold Let_def s(2), intro conjI s(3-9,12-16) exI [of _ n] s(10,11))
qed

theorem syscall_rply_msg_correct_witness:
  "\<exists>r k'. syscall_rply_msg 0x9000 0xe400004c rply_kern = Inr (r, k') \<and> state (procs (ktab k') 0) = PROC_READY \<and>
     mem (kmmu k') 0x20000 = mem (kmmu rply_kern) 0x10074"
proof -
  have m: "kmmu rply_kern = rply_mmu" "ktab rply_kern = rply_tab" by (simp_all add: kmmu_def rply_kern_def)
  have "hword rply_mmu 0x10000 120 = 0xe4000040" using rply_hword [of 30] by (simp add: rply_words_def)
  moreover have "vload32 rply_mmu (haddr 120) = Inr (hword rply_mmu 0x10000 120)"
    using heap_load32 [OF rply_pool, of 120] by simp
  ultimately have ld: "kld (0xe400004c + REGS_EAX) rply_kern = Inr 0xe4000040"
    by (simp add: kld_def m REGS_EAX_def haddr_def heap_pool_addr_def)
  have t: "current_proc (ktab rply_kern) = Some 1" "idle (ktab rply_kern) = Some 1"
    "state (procs (ktab rply_kern) 1) = PROC_RUNNING \<or> state (procs (ktab rply_kern) 1) = PROC_READY"
    by (simp_all add: m rply_tab_def)
  note u = rply_demo_tab_ok [folded m(2)]
  from syscall_rply_msg_correct [OF rply_kern_ready ld t(1) u(3,2) t(2) u(1) t(3), of "0x9000"]
  obtain r k' where k': "syscall_rply_msg 0x9000 0xe400004c rply_kern = Inr (r, k')" "state (procs (ktab k') 0) = PROC_READY"
    "\<forall>j < unat (fld rply_mmu 0x1000c 20). mem (kmmu k') (fld rply_mmu 0x1000c 28 + of_nat j) = mem rply_mmu (0x10074 + of_nat j)"
    unfolding Let_def m rply_addr(4) by auto
  from k'(3) [rule_format, of 0] k'(1,2) show ?thesis unfolding rply_fld m by auto
qed

text \<open>
  C16. A receive with a message waiting.  The call returns; the caller's buffer holds the first
  \<open>recv_len\<close> bytes of the sender's buffer and the caller's packet names the sender.  The
  message stays at the head of the queue until it is answered, the caller is ready again
  and no other process changes.  All memory outside the buffer, the sender field and the page tables is as before,
  and seen from the caller's address space every address is mapped as before.
\<close>

theorem syscall_recv_msg_correct:
  assumes "recv_ready hp k c msg mp x xs dp" and "kld (regs + REGS_EAX) k = Inr msg"
    and "current_proc (ktab k) = Some c" and "used_slot (ktab k) c" and "idle (ktab k) = Some d"
    and "pids_ok (ktab k)" and "state (procs (ktab k) c) = PROC_RUNNING \<or> state (procs (ktab k) c) = PROC_READY"
  shows "\<exists>r k'. syscall_recv_msg fr regs k = Inr (r, k') \<and>
    (let m = kmmu k; m' = (kmmu k')\<lparr>cr3 := cr3 m\<rparr>; ps = fld m (node_phys hp x) 24; rl = unat (fld m mp 20) in
     (\<forall>j < rl. mem m' (dp + of_nat j) = mem m (ps + of_nat j)) \<and> fld m' mp 0 = fld m (node_phys hp x) 0 \<and>
     qrep m' hp (recv_queue (procs (ktab k') c)) (x # xs) \<and>
     procs (ktab k') = (procs (ktab k))(c := (procs (ktab k) c)\<lparr>trapframe := fr, state := PROC_READY\<rparr>) \<and>
     (\<exists>n. current_proc (ktab k') = Some n \<and> r = trapframe (procs (ktab k') n)) \<and> scheduling_enabled (ktab k') \<and>
     (\<forall>w. vm_pdir_idx w \<noteq> 1023 \<longrightarrow> translate m' w = translate m w) \<and>
     (\<forall>q. q \<notin> walk_bytes m \<union> obj_bytes dp rl \<union> obj_bytes mp 4 \<longrightarrow> mem m' q = mem m q))"
proof -
  let ?m = "kmmu k" and ?A = "obj_bytes dp (unat (fld (kmmu k) mp 20)) \<union> obj_bytes mp 4"
  obtain r k' n m' where s: "syscall_recv_msg fr regs k = Inr (r, k')" "(kmmu k')\<lparr>cr3 := cr3 ?m\<rparr> = m'"
    "\<And>j. j < unat (fld ?m mp 20) \<Longrightarrow> mem m' (dp + of_nat j) = mem ?m (fld ?m (node_phys hp x) 24 + of_nat j)"
    "fld m' mp 0 = fld ?m (node_phys hp x) 0" "mem_step ?A ?m m'"
    "procs (ktab k') = (procs (ktab k))(c := (procs (ktab k) c)\<lparr>trapframe := fr, state := PROC_READY\<rparr>)"
    "qrep m' hp (recv_queue (procs (ktab k) c)) (x # xs)"
    "current_proc (ktab k') = Some n" "r = trapframe (procs (ktab k') n)" "scheduling_enabled (ktab k')"
    by (rule recv_takes [OF assms, of fr]) (rule that)
  have rq: "recv_queue (procs (ktab k') c) = recv_queue (procs (ktab k) c)" unfolding s(6) by simp
  have fr: "\<forall>w. vm_pdir_idx w \<noteq> 1023 \<longrightarrow> translate m' w = translate ?m w"
    "\<forall>q. q \<notin> walk_bytes ?m \<union> obj_bytes dp (unat (fld ?m mp 20)) \<union> obj_bytes mp 4 \<longrightarrow> mem m' q = mem ?m q"
    using s(5) by (auto simp: mem_step_def)
  show ?thesis
    by (intro exI [of _ r] exI [of _ k'] conjI s(1))
      (unfold Let_def s(2) rq, intro conjI allI impI s(3,4,6,7) fr [rule_format] exI [of _ n] s(8-10))
qed

theorem syscall_recv_msg_correct_witness:
  "\<exists>r k'. syscall_recv_msg 0x9000 0xba801054 recv_kern = Inr (r, k') \<and>
     mem (kmmu k') 0x21040 = mem (kmmu recv_kern) 0x20000 \<and> load32 (mem (kmmu k')) 0x21000 = 7"
proof -
  have m: "kmmu recv_kern = recv_mmu" "ktab recv_kern = rply_tab" by (simp_all add: kmmu_def recv_kern_def rply_kern_def)
  have t: "current_proc (ktab recv_kern) = Some 1" "idle (ktab recv_kern) = Some 1"
    "state (procs (ktab recv_kern) 1) = PROC_RUNNING \<or> state (procs (ktab recv_kern) 1) = PROC_READY"
    by (simp_all add: m rply_tab_def)
  note u = rply_demo_tab_ok [folded m(2)]
  from syscall_recv_msg_correct [OF recv_kern_ready recv_eax(1) t(1) u(3) t(2) u(1) t(3), of "0x9000"]
  obtain r k' where k': "syscall_recv_msg 0x9000 0xba801054 recv_kern = Inr (r, k')"
    "\<forall>j < unat (fld recv_mmu 0x21000 20). mem (kmmu k') (0x21040 + of_nat j) = mem recv_mmu (fld recv_mmu 0x1000c 24 + of_nat j)"
    "fld ((kmmu k')\<lparr>cr3 := cr3 recv_mmu\<rparr>) 0x21000 0 = fld recv_mmu 0x1000c 0"
    unfolding Let_def m rply_addr(4) by auto
  from k'(2) [rule_format, of 0] k'(1,3) show ?thesis unfolding recv_fld m by (auto simp: fld_def)
qed

text \<open>
  A message to a process id that no process has: the call returns to the caller at
  once, changes no process, and leaves scheduling disabled, so that from then on no timer interrupt takes the
  processor away from the caller.
\<close>

theorem syscall_send_msg_unknown:
  assumes "kld (regs + REGS_EAX) k = Inr msg" and "kld (msg + MSG_RECEIVER) k = Inr rcv"
    and "\<forall>i < NPROCS. pid (procs (ktab k) i) \<noteq> rcv"
  shows "\<exists>k'. syscall_send_msg fr regs k = Inr (regs, k') \<and> kheap k' = kheap k \<and> procs (ktab k') = procs (ktab k) \<and>
    \<not> scheduling_enabled (ktab k') \<and> (\<forall>fr'. proc_schedule_after_irq fr' k' = Inr (fr', k'))"
proof -
  have "proc_find_by_pid rcv (ktab (k\<lparr>ktab := proc_disable_scheduling (ktab k)\<rparr>)) = None"
    using assms(3) by (simp add: find_by_pid_None proc_disable_scheduling_def)
  then have "syscall_send_msg fr regs k = Inr (regs, k\<lparr>ktab := proc_disable_scheduling (ktab k)\<rparr>)"
    using assms(1,2) by (simp add: syscall_send_msg_def)
  then show ?thesis by (auto simp: proc_disable_scheduling_def proc_schedule_after_irq_def)
qed

theorem syscall_send_msg_unknown_witness:
  "\<exists>k'. syscall_send_msg 0x9000 0xba801054 (recv_kern\<lparr>ktab := demo_tab\<rparr>) = Inr (0xba801054, k') \<and>
     \<not> scheduling_enabled (ktab k')"
proof -
  have "kld (0xba801054 + REGS_EAX) (recv_kern\<lparr>ktab := demo_tab\<rparr>) = Inr 0xba801000"
    "kld (0xba801000 + MSG_RECEIVER) (recv_kern\<lparr>ktab := demo_tab\<rparr>) = Inr 0"
    using recv_eax by simp_all
  moreover have "\<forall>i < NPROCS. pid (procs (ktab (recv_kern\<lparr>ktab := demo_tab\<rparr>)) i) \<noteq> 0"
    by (simp add: demo_tab_def demo_proc_def)
  ultimately show ?thesis using syscall_send_msg_unknown [of "0xba801054" "recv_kern\<lparr>ktab := demo_tab\<rparr>" "0xba801000" 0 "0x9000"] by blast
qed

end
