(* ===== verification/Send.thy ===== *)
theory Send
  imports Ipc
begin

unbundle bit_operations_syntax

text \<open>
  A message on its way through the kernel: the send of \<^verbatim>\<open>kernel/syscall.c\<close> to a process that is ready,
  and the receive and the reply that follow it.

  The node of the message is allocated in the kernel heap, filled in from the sender's
  packet (\<open>filled\<close>) and appended to the receiver's queue (\<open>queued\<close>).  Shown: what the queue
  and the node hold afterwards; that a later receive delivers the sender's bytes; that a
  later reply delivers the answer and releases the node.  Between the calls the memory
  may change outside the kernel's pool.
\<close>

section \<open>Lemmas\<close>

subsection \<open>Physical addresses of user buffers\<close>

text \<open>
  \<open>phys_of m a p\<close>: the page walk takes \<open>a\<close> to \<open>p\<close>, and the page table entry has the bits clear
  that \<open>vm_get_phys_mapping\<close> would take for address bits.
\<close>

definition phys_of :: "mmu \<Rightarrow> u32 \<Rightarrow> u32 \<Rightarrow> bool" where
  "phys_of m a p \<longleftrightarrow> vm_pdir_idx a \<noteq> 1023 \<and> translate m a = Inr p \<and>
     pte_of m (vm_pdir_idx a) (vm_ptab_idx a) AND 0xc00 = 0"

lemma phys_of_step: "mem_step A m m' \<Longrightarrow> phys_of m a p \<Longrightarrow> phys_of m' a p"
  by (simp add: mem_step_def phys_of_def)

lemma phys_of_page:
  assumes "phys_of m a p"
  shows "p = (pte_of m (vm_pdir_idx a) (vm_ptab_idx a) AND 0xfffff000) + (a AND 0xfff)" and "p AND 0xfff = a AND 0xfff"
proof -
  show p: "p = (pte_of m (vm_pdir_idx a) (vm_ptab_idx a) AND 0xfffff000) + (a AND 0xfff)"
    using assms by (auto simp: phys_of_def translate_def split: if_splits)
  have "a AND 0xfff < 0x1000" by (simp add: word_less_nat_alt unat_and_fff)
  from page_add_offset(3) [OF page_aligned_page this] show "p AND 0xfff = a AND 0xfff" unfolding p .
qed

lemma kphys_of:
  assumes "pt_ok (kmmu k)" and "phys_of (kmmu k) a p"
  shows "kphys a k = Inr p"
proof -
  let ?v = "hvms (kheap k)"
  have "has_table (vmmu ?v) (vm_pdir_idx a)"
    using assms(2) less_1023(2) [OF vm_pdir_idx_less]
    by (auto simp: phys_of_def has_table_def translate_def kmmu_def split: if_splits)
  then show ?thesis
    using vm_get_phys_mapping_table [of ?v a] phys_of_page(1) [OF assms(2)] and_not_3ff assms
    by (simp add: kphys_def kmmu_def phys_of_def)
qed

subsection \<open>Filling in a node\<close>

text \<open>
  \<open>filled hp us x F m m'\<close>: \<open>m'\<close> differs from \<open>m\<close> in the pool only, the blocks \<open>us\<close> of the pool are
  in place, the packet in node \<open>x\<close> has the fields \<open>F\<close>, and every other word of a node is as in \<open>m\<close>.
\<close>

definition filled :: "u32 \<Rightarrow> bool list \<Rightarrow> u32 \<Rightarrow> (nat \<Rightarrow> u32) \<Rightarrow> mmu \<Rightarrow> mmu \<Rightarrow> bool" where
  "filled hp us x F m m' \<longleftrightarrow> heap_upd hp m m' \<and> heap_state m' hp us \<and>
     (\<forall>y off. node_ok y \<longrightarrow> off < 40 \<longrightarrow> 4 dvd off \<longrightarrow>
        node_word m' hp y off = (if y = x \<and> off < 36 then F off else node_word m hp y off))"

lemma filled_store:
  assumes fi: "filled hp us x F m (kmmu k)" and x: "node_ok x" and off: "off < 36" "4 dvd off"
  obtains m' where "kst (x + of_nat off) v k = Inr (upd_mmu (\<lambda>_. m') k)" and "filled hp us x (F(off := v)) m m'"
proof -
  have hm: "heap_mapped (kmmu k) hp" using fi by (simp add: filled_def heap_state_def)
  have o40: "off < 40" using off(1) by simp
  obtain m' where m': "vstore32 (kmmu k) (x + of_nat off) v = Inr m'" "heap_upd hp (kmmu k) m'"
    "\<And>y o'. node_ok y \<Longrightarrow> o' < 40 \<Longrightarrow> 4 dvd o' \<Longrightarrow>
      node_word m' hp y o' = (if y = x \<and> o' = off then v else node_word (kmmu k) hp y o')"
    "\<And>us. heap_state (kmmu k) hp us \<Longrightarrow> heap_state m' hp us"
    by (rule node_store [OF hm x o40 off(2)]) (rule that)
  have "filled hp us x (F(off := v)) m m'"
    using fi m'(2,3,4) heap_upd_trans off(1) unfolding filled_def by auto
  with m'(1) show ?thesis by (intro that [of m']) (simp_all add: kst_def)
qed

lemma filled_copy:
  assumes hs: "heap_state (kmmu k) hp us" and x: "node_ok x" and msg: "obj (kmmu k) msg mp 36"
    and dis: "obj_bytes mp 36 \<inter> heap_frames hp = {}"
  obtains m' where "kcopy x msg 36 k = Inr (upd_mmu (\<lambda>_. m') k)" and "filled hp us x (fld (kmmu k) mp) (kmmu k) m'"
proof -
  let ?m = "kmmu k"
  have hm: "heap_mapped ?m hp" using hs by (simp add: heap_state_def)
  obtain j where j: "x = node_addr j" "node_off j + 64 \<le> 16384" using x by (auto simp: node_ok_def)
  let ?D = "\<lambda>i. hphys hp (node_off j + 12 + i)"
  have fr: "?D i \<in> heap_frames hp" if "i < 36" for i using j(2) that by (auto simp: heap_frames_def)
  have "\<exists>f. memcpy x msg 36 ?m = Inr (?m\<lparr>mem := f\<rparr>) \<and>
      (\<forall>i < 36. f (?D i) = mem ?m (mp + of_nat i)) \<and> (\<forall>p. p \<notin> ?D ` {..<36} \<longrightarrow> f p = mem ?m p)"
  proof (rule memcpy_bytes)
    fix i :: nat assume i: "i < 36"
    have a: "x + of_nat i = haddr (node_off j + 12 + i)" by (simp only: j(1) node_addr_def haddr_add)
    show "translate ?m (x + of_nat i) = Inr (?D i)" "?D i \<notin> walk_bytes ?m"
      unfolding a using hm j(2) i by (simp_all add: heap_mapped_def)
    show "translate ?m (msg + of_nat i) = Inr (mp + of_nat i)" by (rule obj_byte(1) [OF msg i])
    fix l :: nat assume "l < 36"
    then show "?D i \<noteq> mp + of_nat l" using dis fr [OF i] obj_bytes_mem by (metis disjoint_iff)
  next
    show "inj_on ?D {..<36}" using j(2) by (intro inj_onI) (simp add: hphys_inject [OF hm])
  qed
  then obtain f where f: "memcpy x msg 36 ?m = Inr (?m\<lparr>mem := f\<rparr>)"
    "\<And>i. i < 36 \<Longrightarrow> f (?D i) = mem ?m (mp + of_nat i)" "\<And>p. p \<notin> ?D ` {..<36} \<Longrightarrow> f p = mem ?m p" by blast
  let ?m' = "?m\<lparr>mem := f\<rparr>"
  have up: "heap_upd hp ?m ?m'"
    unfolding heap_upd_def heap_frames_def [symmetric]
  proof (intro exI [of _ f] conjI refl allI impI)
    fix p assume "p \<notin> heap_frames hp"
    then have "p \<notin> ?D ` {..<36}" using fr by blast
    then show "f p = mem ?m p" by (rule f(3))
  qed
  have b: "hbyte ?m' hp z = hbyte ?m hp z" if z: "z < 16384" "\<not> (node_off j + 12 \<le> z \<and> z < node_off j + 48)" for z
  proof -
    have "hphys hp z \<noteq> ?D i" if "i < 36" for i
      using hphys_inject [OF hm z(1), of "node_off j + 12 + i"] z(2) j(2) that by auto
    then show ?thesis using f(3) [of "hphys hp z"] by (auto simp: hbyte_def)
  qed
  have "heap_state ?m' hp us" by (rule heap_state_data [OF hs up, of j]) (use b in auto)
  moreover have "node_word ?m' hp y off = (if y = x \<and> off < 36 then fld ?m mp off else node_word ?m hp y off)"
    if y: "node_ok y" and off: "off < 40" "4 dvd off" for y off
  proof (cases "y = x \<and> off < 36")
    case True
    then have o: "off + 4 \<le> 36" using off by (auto elim!: dvdE)
    have "load32 f (?D off) = load32 (mem ?m) (mp + of_nat off)"
      using f(2) [of off] f(2) [of "off + 1"] f(2) [of "off + 2"] f(2) [of "off + 3"] o
        hphys_add [of hp "node_off j + 12 + off" 1] hphys_add [of hp "node_off j + 12 + off" 2]
        hphys_add [of hp "node_off j + 12 + off" 3]
      unfolding load32_def word_bytes by (simp add: add.assoc)
    with True show ?thesis by (simp add: j(1) node_word_hword hword_def fld_def)
  next
    case False
    obtain l where l: "y = node_addr l" "node_off l + 64 \<le> 16384" using y by (auto simp: node_ok_def)
    have "hword ?m' hp (node_off l + 12 + off) = hword ?m hp (node_off l + 12 + off)"
    proof (rule hword_cong, rule b)
      fix z assume z: "node_off l + 12 + off \<le> z" "z \<le> node_off l + 12 + off + 3"
      have "off + 4 \<le> 40" using off by (auto elim!: dvdE)
      then show "z < 16384" "\<not> (node_off j + 12 \<le> z \<and> z < node_off j + 48)"
        using z l False j(1) node_off_mono [of j l] node_off_mono [of l j]
        by (cases j l rule: linorder_cases; auto)+
    qed
    then show ?thesis unfolding if_not_P [OF False] by (simp add: l(1) node_word_hword)
  qed
  ultimately have "filled hp us x (fld ?m mp) ?m ?m'" using up by (simp add: filled_def)
  with f(1) show ?thesis by (intro that [of ?m']) (simp_all add: kcopy_def)
qed

text \<open>A packet at \<open>msg\<close> outside the pool, while the node is filled in.\<close>

definition packet :: "u32 \<Rightarrow> mmu \<Rightarrow> u32 \<Rightarrow> u32 \<Rightarrow> bool" where
  "packet hp m msg mp \<longleftrightarrow> pt_ok m \<and> obj m msg mp 36 \<and> obj_bytes mp 36 \<inter> heap_frames hp = {}"

lemma fld_heap_step:
  assumes "mem_step (heap_frames hp) m m'" and "packet hp m msg mp" and "off + 4 \<le> 36"
  shows "fld m' mp off = fld m mp off"
  using assms mem_step_mem [OF assms(1)]
  by (intro fld_outside [of m msg mp 36, where A = "heap_frames hp"]) (auto simp: packet_def)

lemma packet_step: "mem_step A m m' \<Longrightarrow> packet hp m msg mp \<Longrightarrow> packet hp m' msg mp"
  using obj_step mem_step_pt_ok by (auto simp: packet_def)

lemma filled_step:
  assumes "filled hp us x F m m'" and "pt_ok m" and "heap_mapped m hp"
  shows "mem_step (heap_frames hp) m m'"
  using assms heap_upd_step by (simp add: filled_def)

lemma copy_field_filled:
  assumes fi: "filled hp us x F m (kmmu k)" and x: "node_ok x" and p: "packet hp m msg mp" and hm: "heap_mapped m hp"
    and off: "off + 4 \<le> 36" "4 dvd off"
  obtains m' where "copy_field x msg (of_nat off) k = Inr (upd_mmu (\<lambda>_. m') k)"
    and "filled hp us x (F(off := fld m mp off)) m m'"
proof -
  have o36: "off < 36" using off(1) by simp
  have ok: "pt_ok m" using p by (simp add: packet_def)
  note st = filled_step [OF fi ok hm]
  have "obj (kmmu k) msg mp 36" using packet_step [OF st p] by (simp add: packet_def)
  then have ld: "kld (msg + of_nat off) k = Inr (fld m mp off)"
    using kld_obj off(1) fld_heap_step [OF st p off(1)] by simp
  obtain m' where "kst (x + of_nat off) (fld m mp off) k = Inr (upd_mmu (\<lambda>_. m') k)"
    "filled hp us x (F(off := fld m mp off)) m m'" by (rule filled_store [OF fi x o36 off(2)]) (rule that)
  then show ?thesis using ld by (intro that [of m']) (simp_all add: copy_field_def)
qed

lemma phys_field_filled:
  assumes fi: "filled hp us x F m (kmmu k)" and x: "node_ok x" and p: "packet hp m msg mp" and hm: "heap_mapped m hp"
    and off: "off < 36" "4 dvd off" "off' + 4 \<le> 36" and ph: "phys_of m (fld m mp off') v"
  obtains m' where "phys_field x (of_nat off) msg (of_nat off') k = Inr (upd_mmu (\<lambda>_. m') k)"
    and "filled hp us x (F(off := v)) m m'"
proof -
  have ok: "pt_ok m" using p by (simp add: packet_def)
  note st = filled_step [OF fi ok hm]
  have "obj (kmmu k) msg mp 36" using packet_step [OF st p] by (simp add: packet_def)
  then have ld: "kld (msg + of_nat off') k = Inr (fld m mp off')"
    using kld_obj off(3) fld_heap_step [OF st p off(3)] by simp
  have "kphys (fld m mp off') k = Inr v" by (rule kphys_of [OF mem_step_pt_ok [OF st] phys_of_step [OF st ph]])
  moreover obtain m' where "kst (x + of_nat off) v k = Inr (upd_mmu (\<lambda>_. m') k)"
    "filled hp us x (F(off := v)) m m'" by (rule filled_store [OF fi x off(1,2)]) (rule that)
  ultimately show ?thesis using ld by (intro that [of m']) (simp_all add: phys_field_def)
qed

lemma fld_node: "fld m (node_phys hp x) off = node_word m hp x off"
  by (simp add: fld_def node_phys_def node_word_def algebra_simps)

text \<open>The packet a sender with process id \<open>cp\<close> leaves in the node.\<close>

definition sent_fields :: "u32 \<Rightarrow> u32 \<Rightarrow> u32 \<Rightarrow> (nat \<Rightarrow> u32) \<Rightarrow> nat \<Rightarrow> u32" where
  "sent_fields cp ps pr F = F(0 := cp, 24 := ps, 28 := pr)"

lemma fill_node:
  assumes hs: "heap_state (kmmu k) hp us" and x: "node_ok x" and p: "packet hp (kmmu k) msg mp"
    and ph: "phys_of (kmmu k) (fld (kmmu k) mp 8) ps" "phys_of (kmmu k) (fld (kmmu k) mp 12) pr"
  obtains m' where "filled hp us x (sent_fields cp ps pr (fld (kmmu k) mp)) (kmmu k) m'"
    and "send_fill cp msg x k = Inr (upd_mmu (\<lambda>_. m') k)"
proof -
  let ?m = "kmmu k" and ?F = "fld (kmmu k) mp" and ?K = "\<lambda>m. upd_mmu (\<lambda>_. m) k"
  have hm: "heap_mapped ?m hp" using hs by (simp add: heap_state_def)
  have msg: "obj ?m msg mp 36" "obj_bytes mp 36 \<inter> heap_frames hp = {}" using p by (simp_all add: packet_def)
  have copy: "\<exists>m'. copy_field x msg (of_nat off) (?K mm) = Inr (?K m') \<and> filled hp us x G ?m m'"
    if "filled hp us x G ?m mm" "off + 4 \<le> 36" "4 dvd off" "G off = ?F off" for G mm off
  proof -
    have fi: "filled hp us x G ?m (kmmu (?K mm))" using that(1) by simp
    have "G(off := ?F off) = G" using that(4) by (metis fun_upd_triv)
    then show ?thesis by (rule_tac copy_field_filled [OF fi x p hm that(2,3)]) auto
  qed
  have phys: "\<exists>m'. phys_field x (of_nat off) msg (of_nat off') (?K mm) = Inr (?K m') \<and> filled hp us x (G(off := v)) ?m m'"
    if "filled hp us x G ?m mm" "off < 36" "4 dvd off" "off' + 4 \<le> 36" "phys_of ?m (?F off') v" for G mm off off' v
  proof -
    have fi: "filled hp us x G ?m (kmmu (?K mm))" using that(1) by simp
    show ?thesis by (rule phys_field_filled [OF fi x p hm that(2-5)]) auto
  qed
  obtain m1 where m1: "kcopy x msg 36 k = Inr (?K m1)" "filled hp us x ?F ?m m1"
    by (rule filled_copy [OF hs x msg]) (rule that)
  then have f1: "filled hp us x ?F ?m (kmmu (?K m1))" by simp
  have "\<exists>m'. kst (x + of_nat 0) cp (?K m1) = Inr (?K m') \<and> filled hp us x (?F(0 := cp)) ?m m'"
    by (rule filled_store [OF f1 x, of 0 cp]) auto
  then obtain m2 where m2: "kst (x + of_nat 0) cp (?K m1) = Inr (?K m2)" "filled hp us x (?F(0 := cp)) ?m m2" by blast
  obtain m3 where m3: "copy_field x msg (of_nat 4) (?K m2) = Inr (?K m3)" "filled hp us x (?F(0 := cp)) ?m m3"
    using copy [OF m2(2), of 4] by auto
  obtain m4 where m4: "copy_field x msg (of_nat 8) (?K m3) = Inr (?K m4)" "filled hp us x (?F(0 := cp)) ?m m4"
    using copy [OF m3(2), of 8] by auto
  obtain m5 where m5: "copy_field x msg (of_nat 16) (?K m4) = Inr (?K m5)" "filled hp us x (?F(0 := cp)) ?m m5"
    using copy [OF m4(2), of 16] by auto
  obtain m6 where m6: "copy_field x msg (of_nat 12) (?K m5) = Inr (?K m6)" "filled hp us x (?F(0 := cp)) ?m m6"
    using copy [OF m5(2), of 12] by auto
  obtain m7 where m7: "copy_field x msg (of_nat 20) (?K m6) = Inr (?K m7)" "filled hp us x (?F(0 := cp)) ?m m7"
    using copy [OF m6(2), of 20] by auto
  obtain m8 where m8: "phys_field x (of_nat 24) msg (of_nat 8) (?K m7) = Inr (?K m8)" "filled hp us x (?F(0 := cp, 24 := ps)) ?m m8"
    using phys [OF m7(2) _ _ _ ph(1), of 24] by auto
  obtain m9 where m9: "phys_field x (of_nat 28) msg (of_nat 12) (?K m8) = Inr (?K m9)"
    "filled hp us x (?F(0 := cp, 24 := ps, 28 := pr)) ?m m9"
    using phys [OF m8(2) _ _ _ ph(2), of 28] by auto
  show ?thesis
  proof (rule that [of m9])
    show "filled hp us x (sent_fields cp ps pr ?F) ?m m9" using m9(2) by (simp add: sent_fields_def)
  qed (use m1(1) m2(1) m3(1) m4(1) m5(1) m6(1) m7(1) m8(1) m9(1) in \<open>simp add: send_fill_def SIZEOF_MSG_PACKET_def MSG_SENDER_def
      MSG_RECEIVER_def MSG_SEND_BUF_def MSG_RECV_BUF_def MSG_SEND_LEN_def MSG_RECV_LEN_def MSG_PHYS_SEND_BUF_def MSG_PHYS_RECV_BUF_def\<close>)
qed

subsection \<open>Queueing a message\<close>

text \<open>
  What a send to process \<open>r\<close> needs: a packet at \<open>msg\<close> that names \<open>r\<close>, whose two buffers are mapped
  at the physical addresses \<open>ps\<close> and \<open>pr\<close>, and room for a node in the kernel heap.
\<close>

definition send_ready :: "u32 \<Rightarrow> kern \<Rightarrow> u32 \<Rightarrow> u32 \<Rightarrow> nat \<Rightarrow> u32 list \<Rightarrow> u32 set \<Rightarrow> u32 \<Rightarrow> u32 \<Rightarrow> bool" where
  "send_ready hp k msg mp r xs L ps pr \<longleftrightarrow>
     (let m = kmmu k in
      packet hp m msg mp \<and> proc_find_by_pid (fld m mp 4) (ktab k) = Some r \<and>
      phys_of m (fld m mp 8) ps \<and> phys_of m (fld m mp 12) pr \<and>
      heap_rep hp (kheap k) L \<and> card L < NODES_MAX \<and>
      qrep m hp (recv_queue (procs (ktab k) r)) xs \<and> set xs \<subseteq> L)"

text \<open>The memory after the node \<open>x\<close> has been appended to the queue \<open>xs\<close>.\<close>

definition queued :: "u32 \<Rightarrow> mmu \<Rightarrow> mmu \<Rightarrow> u32 set \<Rightarrow> u32 list \<Rightarrow> u32 \<Rightarrow> (nat \<Rightarrow> u32) \<Rightarrow> bool" where
  "queued hp m m' L xs x F \<longleftrightarrow> node_ok x \<and> x \<notin> L \<and> heap_upd hp m m' \<and>
     (\<forall>off < 36. 4 dvd off \<longrightarrow> fld m' (node_phys hp x) off = F off) \<and>
     (\<forall>y \<in> L. \<forall>off < 36. 4 dvd off \<longrightarrow> fld m' (node_phys hp y) off = fld m (node_phys hp y) off) \<and>
     (\<forall>h ys. qrep m hp h ys \<longrightarrow> set ys \<subseteq> L - set xs \<longrightarrow> qrep m' hp h ys)"

lemma node_word_same:
  assumes "node_ok y" and "off < 40" and "4 dvd off"
    and "\<And>j i. y = node_addr j \<Longrightarrow> node_off j + 64 \<le> 16384 \<Longrightarrow> i < 40 \<Longrightarrow>
      hbyte m' hp (node_off j + 12 + i) = hbyte m hp (node_off j + 12 + i)"
  shows "node_word m' hp y off = node_word m hp y off"
proof -
  obtain j where j: "y = node_addr j" "node_off j + 64 \<le> 16384" using assms(1) by (auto simp: node_ok_def)
  have o: "off + 4 \<le> 40" using assms(2,3) by (auto elim!: dvdE)
  have "hword m' hp (node_off j + 12 + off) = hword m hp (node_off j + 12 + off)"
  proof (rule hword_cong)
    fix z assume z: "node_off j + 12 + off \<le> z" "z \<le> node_off j + 12 + off + 3"
    then obtain i where "z = node_off j + 12 + i" "i < 40"
      using o by (intro that [of "z - (node_off j + 12)"]) auto
    then show "hbyte m' hp z = hbyte m hp z" using assms(4) j by simp
  qed
  then show ?thesis by (simp add: j(1) node_word_hword)
qed

lemma kalloc_words:
  assumes hr: "heap_rep hp (kheap k) L" and room: "card L < NODES_MAX"
  obtains x m1 where "kalloc SIZEOF_MSG_PACKET_QUEUE (kheap k) = Inr (x, kheap (upd_mmu (\<lambda>_. m1) k))"
    and "node_ok x" and "x \<notin> L" and "heap_rep hp (kheap (upd_mmu (\<lambda>_. m1) k)) (insert x L)" and "heap_upd hp (kmmu k) m1"
    and "\<And>y off. y \<in> L \<Longrightarrow> off < 40 \<Longrightarrow> 4 dvd off \<Longrightarrow> node_word m1 hp y off = node_word (kmmu k) hp y off"
proof -
  obtain j m1 where k1: "kalloc 40 (kheap k) = Inr (node_addr j, kheap (upd_mmu (\<lambda>_. m1) k))"
    "node_off j + 64 \<le> 16384" "node_addr j \<notin> L" "heap_rep hp (kheap (upd_mmu (\<lambda>_. m1) k)) (insert (node_addr j) L)"
    "heap_upd hp (kmmu k) m1" and same: "\<And>j i. node_addr j \<in> L \<Longrightarrow> node_off j + 64 \<le> 16384 \<Longrightarrow> i < 40 \<Longrightarrow>
      hbyte m1 hp (node_off j + 12 + i) = hbyte (kmmu k) hp (node_off j + 12 + i)"
    using kalloc_node [OF hr room] unfolding kmmu_def kheap_upd_mmu by metis
  show ?thesis
  proof (rule that [OF _ _ k1(3,4,5)])
    show "kalloc SIZEOF_MSG_PACKET_QUEUE (kheap k) = Inr (node_addr j, kheap (upd_mmu (\<lambda>_. m1) k))"
      using k1(1) by (simp add: SIZEOF_MSG_PACKET_QUEUE_def)
    show "node_ok (node_addr j)" using k1(2) by (auto simp: node_ok_def)
    fix y and off :: nat assume y: "y \<in> L" "off < 40" "4 dvd off"
    show "node_word m1 hp y off = node_word (kmmu k) hp y off"
      by (rule node_word_same [OF heap_rep_node_ok [OF hr y(1)] y(2,3)]) (use same y(1) in auto)
  qed
qed

text \<open>Appending the filled node \<open>x\<close>, whose words in \<open>m1\<close> were as in \<open>m\<close> outside \<open>x\<close>.\<close>

lemma enqueue_filled:
  assumes fi: "filled hp us x F m1 (kmmu k)" and x: "node_ok x" "x \<notin> L" and Lok: "\<forall>y \<in> L. node_ok y"
    and w1: "\<forall>y \<in> L. \<forall>off < 40. 4 dvd off \<longrightarrow> node_word m1 hp y off = node_word m hp y off"
    and up: "heap_upd hp m m1" and q: "qrep m hp (recv_queue (procs (ktab k) r)) xs" "set xs \<subseteq> L"
  obtains h' m' where "enqueue r x k = Inr ((upd_mmu (\<lambda>_. m') k)\<lparr>ktab := upd_proc r (\<lambda>p. p\<lparr>recv_queue := h'\<rparr>) (ktab k)\<rparr>)"
    and "queued hp m m' L xs x F" and "qrep m' hp h' (xs @ [x])" and "heap_state m' hp us"
proof -
  let ?m = "kmmu k"
  have u2: "heap_upd hp m ?m" "heap_mapped ?m hp" "heap_state ?m hp us"
    using fi up heap_upd_trans by (auto simp: filled_def heap_state_def)
  have wx: "node_word ?m hp x off = F off" if "off < 36" "4 dvd off" for off
    using fi x(1) that by (simp add: filled_def)
  have w2: "node_word ?m hp y off = node_word m hp y off" if "y \<in> L" "off < 40" "4 dvd off" for y off
  proof -
    have "y \<noteq> x" using that(1) x(2) by blast
    then show ?thesis using fi Lok w1 that by (simp add: filled_def)
  qed
  have xn: "x \<notin> set xs" using q(2) x(2) by auto
  have "qrep ?m hp (recv_queue (procs (ktab k) r)) xs" using qrep_cong [of xs ?m hp m] w2 [of _ 36] q by auto
  from qrep_insert_tail [OF u2(2) this x(1) xn]
  obtain h' m3 where m3: "STAILQ_INSERT_TAIL x (recv_queue (procs (ktab k) r)) ?m = Inr (h', m3)"
    "qrep m3 hp h' (xs @ [x])" "heap_upd hp ?m m3" "\<And>us. heap_state ?m hp us \<Longrightarrow> heap_state m3 hp us"
    "\<And>z o'. node_ok z \<Longrightarrow> o' < 36 \<Longrightarrow> 4 dvd o' \<Longrightarrow> node_word m3 hp z o' = node_word ?m hp z o'"
    "\<And>z. node_ok z \<Longrightarrow> z \<notin> set xs \<Longrightarrow> z \<noteq> x \<Longrightarrow> node_word m3 hp z 36 = node_word ?m hp z 36" by metis
  have "queued hp m m3 L xs x F"
    unfolding queued_def fld_node
  proof (intro conjI ballI allI impI)
    show "node_word m3 hp x off = F off" if "off < 36" "4 dvd off" for off
      using m3(5) [OF x(1) that] wx that by simp
    show "node_word m3 hp y off = node_word m hp y off" if "y \<in> L" "off < 36" "4 dvd off" for y off
      using m3(5) [of y off] Lok w2 [OF that(1), of off] that by simp
    show "qrep m3 hp h ys" if qh: "qrep m hp h ys" and ys: "set ys \<subseteq> L - set xs" for h ys
    proof (subst qrep_cong [of ys m3 hp m])
      fix y assume "y \<in> set ys"
      then have "y \<in> L" "y \<notin> set xs" using ys by auto
      then show "node_word m3 hp y 36 = node_word m hp y 36" using m3(6) [of y] Lok w2 [of y 36] x(2) by auto
    qed (rule qh)
  qed (use x heap_upd_trans [OF u2(1) m3(3)] in auto)
  then show ?thesis using m3(1,2,4) u2(3) by (intro that [of h' m3]) (simp_all add: enqueue_def)
qed

text \<open>
  Allocating a node, filling it in with the operation \<open>fl\<close> and appending it.  The operation is
  given by its effect: the fields \<open>F\<close>, whatever node of a pool that differs from the old one in
  the pool only.
\<close>

lemma post_node:
  assumes ok: "pt_ok (kmmu k)" and hr: "heap_rep hp (kheap k) L" and room: "card L < NODES_MAX"
    and q: "qrep (kmmu k) hp (recv_queue (procs (ktab k) r)) xs" "set xs \<subseteq> L"
    and fl: "\<And>x m1 us. node_ok x \<Longrightarrow> mem_step (heap_frames hp) (kmmu k) m1 \<Longrightarrow> heap_state m1 hp us \<Longrightarrow>
      \<exists>m2. fl x (upd_mmu (\<lambda>_. m1) k) = Inr (upd_mmu (\<lambda>_. m2) k) \<and> filled hp us x F m1 m2"
  shows "\<exists>x h' m'. kbind (kalloc SIZEOF_MSG_PACKET_QUEUE (kheap k)) (\<lambda>(x, h).
        kbind (fl x (k\<lparr>kheap := h\<rparr>)) (\<lambda>k. enqueue r x k)) =
      Inr ((upd_mmu (\<lambda>_. m') k)\<lparr>ktab := upd_proc r (\<lambda>p. p\<lparr>recv_queue := h'\<rparr>) (ktab k)\<rparr>) \<and>
    queued hp (kmmu k) m' L xs x F \<and> qrep m' hp h' (xs @ [x]) \<and>
    heap_rep hp (kheap (upd_mmu (\<lambda>_. m') k)) (insert x L)"
proof -
  let ?m = "kmmu k"
  have hm: "heap_mapped ?m hp" using hr by (auto simp: heap_rep_def heap_state_def kmmu_def)
  obtain x m1 where k1: "kalloc SIZEOF_MSG_PACKET_QUEUE (kheap k) = Inr (x, kheap (upd_mmu (\<lambda>_. m1) k))"
    "node_ok x" "x \<notin> L" "heap_rep hp (kheap (upd_mmu (\<lambda>_. m1) k)) (insert x L)" "heap_upd hp ?m m1"
    "\<And>y off. y \<in> L \<Longrightarrow> off < 40 \<Longrightarrow> 4 dvd off \<Longrightarrow> node_word m1 hp y off = node_word ?m hp y off"
    using kalloc_words [OF hr room] by metis
  let ?k1 = "upd_mmu (\<lambda>_. m1) k"
  have kh: "k\<lparr>kheap := kheap ?k1\<rparr> = ?k1" by (simp add: upd_mmu_def)
  have st1: "mem_step (heap_frames hp) ?m m1" by (rule heap_upd_step [OF ok hm k1(5)])
  obtain us where us: "heap_state m1 hp us" "insert x L = nodes_of us"
    using k1(4) by (auto simp: heap_rep_def kheap_upd_mmu)
  obtain m2 where m2: "fl x ?k1 = Inr (upd_mmu (\<lambda>_. m2) k)" "filled hp us x F m1 m2" using fl [OF k1(2) st1 us(1)] by blast
  then have fi: "filled hp us x F m1 (kmmu (upd_mmu (\<lambda>_. m2) k))" by simp
  have q2: "qrep ?m hp (recv_queue (procs (ktab (upd_mmu (\<lambda>_. m2) k)) r)) xs" using q(1) by simp
  have Lok: "\<forall>y \<in> L. node_ok y" using heap_rep_node_ok [OF hr] by blast
  have w1: "\<forall>y \<in> L. \<forall>off < 40. 4 dvd off \<longrightarrow> node_word m1 hp y off = node_word ?m hp y off" using k1(6) by blast
  obtain h' m3 where m3: "enqueue r x (upd_mmu (\<lambda>_. m2) k) =
      Inr ((upd_mmu (\<lambda>_. m3) (upd_mmu (\<lambda>_. m2) k))\<lparr>ktab := upd_proc r (\<lambda>p. p\<lparr>recv_queue := h'\<rparr>) (ktab (upd_mmu (\<lambda>_. m2) k))\<rparr>)"
    "queued hp ?m m3 L xs x F" "qrep m3 hp h' (xs @ [x])" "heap_state m3 hp us"
    by (rule enqueue_filled [OF fi k1(2,3) Lok w1 k1(5) q2 q(2)]) (rule that)
  have "heap_rep hp (kheap (upd_mmu (\<lambda>_. m3) k)) (insert x L)"
    using k1(4) us(2) m3(4) by (auto simp: heap_rep_def kheap_upd_mmu)
  then show ?thesis using k1(1) m2(1) m3(1-3) kh by (intro exI [of _ x] exI [of _ h'] exI [of _ m3]) simp
qed

lemma filled_cong:
  assumes "filled hp us x G m m'" and "\<And>off. off + 4 \<le> 36 \<Longrightarrow> 4 dvd off \<Longrightarrow> F off = G off"
  shows "filled hp us x F m m'"
proof -
  have "F off = G off" if "off < 36" "4 dvd off" for off
    using assms(2) [of off] that by (auto elim!: dvdE)
  then show ?thesis using assms(1) by (simp add: filled_def)
qed

lemma send_enqueue_effect:
  assumes ready: "send_ready hp k msg mp r xs L ps pr"
  defines "m \<equiv> kmmu k"
  shows "\<exists>x h' m'. send_enqueue cp msg r k =
      Inr ((upd_mmu (\<lambda>_. m') k)\<lparr>ktab := upd_proc r (\<lambda>p. p\<lparr>recv_queue := h'\<rparr>) (ktab k)\<rparr>) \<and>
    queued hp m m' L xs x (sent_fields cp ps pr (fld m mp)) \<and> qrep m' hp h' (xs @ [x]) \<and>
    heap_rep hp (kheap (upd_mmu (\<lambda>_. m') k)) (insert x L)"
proof -
  have r: "packet hp m msg mp" "phys_of m (fld m mp 8) ps" "phys_of m (fld m mp 12) pr" "heap_rep hp (kheap k) L"
    "card L < NODES_MAX" "qrep m hp (recv_queue (procs (ktab k) r)) xs" "set xs \<subseteq> L" "pt_ok m"
    using ready by (simp_all add: send_ready_def Let_def m_def packet_def)
  have fl: "\<exists>m2. send_fill cp msg x (upd_mmu (\<lambda>_. m1) k) = Inr (upd_mmu (\<lambda>_. m2) k) \<and>
      filled hp us x (sent_fields cp ps pr (fld m mp)) m1 m2"
    if x: "node_ok x" and st: "mem_step (heap_frames hp) m m1" and us: "heap_state m1 hp us" for x m1 us
  proof -
    let ?k1 = "upd_mmu (\<lambda>_. m1) k"
    have fm: "fld m1 mp off = fld m mp off" if "off + 4 \<le> 36" for off by (rule fld_heap_step [OF st r(1) that])
    have h1: "heap_state (kmmu ?k1) hp us" "packet hp (kmmu ?k1) msg mp" "phys_of (kmmu ?k1) (fld (kmmu ?k1) mp 8) ps"
      "phys_of (kmmu ?k1) (fld (kmmu ?k1) mp 12) pr"
      using us packet_step [OF st r(1)] phys_of_step [OF st] r(2,3) fm by simp_all
    obtain m2 where m2: "filled hp us x (sent_fields cp ps pr (fld m1 mp)) m1 m2" "send_fill cp msg x ?k1 = Inr (upd_mmu (\<lambda>_. m2) k)"
      using fill_node [OF h1(1) x h1(2-4), of cp] by auto
    have "filled hp us x (sent_fields cp ps pr (fld m mp)) m1 m2"
      by (rule filled_cong [OF m2(1)]) (simp add: sent_fields_def fm)
    with m2(2) show ?thesis by blast
  qed
  show ?thesis
    using post_node [OF r(8,4,5,6,7) [unfolded m_def], of "send_fill cp msg" "sent_fields cp ps pr (fld m mp)"] fl
    unfolding send_enqueue_def m_def by blast
qed

lemma upd_mmu_ktab: "(upd_mmu f (k\<lparr>ktab := t\<rparr>))\<lparr>ktab := t'\<rparr> = (upd_mmu f k)\<lparr>ktab := t'\<rparr>"
  by (simp add: upd_mmu_def)

lemma send_ready_tab:
  assumes "procs t = procs (ktab k)"
  shows "send_ready hp (k\<lparr>ktab := t\<rparr>) msg mp r xs L ps pr = send_ready hp k msg mp r xs L ps pr"
  using assms by (simp add: send_ready_def proc_find_by_pid_def)

text \<open>How the calls end: with a scheduling step in the table \<open>t\<close> and the memory \<open>m'\<close>.\<close>

lemma call_ends:
  assumes t: "scheduling_enabled t" "current_proc t = Some c" "idle t = Some d" "pids_ok t" "used_slot t c"
  obtains res k' n where "proc_schedule_without_irq fr ((upd_mmu (\<lambda>_. m') k)\<lparr>ktab := t\<rparr>) = Inr (res, k')"
    and "(kmmu k')\<lparr>cr3 := cr3 m'\<rparr> = m'" and "procs (ktab k') = (procs t)(c := sched_save fr (procs t c))"
    and "current_proc (ktab k') = Some n" and "res = trapframe (procs (ktab k') n)" and "scheduling_enabled (ktab k')"
    and "idle (ktab k') = Some d" and "pids_ok (ktab k')"
    and "cr3 (kmmu k') = (if n = c then cr3 m' else pdir (procs (ktab k') n))"
    and "heap_initialized (kheap k') = heap_initialized (kheap k)"
proof -
  let ?k = "(upd_mmu (\<lambda>_. m') k)\<lparr>ktab := t\<rparr>"
  have k: "scheduling_enabled (ktab ?k)" "current_proc (ktab ?k) = Some c" "used_slot (ktab ?k) c"
    "idle (ktab ?k) = Some d" "pids_ok (ktab ?k)" using t by simp_all
  from schedule_resched [OF k, of fr] obtain res k' where s:
    "proc_schedule_without_irq fr ?k = Inr (res, k')" "resched ?k c fr res k'" by blast
  then obtain n where n: "current_proc (ktab k') = Some n" "res = trapframe (procs (ktab k') n)" "scheduling_enabled (ktab k')"
    "mem (kmmu k') = mem m'" "heap_initialized (kheap k') = heap_initialized (kheap k)"
    "procs (ktab k') = (procs t)(c := sched_save fr (procs t c))" "idle (ktab k') = Some d"
    "next_pid (ktab k') = next_pid t" "cr3 (kmmu k') = (if n = c then cr3 m' else pdir (procs (ktab k') n))"
    using t(3) by (auto simp: resched_def kheap_upd_mmu)
  have "pids_ok (ktab k')" using t(4)
    by (rule pids_ok_procs) (use n(8) t(5) in \<open>auto simp: n(6) sched_save_def used_slot_def\<close>)
  with n show ?thesis by (intro that [OF s(1)]) (simp_all add: mmu.equality)
qed

text \<open>The complete call, with what the next call in another process needs of it.\<close>

lemma send_posts:
  assumes ready: "send_ready hp k msg mp r xs L ps pr" and eax: "kld (regs + REGS_EAX) k = Inr msg"
    and cur: "current_proc (ktab k) = Some c" and us: "used_slot (ktab k) c" and idle: "idle (ktab k) = Some d"
    and pok: "pids_ok (ktab k)" and st: "state (procs (ktab k) r) \<noteq> PROC_RECV_BLOCKED"
  defines "P \<equiv> \<lambda>h. (procs (ktab k))(r := (procs (ktab k) r)\<lparr>recv_queue := h\<rparr>)"
  defines "B \<equiv> \<lambda>p. if state (procs (ktab k) r) = PROC_READY then p\<lparr>state := PROC_REPLY_BLOCKED\<rparr> else p"
  obtains res k' x m' h' n where "syscall_send_msg fr regs k = Inr (res, k')" and "(kmmu k')\<lparr>cr3 := cr3 (kmmu k)\<rparr> = m'"
    and "queued hp (kmmu k) m' L xs x (sent_fields (pid (procs (ktab k) c)) ps pr (fld (kmmu k) mp))"
    and "qrep m' hp h' (xs @ [x])" and "heap_rep hp (kheap (upd_mmu (\<lambda>_. m') k')) (insert x L)"
    and "procs (ktab k') = (P h')(c := sched_save fr (B (P h' c)))"
    and "current_proc (ktab k') = Some n" and "res = trapframe (procs (ktab k') n)" and "scheduling_enabled (ktab k')"
    and "idle (ktab k') = Some d" and "pids_ok (ktab k')"
proof -
  let ?k0 = "k\<lparr>ktab := proc_disable_scheduling (ktab k)\<rparr>" and ?cp = "pid (procs (ktab k) c)"
  have r0: "send_ready hp ?k0 msg mp r xs L ps pr"
    using ready by (subst send_ready_tab) (simp_all add: proc_disable_scheduling_def)
  obtain x h' m' where e: "send_enqueue ?cp msg r ?k0 = Inr ((upd_mmu (\<lambda>_. m') ?k0)\<lparr>ktab := upd_proc r (\<lambda>p. p\<lparr>recv_queue := h'\<rparr>) (ktab ?k0)\<rparr>)"
    "queued hp (kmmu k) m' L xs x (sent_fields ?cp ps pr (fld (kmmu k) mp))" "qrep m' hp h' (xs @ [x])"
    "heap_rep hp (kheap (upd_mmu (\<lambda>_. m') ?k0)) (insert x L)"
    using send_enqueue_effect [OF r0, of ?cp] by auto
  define t where "t = proc_enable_scheduling (upd_proc c B (upd_proc r (\<lambda>p. p\<lparr>recv_queue := h'\<rparr>) (proc_disable_scheduling (ktab k))))"
  have ps: "procs t = (P h')(c := B (P h' c))"
    by (auto simp: t_def P_def upd_proc_def proc_disable_scheduling_def proc_enable_scheduling_def)
  have t2: "scheduling_enabled t" "current_proc t = Some c" "idle t = Some d" "next_pid t = next_pid (ktab k)"
    using cur idle by (simp_all add: t_def upd_proc_def proc_disable_scheduling_def proc_enable_scheduling_def)
  have pk: "pids_ok t" using pok by (rule pids_ok_procs) (use t2 us in \<open>auto simp: ps P_def B_def used_slot_def\<close>)
  have us2: "used_slot t c" using us by (auto simp: used_slot_def ps P_def B_def)
  obtain res k' n where s: "proc_schedule_without_irq fr ((upd_mmu (\<lambda>_. m') k)\<lparr>ktab := t\<rparr>) = Inr (res, k')"
    "(kmmu k')\<lparr>cr3 := cr3 m'\<rparr> = m'" "procs (ktab k') = (procs t)(c := sched_save fr (procs t c))"
    "current_proc (ktab k') = Some n" "res = trapframe (procs (ktab k') n)" "scheduling_enabled (ktab k')"
    "idle (ktab k') = Some d" "pids_ok (ktab k')" "heap_initialized (kheap k') = heap_initialized (kheap k)"
    by (rule call_ends [OF t2(1-3) pk us2, of fr m' k]) (rule that)
  have cr: "cr3 m' = cr3 (kmmu k)" using e(2) by (auto simp: queued_def heap_upd_def)
  have ld: "kld (regs + REGS_EAX) ?k0 = Inr msg" "kld (msg + MSG_RECEIVER) ?k0 = Inr (fld (kmmu k) mp 4)"
    "proc_find_by_pid (fld (kmmu k) mp 4) (ktab ?k0) = Some r"
    using eax ready kld_obj [of k msg mp 36 4]
    by (simp_all add: send_ready_def Let_def packet_def msg_fields proc_disable_scheduling_def proc_find_by_pid_def)
  have call: "syscall_send_msg fr regs k = Inr (res, k')"
  proof (cases "state (procs (ktab k) r) = PROC_READY")
    case True
    then show ?thesis
      using ld e(1) s(1) cur upd_mmu_ktab
      by (simp add: syscall_send_msg_def Let_def t_def B_def set_pstate_def upd_proc_def proc_disable_scheduling_def)
  next
    case False
    then have "t = proc_enable_scheduling (upd_proc r (\<lambda>p. p\<lparr>recv_queue := h'\<rparr>) (proc_disable_scheduling (ktab k)))"
      unfolding t_def B_def by (simp add: upd_proc_def fun_upd_triv del: fun_upd_apply)
    with False show ?thesis
      using ld e(1) s(1) cur st upd_mmu_ktab
      by (cases "state (procs (ktab k) r)")
        (simp_all add: syscall_send_msg_def Let_def set_pstate_def upd_proc_def proc_disable_scheduling_def)
  qed
  show ?thesis
  proof (rule that [OF call _ e(2,3) _ _ s(4-8)])
    show "(kmmu k')\<lparr>cr3 := cr3 (kmmu k)\<rparr> = m'" using s(2) cr by simp
    show "heap_rep hp (kheap (upd_mmu (\<lambda>_. m') k')) (insert x L)"
      using e(4) s(9) by (simp add: heap_rep_def kheap_upd_mmu)
    show "procs (ktab k') = (P h')(c := sched_save fr (B (P h' c)))" unfolding s(3) ps by simp
  qed
qed

lemma send_queues:
  assumes ready: "send_ready hp k msg mp r xs L ps pr" and eax: "kld (regs + REGS_EAX) k = Inr msg"
    and cur: "current_proc (ktab k) = Some c" and us: "used_slot (ktab k) c" and idle: "idle (ktab k) = Some d"
    and pok: "pids_ok (ktab k)" and st: "state (procs (ktab k) r) = PROC_READY" and rc: "r \<noteq> c"
  obtains res k' x m' h' n where "syscall_send_msg fr regs k = Inr (res, k')" and "(kmmu k')\<lparr>cr3 := cr3 (kmmu k)\<rparr> = m'"
    and "queued hp (kmmu k) m' L xs x (sent_fields (pid (procs (ktab k) c)) ps pr (fld (kmmu k) mp))"
    and "qrep m' hp h' (xs @ [x])" and "heap_rep hp (kheap (upd_mmu (\<lambda>_. m') k')) (insert x L)"
    and "procs (ktab k') = (procs (ktab k))(c := (procs (ktab k) c)\<lparr>trapframe := fr, state := PROC_REPLY_BLOCKED\<rparr>,
        r := (procs (ktab k) r)\<lparr>recv_queue := h'\<rparr>)"
    and "current_proc (ktab k') = Some n" and "res = trapframe (procs (ktab k') n)" and "scheduling_enabled (ktab k')"
    and "idle (ktab k') = Some d" and "pids_ok (ktab k')"
proof (rule send_posts [OF ready eax cur us idle pok, of fr])
  fix res k' x m' h' n
  assume s: "syscall_send_msg fr regs k = Inr (res, k')" "(kmmu k')\<lparr>cr3 := cr3 (kmmu k)\<rparr> = m'"
    "queued hp (kmmu k) m' L xs x (sent_fields (pid (procs (ktab k) c)) ps pr (fld (kmmu k) mp))"
    "qrep m' hp h' (xs @ [x])" "heap_rep hp (kheap (upd_mmu (\<lambda>_. m') k')) (insert x L)"
    "procs (ktab k') = ((procs (ktab k))(r := (procs (ktab k) r)\<lparr>recv_queue := h'\<rparr>))(c := sched_save fr
      (if state (procs (ktab k) r) = PROC_READY then
         (((procs (ktab k))(r := (procs (ktab k) r)\<lparr>recv_queue := h'\<rparr>)) c)\<lparr>state := PROC_REPLY_BLOCKED\<rparr>
       else ((procs (ktab k))(r := (procs (ktab k) r)\<lparr>recv_queue := h'\<rparr>)) c))"
    "current_proc (ktab k') = Some n" "res = trapframe (procs (ktab k') n)" "scheduling_enabled (ktab k')"
    "idle (ktab k') = Some d" "pids_ok (ktab k')"
  show thesis
    by (rule that [OF s(1-5) _ s(7-11)]) (use rc st in \<open>auto simp: s(6) sched_save_def\<close>)
qed (use st in simp)

subsection \<open>A later receive\<close>

text \<open>A state in which the bytes of the pool are the same has the same nodes and queues.\<close>

definition pool_same :: "u32 \<Rightarrow> mmu \<Rightarrow> mmu \<Rightarrow> bool" where
  "pool_same hp m m' \<longleftrightarrow> (\<forall>q \<in> heap_frames hp. mem m' q = mem m q)"

lemma pool_same_word:
  assumes "pool_same hp m m'" and "node_ok y" and "off < 40" and "4 dvd off"
  shows "node_word m' hp y off = node_word m hp y off"
  by (rule node_word_same [OF assms(2-4)]) (use assms(1) in \<open>auto simp: pool_same_def heap_frames_def hbyte_def\<close>)

lemma pool_same_qrep: "pool_same hp m m' \<Longrightarrow> qrep m hp h xs \<Longrightarrow> qrep m' hp h xs"
  using qrep_cong [of xs m' hp m h] pool_same_word [of hp m m' _ 36] by (auto simp: qrep_def)

text \<open>What a receive needs besides the message: the caller's packet and buffer, and the window.\<close>

definition recv_room :: "u32 \<Rightarrow> mmu \<Rightarrow> u32 \<Rightarrow> u32 \<Rightarrow> u32 \<Rightarrow> u32 \<Rightarrow> bool" where
  "recv_room hp m msg mp dp ps \<longleftrightarrow>
     (let rl = unat (fld m mp 20) in
      pt_ok m \<and> heap_mapped m hp \<and> win_free m 0xbabe0000 \<and> obj m msg mp 36 \<and> obj m (fld m mp 12) dp rl \<and>
      unat (ps AND 0xfff) + rl \<le> 4096 \<and> obj_bytes ps rl \<inter> walk_bytes m = {} \<and> obj_bytes dp rl \<inter> obj_bytes ps rl = {} \<and>
      obj_bytes dp rl \<inter> heap_frames hp = {} \<and> obj_bytes dp rl \<inter> obj_bytes mp 36 = {} \<and>
      obj_bytes mp 36 \<inter> heap_frames hp = {})"

lemma recv_readyI:
  assumes "recv_room hp (kmmu k) msg mp dp ps" and "node_ok x" and "qrep (kmmu k) hp (recv_queue (procs (ktab k) c)) (x # xs)"
    and "node_word (kmmu k) hp x 24 = ps" and "0 < node_word (kmmu k) hp x 16" and "unat (node_word (kmmu k) hp x 16) \<le> 4096"
    and "node_word (kmmu k) hp x 8 AND 0xfff = ps AND 0xfff"
  shows "recv_ready hp k c msg mp x xs dp"
  using assms unfolding recv_room_def recv_ready_def Let_def fld_node by simp

lemma queued_word:
  assumes "queued hp m m' L xs x F" and "off < 36" and "4 dvd off"
  shows "node_word m' hp x off = F off"
  using assms by (simp add: queued_def fld_node)

subsection \<open>A later reply\<close>

lemma pool_same_heap:
  assumes hs: "heap_state m hp us" and po: "pool_same hp m m'" and hm: "heap_mapped m' hp"
  shows "heap_state m' hp us"
proof -
  have "block_at m' hp (node_off j) ty nx sz = block_at m hp (node_off j) ty nx sz" if "j \<le> length us" for j ty nx sz
  proof (rule block_at_cong)
    fix z assume "node_off j \<le> z" "z < node_off j + 12"
    then have "z < 16384" using heap_state_bound [OF hs that] by simp
    then show "hbyte m' hp z = hbyte m hp z" using po by (simp add: pool_same_def heap_frames_def hbyte_def)
  qed
  then show ?thesis using hs hm by (simp add: heap_state_def del: of_nat_diff)
qed

text \<open>
  What a reply of \<open>rl\<close> bytes to a buffer at physical address \<open>pr\<close> needs besides the message: the
  caller's packet, the answer at \<open>sp\<close>, and the window.
\<close>

definition rply_room :: "u32 \<Rightarrow> mmu \<Rightarrow> u32 \<Rightarrow> u32 \<Rightarrow> u32 \<Rightarrow> u32 \<Rightarrow> u32 \<Rightarrow> bool" where
  "rply_room hp m msg mp sp pr rl \<longleftrightarrow>
     pt_ok m \<and> heap_mapped m hp \<and> win_free m 0xcafe0000 \<and> obj m msg mp 36 \<and> obj m (fld m mp 8) sp (unat rl) \<and>
     0 < rl \<and> unat (pr AND 0xfff) + unat rl \<le> 4096 \<and> obj_bytes pr (unat rl) \<inter> walk_bytes m = {} \<and>
     obj_bytes pr (unat rl) \<inter> heap_frames hp = {} \<and> obj_bytes pr (unat rl) \<inter> obj_bytes sp (unat rl) = {}"

lemma rply_readyI:
  assumes "rply_room hp (kmmu k) msg mp sp pr rl" and "heap_rep hp (kheap k) L" and "set (x # xs) \<subseteq> L"
    and "qrep (kmmu k) hp (recv_queue (procs (ktab k) c)) (x # xs)"
    and "proc_find_by_pid (node_word (kmmu k) hp x 0) (ktab k) = Some i"
    and "node_word (kmmu k) hp x 28 = pr" and "node_word (kmmu k) hp x 20 = rl"
    and "node_word (kmmu k) hp x 12 AND 0xfff = pr AND 0xfff"
  shows "rply_ready hp k c msg mp x xs L sp i"
  using assms unfolding rply_room_def rply_ready_def Let_def fld_node by simp

lemma win_free_step: "mem_step A m m' \<Longrightarrow> win_free m v \<Longrightarrow> win_free m' v"
  by (auto simp: win_free_def mem_step_def has_table_def)

subsection \<open>A sender and a receiver\<close>

text \<open>
  Two processes in the address space \<open>ipc_mmu\<close>, with an empty kernel heap: the page at \<open>b\<close> holds the
  sender's packet (first word), its buffers, and from \<open>0x100\<close> on the receiver's packet and
  buffers.  The directory entry \<open>w\<close> of that page is also the one of the window in use.
\<close>

definition demo_base :: "u32 \<Rightarrow> u32 \<Rightarrow> bool" where
  "demo_base w b \<longleftrightarrow> w = 0x2ea \<and> b = 0xba801000 \<or> w = 0x32b \<and> b = 0xcac01000"

definition send_words :: "u32 \<Rightarrow> (u32 \<times> u32) list" where
  "send_words b = [(2, b + 0x40), (3, b + 0x48), (4, 4), (5, 4), (16, 0x12345678), (32, b),
     (66, b + 0x150), (67, b + 0x140), (69, 4), (84, 0x87654321), (96, b + 0x100)]"

definition send_mmu :: "u32 \<Rightarrow> u32 \<Rightarrow> mmu" where
  "send_mmu w b = ipc_mmu w [(1, 0x21003)] [(0, 0xbabe), (2, 16376)] (send_words b)"

definition send_tab :: pst where
  "send_tab = rply_tab\<lparr>procs := (\<lambda>i. if i = 0 then demo_proc\<lparr>pid := 0, state := PROC_READY\<rparr>
     else if i = 1 then demo_proc\<lparr>pid := 1, state := PROC_RUNNING\<rparr> else demo_proc)\<rparr>"

definition send_kern :: "u32 \<Rightarrow> u32 \<Rightarrow> kern" where
  "send_kern w b = rply_kern\<lparr>kheap := \<lparr>hvms = \<lparr>vmmu = send_mmu w b, vpm = pm_fresh\<rparr>, heap_initialized = True\<rparr>, ktab := send_tab\<rparr>"

lemma demo_send_tab_ok: "pids_ok send_tab" "used_slot send_tab 0" "used_slot send_tab 1"
proof -
  have st: "state (procs send_tab i) \<noteq> PROC_UNUSED \<longleftrightarrow> i = 0 \<or> i = 1" for i
    by (simp add: send_tab_def demo_proc_def)
  have pd: "pid (procs send_tab 0) = 0" "pid (procs send_tab 1) = 1"
    "i \<noteq> 0 \<Longrightarrow> i \<noteq> 1 \<Longrightarrow> pid (procs send_tab i) = - 1" for i
    by (simp_all add: send_tab_def demo_proc_def)
  have "next_pid send_tab = 2" by (simp add: send_tab_def rply_tab_def)
  from two_procs_ok [OF st pd this] show "pids_ok send_tab" "used_slot send_tab 0" "used_slot send_tab 1" by simp_all
qed

lemma send_mmu_ok:
  assumes "demo_base w b"
  shows "ipc_ok w [(1, 0x21003)] [(0, 0xbabe), (2, 16376)] (send_words b)"
  using assms by (auto simp: demo_base_def ipc_ok_def small_idx_def send_words_def)

lemma send_page:
  assumes "demo_base w b" and "unat off + n \<le> 4096"
  shows "obj (send_mmu w b) (b + off) (0x21000 + off) n"
  unfolding send_mmu_def
  by (rule ipc_page [OF send_mmu_ok [OF assms(1)] _ _ _ assms(2)])
    (use assms(1) in \<open>auto simp: demo_base_def page_aligned_def vm_pdir_idx_def vm_ptab_idx_def\<close>)

lemma send_fld:
  assumes "demo_base w b"
  shows "fld (send_mmu w b) 0x21000 4 = 0" "fld (send_mmu w b) 0x21000 8 = b + 0x40" "fld (send_mmu w b) 0x21000 12 = b + 0x48"
    "fld (send_mmu w b) 0x21000 16 = 4" "fld (send_mmu w b) 0x21000 20 = 4" "fld (send_mmu w b) 0x21080 0 = b"
    "fld (send_mmu w b) 0x21100 8 = b + 0x150" "fld (send_mmu w b) 0x21100 12 = b + 0x140"
    "fld (send_mmu w b) 0x21100 20 = 4" "fld (send_mmu w b) 0x21180 0 = b + 0x100"
proof -
  note wd = ipc_word(2) [OF send_mmu_ok [OF assms], folded send_mmu_def]
  show "fld (send_mmu w b) 0x21000 4 = 0" "fld (send_mmu w b) 0x21000 8 = b + 0x40" "fld (send_mmu w b) 0x21000 12 = b + 0x48"
    "fld (send_mmu w b) 0x21000 16 = 4" "fld (send_mmu w b) 0x21000 20 = 4" "fld (send_mmu w b) 0x21080 0 = b"
    "fld (send_mmu w b) 0x21100 8 = b + 0x150" "fld (send_mmu w b) 0x21100 12 = b + 0x140"
    "fld (send_mmu w b) 0x21100 20 = 4" "fld (send_mmu w b) 0x21180 0 = b + 0x100"
    using wd [of 1] wd [of 2] wd [of 3] wd [of 4] wd [of 5] wd [of 32] wd [of 66] wd [of 67] wd [of 69] wd [of 96]
    by (simp_all add: fld_def send_words_def)
qed

lemma send_state:
  assumes "demo_base w b"
  defines "m \<equiv> send_mmu w b"
  shows "kmmu (send_kern w b) = m" "ktab (send_kern w b) = send_tab" "pt_ok m" "heap_mapped m 0x10000"
    "heap_rep 0x10000 (kheap (send_kern w b)) {}" "off < 0x1000 \<Longrightarrow> phys_of m (b + off) (0x21000 + off)"
    "unat off + 36 \<le> 4096 \<Longrightarrow> packet 0x10000 m (b + off) (0x21000 + off)" "q \<in> walk_bytes m \<longleftrightarrow> q AND 0xfffff000 \<in> {0, 0x2000, 0x3000, 0x4000}"
proof -
  note ok = send_mmu_ok [OF assms(1)]
  show "kmmu (send_kern w b) = m" "ktab (send_kern w b) = send_tab" by (simp_all add: kmmu_def send_kern_def m_def)
  show pt: "pt_ok m" unfolding m_def send_mmu_def by (rule ipc_tables(4) [OF ok])
  show wb: "q \<in> walk_bytes m \<longleftrightarrow> q AND 0xfffff000 \<in> {0, 0x2000, 0x3000, 0x4000}" for q
    unfolding m_def send_mmu_def by (rule ipc_tables(5) [OF ok])
  show hm: "heap_mapped m 0x10000" unfolding m_def send_mmu_def by (rule ipc_pool [OF ok])
  note hw = ipc_word(1) [OF ok, folded send_mmu_def m_def]
  have "hbyte m 0x10000 2 = ucast (drop_bit 16 (hword m 0x10000 0))"
    using load32_byte2 [of "mem m" "0x10000"] by (simp add: hbyte_def hword_def hphys_def)
  then have "hbyte m 0x10000 (node_off 0 + 2) = BLOCK_UNUSED"
    using hw [of 0] by (simp add: node_off_def BLOCK_UNUSED_def numeral_2_eq_2 [symmetric])
  then have "heap_state m 0x10000 []"
    unfolding heap_state_def block_at_def
    using hm hw [of 1] hw [of 2] by (simp add: node_off_def)
  then show "heap_rep 0x10000 (kheap (send_kern w b)) {}"
    unfolding heap_rep_def by (auto simp: send_kern_def m_def nodes_of_def intro: exI [of _ "[]"])
  have ob: "obj m (b + off) (0x21000 + off) n" if "unat off + n \<le> 4096" for off n
    unfolding m_def by (rule send_page [OF assms(1) that])
  show "packet 0x10000 m (b + off) (0x21000 + off)" if "unat off + 36 \<le> 4096" for off
  proof -
    have "unat (0x21000 + off) = 0x21000 + unat off" using that by (subst unat_add_no_wrap) simp_all
    then show ?thesis unfolding packet_def using pt ob [OF that] that by (simp add: frames_apart)
  qed
  have pe: "pte_of m w 1 = 0x21003" unfolding m_def send_mmu_def using ipc_tables(3) [OF ok, of 1] by simp
  have bb: "page_aligned b" "vm_pdir_idx b = w" "vm_ptab_idx b = 1"
    using assms(1) by (auto simp: demo_base_def page_aligned_def vm_pdir_idx_def vm_ptab_idx_def)
  show "phys_of m (b + off) (0x21000 + off)" if off: "off < 0x1000" for off
  proof -
    have o1: "unat off + 1 \<le> 4096" using off by (simp add: word_less_nat_alt)
    have "vm_pdir_idx (b + off) = w" "vm_ptab_idx (b + off) = 1"
      using same_page_iff [of "b + off" b] page_add_offset(2) [OF bb(1) off] page_of_aligned [OF bb(1)] bb by simp_all
    then show ?thesis using obj_byte [OF ob [OF o1], of 0] pe by (simp add: phys_of_def)
  qed
qed

lemma send_kern_ready:
  assumes "demo_base w b"
  shows "send_ready 0x10000 (send_kern w b) b 0x21000 0 [] {} 0x21040 0x21048"
    and "kld (b + 0x54 + REGS_EAX) (send_kern w b) = Inr b"
proof -
  note st = send_state [OF assms]
  have "proc_find_by_pid 0 send_tab = Some 0"
    using find_by_pid_unique [OF demo_send_tab_ok(1,2)] by (simp add: send_tab_def)
  moreover have "qrep (send_mmu w b) 0x10000 (recv_queue (procs send_tab 0)) []"
    by (simp add: send_tab_def demo_proc_def qrep_init)
  ultimately show "send_ready 0x10000 (send_kern w b) b 0x21000 0 [] {} 0x21040 0x21048"
    unfolding send_ready_def Let_def using st(1-5) st(6) [of "0x40"] st(6) [of "0x48"] st(7) [of 0] send_fld [OF assms] by (simp add: NODES_MAX_def)
  have "obj (kmmu (send_kern w b)) (b + 0x80) 0x21080 4" using send_page [OF assms, of "0x80" 4] st(1) by simp
  from kld_obj [OF this, of 0] show "kld (b + 0x54 + REGS_EAX) (send_kern w b) = Inr b"
    using send_fld(6) [OF assms] st(1) by (simp add: REGS_EAX_def add.assoc)
qed

text \<open>After the send, with the receiver running in the same address space.\<close>

definition run_proc :: "nat \<Rightarrow> kern \<Rightarrow> kern" where
  "run_proc i k = (upd_mmu (\<lambda>m. m\<lparr>cr3 := 0\<rparr>) k)\<lparr>ktab := (ktab k)\<lparr>current_proc := Some i\<rparr>\<rparr>"

lemma send_demo:
  assumes b: "demo_base w b"
  obtains res k1 m2 where "syscall_send_msg 0x9000 (b + 0x54) (send_kern w b) = Inr (res, k1)"
    and "kmmu (run_proc 0 k1) = m2" and "mem (kmmu k1) = mem m2" and "mem_step (heap_frames 0x10000) (send_mmu w b) m2"
    and "pids_ok (ktab (run_proc 0 k1))" and "used_slot (ktab (run_proc 0 k1)) 0" and "used_slot (ktab (run_proc 0 k1)) 1"
    and "idle (ktab (run_proc 0 k1)) = Some 1" and "state (procs (ktab (run_proc 0 k1)) 0) = PROC_READY"
    and "heap_initialized (kheap k1)"
proof -
  note st = send_state [OF b]
  have t: "current_proc (ktab (send_kern w b)) = Some 1" "used_slot (ktab (send_kern w b)) 1" "idle (ktab (send_kern w b)) = Some 1"
    "pids_ok (ktab (send_kern w b))" "state (procs (ktab (send_kern w b)) 0) = PROC_READY" "(0 :: nat) \<noteq> 1"
    using st(2) demo_send_tab_ok by (simp_all add: send_tab_def rply_tab_def)
  obtain res k1 x m' h' where s: "syscall_send_msg 0x9000 (b + 0x54) (send_kern w b) = Inr (res, k1)"
    "(kmmu k1)\<lparr>cr3 := cr3 (kmmu (send_kern w b))\<rparr> = m'"
    "queued 0x10000 (kmmu (send_kern w b)) m' {} [] x
      (sent_fields (pid (procs (ktab (send_kern w b)) 1)) 0x21040 0x21048 (fld (kmmu (send_kern w b)) 0x21000))"
    "heap_rep 0x10000 (kheap (upd_mmu (\<lambda>_. m') k1)) (insert x {})"
    "procs (ktab k1) = (procs (ktab (send_kern w b)))(1 := (procs (ktab (send_kern w b)) 1)\<lparr>trapframe := 0x9000, state := PROC_REPLY_BLOCKED\<rparr>,
        0 := (procs (ktab (send_kern w b)) 0)\<lparr>recv_queue := h'\<rparr>)"
    "idle (ktab k1) = Some 1" "pids_ok (ktab k1)"
    by (rule send_queues [OF send_kern_ready [OF b] t, of "0x9000"]) (rule that)
  have cr: "cr3 (send_mmu w b) = 0" by (simp add: send_mmu_def ipc_mmu_def)
  have up: "heap_upd 0x10000 (send_mmu w b) m'" using s(3) st(1) by (simp add: queued_def)
  show ?thesis
  proof (rule that [of res k1 m', OF s(1)])
    show "kmmu (run_proc 0 k1) = m'" using s(2) st(1) cr by (simp add: run_proc_def)
    show "mem (kmmu k1) = mem m'" using s(2) by auto
    show "mem_step (heap_frames 0x10000) (send_mmu w b) m'" by (rule heap_upd_step [OF st(3,4) up])
    show "heap_initialized (kheap k1)" using s(4) by (simp add: heap_rep_def kheap_upd_mmu)
    show "pids_ok (ktab (run_proc 0 k1))" using s(7) by (rule pids_ok_procs) (simp_all add: run_proc_def)
    show "used_slot (ktab (run_proc 0 k1)) 0" "used_slot (ktab (run_proc 0 k1)) 1"
      by (simp_all add: run_proc_def used_slot_def s(5) st(2) send_tab_def NPROCS_def)
    show "idle (ktab (run_proc 0 k1)) = Some 1" using s(6) by (simp add: run_proc_def)
    show "state (procs (ktab (run_proc 0 k1)) 0) = PROC_READY" by (simp add: run_proc_def s(5) st(2) send_tab_def)
  qed
qed

lemma demo_bases: "demo_base 0x2ea 0xba801000" "demo_base 0x32b 0xcac01000"
  by (simp_all add: demo_base_def)

lemma send_demo_objs:
  assumes b: "demo_base w b" and st: "mem_step (heap_frames 0x10000) (send_mmu w b) m2"
  shows "pt_ok m2" "heap_mapped m2 0x10000" "unat off + n \<le> 4096 \<Longrightarrow> obj m2 (b + off) (0x21000 + off) n"
    "q \<in> walk_bytes m2 \<longleftrightarrow> q AND 0xfffff000 \<in> {0, 0x2000, 0x3000, 0x4000}"
    "p \<in> {0x21000, 0x21080, 0x21100, 0x21180} \<Longrightarrow> l + 4 \<le> 36 \<Longrightarrow> fld m2 p l = fld (send_mmu w b) p l"
    "win_free (send_mmu w b) v \<Longrightarrow> win_free m2 v"
proof -
  show "pt_ok m2" by (rule mem_step_pt_ok [OF st])
  show "heap_mapped m2 0x10000" by (rule heap_mapped_step [OF send_state(4) [OF b] st])
  show "obj m2 (b + off) (0x21000 + off) n" if "unat off + n \<le> 4096" for off n
    by (rule obj_step [OF st send_page [OF b that]])
  show "q \<in> walk_bytes m2 \<longleftrightarrow> q AND 0xfffff000 \<in> {0, 0x2000, 0x3000, 0x4000}"
    using st send_state(8) [OF b] by (simp add: mem_step_def)
  show "fld m2 p l = fld (send_mmu w b) p l" if p: "p \<in> {0x21000, 0x21080, 0x21100, 0x21180}" and l: "l + 4 \<le> 36"
  proof -
    have o: "obj (send_mmu w b) (b + (p - 0x21000)) p 36" using send_page [OF b, of "p - 0x21000" 36] p by auto
    have "0x14000 \<le> unat p" "unat p + 36 \<le> 4294967296" using p by auto
    then have "heap_frames 0x10000 \<inter> obj_bytes p 36 = {}" using frames_apart [of p 36] by blast
    then show ?thesis using fld_outside [OF o l, where A = "heap_frames 0x10000"] mem_step_mem [OF st] by blast
  qed
  show "win_free (send_mmu w b) v \<Longrightarrow> win_free m2 v" by (rule win_free_step [OF st])
qed

lemma send_windows: "win_free (send_mmu 0x2ea 0xba801000) 0xbabe0000" "win_free (send_mmu 0x32b 0xcac01000) 0xcafe0000"
  "win_free (send_mmu 0x2ea 0xba801000) 0xdead0000"
  using ipc_tables(1,3,6) [OF send_mmu_ok [OF demo_bases(1)], folded send_mmu_def]
    ipc_tables(1,3) [OF send_mmu_ok [OF demo_bases(2)], folded send_mmu_def]
  by (simp_all add: win_free_def page_aligned_def has_table_def vm_pdir_idx_def vm_ptab_idx_def translate_def flag_defs)

lemma run_proc_simps [simp]:
  "current_proc (ktab (run_proc i k)) = Some i" "procs (ktab (run_proc i k)) = procs (ktab k)"
  "heap_initialized (kheap (run_proc i k)) = heap_initialized (kheap k)" "mem (kmmu (run_proc i k)) = mem (kmmu k)"
  by (simp_all add: run_proc_def upd_mmu_def kmmu_def)

section \<open>Properties\<close>

text \<open>
  C13. A send to a process that is ready.  The call returns; the receiver's queue has one more
  message at its end, in a node that was not in use; the node holds a copy of the sender's
  packet with the process id of the sender and the physical addresses of its two buffers.
  The messages in use before and the queues of the other processes are as they were, the
  sender waits for the reply, and no other process changes.
\<close>

theorem syscall_send_msg_queues:
  assumes "send_ready hp k msg mp r xs L ps pr" and "kld (regs + REGS_EAX) k = Inr msg"
    and "current_proc (ktab k) = Some c" and "used_slot (ktab k) c" and "idle (ktab k) = Some d"
    and "pids_ok (ktab k)" and "state (procs (ktab k) r) = PROC_READY" and "r \<noteq> c"
  shows "\<exists>res k' x. syscall_send_msg fr regs k = Inr (res, k') \<and>
    (let m = kmmu k; m' = (kmmu k')\<lparr>cr3 := cr3 m\<rparr> in
     queued hp m m' L xs x (sent_fields (pid (procs (ktab k) c)) ps pr (fld m mp)) \<and>
     qrep m' hp (recv_queue (procs (ktab k') r)) (xs @ [x]) \<and>
     heap_rep hp (kheap (upd_mmu (\<lambda>_. m') k')) (insert x L) \<and>
     procs (ktab k') = (procs (ktab k))
       (c := (procs (ktab k) c)\<lparr>trapframe := fr, state := PROC_REPLY_BLOCKED\<rparr>,
        r := (procs (ktab k) r)\<lparr>recv_queue := recv_queue (procs (ktab k') r)\<rparr>) \<and>
     (\<exists>n. current_proc (ktab k') = Some n \<and> res = trapframe (procs (ktab k') n)) \<and> scheduling_enabled (ktab k'))"
proof -
  obtain res k' x m' h' n where s: "syscall_send_msg fr regs k = Inr (res, k')" "(kmmu k')\<lparr>cr3 := cr3 (kmmu k)\<rparr> = m'"
    "queued hp (kmmu k) m' L xs x (sent_fields (pid (procs (ktab k) c)) ps pr (fld (kmmu k) mp))"
    "qrep m' hp h' (xs @ [x])" "heap_rep hp (kheap (upd_mmu (\<lambda>_. m') k')) (insert x L)"
    "procs (ktab k') = (procs (ktab k))(c := (procs (ktab k) c)\<lparr>trapframe := fr, state := PROC_REPLY_BLOCKED\<rparr>,
        r := (procs (ktab k) r)\<lparr>recv_queue := h'\<rparr>)"
    "current_proc (ktab k') = Some n" "res = trapframe (procs (ktab k') n)" "scheduling_enabled (ktab k')"
    by (rule send_queues [OF assms, of fr]) (rule that)
  have "recv_queue (procs (ktab k') r) = h'" by (simp add: s(6))
  with s show ?thesis by (intro exI [of _ res] exI [of _ k'] exI [of _ x]) (simp add: Let_def)
qed

theorem syscall_send_msg_queues_witness:
  "\<exists>res k' x. syscall_send_msg 0x9000 0xba801054 (send_kern 0x2ea 0xba801000) = Inr (res, k') \<and>
     stqh_first (recv_queue (procs (ktab k') 0)) = x \<and> x \<noteq> 0 \<and> state (procs (ktab k') 1) = PROC_REPLY_BLOCKED \<and>
     load32 (mem (kmmu k')) (node_phys 0x10000 x) = 1 \<and> load32 (mem (kmmu k')) (node_phys 0x10000 x + 24) = 0x21040"
proof -
  let ?k = "send_kern 0x2ea 0xba801000"
  note st = send_state [OF demo_bases(1)]
  have t: "current_proc (ktab ?k) = Some 1" "used_slot (ktab ?k) 1" "idle (ktab ?k) = Some 1"
    "pids_ok (ktab ?k)" "state (procs (ktab ?k) 0) = PROC_READY" "(0 :: nat) \<noteq> 1" "pid (procs (ktab ?k) 1) = 1"
    using st(2) demo_send_tab_ok by (simp_all add: send_tab_def rply_tab_def)
  from syscall_send_msg_queues [OF send_kern_ready [OF demo_bases(1)] t(1-6), of "0x9000"]
  obtain res k' x where s: "syscall_send_msg 0x9000 0xba801054 ?k = Inr (res, k')"
    "queued 0x10000 (kmmu ?k) ((kmmu k')\<lparr>cr3 := cr3 (kmmu ?k)\<rparr>) {} [] x (sent_fields 1 0x21040 0x21048 (fld (kmmu ?k) 0x21000))"
    "qrep ((kmmu k')\<lparr>cr3 := cr3 (kmmu ?k)\<rparr>) 0x10000 (recv_queue (procs (ktab k') 0)) [x]"
    "procs (ktab k') = (procs (ktab ?k))(1 := (procs (ktab ?k) 1)\<lparr>trapframe := 0x9000, state := PROC_REPLY_BLOCKED\<rparr>,
        0 := (procs (ktab ?k) 0)\<lparr>recv_queue := recv_queue (procs (ktab k') 0)\<rparr>)"
    unfolding Let_def t(7) by auto
  have w: "node_word ((kmmu k')\<lparr>cr3 := cr3 (kmmu ?k)\<rparr>) 0x10000 x 0 = 1" "node_word ((kmmu k')\<lparr>cr3 := cr3 (kmmu ?k)\<rparr>) 0x10000 x 24 = 0x21040"
    using queued_word [OF s(2), of 0] queued_word [OF s(2), of 24] by (simp_all add: sent_fields_def)
  have "x \<noteq> 0" "stqh_first (recv_queue (procs (ktab k') 0)) = x"
    using s(2) node_ok_nonzero qrep_first [OF s(3)] by (auto simp: queued_def)
  moreover have "state (procs (ktab k') 1) = PROC_REPLY_BLOCKED" by (subst s(4)) simp
  ultimately show ?thesis using s(1) w [folded fld_node] by (auto simp: fld_def)
qed

text \<open>
  C9. A message is received as it was sent.  A process \<open>c\<close> sends to a ready process \<open>r\<close> whose queue is
  empty.  Later, in a state \<open>k2\<close> in which \<open>r\<close> runs, the kernel's pool and the sender's buffer have
  not changed and nobody has touched the queue of \<open>r\<close>, that process asks for a message:
  the call returns, the buffer of \<open>r\<close> holds the bytes that were in the sender's buffer
  when it was sent, and the packet of \<open>r\<close> names \<open>c\<close> as the sender.
\<close>

theorem message_received:
  assumes "send_ready hp k msg mp r [] L ps pr" and "kld (regs + REGS_EAX) k = Inr msg"
    and "current_proc (ktab k) = Some c" and "used_slot (ktab k) c" and "idle (ktab k) = Some d"
    and "pids_ok (ktab k)" and "state (procs (ktab k) r) = PROC_READY" and "r \<noteq> c"
    and "syscall_send_msg fr regs k = Inr (res, k1)"
    and "0 < fld (kmmu k) mp 16" and "unat (fld (kmmu k) mp 16) \<le> 4096"
    and "recv_room hp (kmmu k2) msg2 mp2 dp ps" and "kld (regs2 + REGS_EAX) k2 = Inr msg2"
    and "current_proc (ktab k2) = Some r" and "used_slot (ktab k2) r" and "idle (ktab k2) = Some d2"
    and "pids_ok (ktab k2)" and "state (procs (ktab k2) r) = PROC_RUNNING \<or> state (procs (ktab k2) r) = PROC_READY"
    and "recv_queue (procs (ktab k2) r) = recv_queue (procs (ktab k1) r)" and "pool_same hp (kmmu k1) (kmmu k2)"
    and "\<forall>q \<in> obj_bytes ps (unat (fld (kmmu k2) mp2 20)). q \<notin> heap_frames hp \<and> mem (kmmu k2) q = mem (kmmu k1) q"
  shows "\<exists>res2 k3. syscall_recv_msg fr2 regs2 k2 = Inr (res2, k3) \<and>
    (\<forall>j < unat (fld (kmmu k2) mp2 20). mem (kmmu k3) (dp + of_nat j) = mem (kmmu k) (ps + of_nat j)) \<and>
    fld (kmmu k3) mp2 0 = pid (procs (ktab k) c)"
proof -
  let ?F = "sent_fields (pid (procs (ktab k) c)) ps pr (fld (kmmu k) mp)" and ?rl = "unat (fld (kmmu k2) mp2 20)"
  obtain x m' h' where s: "(kmmu k1)\<lparr>cr3 := cr3 (kmmu k)\<rparr> = m'" "queued hp (kmmu k) m' L [] x ?F" "qrep m' hp h' ([] @ [x])"
    "procs (ktab k1) = (procs (ktab k))(c := (procs (ktab k) c)\<lparr>trapframe := fr, state := PROC_REPLY_BLOCKED\<rparr>,
        r := (procs (ktab k) r)\<lparr>recv_queue := h'\<rparr>)"
    by (rule send_queues [OF assms(1-8), of fr]) (use assms(9) that in auto)
  have mem1: "mem (kmmu k1) = mem m'" using s(1) by auto
  have po: "pool_same hp m' (kmmu k2)" using assms(20) by (simp add: pool_same_def mem1)
  have x: "node_ok x" using s(2) by (simp add: queued_def)
  have w: "node_word (kmmu k2) hp x off = ?F off" if "off < 36" "4 dvd off" for off
    using pool_same_word [OF po x, of off] queued_word [OF s(2) that] that by simp
  have ph: "ps AND 0xfff = fld (kmmu k) mp 8 AND 0xfff"
    using assms(1) by (intro phys_of_page(2) [of "kmmu k"]) (simp add: send_ready_def Let_def)
  have q: "qrep (kmmu k2) hp (recv_queue (procs (ktab k2) r)) (x # [])"
    using pool_same_qrep [OF po s(3)] assms(19) s(4) by simp
  have rr: "recv_ready hp k2 r msg2 mp2 x [] dp"
    by (rule recv_readyI [OF assms(12) x q]) (use w assms(10,11) ph in \<open>simp_all add: sent_fields_def\<close>)
  obtain res2 k3 m3 where t: "syscall_recv_msg fr2 regs2 k2 = Inr (res2, k3)" "(kmmu k3)\<lparr>cr3 := cr3 (kmmu k2)\<rparr> = m3"
    "\<And>j. j < ?rl \<Longrightarrow> mem m3 (dp + of_nat j) = mem (kmmu k2) (fld (kmmu k2) (node_phys hp x) 24 + of_nat j)"
    "fld m3 mp2 0 = fld (kmmu k2) (node_phys hp x) 0"
    by (rule recv_takes [OF rr assms(13-18), of fr2]) (rule that)
  have f: "fld (kmmu k2) (node_phys hp x) 24 = ps" "fld (kmmu k2) (node_phys hp x) 0 = pid (procs (ktab k) c)"
    unfolding fld_node using w [of 24] w [of 0] by (simp_all add: sent_fields_def)
  have "mem (kmmu k3) (dp + of_nat j) = mem (kmmu k) (ps + of_nat j)" if j: "j < ?rl" for j
  proof -
    have p: "ps + of_nat j \<notin> heap_frames hp" "mem (kmmu k2) (ps + of_nat j) = mem m' (ps + of_nat j)"
      using assms(21) obj_bytes_mem [OF j, of ps] mem1 by auto
    moreover have "mem m' (ps + of_nat j) = mem (kmmu k) (ps + of_nat j)"
      using s(2) p(1) by (auto simp: queued_def heap_upd_def heap_frames_def)
    ultimately show ?thesis using t(2) t(3) [OF j] f(1) by auto
  qed
  moreover have "fld (kmmu k3) mp2 0 = pid (procs (ktab k) c)" using t(2,4) f(2) by (auto simp: fld_def)
  ultimately show ?thesis using t(1) by blast
qed

theorem message_received_witness:
  "\<exists>res k1 res2 k3. syscall_send_msg 0x9000 0xba801054 (send_kern 0x2ea 0xba801000) = Inr (res, k1) \<and>
     syscall_recv_msg 0x9000 0xba801154 (run_proc 0 k1) = Inr (res2, k3) \<and>
     mem (kmmu k3) 0x21140 = mem (send_mmu 0x2ea 0xba801000) 0x21040 \<and> load32 (mem (kmmu k3)) 0x21100 = 1"
proof -
  let ?k = "send_kern 0x2ea 0xba801000" and ?m = "send_mmu 0x2ea 0xba801000"
  note b = demo_bases(1)
  note st = send_state [OF b]
  have t: "current_proc (ktab ?k) = Some 1" "used_slot (ktab ?k) 1" "idle (ktab ?k) = Some 1"
    "pids_ok (ktab ?k)" "state (procs (ktab ?k) 0) = PROC_READY" "(0 :: nat) \<noteq> 1" "pid (procs (ktab ?k) 1) = 1"
    using st(2) demo_send_tab_ok by (simp_all add: send_tab_def rply_tab_def)
  obtain res k1 m2 where s: "syscall_send_msg 0x9000 (0xba801000 + 0x54) ?k = Inr (res, k1)" "kmmu (run_proc 0 k1) = m2"
    "mem (kmmu k1) = mem m2" "mem_step (heap_frames 0x10000) ?m m2" "pids_ok (ktab (run_proc 0 k1))"
    "used_slot (ktab (run_proc 0 k1)) 0" "idle (ktab (run_proc 0 k1)) = Some 1" "state (procs (ktab (run_proc 0 k1)) 0) = PROC_READY"
    by (rule send_demo [OF b]) (rule that)
  let ?k2 = "run_proc 0 k1"
  note o = send_demo_objs [OF b s(4)]
  have f: "fld m2 0x21100 12 = 0xba801140" "fld m2 0x21100 20 = 4" "fld m2 0x21180 0 = 0xba801100"
    using o(5) send_fld [OF b] by simp_all
  have dis: "obj_bytes 0x21140 4 \<inter> obj_bytes 0x21040 4 = {}" "obj_bytes 0x21140 4 \<inter> obj_bytes 0x21100 36 = {}"
    "obj_bytes 0x21140 4 \<inter> heap_frames 0x10000 = {}" "obj_bytes 0x21100 36 \<inter> heap_frames 0x10000 = {}"
    "obj_bytes 0x21040 4 \<inter> heap_frames 0x10000 = {}" "obj_bytes 0x21040 4 \<inter> walk_bytes m2 = {}"
    by (simp_all add: obj_bytes_apart frames_apart) (auto simp: obj_bytes4 o(4))
  have room: "recv_room 0x10000 (kmmu ?k2) 0xba801100 0x21100 0x21140 0x21040"
    unfolding recv_room_def Let_def s(2) f using o(1,2) o(3) [of "0x100" 36] o(3) [of "0x140" 4] o(6) [OF send_windows(1)] dis by simp
  have eax: "kld (0xba801154 + REGS_EAX) ?k2 = Inr 0xba801100"
    using kld_obj [of ?k2 "0xba801180" "0x21180" 4 0] o(3) [of "0x180" 4] f(3) s(2) by (simp add: REGS_EAX_def)
  have len: "0 < fld (kmmu ?k) 0x21000 16" "unat (fld (kmmu ?k) 0x21000 16) \<le> 4096" using st(1) send_fld(4) [OF b] by simp_all
  have cur: "current_proc (ktab ?k2) = Some 0" "state (procs (ktab ?k2) 0) = PROC_RUNNING \<or> state (procs (ktab ?k2) 0) = PROC_READY"
    "recv_queue (procs (ktab ?k2) 0) = recv_queue (procs (ktab k1) 0)" "pool_same 0x10000 (kmmu k1) (kmmu ?k2)"
    using s(8) by (simp_all add: pool_same_def)
  have src: "\<forall>q \<in> obj_bytes 0x21040 (unat (fld (kmmu ?k2) 0x21100 20)). q \<notin> heap_frames 0x10000 \<and> mem (kmmu ?k2) q = mem (kmmu k1) q"
    using dis(5) s(2) f(2) by auto
  from message_received [OF send_kern_ready [OF b] t(1-6) s(1) len room eax cur(1) s(6,7,5) cur(2,3,4) src, of "0x9000"]
  obtain res2 k3 where r: "syscall_recv_msg 0x9000 0xba801154 ?k2 = Inr (res2, k3)"
    "\<forall>j < unat (fld m2 0x21100 20). mem (kmmu k3) (0x21140 + of_nat j) = mem ?m (0x21040 + of_nat j)" "fld (kmmu k3) 0x21100 0 = 1"
    unfolding t(7) s(2) st(1) by blast
  from r(2) [rule_format, of 0] f(2) s(1) r(1,3) show ?thesis by (auto simp: fld_def)
qed

text \<open>
  C10. The answer reaches the sender.  After the same send, in a state \<open>k2\<close> in which \<open>r\<close> runs and pool
  and queue of \<open>r\<close> are as the send left them (a receive keeps them so), process \<open>r\<close> replies: the
  call returns, the bytes of the answer are in the frame that the sender's receive
  buffer was mapped to when it sent, the sender is ready again, the queue is empty and
  the kernel heap has the nodes that were in use before the send.
\<close>

theorem reply_received:
  assumes "send_ready hp k msg mp r [] L ps pr" and "kld (regs + REGS_EAX) k = Inr msg"
    and "current_proc (ktab k) = Some c" and "used_slot (ktab k) c" and "idle (ktab k) = Some d"
    and "pids_ok (ktab k)" and "state (procs (ktab k) r) = PROC_READY" and "r \<noteq> c"
    and "syscall_send_msg fr regs k = Inr (res, k1)"
    and "rply_room hp (kmmu k2) msg2 mp2 sp pr (fld (kmmu k) mp 20)" and "kld (regs2 + REGS_EAX) k2 = Inr msg2"
    and "current_proc (ktab k2) = Some r" and "used_slot (ktab k2) r" and "used_slot (ktab k2) c"
    and "idle (ktab k2) = Some d2" and "pids_ok (ktab k2)"
    and "state (procs (ktab k2) r) = PROC_RUNNING \<or> state (procs (ktab k2) r) = PROC_READY"
    and "pid (procs (ktab k2) c) = pid (procs (ktab k1) c)"
    and "recv_queue (procs (ktab k2) r) = recv_queue (procs (ktab k1) r)" and "pool_same hp (kmmu k1) (kmmu k2)"
    and "heap_initialized (kheap k2) = heap_initialized (kheap k1)"
  shows "\<exists>res2 k3. syscall_rply_msg fr2 regs2 k2 = Inr (res2, k3) \<and>
    (\<forall>j < unat (fld (kmmu k) mp 20). mem (kmmu k3) (pr + of_nat j) = mem (kmmu k2) (sp + of_nat j)) \<and>
    state (procs (ktab k3) c) = PROC_READY \<and> STAILQ_EMPTY (recv_queue (procs (ktab k3) r)) \<and>
    heap_rep hp (kheap (upd_mmu (\<lambda>m. m\<lparr>cr3 := cr3 (kmmu k2)\<rparr>) k3)) L"
proof -
  let ?cp = "pid (procs (ktab k) c)" and ?m2 = "kmmu k2"
  let ?F = "sent_fields ?cp ps pr (fld (kmmu k) mp)" and ?rl = "fld (kmmu k) mp 20"
  obtain x m' h' where s: "(kmmu k1)\<lparr>cr3 := cr3 (kmmu k)\<rparr> = m'" "queued hp (kmmu k) m' L [] x ?F" "qrep m' hp h' ([] @ [x])"
    "heap_rep hp (kheap (upd_mmu (\<lambda>_. m') k1)) (insert x L)"
    "procs (ktab k1) = (procs (ktab k))(c := (procs (ktab k) c)\<lparr>trapframe := fr, state := PROC_REPLY_BLOCKED\<rparr>,
        r := (procs (ktab k) r)\<lparr>recv_queue := h'\<rparr>)"
    by (rule send_queues [OF assms(1-8), of fr]) (use assms(9) that in auto)
  have po: "pool_same hp m' ?m2" using assms(20) s(1) by (auto simp: pool_same_def)
  have x: "node_ok x" "x \<notin> L" using s(2) by (simp_all add: queued_def)
  have w: "node_word ?m2 hp x off = ?F off" if "off < 36" "4 dvd off" for off
    using pool_same_word [OF po x(1), of off] queued_word [OF s(2) that] that by simp
  have hm: "heap_mapped ?m2 hp" using assms(10) by (simp add: rply_room_def)
  have hr: "heap_rep hp (kheap k2) (insert x L)"
    using s(4) pool_same_heap [OF _ po hm] assms(21) by (auto simp: heap_rep_def kheap_upd_mmu kmmu_def)
  have q: "qrep ?m2 hp (recv_queue (procs (ktab k2) r)) (x # [])"
    using pool_same_qrep [OF po s(3)] assms(19) s(5) by simp
  have ph: "pr AND 0xfff = fld (kmmu k) mp 12 AND 0xfff"
    using assms(1) by (intro phys_of_page(2) [of "kmmu k"]) (simp add: send_ready_def Let_def)
  have fd: "proc_find_by_pid ?cp (ktab k2) = Some c"
    using find_by_pid_unique [OF assms(16,14)] assms(8,18) by (simp add: s(5))
  have sub: "set (x # []) \<subseteq> insert x L" by simp
  have rr: "rply_ready hp k2 r msg2 mp2 x [] (insert x L) sp c"
    by (rule rply_readyI [OF assms(10) hr sub q]) (use w fd ph in \<open>simp_all add: sent_fields_def\<close>)
  have f: "fld ?m2 (node_phys hp x) 28 = pr" "fld ?m2 (node_phys hp x) 20 = ?rl"
    unfolding fld_node using w [of 28] w [of 20] by (simp_all add: sent_fields_def)
  obtain res2 k3 m3 where t: "syscall_rply_msg fr2 regs2 k2 = Inr (res2, k3)" "(kmmu k3)\<lparr>cr3 := cr3 ?m2\<rparr> = m3"
    "\<forall>j < unat ?rl. mem m3 (pr + of_nat j) = mem ?m2 (sp + of_nat j)" "qrep m3 hp (recv_queue (procs (ktab k3) r)) []"
    "heap_rep hp (kheap (upd_mmu (\<lambda>_. m3) k3)) (insert x L - {x})" "state (procs (ktab k3) c) = PROC_READY"
    by (rule rply_answers [OF rr assms(11-13,14-17), of fr2, unfolded f]) (rule that)
  have "upd_mmu (\<lambda>m. m\<lparr>cr3 := cr3 ?m2\<rparr>) k3 = upd_mmu (\<lambda>_. m3) k3" using t(2) by (simp add: upd_mmu_def kmmu_def)
  then have "heap_rep hp (kheap (upd_mmu (\<lambda>m. m\<lparr>cr3 := cr3 ?m2\<rparr>) k3)) L" using t(5) x(2) by simp
  moreover have "mem (kmmu k3) = mem m3" using t(2) by auto
  moreover have "STAILQ_EMPTY (recv_queue (procs (ktab k3) r))" using qrep_empty [OF t(4)] by simp
  ultimately show ?thesis using t(1,3,6) by auto
qed

theorem reply_received_witness:
  "\<exists>res k1 res2 k3. syscall_send_msg 0x9000 0xcac01054 (send_kern 0x32b 0xcac01000) = Inr (res, k1) \<and>
     syscall_rply_msg 0x9000 0xcac01154 (run_proc 0 k1) = Inr (res2, k3) \<and>
     mem (kmmu k3) 0x21048 = mem (kmmu k1) 0x21150 \<and> state (procs (ktab k3) 1) = PROC_READY"
proof -
  let ?k = "send_kern 0x32b 0xcac01000" and ?m = "send_mmu 0x32b 0xcac01000"
  note b = demo_bases(2)
  note st = send_state [OF b]
  have t: "current_proc (ktab ?k) = Some 1" "used_slot (ktab ?k) 1" "idle (ktab ?k) = Some 1"
    "pids_ok (ktab ?k)" "state (procs (ktab ?k) 0) = PROC_READY" "(0 :: nat) \<noteq> 1"
    using st(2) demo_send_tab_ok by (simp_all add: send_tab_def rply_tab_def)
  obtain res k1 m2 where s: "syscall_send_msg 0x9000 (0xcac01000 + 0x54) ?k = Inr (res, k1)" "kmmu (run_proc 0 k1) = m2"
    "mem (kmmu k1) = mem m2" "mem_step (heap_frames 0x10000) ?m m2" "pids_ok (ktab (run_proc 0 k1))"
    "used_slot (ktab (run_proc 0 k1)) 0" "used_slot (ktab (run_proc 0 k1)) 1"
    "idle (ktab (run_proc 0 k1)) = Some 1" "state (procs (ktab (run_proc 0 k1)) 0) = PROC_READY"
    by (rule send_demo [OF b]) (rule that)
  let ?k2 = "run_proc 0 k1"
  note o = send_demo_objs [OF b s(4)]
  have f: "fld m2 0x21100 8 = 0xcac01150" "fld m2 0x21180 0 = 0xcac01100" "fld (kmmu ?k) 0x21000 20 = 4"
    using o(5) send_fld [OF b] st(1) by simp_all
  have dis: "obj_bytes 0x21048 4 \<inter> obj_bytes 0x21150 4 = {}" "obj_bytes 0x21048 4 \<inter> heap_frames 0x10000 = {}"
    "obj_bytes 0x21048 4 \<inter> walk_bytes m2 = {}"
    by (simp_all add: obj_bytes_apart frames_apart) (auto simp: obj_bytes4 o(4))
  have room: "rply_room 0x10000 (kmmu ?k2) 0xcac01100 0x21100 0x21150 0x21048 (fld (kmmu ?k) 0x21000 20)"
    unfolding rply_room_def s(2) f using o(1,2) o(3) [of "0x100" 36] o(3) [of "0x150" 4] o(6) [OF send_windows(2)] dis by simp
  have eax: "kld (0xcac01154 + REGS_EAX) ?k2 = Inr 0xcac01100"
    using kld_obj [of ?k2 "0xcac01180" "0x21180" 4 0] o(3) [of "0x180" 4] f(2) s(2) by (simp add: REGS_EAX_def)
  have cur: "current_proc (ktab ?k2) = Some 0" "state (procs (ktab ?k2) 0) = PROC_RUNNING \<or> state (procs (ktab ?k2) 0) = PROC_READY"
    "pid (procs (ktab ?k2) 1) = pid (procs (ktab k1) 1)"
    "recv_queue (procs (ktab ?k2) 0) = recv_queue (procs (ktab k1) 0)" "pool_same 0x10000 (kmmu k1) (kmmu ?k2)"
    "heap_initialized (kheap ?k2) = heap_initialized (kheap k1)"
    using s(9) by (simp_all add: pool_same_def)
  from reply_received [OF send_kern_ready [OF b] t s(1) room eax cur(1) s(6-8,5) cur(2-6), of "0x9000"]
  obtain res2 k3 where r: "syscall_rply_msg 0x9000 0xcac01154 ?k2 = Inr (res2, k3)"
    "\<forall>j < unat (fld (kmmu ?k) 0x21000 20). mem (kmmu k3) (0x21048 + of_nat j) = mem (kmmu ?k2) (0x21150 + of_nat j)"
    "state (procs (ktab k3) 1) = PROC_READY" by blast
  from r(2) [rule_format, of 0] f(3) s(1) r(1,3) show ?thesis by auto
qed

end
