(* ===== verification/Deliver.thy ===== *)
theory Deliver
  imports Send
begin

unbundle bit_operations_syntax

text \<open>
  The other way a message can take in \<^verbatim>\<open>kernel/syscall.c\<close>: the receiver asks first and is blocked, with
  a node in its own queue that says where its buffer and its packet are; a later send
  writes the message straight into that buffer.

  Shown: what the blocking receive leaves in the node (\<open>wait_fields\<close>); what the delivery writes
  to the receiver's buffer, packet and node (\<open>delivered\<close>); and both calls together.
\<close>

section \<open>Lemmas\<close>

subsection \<open>A receiver that waits\<close>

text \<open>The packet a waiting receiver leaves in its own queue.\<close>

definition wait_fields :: "u32 \<Rightarrow> u32 \<Rightarrow> (nat \<Rightarrow> u32) \<Rightarrow> nat \<Rightarrow> u32" where
  "wait_fields pr pp F = F(28 := pr, 32 := pp)"

lemma recv_fill_effect:
  assumes hs: "heap_state (kmmu k) hp us" and x: "node_ok x" and p: "packet hp (kmmu k) msg mp"
    and ph: "phys_of (kmmu k) msg mp" "phys_of (kmmu k) (fld (kmmu k) mp 12) pr"
  obtains m' where "filled hp us x (wait_fields pr mp (fld (kmmu k) mp)) (kmmu k) m'"
    and "recv_fill msg x k = Inr (upd_mmu (\<lambda>_. m') k)"
proof -
  let ?m = "kmmu k" and ?F = "fld (kmmu k) mp" and ?K = "\<lambda>m. upd_mmu (\<lambda>_. m) k"
  have hm: "heap_mapped ?m hp" using hs by (simp add: heap_state_def)
  have ok: "pt_ok ?m" "obj ?m msg mp 36" "obj_bytes mp 36 \<inter> heap_frames hp = {}" using p by (simp_all add: packet_def)
  obtain m1 where m1: "kcopy x msg 36 k = Inr (?K m1)" "filled hp us x ?F ?m m1"
    by (rule filled_copy [OF hs x ok(2,3)]) (rule that)
  note s1 = filled_step [OF m1(2) ok(1) hm]
  have "vload32 m1 (x + of_nat 12) = Inr (node_word m1 hp x 12)"
    by (rule node_load [OF heap_mapped_step [OF hm s1] x]) simp_all
  then have ld: "kld (x + of_nat 12) (?K m1) = Inr (?F 12)" using m1(2) x by (simp add: kld_def filled_def)
  have k1: "pt_ok (kmmu (?K m1))" "phys_of (kmmu (?K m1)) (?F 12) pr"
    using mem_step_pt_ok [OF s1] phys_of_step [OF s1 ph(2)] by simp_all
  have f1: "filled hp us x ?F ?m (kmmu (?K m1))" using m1(2) by simp
  have "\<exists>m2. kst (x + of_nat 28) pr (?K m1) = Inr (?K m2) \<and> filled hp us x (?F(28 := pr)) ?m m2"
    by (rule filled_store [OF f1 x, of 28 pr]) auto
  then obtain m2 where m2: "kst (x + of_nat 28) pr (?K m1) = Inr (?K m2)" "filled hp us x (?F(28 := pr)) ?m m2" by blast
  note s2 = filled_step [OF m2(2) ok(1) hm]
  have k2: "pt_ok (kmmu (?K m2))" "phys_of (kmmu (?K m2)) msg mp"
    using mem_step_pt_ok [OF s2] phys_of_step [OF s2 ph(1)] by simp_all
  have f2: "filled hp us x (?F(28 := pr)) ?m (kmmu (?K m2))" using m2(2) by simp
  have "\<exists>m3. kst (x + of_nat 32) mp (?K m2) = Inr (?K m3) \<and> filled hp us x (?F(28 := pr, 32 := mp)) ?m m3"
    by (rule filled_store [OF f2 x, of 32 mp]) auto
  then obtain m3 where m3: "kst (x + of_nat 32) mp (?K m2) = Inr (?K m3)" "filled hp us x (?F(28 := pr, 32 := mp)) ?m m3" by blast
  show ?thesis
  proof (rule that [of m3])
    show "filled hp us x (wait_fields pr mp ?F) ?m m3" using m3(2) by (simp add: wait_fields_def)
    show "recv_fill msg x k = Inr (?K m3)"
      using m1(1) ld kphys_of [OF k1] m2(1) kphys_of [OF k2] m3(1)
      by (simp add: recv_fill_def phys_field_def SIZEOF_MSG_PACKET_def MSG_RECV_BUF_def MSG_PHYS_RECV_BUF_def MSG_PHYS_MSG_PACKET_def)
  qed
qed

definition wait_ready :: "u32 \<Rightarrow> kern \<Rightarrow> nat \<Rightarrow> u32 \<Rightarrow> u32 \<Rightarrow> u32 set \<Rightarrow> u32 \<Rightarrow> bool" where
  "wait_ready hp k c msg mp L pr \<longleftrightarrow>
     (let m = kmmu k in
      packet hp m msg mp \<and> phys_of m msg mp \<and> phys_of m (fld m mp 12) pr \<and>
      heap_rep hp (kheap k) L \<and> card L < NODES_MAX \<and> qrep m hp (recv_queue (procs (ktab k) c)) [])"

lemma wait_ready_tab:
  assumes "recv_queue (procs t c) = recv_queue (procs (ktab k) c)"
  shows "wait_ready hp (k\<lparr>ktab := t\<rparr>) c msg mp L pr = wait_ready hp k c msg mp L pr"
  using assms by (simp add: wait_ready_def)

lemma recv_block_effect:
  assumes ready: "wait_ready hp k c msg mp L pr"
  defines "m \<equiv> kmmu k"
  shows "\<exists>x h' m'. recv_block c msg k = Inr ((upd_mmu (\<lambda>_. m') k)\<lparr>ktab :=
        upd_proc c (\<lambda>p. p\<lparr>recv_queue := h'\<rparr>) (upd_proc c (\<lambda>p. p\<lparr>state := PROC_RECV_BLOCKED\<rparr>) (ktab k))\<rparr>) \<and>
    queued hp m m' L [] x (wait_fields pr mp (fld m mp)) \<and> qrep m' hp h' [x] \<and>
    heap_rep hp (kheap (upd_mmu (\<lambda>_. m') k)) (insert x L)"
proof -
  let ?k0 = "set_pstate c PROC_RECV_BLOCKED k" and ?F = "wait_fields pr mp (fld m mp)"
  have r: "packet hp m msg mp" "phys_of m msg mp" "phys_of m (fld m mp 12) pr" "heap_rep hp (kheap k) L"
    "card L < NODES_MAX" "qrep m hp (recv_queue (procs (ktab k) c)) []" "pt_ok m"
    using ready by (simp_all add: wait_ready_def Let_def m_def packet_def)
  have fl: "\<exists>m2. recv_fill msg x (upd_mmu (\<lambda>_. m1) ?k0) = Inr (upd_mmu (\<lambda>_. m2) ?k0) \<and> filled hp us x ?F m1 m2"
    if x: "node_ok x" and st: "mem_step (heap_frames hp) m m1" and us: "heap_state m1 hp us" for x m1 us
  proof -
    let ?k1 = "upd_mmu (\<lambda>_. m1) ?k0"
    have fm: "fld m1 mp off = fld m mp off" if "off + 4 \<le> 36" for off by (rule fld_heap_step [OF st r(1) that])
    have h1: "heap_state (kmmu ?k1) hp us" "packet hp (kmmu ?k1) msg mp" "phys_of (kmmu ?k1) msg mp"
      "phys_of (kmmu ?k1) (fld (kmmu ?k1) mp 12) pr"
      using us packet_step [OF st r(1)] phys_of_step [OF st] r(2,3) fm by simp_all
    obtain m2 where m2: "filled hp us x (wait_fields pr mp (fld m1 mp)) m1 m2" "recv_fill msg x ?k1 = Inr (upd_mmu (\<lambda>_. m2) ?k0)"
      using recv_fill_effect [OF h1(1) x h1(2-4)] by auto
    have "filled hp us x ?F m1 m2" by (rule filled_cong [OF m2(1)]) (simp add: wait_fields_def fm)
    with m2(2) show ?thesis by blast
  qed
  have h: "pt_ok (kmmu ?k0)" "heap_rep hp (kheap ?k0) L" "card L < NODES_MAX"
    "qrep (kmmu ?k0) hp (recv_queue (procs (ktab ?k0) c)) []" "set [] \<subseteq> L"
    using r by (simp_all add: m_def upd_proc_def)
  have kk: "kheap (upd_mmu (\<lambda>_. m') ?k0) = kheap (upd_mmu (\<lambda>_. m') k)"
    "(upd_mmu (\<lambda>_. m') ?k0)\<lparr>ktab := t\<rparr> = (upd_mmu (\<lambda>_. m') k)\<lparr>ktab := t\<rparr>" for m' t
    by (simp_all add: set_pstate_def upd_mmu_def)
  from post_node [OF h, of "recv_fill msg" ?F] fl
  show ?thesis unfolding recv_block_def Let_def m_def kk by simp
qed

lemma recv_waits:
  assumes ready: "wait_ready hp k c msg mp L pr" and eax: "kld (regs + REGS_EAX) k = Inr msg"
    and cur: "current_proc (ktab k) = Some c" and us: "used_slot (ktab k) c" and idle: "idle (ktab k) = Some d"
    and pok: "pids_ok (ktab k)"
  obtains res k' x m' h' n where "syscall_recv_msg fr regs k = Inr (res, k')" and "(kmmu k')\<lparr>cr3 := cr3 (kmmu k)\<rparr> = m'"
    and "queued hp (kmmu k) m' L [] x (wait_fields pr mp (fld (kmmu k) mp))"
    and "qrep m' hp h' [x]" and "heap_rep hp (kheap (upd_mmu (\<lambda>_. m') k')) (insert x L)"
    and "procs (ktab k') = (procs (ktab k))(c := (procs (ktab k) c)\<lparr>trapframe := fr, state := PROC_RECV_BLOCKED, recv_queue := h'\<rparr>)"
    and "current_proc (ktab k') = Some n" and "res = trapframe (procs (ktab k') n)" and "scheduling_enabled (ktab k')"
    and "idle (ktab k') = Some d" and "pids_ok (ktab k')"
proof -
  let ?k0 = "k\<lparr>ktab := proc_disable_scheduling (ktab k)\<rparr>"
  have r0: "wait_ready hp ?k0 c msg mp L pr"
    using ready by (subst wait_ready_tab) (simp_all add: proc_disable_scheduling_def)
  define T where "T h = upd_proc c (\<lambda>p. p\<lparr>recv_queue := h\<rparr>)
      (upd_proc c (\<lambda>p. p\<lparr>state := PROC_RECV_BLOCKED\<rparr>) (proc_disable_scheduling (ktab k)))" for h
  obtain x h' m' where e: "recv_block c msg ?k0 = Inr ((upd_mmu (\<lambda>_. m') k)\<lparr>ktab := T h'\<rparr>)"
    "queued hp (kmmu k) m' L [] x (wait_fields pr mp (fld (kmmu k) mp))" "qrep m' hp h' [x]"
    "heap_rep hp (kheap (upd_mmu (\<lambda>_. m') ?k0)) (insert x L)"
    using recv_block_effect [OF r0] by (auto simp: T_def upd_mmu_ktab)
  define t where "t = proc_enable_scheduling (T h')"
  have ps: "procs t = (procs (ktab k))(c := (procs (ktab k) c)\<lparr>state := PROC_RECV_BLOCKED, recv_queue := h'\<rparr>)"
    by (auto simp: t_def T_def upd_proc_def proc_disable_scheduling_def proc_enable_scheduling_def)
  have t2: "scheduling_enabled t" "current_proc t = Some c" "idle t = Some d" "next_pid t = next_pid (ktab k)"
    using cur idle by (simp_all add: t_def T_def upd_proc_def proc_disable_scheduling_def proc_enable_scheduling_def)
  have pk: "pids_ok t" using pok by (rule pids_ok_procs) (use t2 us in \<open>auto simp: ps used_slot_def\<close>)
  have us2: "used_slot t c" using us by (simp add: used_slot_def ps)
  obtain res k' n where s: "proc_schedule_without_irq fr ((upd_mmu (\<lambda>_. m') k)\<lparr>ktab := t\<rparr>) = Inr (res, k')"
    "(kmmu k')\<lparr>cr3 := cr3 m'\<rparr> = m'" "procs (ktab k') = (procs t)(c := sched_save fr (procs t c))"
    "current_proc (ktab k') = Some n" "res = trapframe (procs (ktab k') n)" "scheduling_enabled (ktab k')"
    "idle (ktab k') = Some d" "pids_ok (ktab k')" "heap_initialized (kheap k') = heap_initialized (kheap k)"
    by (rule call_ends [OF t2(1-3) pk us2, of fr m' k]) (rule that)
  have emp: "STAILQ_EMPTY (recv_queue (procs (ktab k) c))" using ready qrep_empty by (fastforce simp: wait_ready_def Let_def)
  show ?thesis
  proof (rule that [of res k' m' x h' n, OF _ _ e(2,3) _ _ s(4-8)])
    show "syscall_recv_msg fr regs k = Inr (res, k')"
      using eax cur emp e(1) s(1) by (simp add: syscall_recv_msg_def proc_disable_scheduling_def t_def)
    show "(kmmu k')\<lparr>cr3 := cr3 (kmmu k)\<rparr> = m'" using s(2) e(2) by (auto simp: queued_def heap_upd_def)
    show "heap_rep hp (kheap (upd_mmu (\<lambda>_. m') k')) (insert x L)"
      using e(4) s(9) by (simp add: heap_rep_def kheap_upd_mmu)
    show "procs (ktab k') = (procs (ktab k))(c := (procs (ktab k) c)\<lparr>trapframe := fr, state := PROC_RECV_BLOCKED, recv_queue := h'\<rparr>)"
      unfolding s(3) ps by (auto simp: sched_save_def)
  qed
qed

subsection \<open>Delivery to a waiting receiver\<close>

lemma filled_refl: "heap_state m hp us \<Longrightarrow> filled hp us x (node_word m hp x) m m"
  by (simp add: filled_def)

lemma deliver_fields_effect:
  assumes hs: "heap_state (kmmu k) hp us" and x: "node_ok x" and p: "packet hp (kmmu k) msg mp"
    and ph: "phys_of (kmmu k) (fld (kmmu k) mp 8) ps"
  obtains m' where "deliver_fields cp msg x k = Inr (upd_mmu (\<lambda>_. m') k)"
    and "filled hp us x ((node_word (kmmu k) hp x)(0 := cp, 8 := fld (kmmu k) mp 8, 16 := fld (kmmu k) mp 16, 24 := ps)) (kmmu k) m'"
proof -
  let ?m = "kmmu k" and ?G = "node_word (kmmu k) hp x" and ?F = "fld (kmmu k) mp" and ?K = "\<lambda>m. upd_mmu (\<lambda>_. m) k"
  have hm: "heap_mapped ?m hp" using hs by (simp add: heap_state_def)
  have "\<exists>m1. kst (x + of_nat 0) cp k = Inr (?K m1) \<and> filled hp us x (?G(0 := cp)) ?m m1"
    by (rule filled_store [OF filled_refl [OF hs] x, of 0 cp]) auto
  then obtain m1 where m1: "kst (x + of_nat 0) cp k = Inr (?K m1)" "filled hp us x (?G(0 := cp)) ?m (kmmu (?K m1))" by auto
  have "\<exists>m2. copy_field x msg (of_nat 8) (?K m1) = Inr (?K m2) \<and> filled hp us x (?G(0 := cp, 8 := ?F 8)) ?m m2"
    by (rule copy_field_filled [OF m1(2) x p hm, of 8]) auto
  then obtain m2 where m2: "copy_field x msg (of_nat 8) (?K m1) = Inr (?K m2)"
    "filled hp us x (?G(0 := cp, 8 := ?F 8)) ?m (kmmu (?K m2))" by auto
  have "\<exists>m3. copy_field x msg (of_nat 16) (?K m2) = Inr (?K m3) \<and> filled hp us x (?G(0 := cp, 8 := ?F 8, 16 := ?F 16)) ?m m3"
    by (rule copy_field_filled [OF m2(2) x p hm, of 16]) auto
  then obtain m3 where m3: "copy_field x msg (of_nat 16) (?K m2) = Inr (?K m3)"
    "filled hp us x (?G(0 := cp, 8 := ?F 8, 16 := ?F 16)) ?m (kmmu (?K m3))" by auto
  have "\<exists>m4. phys_field x (of_nat 24) msg (of_nat 8) (?K m3) = Inr (?K m4) \<and>
      filled hp us x (?G(0 := cp, 8 := ?F 8, 16 := ?F 16, 24 := ps)) ?m m4"
    by (rule phys_field_filled [OF m3(2) x p hm _ _ _ ph, of 24]) auto
  then obtain m4 where m4: "phys_field x (of_nat 24) msg (of_nat 8) (?K m3) = Inr (?K m4)"
    "filled hp us x (?G(0 := cp, 8 := ?F 8, 16 := ?F 16, 24 := ps)) ?m m4" by auto
  show ?thesis
    by (rule that [OF _ m4(2)]) (use m1(1) m2(1) m3(1) m4(1) in \<open>simp add: deliver_fields_def MSG_SENDER_def MSG_SEND_BUF_def
        MSG_SEND_LEN_def MSG_PHYS_SEND_BUF_def\<close>)
qed

lemma deliver_reply_effect:
  assumes hs: "heap_state (kmmu k) hp us" and x: "node_ok x" and p: "packet hp (kmmu k) msg mp"
    and ph: "phys_of (kmmu k) (fld (kmmu k) mp 12) pr"
  obtains m' where "deliver_reply msg x k = Inr (upd_mmu (\<lambda>_. m') k)"
    and "filled hp us x ((node_word (kmmu k) hp x)(12 := fld (kmmu k) mp 12, 20 := fld (kmmu k) mp 20, 28 := pr)) (kmmu k) m'"
proof -
  let ?m = "kmmu k" and ?G = "node_word (kmmu k) hp x" and ?F = "fld (kmmu k) mp" and ?K = "\<lambda>m. upd_mmu (\<lambda>_. m) k"
  have hm: "heap_mapped ?m hp" using hs by (simp add: heap_state_def)
  have "\<exists>m1. copy_field x msg (of_nat 12) k = Inr (?K m1) \<and> filled hp us x (?G(12 := ?F 12)) ?m m1"
    by (rule copy_field_filled [OF filled_refl [OF hs] x p hm, of 12]) auto
  then obtain m1 where m1: "copy_field x msg (of_nat 12) k = Inr (?K m1)" "filled hp us x (?G(12 := ?F 12)) ?m (kmmu (?K m1))" by auto
  have "\<exists>m2. copy_field x msg (of_nat 20) (?K m1) = Inr (?K m2) \<and> filled hp us x (?G(12 := ?F 12, 20 := ?F 20)) ?m m2"
    by (rule copy_field_filled [OF m1(2) x p hm, of 20]) auto
  then obtain m2 where m2: "copy_field x msg (of_nat 20) (?K m1) = Inr (?K m2)"
    "filled hp us x (?G(12 := ?F 12, 20 := ?F 20)) ?m (kmmu (?K m2))" by auto
  have "\<exists>m3. phys_field x (of_nat 28) msg (of_nat 12) (?K m2) = Inr (?K m3) \<and>
      filled hp us x (?G(12 := ?F 12, 20 := ?F 20, 28 := pr)) ?m m3"
    by (rule phys_field_filled [OF m2(2) x p hm _ _ _ ph, of 28]) auto
  then obtain m3 where m3: "phys_field x (of_nat 28) msg (of_nat 12) (?K m2) = Inr (?K m3)"
    "filled hp us x (?G(12 := ?F 12, 20 := ?F 20, 28 := pr)) ?m m3" by auto
  show ?thesis
    by (rule that [OF _ m3(2)]) (use m1(1) m2(1) m3(1) in \<open>simp add: deliver_reply_def MSG_RECV_BUF_def
        MSG_RECV_LEN_def MSG_PHYS_RECV_BUF_def\<close>)
qed

text \<open>The bytes of the message, through the window at \<open>base\<close>.\<close>

lemma deliver_buffer_effect:
  assumes ok: "pt_ok (kmmu k)" and hm: "heap_mapped (kmmu k) hp" and x: "node_ok x" and msg: "obj (kmmu k) msg mp 36"
    and wf: "win_free (kmmu k) base"
  defines "p \<equiv> node_word (kmmu k) hp x 28" and "rl \<equiv> node_word (kmmu k) hp x 20"
  assumes len: "0 < rl" "unat (p AND 0xfff) + unat rl \<le> 4096" and src: "obj (kmmu k) (fld (kmmu k) mp 8) sp (unat rl)"
    and dis: "obj_bytes p (unat rl) \<inter> walk_bytes (kmmu k) = {}" "obj_bytes p (unat rl) \<inter> obj_bytes sp (unat rl) = {}"
      "obj_bytes p (unat rl) \<inter> heap_frames hp = {}"
  obtains m' where "deliver_buffer base (base + (p AND 0xfff)) msg x k = Inr (upd_mmu (\<lambda>_. m') k)"
    and "mem_step (obj_bytes p (unat rl)) (kmmu k) m'"
    and "\<And>i. i < unat rl \<Longrightarrow> mem m' (p + of_nat i) = mem (kmmu k) (sp + of_nat i)"
proof -
  let ?m = "kmmu k" and ?np = "node_phys hp x" and ?D = "obj_bytes p (unat rl)"
  have nd: "obj ?m x ?np 40" and nb: "obj_bytes ?np 40 \<subseteq> heap_frames hp"
    using node_obj [OF hm x] by (simp_all add: node_phys_def)
  obtain m1 m2 m3 where w: "kmap p base rl k = Inr (upd_mmu (\<lambda>_. m1) k)"
    "kcopy (base + (p AND 0xfff)) (fld ?m mp 8) rl (upd_mmu (\<lambda>_. m1) k) = Inr (upd_mmu (\<lambda>_. m2) k)"
    "kunmap base rl (upd_mmu (\<lambda>_. m2) k) = Inr (upd_mmu (\<lambda>_. m3) k)" "mem_step ?D ?m m3"
    "\<And>j. j < unat rl \<Longrightarrow> mem m3 (p + of_nat j) = mem ?m (sp + of_nat j)"
    "\<And>a q n. obj ?m a q n \<Longrightarrow> obj m1 a q n \<and> obj m2 a q n"
    "\<And>q. q \<notin> walk_bytes ?m \<Longrightarrow> mem m1 q = mem ?m q"
    "\<And>q. q \<notin> walk_bytes ?m \<Longrightarrow> q \<notin> ?D \<Longrightarrow> mem m2 q = mem ?m q"
    by (rule window_write [OF ok wf len dis(1) src dis(2)]) (rule that)
  have n1: "obj m1 x ?np 40" "obj m2 x ?np 40" "obj m1 msg mp 36" using w(6) nd msg by blast+
  have f1: "fld m1 mp 8 = fld ?m mp 8" "fld m1 ?np 20 = rl"
    using fld_outside [OF msg, where off = 8 and m' = m1 and A = "{}"] fld_outside [OF nd, where off = 20 and m' = m1 and A = "{}"] w(7)
    by (simp_all add: rl_def fld_node)
  have "?D \<inter> obj_bytes ?np 40 = {}" using dis(3) nb by blast
  then have f2: "fld m2 ?np 20 = rl"
    using fld_outside [OF nd, where off = 20 and m' = m2 and A = ?D] w(8) by (simp add: rl_def fld_node)
  let ?k1 = "upd_mmu (\<lambda>_. m1) k" and ?k2 = "upd_mmu (\<lambda>_. m2) k"
  have ld: "kld (x + MSG_PHYS_RECV_BUF) k = Inr p" "kld (x + MSG_RECV_LEN) k = Inr rl" "kld (msg + MSG_SEND_BUF) ?k1 = Inr (fld ?m mp 8)"
    "kld (x + MSG_RECV_LEN) ?k1 = Inr rl" "kld (x + MSG_RECV_LEN) ?k2 = Inr rl"
    unfolding msg_fields
    using kld_obj [OF nd, of 28] kld_obj [OF nd, of 20] kld_obj [of ?k1 msg mp 36 8] kld_obj [of ?k1 x ?np 40 20]
      kld_obj [of ?k2 x ?np 40 20] n1 f1 f2 by (simp_all add: p_def rl_def fld_node)
  show ?thesis
    by (rule that [OF _ w(4,5)]) (simp_all add: deliver_buffer_def ld w(1-3))
qed

text \<open>The sender's process id, written into the receiver's packet through a window.\<close>

lemma window_store:
  assumes ok: "pt_ok (kmmu k)" and wf: "win_free (kmmu k) base" and len: "0 < len" "unat len \<le> 4096"
    and p: "unat (p AND 0xfff) + 4 \<le> 4096" and nwb: "obj_bytes p 4 \<inter> walk_bytes (kmmu k) = {}"
  obtains m1 m2 m3 where "kmap p (base + (p AND 0xfff)) len k = Inr (upd_mmu (\<lambda>_. m1) k)"
    and "kst (base + (p AND 0xfff)) v (upd_mmu (\<lambda>_. m1) k) = Inr (upd_mmu (\<lambda>_. m2) k)"
    and "kunmap (base + (p AND 0xfff)) len (upd_mmu (\<lambda>_. m2) k) = Inr (upd_mmu (\<lambda>_. m3) k)"
    and "mem_step (obj_bytes p 4) (kmmu k) m3" and "fld m3 p 0 = v"
proof -
  let ?va = "base + (p AND 0xfff)"
  have nw: "q \<notin> walk_bytes (kmmu k)" if "q \<in> obj_bytes p 4" for q using nwb that by blast
  have al: "page_aligned base" using wf by (simp add: win_free_def)
  have "p AND 0xfff < 0x1000" by (simp add: word_less_nat_alt unat_and_fff)
  then have va: "PALIGNDOWN ?va = base" using page_add_offset(2) [OF al] by (simp add: PALIGNDOWN_eq)
  obtain m1 where m1: "kmap p ?va len k = Inr (upd_mmu (\<lambda>_. m1) k)" "win_open (kmmu k) base (PALIGNDOWN p) m1"
    by (rule window_map [OF ok wf va len]) (rule that)
  have win: "obj m1 ?va p 4" by (rule win_open_window [OF wf m1(2) p nw])
  have ok1: "pt_ok m1" using m1(2) by (simp add: win_open_def)
  let ?m2 = "m1\<lparr>mem := store32 (mem m1) (p + of_nat 0) v\<rparr>"
  have st: "vstore32 m1 (?va + of_nat 0) v = Inr ?m2" "mem_step (obj_bytes (p + of_nat 0) 4) m1 ?m2"
    by (rule obj_store [OF ok1 win], simp)+
  then have k2: "kst ?va v (upd_mmu (\<lambda>_. m1) k) = Inr (upd_mmu (\<lambda>_. ?m2) k)"
    "mem_step (obj_bytes p 4) m1 (kmmu (upd_mmu (\<lambda>_. ?m2) k))" by (simp_all add: kst_def)
  obtain m3 where m3: "kunmap ?va len (upd_mmu (\<lambda>_. ?m2) k) = Inr (upd_mmu (\<lambda>_. m3) (upd_mmu (\<lambda>_. ?m2) k))"
    "mem_step (obj_bytes p 4) (kmmu k) m3" "\<And>q. q \<notin> walk_bytes (kmmu k) \<Longrightarrow> mem m3 q = mem (kmmu (upd_mmu (\<lambda>_. ?m2) k)) q"
    by (rule window_unmap [OF ok wf m1(2) k2(2) va len]) (rule that)
  have "fld m3 p 0 = fld ?m2 p 0"
    by (rule fld_cong) (use m3(3) nw obj_bytes_mem [of _ 4 p] in auto)
  also have "\<dots> = v" by (simp add: fld_def)
  finally show ?thesis using m1(1) k2(1) m3(1,2) by (intro that [of m1 ?m2 m3]) simp_all
qed

lemma deliver_sender_effect:
  assumes ok: "pt_ok (kmmu k)" and hm: "heap_mapped (kmmu k) hp" and x: "node_ok x" and wf: "win_free (kmmu k) 0xbabe0000"
  defines "p \<equiv> node_word (kmmu k) hp x 32"
  assumes p: "unat (p AND 0xfff) + 4 \<le> 4096" and nwb: "obj_bytes p 4 \<inter> walk_bytes (kmmu k) = {}"
  obtains m' where "deliver_sender cp x k = Inr (upd_mmu (\<lambda>_. m') k)" and "mem_step (obj_bytes p 4) (kmmu k) m'"
    and "fld m' p 0 = cp"
proof -
  have nd: "obj (kmmu k) x (node_phys hp x) 40" using node_obj [OF hm x] by (simp add: node_phys_def)
  have ld: "kld (x + MSG_PHYS_MSG_PACKET) k = Inr p" unfolding msg_fields using kld_obj [OF nd, of 32] by (simp add: p_def fld_node)
  obtain m1 m2 m3 where w: "kmap p (0xbabe0000 + (p AND 0xfff)) 36 k = Inr (upd_mmu (\<lambda>_. m1) k)"
    "kst (0xbabe0000 + (p AND 0xfff)) cp (upd_mmu (\<lambda>_. m1) k) = Inr (upd_mmu (\<lambda>_. m2) k)"
    "kunmap (0xbabe0000 + (p AND 0xfff)) 36 (upd_mmu (\<lambda>_. m2) k) = Inr (upd_mmu (\<lambda>_. m3) k)"
    "mem_step (obj_bytes p 4) (kmmu k) m3" "fld m3 p 0 = cp"
    by (rule window_store [OF ok wf _ _ p nwb, where len = 36 and v = cp]) (simp, simp, rule that)
  show ?thesis
    by (rule that [OF _ w(4,5)]) (simp add: deliver_sender_def Let_def ld w(1-3) SIZEOF_MSG_PACKET_def MSG_SENDER_def)
qed

text \<open>
  What a send to a waiting process needs.  \<open>deliver_room\<close>: the sender's packet and buffers, and
  both windows, for a receive buffer of \<open>rl\<close> bytes at physical address \<open>p\<close> and a packet at \<open>pp\<close>.
  \<open>deliver_ready\<close>: besides, the node \<open>x\<close> which the receiver left in its queue and which holds these.
\<close>

definition deliver_room :: "u32 \<Rightarrow> mmu \<Rightarrow> u32 \<Rightarrow> u32 \<Rightarrow> u32 \<Rightarrow> u32 \<Rightarrow> u32 \<Rightarrow> u32 \<Rightarrow> u32 \<Rightarrow> bool" where
  "deliver_room hp m msg mp ps pr p rl pp \<longleftrightarrow>
     (let D = obj_bytes p (unat rl); P = obj_bytes pp 4; S = obj_bytes ps (unat rl) in
      packet hp m msg mp \<and> heap_mapped m hp \<and> win_free m 0xdead0000 \<and> win_free m 0xbabe0000 \<and>
      phys_of m (fld m mp 8) ps \<and> phys_of m (fld m mp 12) pr \<and> obj m (fld m mp 8) ps (unat rl) \<and> S \<inter> heap_frames hp = {} \<and>
      0 < rl \<and> unat (p AND 0xfff) + unat rl \<le> 4096 \<and> unat (pp AND 0xfff) + 4 \<le> 4096 \<and>
      D \<inter> walk_bytes m = {} \<and> D \<inter> heap_frames hp = {} \<and> D \<inter> S = {} \<and> D \<inter> obj_bytes mp 36 = {} \<and>
      P \<inter> walk_bytes m = {} \<and> P \<inter> heap_frames hp = {} \<and> P \<inter> D = {} \<and> P \<inter> obj_bytes mp 36 = {})"

definition deliver_ready :: "u32 \<Rightarrow> kern \<Rightarrow> u32 \<Rightarrow> u32 \<Rightarrow> nat \<Rightarrow> u32 \<Rightarrow> u32 list \<Rightarrow> u32 set \<Rightarrow> u32 \<Rightarrow> u32 \<Rightarrow> bool" where
  "deliver_ready hp k msg mp r x xs L ps pr \<longleftrightarrow>
     (let m = kmmu k; G = node_word m hp x in
      deliver_room hp m msg mp ps pr (G 28) (G 20) (G 32) \<and> G 12 AND 0xfff = G 28 AND 0xfff \<and>
      proc_find_by_pid (fld m mp 4) (ktab k) = Some r \<and> heap_rep hp (kheap k) L \<and>
      qrep m hp (recv_queue (procs (ktab k) r)) (x # xs) \<and> set (x # xs) \<subseteq> L)"

definition delivered_fields :: "u32 \<Rightarrow> u32 \<Rightarrow> u32 \<Rightarrow> (nat \<Rightarrow> u32) \<Rightarrow> (nat \<Rightarrow> u32) \<Rightarrow> nat \<Rightarrow> u32" where
  "delivered_fields cp ps pr F G = G(0 := cp, 8 := F 8, 16 := F 16, 24 := ps, 12 := F 12, 20 := F 20, 28 := pr)"

text \<open>The two writes to the receiver's memory.\<close>

lemma deliver_writes:
  assumes ok: "pt_ok (kmmu k)" and hm: "heap_mapped (kmmu k) hp" and x: "node_ok x" and msg: "obj (kmmu k) msg mp 36"
    and wf: "win_free (kmmu k) 0xdead0000" "win_free (kmmu k) 0xbabe0000"
  defines "G \<equiv> node_word (kmmu k) hp x"
  defines "D \<equiv> obj_bytes (G 28) (unat (G 20))" and "P \<equiv> obj_bytes (G 32) 4"
  assumes len: "0 < G 20" "unat (G 28 AND 0xfff) + unat (G 20) \<le> 4096" "unat (G 32 AND 0xfff) + 4 \<le> 4096"
    and src: "obj (kmmu k) (fld (kmmu k) mp 8) sp (unat (G 20))"
    and D: "D \<inter> walk_bytes (kmmu k) = {}" "D \<inter> heap_frames hp = {}" "D \<inter> obj_bytes sp (unat (G 20)) = {}"
    and P: "P \<inter> walk_bytes (kmmu k) = {}" "P \<inter> D = {}"
  obtains m1 m2 where "deliver_buffer 0xdead0000 (0xdead0000 + (G 28 AND 0xfff)) msg x k = Inr (upd_mmu (\<lambda>_. m1) k)"
    and "deliver_sender cp x (upd_mmu (\<lambda>_. m1) k) = Inr (upd_mmu (\<lambda>_. m2) k)" and "mem_step (D \<union> P) (kmmu k) m2"
    and "\<And>i. i < unat (G 20) \<Longrightarrow> mem m2 (G 28 + of_nat i) = mem (kmmu k) (sp + of_nat i)" and "fld m2 (G 32) 0 = cp"
proof -
  obtain m1 where m1: "deliver_buffer 0xdead0000 (0xdead0000 + (G 28 AND 0xfff)) msg x k = Inr (upd_mmu (\<lambda>_. m1) k)"
    "mem_step D (kmmu k) m1" "\<And>i. i < unat (G 20) \<Longrightarrow> mem m1 (G 28 + of_nat i) = mem (kmmu k) (sp + of_nat i)"
    by (rule deliver_buffer_effect [OF ok hm x msg wf(1), folded G_def, OF len(1,2) src, folded D_def, OF D(1,3,2)]) (rule that)
  let ?k1 = "upd_mmu (\<lambda>_. m1) k"
  have wb: "walk_bytes m1 = walk_bytes (kmmu k)" using m1(2) by (simp add: mem_step_def)
  have g: "node_word (kmmu ?k1) hp x 32 = G 32" unfolding G_def using node_word_step [OF hm m1(2) D(2) x, of 32] by simp
  have h: "pt_ok (kmmu ?k1)" "heap_mapped (kmmu ?k1) hp" "win_free (kmmu ?k1) 0xbabe0000" "obj_bytes (G 32) 4 \<inter> walk_bytes (kmmu ?k1) = {}"
    using mem_step_pt_ok [OF m1(2)] heap_mapped_step [OF hm m1(2)] win_free_step [OF m1(2) wf(2)] wb P(1) by (simp_all add: P_def)
  obtain m2 where m2: "deliver_sender cp x ?k1 = Inr (upd_mmu (\<lambda>_. m2) ?k1)" "mem_step P m1 m2" "fld m2 (G 32) 0 = cp"
    by (rule deliver_sender_effect [OF h(1,2) x h(3), unfolded g, OF len(3) h(4), of cp]) (use that in \<open>simp add: P_def\<close>)
  show ?thesis
  proof (rule that [of m1 m2, OF m1(1) _ mem_step_trans [OF m1(2) m2(2)] _ m2(3)])
    show "deliver_sender cp x ?k1 = Inr (upd_mmu (\<lambda>_. m2) k)" using m2(1) by simp
    fix i assume i: "i < unat (G 20)"
    then have "G 28 + of_nat i \<in> D" unfolding D_def by (rule obj_bytes_mem)
    then have "G 28 + of_nat i \<notin> walk_bytes m1" "G 28 + of_nat i \<notin> P" using D(1) P(2) wb by blast+
    then show "mem m2 (G 28 + of_nat i) = mem (kmmu k) (sp + of_nat i)" using mem_step_mem [OF m2(2)] m1(3) [OF i] by simp
  qed
qed

text \<open>
  \<open>delivered\<close>: the receiver's buffer, its packet and the node \<open>x\<close> after the delivery; nothing else
  of the memory has changed, and all queues are as before.
\<close>

definition delivered :: "u32 \<Rightarrow> mmu \<Rightarrow> mmu \<Rightarrow> u32 \<Rightarrow> u32 \<Rightarrow> u32 \<Rightarrow> u32 \<Rightarrow> (nat \<Rightarrow> u32) \<Rightarrow> bool" where
  "delivered hp m m' x cp ps pr F \<longleftrightarrow>
     (let G = node_word m hp x in
      mem_step (obj_bytes (G 28) (unat (G 20)) \<union> obj_bytes (G 32) 4 \<union> heap_frames hp) m m' \<and>
      (\<forall>i < unat (G 20). mem m' (G 28 + of_nat i) = mem m (ps + of_nat i)) \<and> fld m' (G 32) 0 = cp \<and>
      (\<forall>y off. node_ok y \<longrightarrow> off < 40 \<longrightarrow> 4 dvd off \<longrightarrow> node_word m' hp y off =
         (if y = x \<and> off < 36 then delivered_fields cp ps pr F G off else node_word m hp y off)))"

lemma delivered_qrep: "delivered hp m m' x cp ps pr F \<Longrightarrow> qrep m hp h ys \<Longrightarrow> qrep m' hp h ys"
  using qrep_cong [of ys m' hp m h] by (auto simp: delivered_def Let_def qrep_def)

lemma deliver_first:
  assumes ready: "deliver_ready hp k msg mp r x xs L ps pr" and us: "heap_state (kmmu k) hp us"
  defines "m \<equiv> kmmu k" and "F \<equiv> fld (kmmu k) mp"
  defines "G \<equiv> node_word m hp x"
  defines "D \<equiv> obj_bytes (G 28) (unat (G 20))" and "P \<equiv> obj_bytes (G 32) 4"
  obtains m1 m2 m3 where "deliver_fields cp msg x k = Inr (upd_mmu (\<lambda>_. m1) k)"
    and "filled hp us x (G(0 := cp, 8 := F 8, 16 := F 16, 24 := ps)) m m1"
    and "deliver_buffer 0xdead0000 (0xdead0000 + (G 28 AND 0xfff)) msg x (upd_mmu (\<lambda>_. m1) k) = Inr (upd_mmu (\<lambda>_. m2) k)"
    and "deliver_sender cp x (upd_mmu (\<lambda>_. m2) k) = Inr (upd_mmu (\<lambda>_. m3) k)" and "mem_step (D \<union> P) m1 m3"
    and "\<And>i. i < unat (G 20) \<Longrightarrow> mem m3 (G 28 + of_nat i) = mem m (ps + of_nat i)" and "fld m3 (G 32) 0 = cp"
proof -
  have r: "packet hp m msg mp" "phys_of m (F 8) ps" "obj m (F 8) ps (unat (G 20))" "obj_bytes ps (unat (G 20)) \<inter> heap_frames hp = {}"
    "qrep m hp (recv_queue (procs (ktab k) r)) (x # xs)" "win_free m 0xdead0000" "win_free m 0xbabe0000"
    "0 < G 20" "unat (G 28 AND 0xfff) + unat (G 20) \<le> 4096" "unat (G 32 AND 0xfff) + 4 \<le> 4096"
    "D \<inter> walk_bytes m = {}" "D \<inter> heap_frames hp = {}" "D \<inter> obj_bytes ps (unat (G 20)) = {}" "P \<inter> walk_bytes m = {}" "P \<inter> D = {}"
    using ready unfolding deliver_ready_def deliver_room_def Let_def m_def D_def P_def G_def F_def by simp_all
  have ok: "pt_ok m" "obj m msg mp 36" using r(1) by (simp_all add: packet_def)
  have hm: "heap_mapped m hp" using us by (simp add: heap_state_def m_def)
  have x: "node_ok x" using r(5) by (simp add: qrep_def)
  obtain m1 where m1: "deliver_fields cp msg x k = Inr (upd_mmu (\<lambda>_. m1) k)"
    "filled hp us x (G(0 := cp, 8 := F 8, 16 := F 16, 24 := ps)) m m1"
    by (rule deliver_fields_effect [OF us x r(1) [unfolded m_def] r(2) [unfolded m_def F_def], of cp]) (use that in \<open>simp add: G_def F_def m_def\<close>)
  note s1 = filled_step [OF m1(2) ok(1) hm]
  let ?k1 = "upd_mmu (\<lambda>_. m1) k"
  have w1: "node_word m1 hp x 28 = G 28" "node_word m1 hp x 20 = G 20" "node_word m1 hp x 32 = G 32" using m1(2) x by (simp_all add: filled_def)
  have f8: "fld m1 mp 8 = F 8" using fld_heap_step [OF s1 r(1), of 8] by (simp add: F_def m_def)
  have h1: "pt_ok (kmmu ?k1)" "heap_mapped (kmmu ?k1) hp" "obj (kmmu ?k1) msg mp 36" "win_free (kmmu ?k1) 0xdead0000" "win_free (kmmu ?k1) 0xbabe0000"
    using mem_step_pt_ok [OF s1] heap_mapped_step [OF hm s1] obj_step [OF s1 ok(2)] win_free_step [OF s1] r(6,7) by simp_all
  have d1: "obj m1 (fld m1 mp 8) ps (unat (G 20))" "D \<inter> walk_bytes m1 = {}" "P \<inter> walk_bytes m1 = {}"
    using obj_step [OF s1 r(3)] f8 r(11,14) s1 by (simp_all add: mem_step_def)
  obtain m2 m3 where m3: "deliver_buffer 0xdead0000 (0xdead0000 + (G 28 AND 0xfff)) msg x ?k1 = Inr (upd_mmu (\<lambda>_. m2) k)"
    "deliver_sender cp x (upd_mmu (\<lambda>_. m2) k) = Inr (upd_mmu (\<lambda>_. m3) k)" "mem_step (D \<union> P) m1 m3"
    "\<And>i. i < unat (G 20) \<Longrightarrow> mem m3 (G 28 + of_nat i) = mem m1 (ps + of_nat i)" "fld m3 (G 32) 0 = cp"
    using deliver_writes [OF h1(1,2) x h1(3-5), unfolded upd_mmu_simps w1, folded D_def P_def, OF r(8,9,10) d1(1,2) r(12,13) d1(3) r(15), of cp] by auto
  have "mem m1 (ps + of_nat i) = mem m (ps + of_nat i)" if i: "i < unat (G 20)" for i
    using mem_step_mem [OF s1 obj_byte(2) [OF r(3) i]] r(4) obj_bytes_mem [OF i, of ps] by blast
  with m1 m3 show ?thesis by (intro that [of m1 m2 m3]) simp_all
qed

lemma deliver_last:
  assumes ready: "deliver_ready hp k msg mp r x xs L ps pr" and us: "heap_state (kmmu k) hp us"
  defines "m \<equiv> kmmu k" and "F \<equiv> fld (kmmu k) mp"
  defines "G \<equiv> node_word m hp x"
  defines "D \<equiv> obj_bytes (G 28) (unat (G 20))" and "P \<equiv> obj_bytes (G 32) 4"
  assumes fi: "filled hp us x F1 m m1" and st: "mem_step (D \<union> P) m1 m3"
  obtains m4 where "deliver_reply msg x (upd_mmu (\<lambda>_. m3) k) = Inr (upd_mmu (\<lambda>_. m4) k)" and "heap_state m4 hp us"
    and "\<And>y off. node_ok y \<Longrightarrow> off < 40 \<Longrightarrow> 4 dvd off \<Longrightarrow> node_word m4 hp y off =
      (if y = x \<and> off < 36 then (F1(12 := F 12, 20 := F 20, 28 := pr)) off else node_word m hp y off)"
    and "mem_step (D \<union> P \<union> heap_frames hp) m m4" and "\<And>q. q \<in> D \<union> P \<Longrightarrow> mem m4 q = mem m3 q"
proof -
  have r: "packet hp m msg mp" "phys_of m (F 12) pr" "qrep m hp (recv_queue (procs (ktab k) r)) (x # xs)"
    "D \<inter> heap_frames hp = {}" "P \<inter> heap_frames hp = {}" "D \<inter> obj_bytes mp 36 = {}" "P \<inter> obj_bytes mp 36 = {}"
    "D \<inter> walk_bytes m = {}" "P \<inter> walk_bytes m = {}"
    using ready unfolding deliver_ready_def deliver_room_def Let_def m_def D_def P_def G_def F_def by simp_all
  have ok: "pt_ok m" "obj m msg mp 36" "obj_bytes mp 36 \<inter> heap_frames hp = {}" using r(1) by (simp_all add: packet_def)
  have hm: "heap_mapped m hp" using us by (simp add: heap_state_def m_def)
  have x: "node_ok x" using r(3) by (simp add: qrep_def)
  have dis: "(D \<union> P) \<inter> heap_frames hp = {}" using r(4,5) by blast
  note s1 = filled_step [OF fi ok(1) hm]
  note hm1 = heap_mapped_step [OF hm s1]
  note s3 = mem_step_trans [OF s1 st]
  have hs1: "heap_state m1 hp us" using fi by (simp add: filled_def)
  have hs3: "heap_state m3 hp us" by (rule heap_state_step [OF hs1 st dis])
  have fm: "fld m3 mp off = F off" if "off + 4 \<le> 36" for off
    unfolding F_def m_def [symmetric]
    by (rule fld_outside [OF ok(2) that, where A = "heap_frames hp \<union> (D \<union> P)"]) (use mem_step_mem [OF s3] ok(3) r(6,7) in blast)+
  let ?k3 = "upd_mmu (\<lambda>_. m3) k"
  have h3: "heap_state (kmmu ?k3) hp us" "packet hp (kmmu ?k3) msg mp" "phys_of (kmmu ?k3) (fld (kmmu ?k3) mp 12) pr"
    using hs3 packet_step [OF s3 r(1)] phys_of_step [OF s3 r(2)] fm by simp_all
  obtain m4 where m4: "deliver_reply msg x ?k3 = Inr (upd_mmu (\<lambda>_. m4) k)"
    "filled hp us x ((node_word m3 hp x)(12 := F 12, 20 := F 20, 28 := pr)) m3 m4"
    using deliver_reply_effect [OF h3(1) x h3(2,3)] fm [of 12] fm [of 20] by auto
  have hm3: "heap_mapped m3 hp" using hs3 by (simp add: heap_state_def)
  note s4 = filled_step [OF m4(2) mem_step_pt_ok [OF s3] hm3]
  have w3: "node_word m3 hp y off = node_word m1 hp y off" if "node_ok y" "off < 40" "4 dvd off" for y off
    using that by (intro node_word_step [OF hm1 st dis]) (auto elim!: dvdE)
  show ?thesis
  proof (rule that [OF m4(1)])
    show "heap_state m4 hp us" using m4(2) by (simp add: filled_def)
    show "node_word m4 hp y off = (if y = x \<and> off < 36 then (F1(12 := F 12, 20 := F 20, 28 := pr)) off else node_word m hp y off)"
      if "node_ok y" "off < 40" "4 dvd off" for y off
      using m4(2) fi w3 [OF that] w3 [OF x that(2,3)] x that by (auto simp: filled_def)
    show "mem_step (D \<union> P \<union> heap_frames hp) m m4"
      by (rule mem_step_mono [OF mem_step_trans [OF s3 s4]]) blast
    show "mem m4 q = mem m3 q" if "q \<in> D \<union> P" for q
      using mem_step_mem [OF s4, of q] that dis r(8,9) s3 by (auto simp: mem_step_def)
  qed
qed

lemma upd_state_simps [simp]:
  "pid (procs (upd_proc i (\<lambda>p. p\<lparr>state := st\<rparr>) t) j) = pid (procs t j)"
  "recv_queue (procs (upd_proc i (\<lambda>p. p\<lparr>state := st\<rparr>) t) j) = recv_queue (procs t j)"
  by (simp_all add: upd_proc_def)

lemma set_pstate_ready [simp]:
  "deliver_ready hp (set_pstate i st k) msg mp r x xs L ps pr = deliver_ready hp k msg mp r x xs L ps pr"
  by (simp add: deliver_ready_def proc_find_by_pid_def)

lemma send_deliver_effect:
  assumes ready: "deliver_ready hp k msg mp r x xs L ps pr"
  defines "m \<equiv> kmmu k"
  shows "\<exists>m'. send_deliver c cp msg r k = Inr (set_pstate r PROC_READY (set_pstate c PROC_SEND_BLOCKED (upd_mmu (\<lambda>_. m') k))) \<and>
    delivered hp m m' x cp ps pr (fld m mp) \<and> heap_rep hp (kheap (upd_mmu (\<lambda>_. m') k)) L"
proof -
  let ?k0 = "set_pstate c PROC_SEND_BLOCKED k" and ?G = "node_word m hp x" and ?F = "fld m mp"
  let ?D = "obj_bytes (?G 28) (unat (?G 20))" and ?P = "obj_bytes (?G 32) 4"
  obtain us where us: "heap_state m hp us" "L = nodes_of us" "heap_initialized (kheap k)"
    using ready by (auto simp: deliver_ready_def Let_def heap_rep_def m_def kmmu_def)
  have us0: "heap_state (kmmu ?k0) hp us" "deliver_ready hp ?k0 msg mp r x xs L ps pr" using us(1) ready by (simp_all add: m_def)
  have q: "qrep m hp (recv_queue (procs (ktab k) r)) (x # xs)" "?G 12 AND 0xfff = ?G 28 AND 0xfff"
    using ready by (simp_all add: deliver_ready_def Let_def m_def)
  obtain m1 m2 m3 where a: "deliver_fields cp msg x ?k0 = Inr (upd_mmu (\<lambda>_. m1) ?k0)"
    "filled hp us x (?G(0 := cp, 8 := ?F 8, 16 := ?F 16, 24 := ps)) m m1"
    "deliver_buffer 0xdead0000 (0xdead0000 + (?G 28 AND 0xfff)) msg x (upd_mmu (\<lambda>_. m1) ?k0) = Inr (upd_mmu (\<lambda>_. m2) ?k0)"
    "deliver_sender cp x (upd_mmu (\<lambda>_. m2) ?k0) = Inr (upd_mmu (\<lambda>_. m3) ?k0)" "mem_step (?D \<union> ?P) m1 m3"
    "\<And>i. i < unat (?G 20) \<Longrightarrow> mem m3 (?G 28 + of_nat i) = mem m (ps + of_nat i)" "fld m3 (?G 32) 0 = cp"
    using deliver_first [OF us0(2,1), of cp] unfolding upd_mmu_simps m_def [symmetric] by metis
  obtain m4 where b: "deliver_reply msg x (upd_mmu (\<lambda>_. m3) ?k0) = Inr (upd_mmu (\<lambda>_. m4) ?k0)" "heap_state m4 hp us"
    "\<And>y off. node_ok y \<Longrightarrow> off < 40 \<Longrightarrow> 4 dvd off \<Longrightarrow> node_word m4 hp y off =
      (if y = x \<and> off < 36 then delivered_fields cp ps pr ?F ?G off else node_word m hp y off)"
    "mem_step (?D \<union> ?P \<union> heap_frames hp) m m4" "\<And>q. q \<in> ?D \<union> ?P \<Longrightarrow> mem m4 q = mem m3 q"
    using deliver_last [OF us0(2,1), unfolded upd_mmu_simps, folded m_def, OF a(2,5)] unfolding delivered_fields_def by metis
  have x: "node_ok x" "STAILQ_FIRST (recv_queue (procs (ktab k) r)) = x" using q(1) by (simp_all add: qrep_def STAILQ_FIRST_def)
  have hm: "heap_mapped m hp" using us(1) by (simp add: heap_state_def)
  have "kld (x + MSG_RECV_BUF) ?k0 = Inr (?G 12)"
    unfolding msg_fields kld_def using node_load [OF hm x(1), of 12] by (simp add: m_def)
  then have run: "send_deliver c cp msg r k = Inr (set_pstate r PROC_READY (set_pstate c PROC_SEND_BLOCKED (upd_mmu (\<lambda>_. m4) k)))"
    using a(1,3,4) b(1) x(2) q(2) by (simp add: send_deliver_def Let_def)
  have "fld m4 (?G 32) 0 = fld m3 (?G 32) 0" by (rule fld_cong) (use b(5) obj_bytes_mem [of _ 4 "?G 32"] in auto)
  then have "delivered hp m m4 x cp ps pr ?F"
    unfolding delivered_def Let_def using a(6,7) b(3-5) obj_bytes_mem [of _ "unat (?G 20)" "?G 28"] by auto
  moreover have "heap_rep hp (kheap (upd_mmu (\<lambda>_. m4) k)) L" using b(2) us(2,3) by (auto simp: heap_rep_def kheap_upd_mmu)
  ultimately show ?thesis using run by blast
qed

lemma deliver_ready_tab:
  assumes "procs t = procs (ktab k)"
  shows "deliver_ready hp (k\<lparr>ktab := t\<rparr>) msg mp r x xs L ps pr = deliver_ready hp k msg mp r x xs L ps pr"
  using assms by (simp add: deliver_ready_def proc_find_by_pid_def)

lemma send_delivers:
  assumes ready: "deliver_ready hp k msg mp r x xs L ps pr" and eax: "kld (regs + REGS_EAX) k = Inr msg"
    and cur: "current_proc (ktab k) = Some c" and us: "used_slot (ktab k) c" and idle: "idle (ktab k) = Some d"
    and pok: "pids_ok (ktab k)" and st: "state (procs (ktab k) r) = PROC_RECV_BLOCKED" and rc: "r \<noteq> c"
  obtains res k' m' n where "syscall_send_msg fr regs k = Inr (res, k')" and "(kmmu k')\<lparr>cr3 := cr3 (kmmu k)\<rparr> = m'"
    and "delivered hp (kmmu k) m' x (pid (procs (ktab k) c)) ps pr (fld (kmmu k) mp)"
    and "heap_rep hp (kheap (upd_mmu (\<lambda>_. m') k')) L"
    and "procs (ktab k') = (procs (ktab k))(c := (procs (ktab k) c)\<lparr>trapframe := fr, state := PROC_SEND_BLOCKED\<rparr>,
        r := (procs (ktab k) r)\<lparr>state := PROC_READY\<rparr>)"
    and "current_proc (ktab k') = Some n" and "res = trapframe (procs (ktab k') n)" and "scheduling_enabled (ktab k')"
proof -
  let ?k0 = "k\<lparr>ktab := proc_disable_scheduling (ktab k)\<rparr>" and ?cp = "pid (procs (ktab k) c)"
  have r0: "deliver_ready hp ?k0 msg mp r x xs L ps pr"
    using ready by (subst deliver_ready_tab) (simp_all add: proc_disable_scheduling_def)
  obtain m' where e: "send_deliver c ?cp msg r ?k0 = Inr (set_pstate r PROC_READY (set_pstate c PROC_SEND_BLOCKED (upd_mmu (\<lambda>_. m') ?k0)))"
    "delivered hp (kmmu k) m' x ?cp ps pr (fld (kmmu k) mp)" "heap_rep hp (kheap (upd_mmu (\<lambda>_. m') ?k0)) L"
    using send_deliver_effect [OF r0, of c ?cp] by auto
  define t where "t = proc_enable_scheduling (upd_proc r (\<lambda>p. p\<lparr>state := PROC_READY\<rparr>)
      (upd_proc c (\<lambda>p. p\<lparr>state := PROC_SEND_BLOCKED\<rparr>) (proc_disable_scheduling (ktab k))))"
  have ps: "procs t = (procs (ktab k))(c := (procs (ktab k) c)\<lparr>state := PROC_SEND_BLOCKED\<rparr>,
      r := (procs (ktab k) r)\<lparr>state := PROC_READY\<rparr>)"
    using rc by (auto simp: t_def upd_proc_def proc_disable_scheduling_def proc_enable_scheduling_def)
  have t2: "scheduling_enabled t" "current_proc t = Some c" "idle t = Some d" "next_pid t = next_pid (ktab k)"
    using cur idle by (simp_all add: t_def upd_proc_def proc_disable_scheduling_def proc_enable_scheduling_def)
  have pk: "pids_ok t" using pok by (rule pids_ok_procs) (use t2 us st in \<open>auto simp: ps used_slot_def\<close>)
  have us2: "used_slot t c" using us rc by (simp add: used_slot_def ps)
  obtain res k' n where s: "proc_schedule_without_irq fr ((upd_mmu (\<lambda>_. m') k)\<lparr>ktab := t\<rparr>) = Inr (res, k')"
    "(kmmu k')\<lparr>cr3 := cr3 m'\<rparr> = m'" "procs (ktab k') = (procs t)(c := sched_save fr (procs t c))"
    "current_proc (ktab k') = Some n" "res = trapframe (procs (ktab k') n)" "scheduling_enabled (ktab k')"
    "heap_initialized (kheap k') = heap_initialized (kheap k)"
    by (rule call_ends [OF t2(1-3) pk us2, of fr m' k]) (rule that)
  have ld: "kld (regs + REGS_EAX) ?k0 = Inr msg" "kld (msg + MSG_RECEIVER) ?k0 = Inr (fld (kmmu k) mp 4)"
    "proc_find_by_pid (fld (kmmu k) mp 4) (ktab ?k0) = Some r"
    using eax ready kld_obj [of k msg mp 36 4]
    by (simp_all add: deliver_ready_def deliver_room_def Let_def packet_def msg_fields proc_disable_scheduling_def proc_find_by_pid_def)
  have k2: "(set_pstate r PROC_READY (set_pstate c PROC_SEND_BLOCKED (upd_mmu (\<lambda>_. m') ?k0)))\<lparr>ktab := t\<rparr> = (upd_mmu (\<lambda>_. m') k)\<lparr>ktab := t\<rparr>"
    by (simp add: set_pstate_def upd_mmu_def)
  show ?thesis
  proof (rule that [of res k' m' n, OF _ _ e(2) _ _ s(4-6)])
    show "syscall_send_msg fr regs k = Inr (res, k')"
      using ld e(1) s(1) [folded k2] cur st
      by (simp add: syscall_send_msg_def Let_def t_def proc_disable_scheduling_def)
    show "(kmmu k')\<lparr>cr3 := cr3 (kmmu k)\<rparr> = m'" using s(2) e(2) by (auto simp: delivered_def Let_def mem_step_def)
    show "heap_rep hp (kheap (upd_mmu (\<lambda>_. m') k')) L" using e(3) s(7) by (simp add: heap_rep_def kheap_upd_mmu)
    show "procs (ktab k') = (procs (ktab k))(c := (procs (ktab k) c)\<lparr>trapframe := fr, state := PROC_SEND_BLOCKED\<rparr>,
        r := (procs (ktab k) r)\<lparr>state := PROC_READY\<rparr>)"
      unfolding s(3) ps using rc by (auto simp: sched_save_def)
  qed
qed

subsection \<open>A receiver that is served\<close>

lemma run_send_kern:
  "kmmu (run_proc i (send_kern w b)) = send_mmu w b" "kheap (run_proc i (send_kern w b)) = kheap (send_kern w b)"
  "ktab (run_proc i (send_kern w b)) = send_tab\<lparr>current_proc := Some i\<rparr>"
  by (simp_all add: run_proc_def upd_mmu_def kmmu_def send_kern_def send_mmu_def ipc_mmu_def)

lemma wait_kern_ready:
  assumes b: "demo_base w b"
  shows "wait_ready 0x10000 (run_proc 0 (send_kern w b)) 0 (b + 0x100) 0x21100 {} 0x21140"
    and "kld (b + 0x154 + REGS_EAX) (run_proc 0 (send_kern w b)) = Inr (b + 0x100)"
proof -
  note st = send_state [OF b]
  have "qrep (send_mmu w b) 0x10000 (recv_queue (procs send_tab 0)) []" by (simp add: send_tab_def demo_proc_def qrep_init)
  then show "wait_ready 0x10000 (run_proc 0 (send_kern w b)) 0 (b + 0x100) 0x21100 {} 0x21140"
    unfolding wait_ready_def Let_def run_send_kern
    using st(5) st(6) [of "0x100"] st(6) [of "0x140"] st(7) [of "0x100"] send_fld(8) [OF b] by (simp add: NODES_MAX_def)
  have "obj (kmmu (run_proc 0 (send_kern w b))) (b + 0x180) 0x21180 4" unfolding run_send_kern using send_page [OF b, of "0x180" 4] by simp
  from kld_obj [OF this, of 0] show "kld (b + 0x154 + REGS_EAX) (run_proc 0 (send_kern w b)) = Inr (b + 0x100)"
    unfolding run_send_kern using send_fld(10) [OF b] by (simp add: REGS_EAX_def add.assoc)
qed

text \<open>The two calls on this state: process 0 waits, then process 1 runs.\<close>

lemma wait_tab:
  "current_proc (ktab (run_proc 0 (send_kern w b))) = Some 0" "used_slot (ktab (run_proc 0 (send_kern w b))) 0"
  "idle (ktab (run_proc 0 (send_kern w b))) = Some 1" "pids_ok (ktab (run_proc 0 (send_kern w b)))"
proof -
  show "used_slot (ktab (run_proc 0 (send_kern w b))) 0" using demo_send_tab_ok(2) by (simp add: run_send_kern used_slot_def)
  show "pids_ok (ktab (run_proc 0 (send_kern w b)))" by (rule pids_ok_procs [OF demo_send_tab_ok(1)]) (simp_all add: run_send_kern)
qed (simp_all add: run_send_kern, simp add: send_tab_def rply_tab_def)

lemma wait_demo:
  obtains res k1 m2 x where "syscall_recv_msg 0x9000 0xba801154 (run_proc 0 (send_kern 0x2ea 0xba801000)) = Inr (res, k1)"
    and "deliver_room 0x10000 (kmmu (run_proc 1 k1)) 0xba801000 0x21000 0x21040 0x21048 0x21140 4 0x21100"
    and "deliver_ready 0x10000 (run_proc 1 k1) 0xba801000 0x21000 0 x [] {x} 0x21040 0x21048"
    and "node_word (kmmu (run_proc 1 k1)) 0x10000 x 28 = 0x21140" and "node_word (kmmu (run_proc 1 k1)) 0x10000 x 20 = 4"
    and "kld (0xba801054 + REGS_EAX) (run_proc 1 k1) = Inr 0xba801000"
    and "proc_find_by_pid (fld (kmmu (run_proc 1 k1)) 0x21000 4) (ktab (run_proc 1 k1)) = Some 0"
    and "used_slot (ktab (run_proc 1 k1)) 1" and "idle (ktab (run_proc 1 k1)) = Some 1" and "pids_ok (ktab (run_proc 1 k1))"
    and "state (procs (ktab k1) 0) = PROC_RECV_BLOCKED" and "pid (procs (ktab k1) 1) = 1"
proof -
  let ?k = "run_proc 0 (send_kern 0x2ea 0xba801000)" and ?m = "send_mmu 0x2ea 0xba801000"
  note b = demo_bases(1)
  note st = send_state [OF b]
  have km: "kmmu ?k = ?m" by (simp add: run_send_kern)
  have eax: "kld (0xba801154 + REGS_EAX) ?k = Inr 0xba801100" "wait_ready 0x10000 ?k 0 0xba801100 0x21100 {} 0x21140"
    using wait_kern_ready [OF b] by simp_all
  obtain res k1 x m' h' where s: "syscall_recv_msg 0x9000 0xba801154 ?k = Inr (res, k1)" "(kmmu k1)\<lparr>cr3 := cr3 ?m\<rparr> = m'"
    "queued 0x10000 ?m m' {} [] x (wait_fields 0x21140 0x21100 (fld ?m 0x21100))" "qrep m' 0x10000 h' [x]"
    "heap_rep 0x10000 (kheap (upd_mmu (\<lambda>_. m') k1)) (insert x {})"
    "procs (ktab k1) = (procs (ktab ?k))(0 := (procs (ktab ?k) 0)\<lparr>trapframe := 0x9000, state := PROC_RECV_BLOCKED, recv_queue := h'\<rparr>)"
    "idle (ktab k1) = Some 1" "pids_ok (ktab k1)"
    by (rule recv_waits [OF eax(2,1) wait_tab, of "0x9000"]) (use that km in simp)
  let ?k2 = "run_proc 1 k1"
  have k2: "kmmu ?k2 = m'" using s(2) by (simp add: run_proc_def send_mmu_def ipc_mmu_def)
  have s2: "mem_step (heap_frames 0x10000) ?m m'" using s(3) by (intro heap_upd_step [OF st(3,4)]) (simp add: queued_def)
  note o = send_demo_objs [OF b s2]
  have f: "fld m' 0x21000 4 = 0" "fld m' 0x21000 8 = 0xba801040" "fld m' 0x21000 12 = 0xba801048" "fld m' 0x21080 0 = 0xba801000"
    using o(5) send_fld [OF b] by simp_all
  have w: "node_word m' 0x10000 x 28 = 0x21140" "node_word m' 0x10000 x 20 = 4" "node_word m' 0x10000 x 32 = 0x21100" "node_word m' 0x10000 x 12 = 0xba801140"
    using queued_word [OF s(3)] send_fld [OF b] by (simp_all add: wait_fields_def)
  have dis: "obj_bytes 0x21140 4 \<inter> walk_bytes m' = {}" "obj_bytes 0x21100 4 \<inter> walk_bytes m' = {}"
    by (auto simp: obj_bytes4 o(4))
  have ph: "phys_of m' 0xba801040 0x21040" "phys_of m' 0xba801048 0x21048" "packet 0x10000 m' 0xba801000 0x21000"
    using phys_of_step [OF s2 st(6) [of "0x40"]] phys_of_step [OF s2 st(6) [of "0x48"]] packet_step [OF s2 st(7) [of 0]] by simp_all
  have room: "deliver_room 0x10000 (kmmu ?k2) 0xba801000 0x21000 0x21040 0x21048 0x21140 4 0x21100"
    unfolding deliver_room_def Let_def k2 f
    using ph dis o(2) o(3) [of "0x40" 4] o(6) [OF send_windows(1)] o(6) [OF send_windows(3)] by (simp add: obj_bytes_apart frames_apart)
  have pk: "pids_ok (ktab ?k2)" using s(8) by (rule pids_ok_procs) (simp_all add: run_proc_def)
  have ps: "procs (ktab k1) = (procs send_tab)(0 := (procs send_tab 0)\<lparr>trapframe := 0x9000, state := PROC_RECV_BLOCKED, recv_queue := h'\<rparr>)"
    using s(6) by (simp add: run_send_kern)
  have us: "used_slot (ktab ?k2) 0" "used_slot (ktab ?k2) 1" using demo_send_tab_ok(2,3) by (simp_all add: used_slot_def ps)
  have fd: "proc_find_by_pid (fld (kmmu ?k2) 0x21000 4) (ktab ?k2) = Some 0"
    unfolding k2 f using find_by_pid_unique [OF pk us(1)] by (simp add: ps send_tab_def)
  have hr: "heap_rep 0x10000 (kheap ?k2) {x}"
    using s(5) k2 by (auto simp: heap_rep_def kheap_upd_mmu kmmu_def)
  have rd: "deliver_ready 0x10000 ?k2 0xba801000 0x21000 0 x [] {x} 0x21040 0x21048"
    using room fd hr s(4) w unfolding deliver_ready_def Let_def k2 by (simp add: ps)
  have eax2: "kld (0xba801054 + REGS_EAX) ?k2 = Inr 0xba801000"
    using kld_obj [of ?k2 "0xba801080" "0x21080" 4 0] o(3) [of "0x80" 4] f(4) unfolding k2 by (simp add: REGS_EAX_def)
  show ?thesis
    by (rule that [OF s(1) room rd _ _ eax2 fd us(2) _ pk])
      (unfold k2, use w s(7) in \<open>simp_all add: ps send_tab_def\<close>, simp add: run_proc_def)
qed

section \<open>Properties\<close>

text \<open>
  C14. A send to a process that waits for a message.  The call returns; the receiver's buffer holds
  the sender's bytes, the receiver's packet names the sender, and the node in the
  receiver's queue describes the message and where its reply shall go.  The receiver is
  ready, the sender waits, no other process changes.  No other node, no queue, and outside
  page tables and kernel heap no other byte of the memory changes.
\<close>

theorem syscall_send_msg_delivers:
  assumes "deliver_ready hp k msg mp r x xs L ps pr" and "kld (regs + REGS_EAX) k = Inr msg"
    and "current_proc (ktab k) = Some c" and "used_slot (ktab k) c" and "idle (ktab k) = Some d"
    and "pids_ok (ktab k)" and "state (procs (ktab k) r) = PROC_RECV_BLOCKED" and "r \<noteq> c"
  shows "\<exists>res k'. syscall_send_msg fr regs k = Inr (res, k') \<and>
    (let m = kmmu k; m' = (kmmu k')\<lparr>cr3 := cr3 m\<rparr> in
     delivered hp m m' x (pid (procs (ktab k) c)) ps pr (fld m mp) \<and>
     qrep m' hp (recv_queue (procs (ktab k') r)) (x # xs) \<and> heap_rep hp (kheap (upd_mmu (\<lambda>_. m') k')) L \<and>
     procs (ktab k') = (procs (ktab k))(c := (procs (ktab k) c)\<lparr>trapframe := fr, state := PROC_SEND_BLOCKED\<rparr>,
        r := (procs (ktab k) r)\<lparr>state := PROC_READY\<rparr>) \<and>
     (\<exists>n. current_proc (ktab k') = Some n \<and> res = trapframe (procs (ktab k') n)) \<and> scheduling_enabled (ktab k'))"
proof -
  obtain res k' m' n where s: "syscall_send_msg fr regs k = Inr (res, k')" "(kmmu k')\<lparr>cr3 := cr3 (kmmu k)\<rparr> = m'"
    "delivered hp (kmmu k) m' x (pid (procs (ktab k) c)) ps pr (fld (kmmu k) mp)" "heap_rep hp (kheap (upd_mmu (\<lambda>_. m') k')) L"
    "procs (ktab k') = (procs (ktab k))(c := (procs (ktab k) c)\<lparr>trapframe := fr, state := PROC_SEND_BLOCKED\<rparr>,
        r := (procs (ktab k) r)\<lparr>state := PROC_READY\<rparr>)"
    "current_proc (ktab k') = Some n" "res = trapframe (procs (ktab k') n)" "scheduling_enabled (ktab k')"
    by (rule send_delivers [OF assms, of fr]) (rule that)
  have "qrep m' hp (recv_queue (procs (ktab k') r)) (x # xs)"
    using delivered_qrep [OF s(3)] assms(1) by (simp add: s(5) deliver_ready_def Let_def)
  with s show ?thesis by (intro exI [of _ res] exI [of _ k']) (simp add: Let_def)
qed

theorem syscall_send_msg_delivers_witness:
  "\<exists>res k1 res2 k3. syscall_recv_msg 0x9000 0xba801154 (run_proc 0 (send_kern 0x2ea 0xba801000)) = Inr (res, k1) \<and>
     syscall_send_msg 0x9000 0xba801054 (run_proc 1 k1) = Inr (res2, k3) \<and>
     mem (kmmu k3) 0x21140 = mem (kmmu k1) 0x21040 \<and> state (procs (ktab k3) 1) = PROC_SEND_BLOCKED"
proof -
  obtain res k1 x where d: "syscall_recv_msg 0x9000 0xba801154 (run_proc 0 (send_kern 0x2ea 0xba801000)) = Inr (res, k1)"
    "deliver_ready 0x10000 (run_proc 1 k1) 0xba801000 0x21000 0 x [] {x} 0x21040 0x21048"
    "node_word (kmmu (run_proc 1 k1)) 0x10000 x 28 = 0x21140" "node_word (kmmu (run_proc 1 k1)) 0x10000 x 20 = 4"
    "kld (0xba801054 + REGS_EAX) (run_proc 1 k1) = Inr 0xba801000" "used_slot (ktab (run_proc 1 k1)) 1"
    "idle (ktab (run_proc 1 k1)) = Some 1" "pids_ok (ktab (run_proc 1 k1))" "state (procs (ktab k1) 0) = PROC_RECV_BLOCKED"
    by (rule wait_demo) (rule that)
  let ?k2 = "run_proc 1 k1"
  have t: "current_proc (ktab ?k2) = Some 1" "state (procs (ktab ?k2) 0) = PROC_RECV_BLOCKED" "(0 :: nat) \<noteq> 1" using d(9) by simp_all
  from syscall_send_msg_delivers [OF d(2,5) t(1) d(6-8) t(2,3), of "0x9000"]
  obtain res2 k3 where r: "syscall_send_msg 0x9000 0xba801054 ?k2 = Inr (res2, k3)"
    "delivered 0x10000 (kmmu ?k2) ((kmmu k3)\<lparr>cr3 := cr3 (kmmu ?k2)\<rparr>) x (pid (procs (ktab ?k2) 1)) 0x21040 0x21048 (fld (kmmu ?k2) 0x21000)"
    "procs (ktab k3) = (procs (ktab ?k2))(1 := (procs (ktab ?k2) 1)\<lparr>trapframe := 0x9000, state := PROC_SEND_BLOCKED\<rparr>,
        0 := (procs (ktab ?k2) 0)\<lparr>state := PROC_READY\<rparr>)"
    unfolding Let_def by blast
  have "\<forall>i < unat (4 :: u32). mem (kmmu k3) (0x21140 + of_nat i) = mem (kmmu ?k2) (0x21040 + of_nat i)"
    using r(2) unfolding delivered_def Let_def d(3,4) by simp
  from this [rule_format, of 0] have "mem (kmmu k3) 0x21140 = mem (kmmu k1) 0x21040" by simp
  moreover have "state (procs (ktab k3) 1) = PROC_SEND_BLOCKED" by (simp add: r(3))
  ultimately show ?thesis using d(1) r(1) by blast
qed

text \<open>
  C11. A waiting receiver is served.  Process \<open>r\<close> asks for a message while its queue is empty: the
  call returns to another process and \<open>r\<close> is blocked.  Later, in a state \<open>k2\<close> in which process \<open>c\<close>
  runs and the kernel's pool and the queue of \<open>r\<close> have not changed, \<open>c\<close> sends to \<open>r\<close>: the bytes of
  the sender are in the frame of the buffer that \<open>r\<close> gave, the packet that \<open>r\<close> gave names
  \<open>c\<close> as the sender, and \<open>r\<close> is ready again.
\<close>

theorem waiting_receiver_served:
  assumes "wait_ready hp k r msg mp L p" and "kld (regs + REGS_EAX) k = Inr msg"
    and "current_proc (ktab k) = Some r" and "used_slot (ktab k) r" and "idle (ktab k) = Some d" and "pids_ok (ktab k)"
    and "syscall_recv_msg fr regs k = Inr (res, k1)"
    and "deliver_room hp (kmmu k2) msg2 mp2 ps pr p (fld (kmmu k) mp 20) mp" and "kld (regs2 + REGS_EAX) k2 = Inr msg2"
    and "proc_find_by_pid (fld (kmmu k2) mp2 4) (ktab k2) = Some r"
    and "current_proc (ktab k2) = Some c" and "used_slot (ktab k2) c" and "idle (ktab k2) = Some d2" and "pids_ok (ktab k2)" and "r \<noteq> c"
    and "state (procs (ktab k2) r) = state (procs (ktab k1) r)"
    and "recv_queue (procs (ktab k2) r) = recv_queue (procs (ktab k1) r)" and "pool_same hp (kmmu k1) (kmmu k2)"
    and "heap_initialized (kheap k2) = heap_initialized (kheap k1)"
  shows "state (procs (ktab k1) r) = PROC_RECV_BLOCKED \<and>
    (\<exists>res2 k3. syscall_send_msg fr2 regs2 k2 = Inr (res2, k3) \<and>
    (\<forall>j < unat (fld (kmmu k) mp 20). mem (kmmu k3) (p + of_nat j) = mem (kmmu k2) (ps + of_nat j)) \<and>
    fld (kmmu k3) mp 0 = pid (procs (ktab k2) c) \<and> state (procs (ktab k3) r) = PROC_READY)"
proof -
  let ?F = "wait_fields p mp (fld (kmmu k) mp)" and ?m2 = "kmmu k2" and ?rl = "fld (kmmu k) mp 20"
  obtain x m' h' where s: "(kmmu k1)\<lparr>cr3 := cr3 (kmmu k)\<rparr> = m'" "queued hp (kmmu k) m' L [] x ?F" "qrep m' hp h' [x]"
    "heap_rep hp (kheap (upd_mmu (\<lambda>_. m') k1)) (insert x L)"
    "procs (ktab k1) = (procs (ktab k))(r := (procs (ktab k) r)\<lparr>trapframe := fr, state := PROC_RECV_BLOCKED, recv_queue := h'\<rparr>)"
    by (rule recv_waits [OF assms(1-6), of fr]) (use assms(7) that in auto)
  have po: "pool_same hp m' ?m2" using assms(18) s(1) by (auto simp: pool_same_def)
  have x: "node_ok x" using s(2) by (simp add: queued_def)
  have w: "node_word ?m2 hp x off = ?F off" if "off < 36" "4 dvd off" for off
    using pool_same_word [OF po x, of off] queued_word [OF s(2) that] that by simp
  have hm: "heap_mapped ?m2 hp" using assms(8) by (simp add: deliver_room_def Let_def)
  have hr: "heap_rep hp (kheap k2) (insert x L)"
    using s(4) pool_same_heap [OF _ po hm] assms(19) by (auto simp: heap_rep_def kheap_upd_mmu kmmu_def)
  have q: "qrep ?m2 hp (recv_queue (procs (ktab k2) r)) (x # [])" using pool_same_qrep [OF po s(3)] assms(17) s(5) by simp
  have g: "node_word ?m2 hp x 28 = p" "node_word ?m2 hp x 20 = ?rl" "node_word ?m2 hp x 32 = mp" "node_word ?m2 hp x 12 = fld (kmmu k) mp 12"
    using w by (simp_all add: wait_fields_def)
  have ph: "fld (kmmu k) mp 12 AND 0xfff = p AND 0xfff"
    using assms(1) phys_of_page(2) [of "kmmu k" "fld (kmmu k) mp 12" p] by (simp add: wait_ready_def Let_def)
  have rd: "deliver_ready hp k2 msg2 mp2 r x [] (insert x L) ps pr"
    unfolding deliver_ready_def Let_def g using assms(8,10) hr q ph by simp
  have blk: "state (procs (ktab k1) r) = PROC_RECV_BLOCKED" by (simp add: s(5))
  then have st: "state (procs (ktab k2) r) = PROC_RECV_BLOCKED" using assms(16) by simp
  obtain res2 k3 m3 where t: "syscall_send_msg fr2 regs2 k2 = Inr (res2, k3)" "(kmmu k3)\<lparr>cr3 := cr3 ?m2\<rparr> = m3"
    "delivered hp ?m2 m3 x (pid (procs (ktab k2) c)) ps pr (fld ?m2 mp2)"
    "procs (ktab k3) = (procs (ktab k2))(c := (procs (ktab k2) c)\<lparr>trapframe := fr2, state := PROC_SEND_BLOCKED\<rparr>,
        r := (procs (ktab k2) r)\<lparr>state := PROC_READY\<rparr>)"
    by (rule send_delivers [OF rd assms(9,11-14) st assms(15), of fr2]) (rule that)
  have "mem (kmmu k3) = mem m3" using t(2) by auto
  then have "(\<forall>j < unat ?rl. mem (kmmu k3) (p + of_nat j) = mem ?m2 (ps + of_nat j)) \<and> fld (kmmu k3) mp 0 = pid (procs (ktab k2) c)"
    using t(3) g by (simp add: delivered_def Let_def fld_def)
  moreover have "state (procs (ktab k3) r) = PROC_READY" by (simp add: t(4))
  ultimately show ?thesis using blk t(1) by blast
qed

theorem waiting_receiver_served_witness:
  "\<exists>res k1 res2 k3. syscall_recv_msg 0x9000 0xba801154 (run_proc 0 (send_kern 0x2ea 0xba801000)) = Inr (res, k1) \<and>
     syscall_send_msg 0x9000 0xba801054 (run_proc 1 k1) = Inr (res2, k3) \<and>
     load32 (mem (kmmu k3)) 0x21100 = 1 \<and> state (procs (ktab k3) 0) = PROC_READY"
proof -
  let ?k = "run_proc 0 (send_kern 0x2ea 0xba801000)"
  obtain res k1 where d: "syscall_recv_msg 0x9000 0xba801154 ?k = Inr (res, k1)"
    "deliver_room 0x10000 (kmmu (run_proc 1 k1)) 0xba801000 0x21000 0x21040 0x21048 0x21140 4 0x21100"
    "kld (0xba801054 + REGS_EAX) (run_proc 1 k1) = Inr 0xba801000"
    "proc_find_by_pid (fld (kmmu (run_proc 1 k1)) 0x21000 4) (ktab (run_proc 1 k1)) = Some 0" "used_slot (ktab (run_proc 1 k1)) 1"
    "idle (ktab (run_proc 1 k1)) = Some 1" "pids_ok (ktab (run_proc 1 k1))" "pid (procs (ktab k1) 1) = 1"
    by (rule wait_demo) (rule that)
  let ?k2 = "run_proc 1 k1"
  have w: "wait_ready 0x10000 ?k 0 0xba801100 0x21100 {} 0x21140" "kld (0xba801154 + REGS_EAX) ?k = Inr 0xba801100"
    using wait_kern_ready [OF demo_bases(1)] by simp_all
  have room: "deliver_room 0x10000 (kmmu ?k2) 0xba801000 0x21000 0x21040 0x21048 0x21140 (fld (kmmu ?k) 0x21100 20) 0x21100"
    using d(2) send_fld(9) [OF demo_bases(1)] by (simp add: run_send_kern)
  have t: "current_proc (ktab ?k2) = Some 1" "(0 :: nat) \<noteq> 1" "state (procs (ktab ?k2) 0) = state (procs (ktab k1) 0)"
    "recv_queue (procs (ktab ?k2) 0) = recv_queue (procs (ktab k1) 0)" "pool_same 0x10000 (kmmu k1) (kmmu ?k2)"
    "heap_initialized (kheap ?k2) = heap_initialized (kheap k1)" by (simp_all add: pool_same_def)
  from waiting_receiver_served [OF w wait_tab d(1) room d(3,4) t(1) d(5-7) t(2-6), of "0x9000"]
  obtain res2 k3 where "syscall_send_msg 0x9000 0xba801054 ?k2 = Inr (res2, k3)" "fld (kmmu k3) 0x21100 0 = pid (procs (ktab ?k2) 1)"
    "state (procs (ktab k3) 0) = PROC_READY" by blast
  with d(1,8) show ?thesis by (auto simp: fld_def)
qed

end
