(* ===== verification/Queues.thy ===== *)
theory Queues
  imports Deliver
begin

text \<open>
  Sequences of system calls on messages (\<^verbatim>\<open>kernel/syscall.c\<close>): \<open>msg_step\<close> is any of send, receive and reply
  by the current process, in a state that is ready for it in the sense of \<open>Send\<close>, \<open>Ipc\<close> and \<open>Deliver\<close>, or any other code
  that leaves the pool and the queues alone.

  \<open>msg_inv\<close> says how heap and queues fit together, in terms of physical memory, since calls of
  different processes run in different address spaces; \<open>queue_step\<close> is the specification, lists per process.
  Shown: the calls keep the invariant and refine the specification.
\<close>

section \<open>Definitions\<close>

text \<open>A process that makes a system call, with the packet at \<open>msg\<close>.\<close>

definition caller :: "kern \<Rightarrow> nat \<Rightarrow> u32 \<Rightarrow> u32 \<Rightarrow> bool" where
  "caller k c regs msg \<longleftrightarrow> kld (regs + REGS_EAX) k = Inr msg \<and> current_proc (ktab k) = Some c \<and>
     used_slot (ktab k) c \<and> idle (ktab k) \<noteq> None \<and> pids_ok (ktab k)"

definition runs :: "kern \<Rightarrow> nat \<Rightarrow> bool" where
  "runs k c \<longleftrightarrow> state (procs (ktab k) c) = PROC_RUNNING \<or> state (procs (ktab k) c) = PROC_READY"

text \<open>What any other code does that leaves the pool, the queues and the waiting processes alone; it may create processes with an empty queue.\<close>

definition queues_alone :: "u32 \<Rightarrow> kern \<Rightarrow> kern \<Rightarrow> bool" where
  "queues_alone hp k k' \<longleftrightarrow> pool_same hp (kmmu k) (kmmu k') \<and> (heap_initialized (kheap k) \<longrightarrow> heap_initialized (kheap k')) \<and>
     (\<forall>i < NPROCS. (recv_queue (procs (ktab k') i) = recv_queue (procs (ktab k) i) \<or>
          STAILQ_EMPTY (recv_queue (procs (ktab k) i)) \<and> recv_queue (procs (ktab k') i) = STAILQ_INIT) \<and>
        (state (procs (ktab k') i) = PROC_RECV_BLOCKED \<longrightarrow> state (procs (ktab k) i) = PROC_RECV_BLOCKED))"

inductive msg_step :: "u32 \<Rightarrow> kern \<Rightarrow> kern \<Rightarrow> bool" for hp where
  post: "send_ready hp k msg mp r xs L ps pr \<Longrightarrow> caller k c regs msg \<Longrightarrow> state (procs (ktab k) r) \<noteq> PROC_RECV_BLOCKED \<Longrightarrow>
    syscall_send_msg fr regs k = Inr (res, k') \<Longrightarrow> msg_step hp k k'"
| deliver: "deliver_ready hp k msg mp r x xs L ps pr \<Longrightarrow> caller k c regs msg \<Longrightarrow> state (procs (ktab k) r) = PROC_RECV_BLOCKED \<Longrightarrow>
    r \<noteq> c \<Longrightarrow> syscall_send_msg fr regs k = Inr (res, k') \<Longrightarrow> msg_step hp k k'"
| wait: "wait_ready hp k c msg mp L pr \<Longrightarrow> caller k c regs msg \<Longrightarrow>
    syscall_recv_msg fr regs k = Inr (res, k') \<Longrightarrow> msg_step hp k k'"
| fetch: "recv_ready hp k c msg mp x xs dp \<Longrightarrow> caller k c regs msg \<Longrightarrow> runs k c \<Longrightarrow>
    syscall_recv_msg fr regs k = Inr (res, k') \<Longrightarrow> msg_step hp k k'"
| answer: "rply_ready hp k c msg mp x xs L sp i \<Longrightarrow> caller k c regs msg \<Longrightarrow> runs k c \<Longrightarrow> used_slot (ktab k) i \<Longrightarrow>
    syscall_rply_msg fr regs k = Inr (res, k') \<Longrightarrow> msg_step hp k k'"
| other: "queues_alone hp k k' \<Longrightarrow> msg_step hp k k'"

inductive msg_reach :: "u32 \<Rightarrow> kern \<Rightarrow> kern \<Rightarrow> bool" for hp where
  start: "msg_reach hp k k"
| step: "msg_reach hp k k' \<Longrightarrow> msg_step hp k' k'' \<Longrightarrow> msg_reach hp k k''"

text \<open>
  The specification: a list of messages per process.  A message is appended with a new name or the
  first one of a process is removed; nothing else happens to the lists.
\<close>

type_synonym queues = "nat \<Rightarrow> u32 list"

definition queued_nodes :: "queues \<Rightarrow> u32 set" where
  "queued_nodes Q = (\<Union>i<NPROCS. set (Q i))"

inductive queue_step :: "queues \<Rightarrow> queues \<Rightarrow> bool" for Q where
  keep: "queue_step Q Q"
| append: "r < NPROCS \<Longrightarrow> x \<notin> queued_nodes Q \<Longrightarrow> queue_step Q (Q(r := Q r @ [x]))"
| remove: "c < NPROCS \<Longrightarrow> Q c = x # xs \<Longrightarrow> queue_step Q (Q(c := xs))"

inductive queue_reach :: "queues \<Rightarrow> queues \<Rightarrow> bool" where
  start: "queue_reach Q Q"
| step: "queue_reach Q Q' \<Longrightarrow> queue_step Q' Q'' \<Longrightarrow> queue_reach Q Q''"

text \<open>The blocks of the pool, whether or not the current address space maps it.\<close>

definition pool_blocks :: "mmu \<Rightarrow> u32 \<Rightarrow> bool list \<Rightarrow> bool" where
  "pool_blocks m hp us \<longleftrightarrow> node_off (length us) + 12 \<le> 16384 \<and>
     (\<forall>k < length us. block_at m hp (node_off k) (if us ! k then BLOCK_USED else BLOCK_UNUSED)
        (haddr (node_off (Suc k))) 40) \<and>
     block_at m hp (node_off (length us)) BLOCK_UNUSED 0 (of_nat (16376 - node_off (length us)))"

text \<open>
  The invariant: the queues of the processes are the lists \<open>Q\<close>, no two of which share a node; the
  nodes in use are exactly those in the queues; a process that waits has a node to be filled.
\<close>

definition msg_inv :: "u32 \<Rightarrow> kern \<Rightarrow> queues \<Rightarrow> bool" where
  "msg_inv hp k Q \<longleftrightarrow> heap_initialized (kheap k) \<and> (\<exists>us. pool_blocks (kmmu k) hp us \<and> nodes_of us = queued_nodes Q) \<and>
     (\<forall>i < NPROCS. qrep (kmmu k) hp (recv_queue (procs (ktab k) i)) (Q i)) \<and>
     (\<forall>i < NPROCS. \<forall>j < NPROCS. i \<noteq> j \<longrightarrow> set (Q i) \<inter> set (Q j) = {}) \<and>
     (\<forall>i < NPROCS. state (procs (ktab k) i) = PROC_RECV_BLOCKED \<longrightarrow> Q i \<noteq> [])"

section \<open>Lemmas\<close>

subsection \<open>Blocks and queues are determined by the memory\<close>

lemma heap_state_blocks: "heap_state m hp us \<longleftrightarrow> heap_mapped m hp \<and> pool_blocks m hp us"
  by (auto simp: heap_state_def pool_blocks_def)

lemma pool_blocks_prefix:
  assumes "pool_blocks m hp us" and "pool_blocks m hp vs" and "length us < length vs"
  shows False
proof -
  have "block_at m hp (node_off (length us)) BLOCK_UNUSED 0 (of_nat (16376 - node_off (length us)))"
    "block_at m hp (node_off (length us)) (if vs ! length us then BLOCK_USED else BLOCK_UNUSED) (haddr (node_off (Suc (length us)))) 40"
    using assms unfolding pool_blocks_def by blast+
  then have "haddr (node_off (Suc (length us))) = 0" by (simp add: block_at_def)
  moreover have "node_off (Suc (length us)) \<le> node_off (length vs)"
    using assms(3) unfolding node_off_def by (intro mult_le_mono1) simp
  ultimately show False
    using haddr_nonzero [of "node_off (Suc (length us))"] assms(2) by (simp add: pool_blocks_def)
qed

lemma pool_blocks_unique:
  assumes "pool_blocks m hp us" and "pool_blocks m hp vs"
  shows "us = vs"
proof (rule nth_equalityI)
  show l: "length us = length vs"
    using pool_blocks_prefix assms by (metis linorder_neqE_nat)
  fix k assume k: "k < length us"
  have "block_at m hp (node_off k) (if us ! k then BLOCK_USED else BLOCK_UNUSED) (haddr (node_off (Suc k))) 40"
    "block_at m hp (node_off k) (if vs ! k then BLOCK_USED else BLOCK_UNUSED) (haddr (node_off (Suc k))) 40"
    using assms k l unfolding pool_blocks_def by auto
  then have "(if us ! k then BLOCK_USED else BLOCK_UNUSED) = (if vs ! k then BLOCK_USED else BLOCK_UNUSED)"
    by (simp only: block_at_def)
  then show "us ! k = vs ! k"
    by (cases "us ! k"; cases "vs ! k") (simp_all add: BLOCK_USED_def BLOCK_UNUSED_def)
qed

lemma pool_blocks_same:
  assumes "pool_same hp m m'" and "pool_blocks m hp us"
  shows "pool_blocks m' hp us"
proof -
  have "block_at m' hp (node_off j) ty nx sz = block_at m hp (node_off j) ty nx sz" if "j \<le> length us" for j ty nx sz
  proof (rule block_at_cong)
    fix z assume z: "node_off j \<le> z" "z < node_off j + 12"
    have "node_off j \<le> node_off (length us)" using that unfolding node_off_def by (intro mult_le_mono1)
    then have "z < 16384" using z assms(2) by (simp add: pool_blocks_def)
    then show "hbyte m' hp z = hbyte m hp z" using assms(1) by (simp add: pool_same_def heap_frames_def hbyte_def)
  qed
  then show ?thesis using assms(2) by (simp add: pool_blocks_def del: of_nat_diff)
qed

lemma qpath_unique:
  assumes "qpath m hp a xs" and "qpath m hp a ys" and "\<forall>x \<in> set xs \<union> set ys. node_ok x"
  shows "xs = ys"
  using assms
proof (induction xs arbitrary: a ys)
  case Nil
  then show ?case using node_ok_nonzero by (cases ys) auto
next
  case (Cons x xs)
  then show ?case using node_ok_nonzero by (cases ys) auto
qed

lemma qrep_unique: "qrep m hp h xs \<Longrightarrow> qrep m hp h ys \<Longrightarrow> xs = ys"
  by (rule qpath_unique [of m hp "stqh_first h"]) (auto simp: qrep_def)

subsection \<open>Using and establishing the invariant\<close>

lemma msg_inv_heap:
  assumes "msg_inv hp k Q" and "heap_mapped (kmmu k) hp"
  shows "heap_rep hp (kheap k) (queued_nodes Q)"
  using assms by (auto simp: msg_inv_def heap_rep_def heap_state_blocks kmmu_def)

lemma msg_inv_nodes:
  assumes "msg_inv hp k Q" and "heap_rep hp (kheap k) L"
  shows "L = queued_nodes Q"
proof -
  obtain us vs where "pool_blocks (kmmu k) hp us" "nodes_of us = queued_nodes Q" "pool_blocks (kmmu k) hp vs" "L = nodes_of vs"
    using assms by (auto simp: msg_inv_def heap_rep_def heap_state_blocks kmmu_def)
  then show ?thesis using pool_blocks_unique by blast
qed

lemma msg_inv_queue:
  assumes "msg_inv hp k Q" and "i < NPROCS" and "qrep (kmmu k) hp (recv_queue (procs (ktab k) i)) xs"
  shows "Q i = xs"
  using assms qrep_unique by (auto simp: msg_inv_def)

lemma queued_nodes_sub: "i < NPROCS \<Longrightarrow> set (Q i) \<subseteq> queued_nodes Q"
  by (auto simp: queued_nodes_def)

text \<open>A call leaves memory \<open>m'\<close>, in the address space of the caller.\<close>

lemma msg_invI:
  assumes "(kmmu k')\<lparr>cr3 := cr\<rparr> = m'" and "heap_rep hp (kheap (upd_mmu (\<lambda>_. m') k')) (queued_nodes Q)"
    and "\<And>i. i < NPROCS \<Longrightarrow> qrep m' hp (recv_queue (procs (ktab k') i)) (Q i)"
    and "\<And>i j. i < NPROCS \<Longrightarrow> j < NPROCS \<Longrightarrow> i \<noteq> j \<Longrightarrow> set (Q i) \<inter> set (Q j) = {}"
    and "\<And>i. i < NPROCS \<Longrightarrow> state (procs (ktab k') i) = PROC_RECV_BLOCKED \<Longrightarrow> Q i \<noteq> []"
  shows "msg_inv hp k' Q"
proof -
  have po: "pool_same hp m' (kmmu k')" using assms(1) by (auto simp: pool_same_def)
  obtain us where "pool_blocks m' hp us" "nodes_of us = queued_nodes Q" "heap_initialized (kheap k')"
    using assms(2) by (auto simp: heap_rep_def heap_state_blocks kheap_upd_mmu)
  then show ?thesis
    unfolding msg_inv_def using assms(3-5) pool_blocks_same [OF po] pool_same_qrep [OF po] by blast
qed

lemma msg_inv_disjoint:
  "msg_inv hp k Q \<Longrightarrow> i < NPROCS \<Longrightarrow> j < NPROCS \<Longrightarrow> i \<noteq> j \<Longrightarrow> set (Q i) \<inter> set (Q j) = {}"
  by (simp add: msg_inv_def)

lemma append_disjoint:
  assumes "msg_inv hp k Q" and "x \<notin> queued_nodes Q" and "i < NPROCS" and "j < NPROCS" and "i \<noteq> j"
  shows "set ((Q(r := Q r @ [x])) i) \<inter> set ((Q(r := Q r @ [x])) j) = {}"
proof -
  have "x \<notin> set (Q i)" "x \<notin> set (Q j)" using assms(2-4) queued_nodes_sub by blast+
  then show ?thesis using msg_inv_disjoint [OF assms(1,3-5)] assms(5) by auto
qed

lemma append_nodes: "r < NPROCS \<Longrightarrow> queued_nodes (Q(r := Q r @ [x])) = insert x (queued_nodes Q)"
  by (auto simp: queued_nodes_def split: if_splits)

lemma queued_nodes_at: "c < NPROCS \<Longrightarrow> queued_nodes Q = set (Q c) \<union> (\<Union>i \<in> {..<NPROCS} - {c}. set (Q i))"
  by (auto simp: queued_nodes_def)

lemma remove_nodes:
  assumes inv: "msg_inv hp k Q" and c: "c < NPROCS" and q: "Q c = x # xs"
  shows "queued_nodes (Q(c := xs)) = queued_nodes Q - {x}"
proof -
  have "x \<notin> set xs" using inv c q by (force simp: msg_inv_def qrep_def)
  moreover have "x \<notin> set (Q i)" if "i < NPROCS" "i \<noteq> c" for i
    using msg_inv_disjoint [OF inv that(1) c that(2)] q by auto
  ultimately show ?thesis using q unfolding queued_nodes_at [OF c] by auto
qed

subsection \<open>The calls\<close>

text \<open>A new node at the end of a queue.\<close>

lemma append_step:
  assumes inv: "msg_inv hp k Q" and r: "r < NPROCS" and cr: "(kmmu k')\<lparr>cr3 := cr\<rparr> = m'"
    and q: "queued hp (kmmu k) m' (queued_nodes Q) (Q r) x F" and h: "qrep m' hp h' (Q r @ [x])"
    and hr: "heap_rep hp (kheap (upd_mmu (\<lambda>_. m') k')) (insert x (queued_nodes Q))"
    and qs: "\<And>i. recv_queue (procs (ktab k') i) = (if i = r then h' else recv_queue (procs (ktab k) i))"
    and st: "\<And>i. i \<noteq> r \<Longrightarrow> state (procs (ktab k') i) = PROC_RECV_BLOCKED \<Longrightarrow> state (procs (ktab k) i) = PROC_RECV_BLOCKED"
  shows "\<exists>Q'. queue_step Q Q' \<and> msg_inv hp k' Q'"
proof (intro exI conjI)
  let ?Q = "Q(r := Q r @ [x])"
  have x: "x \<notin> queued_nodes Q" using q by (simp add: queued_def)
  show "queue_step Q ?Q" using r x by (rule queue_step.append)
  show "msg_inv hp k' ?Q"
  proof (rule msg_invI [OF cr])
    show "heap_rep hp (kheap (upd_mmu (\<lambda>_. m') k')) (queued_nodes ?Q)" using hr r by (simp add: append_nodes)
    fix i assume i: "i < NPROCS"
    show "qrep m' hp (recv_queue (procs (ktab k') i)) (?Q i)"
    proof (cases "i = r")
      case False
      have "set (Q i) \<subseteq> queued_nodes Q - set (Q r)"
        using msg_inv_disjoint [OF inv i r False] queued_nodes_sub [OF i] by blast
      then show ?thesis using False q qs inv i by (simp add: queued_def msg_inv_def)
    qed (use h qs in simp)
    show "?Q i \<noteq> []" if "state (procs (ktab k') i) = PROC_RECV_BLOCKED"
      using that st [of i] inv i by (cases "i = r") (auto simp: msg_inv_def)
  qed (use append_disjoint [OF inv x] in blast)
qed

lemma post_step:
  assumes inv: "msg_inv hp k Q" and ready: "send_ready hp k msg mp r xs L ps pr" and cl: "caller k c regs msg"
    and st: "state (procs (ktab k) r) \<noteq> PROC_RECV_BLOCKED" and call: "syscall_send_msg fr regs k = Inr (res, k')"
  shows "\<exists>Q'. queue_step Q Q' \<and> msg_inv hp k' Q'"
proof -
  have rd: "proc_find_by_pid (fld (kmmu k) mp 4) (ktab k) = Some r" "heap_rep hp (kheap k) L" "qrep (kmmu k) hp (recv_queue (procs (ktab k) r)) xs"
    using ready by (simp_all add: send_ready_def Let_def)
  have r: "r < NPROCS" using find_by_pid_Some [OF rd(1)] by simp
  have L: "L = queued_nodes Q" "xs = Q r" using msg_inv_nodes [OF inv rd(2)] msg_inv_queue [OF inv r rd(3)] by simp_all
  obtain d where cl': "kld (regs + REGS_EAX) k = Inr msg" "current_proc (ktab k) = Some c" "used_slot (ktab k) c"
    "idle (ktab k) = Some d" "pids_ok (ktab k)" using cl by (auto simp: caller_def)
  obtain x m' h' where s: "(kmmu k')\<lparr>cr3 := cr3 (kmmu k)\<rparr> = m'"
    "queued hp (kmmu k) m' L xs x (sent_fields (pid (procs (ktab k) c)) ps pr (fld (kmmu k) mp))"
    "qrep m' hp h' (xs @ [x])" "heap_rep hp (kheap (upd_mmu (\<lambda>_. m') k')) (insert x L)"
    "procs (ktab k') = ((procs (ktab k))(r := (procs (ktab k) r)\<lparr>recv_queue := h'\<rparr>))(c := sched_save fr
      (if state (procs (ktab k) r) = PROC_READY then
         (((procs (ktab k))(r := (procs (ktab k) r)\<lparr>recv_queue := h'\<rparr>)) c)\<lparr>state := PROC_REPLY_BLOCKED\<rparr>
       else ((procs (ktab k))(r := (procs (ktab k) r)\<lparr>recv_queue := h'\<rparr>)) c))"
    by (rule send_posts [OF ready cl' st, of fr]) (use call that in auto)
  show ?thesis
    by (rule append_step [OF inv r s(1) s(2-4) [unfolded L]])
      (auto simp: s(5) sched_save_def split: if_splits)
qed

lemma wait_step:
  assumes inv: "msg_inv hp k Q" and ready: "wait_ready hp k c msg mp L pr" and cl: "caller k c regs msg"
    and call: "syscall_recv_msg fr regs k = Inr (res, k')"
  shows "\<exists>Q'. queue_step Q Q' \<and> msg_inv hp k' Q'"
proof -
  have rd: "heap_rep hp (kheap k) L" "qrep (kmmu k) hp (recv_queue (procs (ktab k) c)) []"
    using ready by (simp_all add: wait_ready_def Let_def)
  obtain d where cl': "kld (regs + REGS_EAX) k = Inr msg" "current_proc (ktab k) = Some c" "used_slot (ktab k) c"
    "idle (ktab k) = Some d" "pids_ok (ktab k)" using cl by (auto simp: caller_def)
  have c: "c < NPROCS" using cl'(3) by (simp add: used_slot_def)
  have L: "L = queued_nodes Q" "Q c = []" using msg_inv_nodes [OF inv rd(1)] msg_inv_queue [OF inv c rd(2)] by simp_all
  obtain x m' h' where s: "(kmmu k')\<lparr>cr3 := cr3 (kmmu k)\<rparr> = m'"
    "queued hp (kmmu k) m' L [] x (wait_fields pr mp (fld (kmmu k) mp))" "qrep m' hp h' ([] @ [x])"
    "heap_rep hp (kheap (upd_mmu (\<lambda>_. m') k')) (insert x L)"
    "procs (ktab k') = (procs (ktab k))(c := (procs (ktab k) c)\<lparr>trapframe := fr, state := PROC_RECV_BLOCKED, recv_queue := h'\<rparr>)"
    by (rule recv_waits [OF ready cl', of fr]) (use call that in auto)
  show ?thesis
    by (rule append_step [OF inv c s(1), unfolded L(2), OF s(2-4) [unfolded L(1)]]) (auto simp: s(5))
qed

lemma deliver_step:
  assumes inv: "msg_inv hp k Q" and ready: "deliver_ready hp k msg mp r x xs L ps pr" and cl: "caller k c regs msg"
    and st: "state (procs (ktab k) r) = PROC_RECV_BLOCKED" "r \<noteq> c" and call: "syscall_send_msg fr regs k = Inr (res, k')"
  shows "msg_inv hp k' Q"
proof -
  obtain d where cl': "kld (regs + REGS_EAX) k = Inr msg" "current_proc (ktab k) = Some c" "used_slot (ktab k) c"
    "idle (ktab k) = Some d" "pids_ok (ktab k)" using cl by (auto simp: caller_def)
  have L: "L = queued_nodes Q" using ready by (intro msg_inv_nodes [OF inv]) (simp add: deliver_ready_def Let_def)
  obtain m' where s: "(kmmu k')\<lparr>cr3 := cr3 (kmmu k)\<rparr> = m'"
    "delivered hp (kmmu k) m' x (pid (procs (ktab k) c)) ps pr (fld (kmmu k) mp)" "heap_rep hp (kheap (upd_mmu (\<lambda>_. m') k')) L"
    "procs (ktab k') = (procs (ktab k))(c := (procs (ktab k) c)\<lparr>trapframe := fr, state := PROC_SEND_BLOCKED\<rparr>,
        r := (procs (ktab k) r)\<lparr>state := PROC_READY\<rparr>)"
    by (rule send_delivers [OF ready cl' st, of fr]) (use call that in auto)
  show ?thesis
    by (rule msg_invI [OF s(1) s(3) [unfolded L]])
      (use inv delivered_qrep [OF s(2)] in \<open>auto simp: s(4) msg_inv_def split: if_splits\<close>)
qed

lemma fetch_step:
  assumes inv: "msg_inv hp k Q" and ready: "recv_ready hp k c msg mp x xs dp" and cl: "caller k c regs msg"
    and run: "runs k c" and call: "syscall_recv_msg fr regs k = Inr (res, k')"
  shows "msg_inv hp k' Q"
proof -
  obtain d where cl': "kld (regs + REGS_EAX) k = Inr msg" "current_proc (ktab k) = Some c" "used_slot (ktab k) c"
    "idle (ktab k) = Some d" "pids_ok (ktab k)" using cl by (auto simp: caller_def)
  let ?A = "obj_bytes dp (unat (fld (kmmu k) mp 20)) \<union> obj_bytes mp 4"
  have hm: "heap_mapped (kmmu k) hp" "?A \<inter> heap_frames hp = {}"
    using ready obj_bytes_mono [of 4 36 mp] by (auto simp: recv_ready_def Let_def)
  obtain m' where s: "(kmmu k')\<lparr>cr3 := cr3 (kmmu k)\<rparr> = m'" "mem_step ?A (kmmu k) m'"
    "procs (ktab k') = (procs (ktab k))(c := (procs (ktab k) c)\<lparr>trapframe := fr, state := PROC_READY\<rparr>)"
    "heap_initialized (kheap k') = heap_initialized (kheap k)"
    by (rule recv_takes [OF ready cl' run [unfolded runs_def], of fr]) (use call that in auto)
  have "heap_rep hp (kheap (upd_mmu (\<lambda>_. m') k)) (queued_nodes Q)"
    by (rule heap_rep_step [OF msg_inv_heap [OF inv hm(1)] s(2) hm(2)])
  then have hr: "heap_rep hp (kheap (upd_mmu (\<lambda>_. m') k')) (queued_nodes Q)"
    using s(4) by (simp add: heap_rep_def kheap_upd_mmu)
  show ?thesis
    by (rule msg_invI [OF s(1) hr])
      (use inv qrep_step [OF hm(1) s(2) hm(2)] in \<open>auto simp: s(3) msg_inv_def split: if_splits\<close>)
qed

lemma answer_step:
  assumes inv: "msg_inv hp k Q" and ready: "rply_ready hp k c msg mp x xs L sp i" and cl: "caller k c regs msg"
    and run: "runs k c" and us: "used_slot (ktab k) i" and call: "syscall_rply_msg fr regs k = Inr (res, k')"
  shows "\<exists>Q'. queue_step Q Q' \<and> msg_inv hp k' Q'"
proof -
  have rd: "heap_rep hp (kheap k) L" "qrep (kmmu k) hp (recv_queue (procs (ktab k) c)) (x # xs)"
    using ready by (simp_all add: rply_ready_def Let_def)
  obtain d where cl': "kld (regs + REGS_EAX) k = Inr msg" "current_proc (ktab k) = Some c" "used_slot (ktab k) c"
    "idle (ktab k) = Some d" "pids_ok (ktab k)" using cl by (auto simp: caller_def)
  have c: "c < NPROCS" using cl'(3) by (simp add: used_slot_def)
  have L: "L = queued_nodes Q" "Q c = x # xs" using msg_inv_nodes [OF inv rd(1)] msg_inv_queue [OF inv c rd(2)] by simp_all
  obtain m' where s: "(kmmu k')\<lparr>cr3 := cr3 (kmmu k)\<rparr> = m'" "qrep m' hp (recv_queue (procs (ktab k') c)) xs"
    "heap_rep hp (kheap (upd_mmu (\<lambda>_. m') k')) (L - {x})" "state (procs (ktab k') i) = PROC_READY" "state (procs (ktab k') c) = PROC_READY"
    "\<forall>j. j \<noteq> c \<longrightarrow> j \<noteq> i \<longrightarrow> procs (ktab k') j = procs (ktab k) j"
    "i \<noteq> c \<longrightarrow> procs (ktab k') i = (procs (ktab k) i)\<lparr>state := PROC_READY\<rparr>"
    "\<forall>h ys. qrep (kmmu k) hp h ys \<longrightarrow> set ys \<subseteq> L \<longrightarrow> qrep m' hp h ys"
    by (rule rply_answers [OF ready cl'(1-3) us cl'(4,5) run [unfolded runs_def], of fr]) (use call that in auto)
  have rq: "recv_queue (procs (ktab k') j) = recv_queue (procs (ktab k) j)" if "j \<noteq> c" for j
    using s(6,7) that by (cases "j = i") simp_all
  show ?thesis
  proof (intro exI conjI)
    let ?Q = "Q(c := xs)"
    show "queue_step Q ?Q" using c L(2) by (rule queue_step.remove)
    show "msg_inv hp k' ?Q"
    proof (rule msg_invI [OF s(1)])
      show "heap_rep hp (kheap (upd_mmu (\<lambda>_. m') k')) (queued_nodes ?Q)" using s(3) remove_nodes [OF inv c L(2)] L(1) by simp
    next
      fix j assume j: "j < NPROCS"
      show "qrep m' hp (recv_queue (procs (ktab k') j)) (?Q j)"
        using s(2,8) inv j queued_nodes_sub [OF j, of Q] L(1) by (cases "j = c") (auto simp: msg_inv_def rq)
      show "?Q j \<noteq> []" if "state (procs (ktab k') j) = PROC_RECV_BLOCKED"
        using that s(4-6) inv j by (cases "j = c"; cases "j = i") (auto simp: msg_inv_def)
    next
      fix j l assume "j < NPROCS" "l < NPROCS" "j \<noteq> l"
      then show "set (?Q j) \<inter> set (?Q l) = {}" using msg_inv_disjoint [OF inv, of j l] L(2) by (auto split: if_splits)
    qed
  qed
qed

lemma other_step:
  assumes inv: "msg_inv hp k Q" and al: "queues_alone hp k k'"
  shows "msg_inv hp k' Q"
proof -
  have po: "pool_same hp (kmmu k) (kmmu k')" using al by (simp add: queues_alone_def)
  have q: "qrep (kmmu k') hp (recv_queue (procs (ktab k') i)) (Q i)" if i: "i < NPROCS" for i
  proof -
    have qi: "qrep (kmmu k) hp (recv_queue (procs (ktab k) i)) (Q i)" using inv i by (simp add: msg_inv_def)
    consider "recv_queue (procs (ktab k') i) = recv_queue (procs (ktab k) i)"
      | "STAILQ_EMPTY (recv_queue (procs (ktab k) i))" "recv_queue (procs (ktab k') i) = STAILQ_INIT"
      using al i by (auto simp: queues_alone_def)
    then show ?thesis using pool_same_qrep [OF po qi] qrep_empty [OF qi] qrep_init by cases simp_all
  qed
  then show ?thesis
    using inv al pool_blocks_same [OF po] unfolding msg_inv_def queues_alone_def by blast
qed

lemma msg_step_queues:
  assumes "msg_step hp k k'" and "msg_inv hp k Q"
  shows "\<exists>Q'. queue_step Q Q' \<and> msg_inv hp k' Q'"
  using assms(1)
proof cases
  case post
  then show ?thesis using post_step [OF assms(2)] by blast
next
  case deliver
  then show ?thesis using deliver_step [OF assms(2)] queue_step.keep by blast
next
  case wait
  then show ?thesis using wait_step [OF assms(2)] by blast
next
  case fetch
  then show ?thesis using fetch_step [OF assms(2)] queue_step.keep by blast
next
  case answer
  then show ?thesis using answer_step [OF assms(2)] by blast
next
  case other
  then show ?thesis using other_step [OF assms(2)] queue_step.keep by blast
qed

lemma msg_inv_start:
  assumes "heap_rep hp (kheap k) {}" and "\<forall>i < NPROCS. recv_queue (procs (ktab k) i) = STAILQ_INIT"
    and "\<forall>i < NPROCS. state (procs (ktab k) i) \<noteq> PROC_RECV_BLOCKED"
  shows "msg_inv hp k (\<lambda>_. [])"
  using assms qrep_init by (auto simp: msg_inv_def heap_rep_def heap_state_blocks queued_nodes_def kmmu_def)

subsection \<open>Kernel code that leaves the queues alone\<close>

lemma resched_alone:
  assumes "resched k c fr r k'"
  shows "queues_alone hp k k'"
  using assms by (auto simp: resched_def queues_alone_def pool_same_def sched_save_def split: if_splits)

text \<open>A scheduling step, a reply with nothing to answer, and a send to nobody.\<close>

lemma schedule_alone:
  assumes "scheduling_enabled (ktab k)" and "caller k c regs msg" and "proc_schedule_without_irq fr k = Inr (r, k')"
  shows "queues_alone hp k k'"
proof -
  obtain d where "current_proc (ktab k) = Some c" "used_slot (ktab k) c" "idle (ktab k) = Some d" "pids_ok (ktab k)"
    using assms(2) by (auto simp: caller_def)
  from schedule_resched [OF assms(1) this, of fr] assms(3) resched_alone show ?thesis by auto
qed

lemma empty_reply_alone:
  assumes cl: "caller k c regs msg" and emp: "STAILQ_EMPTY (recv_queue (procs (ktab k) c))"
    and call: "syscall_rply_msg fr regs k = Inr (r, k')"
  shows "queues_alone hp k k'"
proof -
  let ?k1 = "k\<lparr>ktab := proc_enable_scheduling (proc_disable_scheduling (ktab k))\<rparr>"
  have "proc_schedule_without_irq fr ?k1 = Inr (r, k')"
    using cl emp call by (simp add: syscall_rply_msg_def caller_def Let_def proc_disable_scheduling_def)
  moreover have "caller ?k1 c regs msg" "scheduling_enabled (ktab ?k1)"
    using cl by (simp_all add: caller_def proc_disable_scheduling_def proc_enable_scheduling_def used_slot_def pids_ok_def)
  ultimately have "queues_alone hp ?k1 k'" using schedule_alone by blast
  then show ?thesis by (simp add: queues_alone_def proc_disable_scheduling_def proc_enable_scheduling_def)
qed

lemma unknown_alone:
  assumes "kld (regs + REGS_EAX) k = Inr msg" and "kld (msg + MSG_RECEIVER) k = Inr rcv"
    and "proc_find_by_pid rcv (ktab k) = None" and "syscall_send_msg fr regs k = Inr (r, k')"
  shows "queues_alone hp k k'"
  using assms by (auto simp: syscall_send_msg_def Let_def proc_find_by_pid_def proc_disable_scheduling_def queues_alone_def pool_same_def)

lemma msg_reach_queues:
  assumes "msg_reach hp k k'" and "msg_inv hp k Q"
  shows "\<exists>Q'. queue_reach Q Q' \<and> msg_inv hp k' Q'"
  using assms
proof (induction rule: msg_reach.induct)
  case (start k)
  then show ?case using queue_reach.start by blast
next
  case (step k k' k'')
  then show ?case using msg_step_queues queue_reach.step by blast
qed

section \<open>Properties\<close>



end
