(* ===== verification/Faults.thy ===== *)
theory Faults
  imports Deliver
begin

text \<open>
  Calls that go wrong (\<^verbatim>\<open>kernel/syscall.c\<close>): a receive from a buffer that crosses the end of a page, and
  a send to a process that is neither ready nor waiting.
\<close>

section \<open>Lemmas\<close>

subsection \<open>Copying up to an unmapped address\<close>

lemma memcpy_add:
  "memcpy dst src (n + l) s = kbind (memcpy dst src n s) (\<lambda>s. memcpy (dst + of_nat n) (src + of_nat n) l s)"
proof (induction n arbitrary: dst src s)
  case (Suc n)
  show ?case
    by (cases "vload8 s src"; simp; cases "vstore8 s dst (projr (vload8 s src))") (simp_all add: Suc.IH add.assoc [symmetric])
qed simp

lemma memcpy_faults:
  assumes "memcpy dst src n s = Inr s'" and "translate s' (src + of_nat n) = Inl f"
  shows "memcpy dst src (n + Suc l) s = Inl f"
  using assms unfolding memcpy_add by (simp add: vload8_def)

lemma obj_copy_faults:
  assumes ok: "pt_ok (kmmu k)" and d: "obj (kmmu k) dst dp n" and s: "obj (kmmu k) src sp n"
    and dis: "obj_bytes dp n \<inter> obj_bytes sp n = {}" and n: "n < unat len"
    and end': "vm_pdir_idx (src + of_nat n) \<noteq> 1023" "translate (kmmu k) (src + of_nat n) = Inl f"
  shows "kcopy dst src len k = Inl f"
proof -
  have un: "unat (of_nat n :: u32) = n" using n unsigned_less [of len, where 'a = nat] by (simp add: unsigned_of_nat take_bit_nat_eq_self_iff)
  obtain m' where m': "kcopy dst src (of_nat n) k = Inr (upd_mmu (\<lambda>_. m') k)" "mem_step (obj_bytes dp n) (kmmu k) m'"
    using obj_copy [of k dst dp "of_nat n" src sp] ok d s dis unfolding un by metis
  have "x = m'" if "upd_mmu (\<lambda>_. x) k = upd_mmu (\<lambda>_. m') k" for x
    using arg_cong [OF that, of kmmu] by simp
  then have "memcpy dst src n (kmmu k) = Inr m'"
    using m'(1) by (auto simp: kcopy_def un kbind_Inr_iff)
  moreover have "translate m' (src + of_nat n) = Inl f" using m'(2) end' by (simp add: mem_step_def)
  ultimately have "memcpy dst src (n + Suc (unat len - Suc n)) (kmmu k) = Inl f" by (rule memcpy_faults)
  then show ?thesis using n by (simp add: kcopy_def)
qed

text \<open>A window of one page, and a buffer that goes on behind it.\<close>

lemma window_read_faults:
  assumes ok: "pt_ok (kmmu k)" and wf: "win_free (kmmu k) base" and sl: "0 < sl" "unat sl \<le> 4096"
    and len: "n = 4096 - unat (p AND 0xfff)" "n < unat rl"
    and nwb: "obj_bytes p n \<inter> walk_bytes (kmmu k) = {}"
    and dst: "obj (kmmu k) dst dp n" and dis: "obj_bytes dp n \<inter> obj_bytes p n = {}"
    and nxt: "vm_pdir_idx (base + 0x1000) \<noteq> 1023" "translate (kmmu k) (base + 0x1000) = Inl f"
  obtains m1 where "kmap p base sl k = Inr (upd_mmu (\<lambda>_. m1) k)"
    and "kcopy dst (base + (p AND 0xfff)) rl (upd_mmu (\<lambda>_. m1) k) = Inl f"
    and "\<And>a q n. obj (kmmu k) a q n \<Longrightarrow> obj m1 a q n"
    and "\<And>q. q \<notin> walk_bytes (kmmu k) \<Longrightarrow> mem m1 q = mem (kmmu k) q"
proof -
  have al: "page_aligned base" using wf by (simp add: win_free_def)
  have lt: "p AND 0xfff < 0x1000" by (simp add: word_less_nat_alt unat_and_fff)
  then have un: "unat (p AND 0xfff) < 4096" by (simp add: word_less_nat_alt)
  have nw: "q \<notin> walk_bytes (kmmu k)" if "q \<in> obj_bytes p n" for q using nwb that by blast
  obtain m1 where m1: "kmap p base sl k = Inr (upd_mmu (\<lambda>_. m1) k)" "win_open (kmmu k) base (PALIGNDOWN p) m1"
    by (rule window_map [OF ok wf PALIGNDOWN_aligned [OF al] sl]) (rule that)
  have ob1: "obj m1 a q j" if "obj (kmmu k) a q j" for a q j by (rule win_open_obj [OF wf m1(2) that])
  have win: "obj m1 (base + (p AND 0xfff)) p n" by (rule win_open_window [OF wf m1(2) _ nw]) (use len(1) un in simp)
  have "(p AND 0xfff) + of_nat n = of_nat (unat (p AND 0xfff) + n)" by simp
  also have "\<dots> = 0x1000" using len(1) un by simp
  finally have e: "base + (p AND 0xfff) + of_nat n = base + 0x1000" by (simp add: add.assoc)
  have "(base + 0x1000) AND 0xfffff000 \<noteq> base" using page_of_page_at [OF al, of 1] by (simp add: page_at_def PAGE_SIZE_def)
  then have tr: "translate m1 (base + 0x1000) = Inl f" using m1(2) nxt by (simp add: win_open_def)
  let ?k1 = "upd_mmu (\<lambda>_. m1) k"
  have "kcopy dst (base + (p AND 0xfff)) rl ?k1 = Inl f"
    by (rule obj_copy_faults [where src = "base + (p AND 0xfff)" and dp = dp and sp = p and n = n, unfolded e])
      (use m1(2) ob1 [OF dst] win dis len(2) nxt(1) tr in \<open>simp_all add: win_open_def\<close>)
  then show ?thesis using m1 ob1 by (intro that [of m1]) (auto simp: win_open_def)
qed

text \<open>What a receive has when the sender's buffer goes on behind the end of its page.\<close>

definition recv_crossing :: "u32 \<Rightarrow> kern \<Rightarrow> nat \<Rightarrow> u32 \<Rightarrow> u32 \<Rightarrow> u32 \<Rightarrow> u32 list \<Rightarrow> u32 \<Rightarrow> bool" where
  "recv_crossing hp k c msg mp x xs dp \<longleftrightarrow>
     (let m = kmmu k; np = node_phys hp x; ps = fld m np 24; sl = fld m np 16; rl = fld m mp 20;
          n = 4096 - unat (ps AND 0xfff) in
      pt_ok m \<and> heap_mapped m hp \<and> node_ok x \<and> qrep m hp (recv_queue (procs (ktab k) c)) (x # xs) \<and>
      win_free m 0xbabe0000 \<and> translate m 0xbabe1000 = Inl (PageFault 0xbabe1000) \<and>
      obj m msg mp 36 \<and> obj m (fld m mp 12) dp (unat rl) \<and>
      0 < sl \<and> unat sl \<le> 4096 \<and> n < unat rl \<and> fld m np 8 AND 0xfff = ps AND 0xfff \<and>
      obj_bytes ps n \<inter> walk_bytes m = {} \<and> obj_bytes dp n \<inter> obj_bytes ps n = {})"

lemma recv_take_faults:
  assumes ready: "recv_crossing hp k c msg mp x xs dp"
  shows "recv_take c msg k = Inl (PageFault 0xbabe1000)"
proof -
  define m where "m = kmmu k"
  let ?np = "node_phys hp x" and ?rl = "fld m mp 20"
  define ps where "ps = fld m ?np 24"
  define n where "n = 4096 - unat (ps AND 0xfff)"
  have r: "pt_ok m" "heap_mapped m hp" "node_ok x" "qrep m hp (recv_queue (procs (ktab k) c)) (x # xs)"
    "win_free m 0xbabe0000" "translate m 0xbabe1000 = Inl (PageFault 0xbabe1000)" "obj m msg mp 36" "obj m (fld m mp 12) dp (unat ?rl)"
    "0 < fld m ?np 16" "unat (fld m ?np 16) \<le> 4096" "n < unat ?rl" "fld m ?np 8 AND 0xfff = ps AND 0xfff"
    "obj_bytes ps n \<inter> walk_bytes m = {}" "obj_bytes dp n \<inter> obj_bytes ps n = {}"
    using ready unfolding recv_crossing_def Let_def m_def ps_def n_def by blast+
  have nd: "obj m x ?np 40" using node_obj [OF r(2,3)] by (simp add: node_phys_def)
  have d: "obj m (fld m mp 12) dp n" using r(8,11) by (simp add: obj_def)
  have nxt: "vm_pdir_idx (0xbabe0000 + 0x1000) \<noteq> 1023" "translate (kmmu k) (0xbabe0000 + 0x1000) = Inl (PageFault 0xbabe1000)"
    using r(6) by (simp_all add: vm_pdir_idx_def m_def)
  obtain m1 where w: "kmap ps 0xbabe0000 (fld m ?np 16) k = Inr (upd_mmu (\<lambda>_. m1) k)"
    "kcopy (fld m mp 12) (0xbabe0000 + (ps AND 0xfff)) ?rl (upd_mmu (\<lambda>_. m1) k) = Inl (PageFault 0xbabe1000)"
    "\<And>a q n. obj m a q n \<Longrightarrow> obj m1 a q n" "\<And>q. q \<notin> walk_bytes m \<Longrightarrow> mem m1 q = mem m q"
    by (rule window_read_faults [OF r(1,5,9,10) [unfolded m_def] n_def r(11) [unfolded m_def] r(13) [unfolded m_def]
        d [unfolded m_def] r(14) nxt, folded m_def]) (rule that)
  have ld: "kld (x + MSG_SEND_BUF) k = Inr (fld m ?np 8)" "kld (x + MSG_PHYS_SEND_BUF) k = Inr ps"
    "kld (x + MSG_SEND_LEN) k = Inr (fld m ?np 16)"
    unfolding msg_fields ps_def m_def by (rule kld_obj [OF nd [unfolded m_def]]; simp)+
  have f1: "fld m1 mp 12 = fld m mp 12" "fld m1 mp 20 = ?rl"
    using fld_outside [OF r(7), where off = 12 and m' = m1 and A = "{}"]
      fld_outside [OF r(7), where off = 20 and m' = m1 and A = "{}"] w(4) by simp_all
  have ld1: "kld (msg + MSG_RECV_BUF) (upd_mmu (\<lambda>_. m1) k) = Inr (fld m mp 12)"
    "kld (msg + MSG_RECV_LEN) (upd_mmu (\<lambda>_. m1) k) = Inr ?rl"
    unfolding msg_fields using kld_obj [of "upd_mmu (\<lambda>_. m1) k" msg mp 36 12] kld_obj [of "upd_mmu (\<lambda>_. m1) k" msg mp 36 20]
      w(3) [OF r(7)] f1 by simp_all
  have fst: "STAILQ_FIRST (recv_queue (procs (ktab k) c)) = x" using r(4) by (simp add: qrep_def STAILQ_FIRST_def)
  show ?thesis
    unfolding recv_take_def Let_def fst ld kbind_Inr r(12) w(1) ld1 w(2) by simp
qed

subsection \<open>Concrete states\<close>

text \<open>The queued message of \<open>recv_kern\<close>, with its buffer at the last two bytes of a page.\<close>

definition cross_mmu :: mmu where
  "cross_mmu = ipc_mmu 0x2ea [(1, 0x21003)] [(3, 7), (5, 0x20ffe), (7, 4), (9, 0x20ffe)]
     [(3, 0xba801040), (5, 4), (32, 0xba801000)]"

definition cross_kern :: kern where
  "cross_kern = rply_kern\<lparr>kheap := \<lparr>hvms = \<lparr>vmmu = cross_mmu, vpm = pm_fresh\<rparr>, heap_initialized = True\<rparr>\<rparr>"

lemma cross_ok: "ipc_ok 0x2ea [(1, 0x21003)] [(3, 7), (5, 0x20ffe), (7, 4), (9, 0x20ffe)]
     [(3, 0xba801040), (5, 4), (32, 0xba801000)]"
  by (simp add: ipc_ok_def small_idx_def)

lemmas cross_tables = ipc_tables [OF cross_ok, folded cross_mmu_def]
lemmas cross_pool = ipc_pool [OF cross_ok, folded cross_mmu_def]
lemmas cross_word = ipc_word [OF cross_ok, folded cross_mmu_def]

lemma cross_fld:
  "fld cross_mmu 0x1000c 8 = 0x20ffe" "fld cross_mmu 0x1000c 16 = 4" "fld cross_mmu 0x1000c 24 = 0x20ffe"
  "fld cross_mmu 0x1000c 36 = 0" "fld cross_mmu 0x21000 12 = 0xba801040" "fld cross_mmu 0x21000 20 = 4" "fld cross_mmu 0x21080 0 = 0xba801000"
  using cross_word(1) [of 5] cross_word(1) [of 7] cross_word(1) [of 9] cross_word(1) [of 12]
    cross_word(2) [of 3] cross_word(2) [of 5] cross_word(2) [of 32]
  by (simp_all add: fld_def hword_def hphys_def)

lemma cross_page: "unat off + n \<le> 4096 \<Longrightarrow> obj cross_mmu (0xba801000 + off) (0x21000 + off) n"
  unfolding cross_mmu_def
  by (rule ipc_page [OF cross_ok]) (simp_all add: page_aligned_def vm_pdir_idx_def vm_ptab_idx_def)

lemma cross_kern_ready:
  "recv_crossing 0x10000 cross_kern 1 0xba801000 0x21000 0xe400000c [] 0x21040"
  "kld (0xba801054 + REGS_EAX) cross_kern = Inr 0xba801000"
proof -
  have m: "kmmu cross_kern = cross_mmu" "ktab cross_kern = rply_tab" by (simp_all add: kmmu_def cross_kern_def rply_kern_def)
  have q: "qrep cross_mmu 0x10000 (recv_queue (procs rply_tab 1)) [0xe400000c]"
    using cross_fld(4) rply_addr(1,5) by (simp add: qrep_def rply_tab_def node_word_def fld_def heap_pool_addr_def)
  have wf: "win_free cross_mmu 0xbabe0000" "translate cross_mmu 0xbabe1000 = Inl (PageFault 0xbabe1000)"
    by (simp_all add: win_free_def page_aligned_def has_table_def vm_pdir_idx_def vm_ptab_idx_def translate_def
        cross_tables(1,3) flag_defs)
  have ob: "obj cross_mmu 0xba801000 0x21000 36" "obj cross_mmu 0xba801040 0x21040 4"
    using cross_page [of 0 36] cross_page [of "0x40" 4] by simp_all
  have b: "obj_bytes 0x20ffe 2 = {0x20ffe, 0x20fff}"
    unfolding obj_bytes_def by (auto simp: lessThan_Suc numeral_2_eq_2)
  have "obj_bytes 0x20ffe 2 \<inter> walk_bytes cross_mmu = {}" by (auto simp: b cross_tables(5))
  moreover have "obj_bytes 0x21040 2 \<inter> obj_bytes 0x20ffe 2 = {}" by (simp add: obj_bytes_apart)
  ultimately show "recv_crossing 0x10000 cross_kern 1 0xba801000 0x21000 0xe400000c [] 0x21040"
    unfolding recv_crossing_def Let_def m rply_addr(4) cross_fld
    using cross_tables(4) cross_pool rply_addr(5) q wf ob by simp
  show "kld (0xba801054 + REGS_EAX) cross_kern = Inr 0xba801000"
    using kld_obj [of cross_kern "0xba801080" "0x21080" 4 0] cross_page [of "0x80" 4] cross_fld(7)
    by (simp add: m REGS_EAX_def)
qed

text \<open>The receiver of \<open>send_kern\<close> waits for a reply itself.\<close>

definition busy_kern :: kern where
  "busy_kern = (send_kern 0x2ea 0xba801000)\<lparr>ktab := upd_proc 0 (\<lambda>p. p\<lparr>state := PROC_REPLY_BLOCKED\<rparr>) send_tab\<rparr>"

lemma busy_kern_ready:
  "send_ready 0x10000 busy_kern 0xba801000 0x21000 0 [] {} 0x21040 0x21048" "kld (0xba801054 + REGS_EAX) busy_kern = Inr 0xba801000"
  "used_slot (ktab busy_kern) 1" "pids_ok (ktab busy_kern)"
proof -
  note r = send_kern_ready [OF demo_bases(1)] and st = send_state [OF demo_bases(1)]
  have t: "ktab busy_kern = upd_proc 0 (\<lambda>p. p\<lparr>state := PROC_REPLY_BLOCKED\<rparr>) send_tab" by (simp add: busy_kern_def)
  show "send_ready 0x10000 busy_kern 0xba801000 0x21000 0 [] {} 0x21040 0x21048"
    using r(1) st(2) by (simp add: send_ready_def busy_kern_def proc_find_by_pid_def kmmu_def)
  show "kld (0xba801054 + REGS_EAX) busy_kern = Inr 0xba801000" using r(2) by (simp add: busy_kern_def)
  show "used_slot (ktab busy_kern) 1" using demo_send_tab_ok(3) by (simp add: t used_slot_def upd_proc_def)
  show "pids_ok (ktab busy_kern)" using demo_send_tab_ok(1)
    by (rule pids_ok_procs) (use demo_send_tab_ok(2) in \<open>auto simp: t used_slot_def upd_proc_def\<close>)
qed

section \<open>Properties\<close>

text \<open>
  C38. A receive of a message whose buffer crosses the end of a page.  The message and the caller's packet are as
  for a successful receive, but of the bytes asked for, only the first \<open>n\<close> lie in the page where the
  sender's buffer starts.  The kernel maps that one page and copies on: the call ends in a page fault of the
  kernel at the address behind the window.
\<close>

theorem recv_page_crossing_faults:
  assumes "recv_crossing hp k c msg mp x xs dp" and "kld (regs + REGS_EAX) k = Inr msg"
    and "current_proc (ktab k) = Some c"
  shows "syscall_recv_msg fr regs k = Inl (PageFault 0xbabe1000)"
proof -
  let ?k0 = "k\<lparr>ktab := proc_disable_scheduling (ktab k)\<rparr>"
  have "recv_crossing hp ?k0 c msg mp x xs dp"
    using assms(1) by (simp add: recv_crossing_def proc_disable_scheduling_def)
  moreover have "\<not> STAILQ_EMPTY (recv_queue (procs (ktab k) c))"
    using assms(1) qrep_empty by (fastforce simp: recv_crossing_def Let_def)
  ultimately show ?thesis
    using assms(2,3) recv_take_faults by (simp add: syscall_recv_msg_def proc_disable_scheduling_def)
qed

theorem recv_page_crossing_faults_witness:
  "syscall_recv_msg 0x9000 0xba801054 cross_kern = Inl (PageFault 0xbabe1000)"
  using recv_page_crossing_faults [OF cross_kern_ready, of "0x9000"] by (simp add: cross_kern_def rply_kern_def rply_tab_def)

text \<open>
  C39. A send to a process that is neither ready nor waiting for a message, for example because it waits for a
  reply itself.  The call returns and the message is at the end of the receiver's queue, but the sender is not blocked: it
  is ready to run on, before any reply.
\<close>

theorem send_to_busy_unblocked:
  assumes "send_ready hp k msg mp r xs L ps pr" and "kld (regs + REGS_EAX) k = Inr msg"
    and "current_proc (ktab k) = Some c" and "used_slot (ktab k) c" and "idle (ktab k) = Some d" and "pids_ok (ktab k)"
    and "state (procs (ktab k) r) \<notin> {PROC_READY, PROC_RECV_BLOCKED}" and "state (procs (ktab k) c) \<in> {PROC_RUNNING, PROC_READY}"
  shows "\<exists>res k' x. syscall_send_msg fr regs k = Inr (res, k') \<and>
    qrep (kmmu k') hp (recv_queue (procs (ktab k') r)) (xs @ [x]) \<and>
    node_word (kmmu k') hp x 0 = pid (procs (ktab k) c) \<and> state (procs (ktab k') c) = PROC_READY"
proof -
  have nb: "state (procs (ktab k) r) \<noteq> PROC_RECV_BLOCKED" using assms(7) by blast
  obtain res k' x m' h' where s: "syscall_send_msg fr regs k = Inr (res, k')" "(kmmu k')\<lparr>cr3 := cr3 (kmmu k)\<rparr> = m'"
    "queued hp (kmmu k) m' L xs x (sent_fields (pid (procs (ktab k) c)) ps pr (fld (kmmu k) mp))" "qrep m' hp h' (xs @ [x])"
    "procs (ktab k') = ((procs (ktab k))(r := (procs (ktab k) r)\<lparr>recv_queue := h'\<rparr>))(c := sched_save fr
      (if state (procs (ktab k) r) = PROC_READY then
         (((procs (ktab k))(r := (procs (ktab k) r)\<lparr>recv_queue := h'\<rparr>)) c)\<lparr>state := PROC_REPLY_BLOCKED\<rparr>
       else ((procs (ktab k))(r := (procs (ktab k) r)\<lparr>recv_queue := h'\<rparr>)) c))"
    by (rule send_posts [OF assms(1-6) nb, of fr]) (rule that)
  have po: "pool_same hp m' (kmmu k')" using s(2) by (auto simp: pool_same_def)
  have "recv_queue (procs (ktab k') r) = h'" by (simp add: s(5) sched_save_def)
  then have "qrep (kmmu k') hp (recv_queue (procs (ktab k') r)) (xs @ [x])" using pool_same_qrep [OF po s(4)] by simp
  moreover have "node_word (kmmu k') hp x 0 = pid (procs (ktab k) c)"
    using pool_same_word [OF po, of x 0] queued_word [OF s(3), of 0] s(3) by (simp add: queued_def sent_fields_def)
  moreover have "state (procs (ktab k') c) = PROC_READY" using assms(7,8) by (auto simp: s(5) sched_save_def)
  ultimately show ?thesis using s(1) by blast
qed

theorem send_to_busy_unblocked_witness:
  "\<exists>res k' x. syscall_send_msg 0x9000 0xba801054 busy_kern = Inr (res, k') \<and> state (procs (ktab k') 1) = PROC_READY \<and>
     stqh_first (recv_queue (procs (ktab k') 0)) = x \<and> x \<noteq> 0"
proof -
  have t: "current_proc (ktab busy_kern) = Some 1" "idle (ktab busy_kern) = Some 1"
    "state (procs (ktab busy_kern) 0) \<notin> {PROC_READY, PROC_RECV_BLOCKED}" "state (procs (ktab busy_kern) 1) \<in> {PROC_RUNNING, PROC_READY}"
    by (simp_all add: busy_kern_def upd_proc_def send_tab_def rply_tab_def)
  from send_to_busy_unblocked [OF busy_kern_ready(1,2) t(1) busy_kern_ready(3) t(2) busy_kern_ready(4) t(3,4), of "0x9000"]
  obtain res k' x where s: "syscall_send_msg 0x9000 0xba801054 busy_kern = Inr (res, k')"
    "qrep (kmmu k') 0x10000 (recv_queue (procs (ktab k') 0)) ([] @ [x])" "state (procs (ktab k') 1) = PROC_READY" by blast
  then have "stqh_first (recv_queue (procs (ktab k') 0)) = x" "x \<noteq> 0"
    using node_ok_nonzero [of x] by (auto simp: qrep_def)
  with s show ?thesis by blast
qed

end
