(* ===== verification/Tailq.thy ===== *)
theory Tailq
  imports Stailq
begin

text \<open>
  The rest of the singly linked tail queue of \<^verbatim>\<open>include/queue.h\<close>: the macros beyond those the system calls use (\<open>Stailq\<close>), over
  the same nodes and heads.  The debugging macros in \<open>STAILQ_REMOVE\<close> expand to nothing.
  \<open>STAILQ_SWAP\<close> copies the link of one head into the other, so there a link says which head's first field it is: the heads
  are a store by place, and \<open>head_at\<close> is a head at its place.

  Shown: each macro is the operation on lists its name says, and the loops visit every element.
\<close>

section \<open>Definitions\<close>

text \<open>
  \<open>STAILQ_LAST\<close> computes the element from the address of its link.  A queue with elements never has \<open>HeadFirst\<close>
  there; the macro would then compute an address in front of the head.
\<close>

definition STAILQ_LAST :: "stailq_head \<Rightarrow> u32 res" where
  "STAILQ_LAST h =
     (if STAILQ_EMPTY h then Inr 0
      else case stqh_last h of NextOf e \<Rightarrow> Inr e | HeadFirst \<Rightarrow> Inl OutOfBounds | NullLink \<Rightarrow> Inr (0 - NEXT_OFFSET))"

definition STAILQ_INSERT_AFTER :: "u32 \<Rightarrow> u32 \<Rightarrow> stailq_head \<Rightarrow> mmu \<Rightarrow> (stailq_head \<times> mmu) res" where
  "STAILQ_INSERT_AFTER tqelm elm h m =
     kbind (STAILQ_NEXT tqelm m) (\<lambda>next.
     kbind (vstore32 m (elm + NEXT_OFFSET) next) (\<lambda>m.
     let h = (if next = 0 then h\<lparr>stqh_last := NextOf elm\<rparr> else h) in
     kbind (vstore32 m (tqelm + NEXT_OFFSET) elm) (\<lambda>m. Inr (h, m))))"

definition STAILQ_REMOVE_AFTER :: "u32 \<Rightarrow> stailq_head \<Rightarrow> mmu \<Rightarrow> (stailq_head \<times> mmu) res" where
  "STAILQ_REMOVE_AFTER elm h m =
     kbind (STAILQ_NEXT elm m) (\<lambda>next.
     kbind (STAILQ_NEXT next m) (\<lambda>next'.
     kbind (vstore32 m (elm + NEXT_OFFSET) next') (\<lambda>m.
       Inr (if next' = 0 then h\<lparr>stqh_last := NextOf elm\<rparr> else h, m))))"

text \<open>The search of \<open>STAILQ_REMOVE\<close> for the element before \<open>elm\<close>; on a cyclic list it may not end.\<close>

partial_function (option) stailq_prev :: "mmu \<Rightarrow> u32 \<Rightarrow> u32 \<Rightarrow> u32 res option" where
  "stailq_prev m elm curelm =
     (case STAILQ_NEXT curelm m of
        Inl f \<Rightarrow> Some (Inl f)
      | Inr next \<Rightarrow> if next = elm then Some (Inr curelm) else stailq_prev m elm next)"

definition STAILQ_REMOVE :: "u32 \<Rightarrow> stailq_head \<Rightarrow> mmu \<Rightarrow> (stailq_head \<times> mmu) res" where
  "STAILQ_REMOVE elm h m =
     (if STAILQ_FIRST h = elm then kbind (STAILQ_REMOVE_HEAD h m) (\<lambda>h. Inr (h, m))
      else case stailq_prev m elm (STAILQ_FIRST h) of
             None \<Rightarrow> Inl Spins
           | Some r \<Rightarrow> kbind r (\<lambda>curelm. STAILQ_REMOVE_AFTER curelm h m))"

definition STAILQ_CONCAT :: "stailq_head \<Rightarrow> stailq_head \<Rightarrow> mmu \<Rightarrow> (stailq_head \<times> stailq_head \<times> mmu) res" where
  "STAILQ_CONCAT h1 h2 m =
     (if STAILQ_EMPTY h2 then Inr (h1, h2, m)
      else kbind (case stqh_last h1 of
                    HeadFirst \<Rightarrow> Inr (h1\<lparr>stqh_first := stqh_first h2\<rparr>, m)
                  | NextOf e \<Rightarrow> kbind (vstore32 m (e + NEXT_OFFSET) (stqh_first h2)) (\<lambda>m. Inr (h1, m))
                  | NullLink \<Rightarrow> kbind (vstore32 m 0 (stqh_first h2)) (\<lambda>m. Inr (h1, m))) (\<lambda>(h1, m).
           Inr (h1\<lparr>stqh_last := stqh_last h2\<rparr>, STAILQ_INIT, m)))"

text \<open>Heads at their places: a link that is a first field names the head it belongs to.\<close>

datatype link_target = FirstFieldOf nat | NextFieldOf u32 | Nowhere

record placed_head =
  pl_first :: u32
  pl_last :: link_target

primrec target_at :: "nat \<Rightarrow> stailq_link \<Rightarrow> link_target" where
  "target_at a HeadFirst = FirstFieldOf a"
| "target_at a (NextOf e) = NextFieldOf e"
| "target_at a NullLink = Nowhere"

definition head_at :: "nat \<Rightarrow> stailq_head \<Rightarrow> placed_head" where
  "head_at a h = \<lparr>pl_first = stqh_first h, pl_last = target_at a (stqh_last h)\<rparr>"

definition STAILQ_SWAP :: "nat \<Rightarrow> nat \<Rightarrow> (nat \<Rightarrow> placed_head) \<Rightarrow> nat \<Rightarrow> placed_head" where
  "STAILQ_SWAP head1 head2 H =
     (let swap_first = pl_first (H head1);
          swap_last = pl_last (H head1);
          H = H(head1 := (H head1)\<lparr>pl_first := pl_first (H head2)\<rparr>);
          H = H(head1 := (H head1)\<lparr>pl_last := pl_last (H head2)\<rparr>);
          H = H(head2 := (H head2)\<lparr>pl_first := swap_first\<rparr>);
          H = H(head2 := (H head2)\<lparr>pl_last := swap_last\<rparr>);
          H = (if pl_first (H head1) = 0 then H(head1 := (H head1)\<lparr>pl_last := FirstFieldOf head1\<rparr>) else H)
      in if pl_first (H head2) = 0 then H(head2 := (H head2)\<lparr>pl_last := FirstFieldOf head2\<rparr>) else H)"

text \<open>
  The loops, over a body that may change the memory: \<open>STAILQ_FOREACH\<close> reads the link after the body,
  \<open>STAILQ_FOREACH_SAFE\<close> before it.
\<close>

partial_function (option) stailq_foreach :: "(u32 \<Rightarrow> mmu \<Rightarrow> mmu res) \<Rightarrow> u32 \<Rightarrow> mmu \<Rightarrow> mmu res option" where
  "stailq_foreach body var m =
     (if var = 0 then Some (Inr m)
      else case body var m of
             Inl f \<Rightarrow> Some (Inl f)
           | Inr m \<Rightarrow> (case STAILQ_NEXT var m of
                        Inl f \<Rightarrow> Some (Inl f)
                      | Inr next \<Rightarrow> stailq_foreach body next m))"

definition STAILQ_FOREACH :: "(u32 \<Rightarrow> mmu \<Rightarrow> mmu res) \<Rightarrow> stailq_head \<Rightarrow> mmu \<Rightarrow> mmu res option" where
  "STAILQ_FOREACH body h m = stailq_foreach body (STAILQ_FIRST h) m"

definition STAILQ_FOREACH_FROM :: "(u32 \<Rightarrow> mmu \<Rightarrow> mmu res) \<Rightarrow> u32 \<Rightarrow> stailq_head \<Rightarrow> mmu \<Rightarrow> mmu res option" where
  "STAILQ_FOREACH_FROM body var h m = stailq_foreach body (if var \<noteq> 0 then var else STAILQ_FIRST h) m"

partial_function (option) stailq_foreach_safe :: "(u32 \<Rightarrow> mmu \<Rightarrow> mmu res) \<Rightarrow> u32 \<Rightarrow> mmu \<Rightarrow> mmu res option" where
  "stailq_foreach_safe body var m =
     (if var = 0 then Some (Inr m)
      else case STAILQ_NEXT var m of
             Inl f \<Rightarrow> Some (Inl f)
           | Inr tvar \<Rightarrow> (case body var m of
                           Inl f \<Rightarrow> Some (Inl f)
                         | Inr m \<Rightarrow> stailq_foreach_safe body tvar m))"

definition STAILQ_FOREACH_SAFE :: "(u32 \<Rightarrow> mmu \<Rightarrow> mmu res) \<Rightarrow> stailq_head \<Rightarrow> mmu \<Rightarrow> mmu res option" where
  "STAILQ_FOREACH_SAFE body h m = stailq_foreach_safe body (STAILQ_FIRST h) m"

definition STAILQ_FOREACH_FROM_SAFE :: "(u32 \<Rightarrow> mmu \<Rightarrow> mmu res) \<Rightarrow> u32 \<Rightarrow> stailq_head \<Rightarrow> mmu \<Rightarrow> mmu res option" where
  "STAILQ_FOREACH_FROM_SAFE body var h m = stailq_foreach_safe body (if var \<noteq> 0 then var else STAILQ_FIRST h) m"

section \<open>Lemmas\<close>

text \<open>A stretch of links from \<open>a\<close> through \<open>xs\<close> to \<open>b\<close>.\<close>

fun qseg :: "mmu \<Rightarrow> u32 \<Rightarrow> u32 \<Rightarrow> u32 list \<Rightarrow> u32 \<Rightarrow> bool" where
  "qseg m hp a [] b \<longleftrightarrow> a = b"
| "qseg m hp a (x # xs) b \<longleftrightarrow> a = x \<and> qseg m hp (node_word m hp x 36) xs b"

lemma qpath_qseg: "qpath m hp a xs \<longleftrightarrow> qseg m hp a xs 0"
  by (induction xs arbitrary: a) simp_all

lemma qseg_append: "qseg m hp a (xs @ ys) c \<longleftrightarrow> (\<exists>b. qseg m hp a xs b \<and> qseg m hp b ys c)"
  by (induction xs arbitrary: a) auto

lemma qseg_cong:
  "(\<And>x. x \<in> set xs \<Longrightarrow> node_word m' hp x 36 = node_word m hp x 36) \<Longrightarrow> qseg m' hp a xs b = qseg m hp a xs b"
  by (induction xs arbitrary: a) auto

lemma qseg_keep:
  "qseg m hp a xs b \<Longrightarrow> \<forall>x \<in> set xs. node_word m' hp x 36 = node_word m hp x 36 \<Longrightarrow> qseg m' hp a xs b"
  using qseg_cong [of xs m' hp m a b] by blast

text \<open>One link of a queue is written.\<close>

definition relinked :: "u32 \<Rightarrow> mmu \<Rightarrow> (u32 \<Rightarrow> u32) \<Rightarrow> mmu \<Rightarrow> bool" where
  "relinked hp m F m' \<longleftrightarrow> heap_upd hp m m' \<and> (\<forall>y. node_ok y \<longrightarrow> node_word m' hp y 36 = F y)"

text \<open>The pool stays mapped, and only links of the nodes \<open>W\<close> change.\<close>

definition links_only :: "u32 \<Rightarrow> u32 set \<Rightarrow> mmu \<Rightarrow> mmu \<Rightarrow> bool" where
  "links_only hp W m m' \<longleftrightarrow> heap_mapped m' hp \<and>
     (\<forall>z. node_ok z \<longrightarrow> z \<notin> W \<longrightarrow> node_word m' hp z 36 = node_word m hp z 36)"

lemma links_others: "qrep m hp h ys \<Longrightarrow> set ys \<inter> W = {} \<Longrightarrow> links_only hp W m m' \<Longrightarrow> qrep m' hp h ys"
  using qrep_cong [of ys m' hp m h] by (auto simp: links_only_def qrep_def)

lemma link_store:
  assumes "heap_mapped m hp" and "node_ok x"
  shows "\<exists>m'. vstore32 m (x + NEXT_OFFSET) v = Inr m' \<and> relinked hp m ((\<lambda>y. node_word m hp y 36)(x := v)) m'"
proof -
  obtain m' where "vstore32 m (x + of_nat 36) v = Inr m'" "heap_upd hp m m'"
    "\<And>y o'. node_ok y \<Longrightarrow> o' < 40 \<Longrightarrow> 4 dvd o' \<Longrightarrow> node_word m' hp y o' = (if y = x \<and> o' = 36 then v else node_word m hp y o')"
    by (rule node_store [OF assms, of 36 v]) (use that in auto)
  then show ?thesis by (auto simp: relinked_def NEXT_OFFSET_def)
qed

lemma link_load: "heap_mapped m hp \<Longrightarrow> node_ok x \<Longrightarrow> STAILQ_NEXT x m = Inr (node_word m hp x 36)"
  using node_load [of m hp x 36] by (simp add: STAILQ_NEXT_def NEXT_OFFSET_def)

lemma qrep_qseg:
  "qrep m hp h xs \<longleftrightarrow> distinct xs \<and> (\<forall>x \<in> set xs. node_ok x) \<and> qseg m hp (stqh_first h) xs 0 \<and>
     stqh_last h = (if xs = [] then HeadFirst else NextOf (last xs))"
  by (simp add: qrep_def qpath_qseg)

lemma qseg_zero: "qseg m hp a xs 0 \<Longrightarrow> \<forall>x \<in> set xs. node_ok x \<Longrightarrow> a = 0 \<longleftrightarrow> xs = []"
  using node_ok_nonzero by (cases xs) auto

lemma qrep_last: "qrep m hp h xs \<Longrightarrow> STAILQ_LAST h = Inr (if xs = [] then 0 else last xs)"
  using qrep_empty [of m hp h xs] by (simp add: STAILQ_LAST_def qrep_def)

lemma qrep_insert_head:
  assumes hm: "heap_mapped m hp" and q: "qrep m hp h xs" and y: "node_ok y" "y \<notin> set xs"
  shows "\<exists>h' m'. STAILQ_INSERT_HEAD y h m = Inr (h', m') \<and> qrep m' hp h' (y # xs) \<and>
    links_only hp (insert y (set xs)) m m'"
proof -
  obtain m' where m': "vstore32 m (y + NEXT_OFFSET) (stqh_first h) = Inr m'"
    "relinked hp m ((\<lambda>z. node_word m hp z 36)(y := stqh_first h)) m'" using link_store [OF hm y(1)] by blast
  have "qseg m' hp (stqh_first h) xs 0 = qseg m hp (stqh_first h) xs 0"
    by (rule qseg_cong) (use m'(2) y(2) q in \<open>auto simp: relinked_def qrep_qseg\<close>)
  then show ?thesis
    using m' q y heap_upd_frame(1) [OF hm] qseg_zero [of m hp "stqh_first h" xs]
    by (auto simp: STAILQ_INSERT_HEAD_def qrep_qseg relinked_def links_only_def)
qed

lemma qrep_insert_after:
  assumes hm: "heap_mapped m hp" and q: "qrep m hp h (us @ t # vs)" and y: "node_ok y" "y \<notin> set (us @ t # vs)"
  shows "\<exists>h' m'. STAILQ_INSERT_AFTER t y h m = Inr (h', m') \<and> qrep m' hp h' (us @ t # y # vs) \<and>
    links_only hp (insert y (set (us @ t # vs))) m m'"
proof -
  have r: "distinct (us @ t # vs)" "\<forall>x \<in> set (us @ t # vs). node_ok x" "qseg m hp (stqh_first h) us t"
    "qseg m hp (node_word m hp t 36) vs 0" "stqh_last h = NextOf (last (t # vs))"
    using q by (auto simp: qrep_qseg qseg_append)
  let ?b = "node_word m hp t 36"
  obtain m1 where m1: "vstore32 m (y + NEXT_OFFSET) ?b = Inr m1" "relinked hp m ((\<lambda>z. node_word m hp z 36)(y := ?b)) m1"
    using link_store [OF hm y(1)] by blast
  have h1: "heap_mapped m1 hp" using m1(2) heap_upd_frame(1) [OF hm] by (simp add: relinked_def)
  obtain m2 where m2: "vstore32 m1 (t + NEXT_OFFSET) y = Inr m2" "relinked hp m1 ((\<lambda>z. node_word m1 hp z 36)(t := y)) m2"
    using link_store [OF h1, of t y] r(2) by auto
  have w: "node_word m2 hp z 36 = (if z = t then y else if z = y then ?b else node_word m hp z 36)" if "node_ok z" for z
    using m1(2) m2(2) that by (simp add: relinked_def)
  have "qseg m2 hp (stqh_first h) us t" by (rule qseg_keep [OF r(3)]) (use w r(1,2) y in auto)
  moreover have "qseg m2 hp ?b vs 0" by (rule qseg_keep [OF r(4)]) (use w r(1,2) y in auto)
  ultimately have "qseg m2 hp (stqh_first h) (us @ t # y # vs) 0" using w r(2) y by (auto simp: qseg_append)
  moreover have "?b = 0 \<longleftrightarrow> vs = []" using qseg_zero [OF r(4)] r(2) by simp
  ultimately show ?thesis
    using link_load [OF hm, of t] m1(1) m2 r y w heap_upd_frame(1) [OF h1]
    by (auto simp: STAILQ_INSERT_AFTER_def qrep_qseg relinked_def Let_def links_only_def)
qed

lemma qrep_remove_after:
  assumes hm: "heap_mapped m hp" and q: "qrep m hp h (us @ t # e # vs)"
  shows "\<exists>h' m'. STAILQ_REMOVE_AFTER t h m = Inr (h', m') \<and> qrep m' hp h' (us @ t # vs) \<and>
    links_only hp (set (us @ t # e # vs)) m m'"
proof -
  have r: "distinct (us @ t # e # vs)" "\<forall>x \<in> set (us @ t # e # vs). node_ok x" "qseg m hp (stqh_first h) us t"
    "node_word m hp t 36 = e" "qseg m hp (node_word m hp e 36) vs 0" "stqh_last h = NextOf (last (e # vs))"
    using q by (auto simp: qrep_qseg qseg_append)
  let ?b = "node_word m hp e 36"
  obtain m1 where m1: "vstore32 m (t + NEXT_OFFSET) ?b = Inr m1" "relinked hp m ((\<lambda>z. node_word m hp z 36)(t := ?b)) m1"
    using link_store [OF hm, of t ?b] r(2) by auto
  have "qseg m1 hp (stqh_first h) us t" by (rule qseg_keep [OF r(3)]) (use m1(2) r(1,2) in \<open>auto simp: relinked_def\<close>)
  moreover have "qseg m1 hp ?b vs 0" by (rule qseg_keep [OF r(5)]) (use m1(2) r(1,2) in \<open>auto simp: relinked_def\<close>)
  ultimately have "qseg m1 hp (stqh_first h) (us @ t # vs) 0" using m1(2) r(2) by (auto simp: qseg_append relinked_def)
  moreover have "?b = 0 \<longleftrightarrow> vs = []" using qseg_zero [OF r(5)] r(2) by simp
  ultimately show ?thesis
    using link_load [OF hm, of t] link_load [OF hm, of e] m1 r heap_upd_frame(1) [OF hm]
    by (auto simp: STAILQ_REMOVE_AFTER_def qrep_qseg relinked_def links_only_def)
qed

lemma stailq_prev_finds:
  assumes hm: "heap_mapped m hp" and "qseg m hp a us t" and "node_word m hp t 36 = e"
    and "e \<notin> set (us @ [t])" and "\<forall>x \<in> set (us @ [t]). node_ok x"
  shows "stailq_prev m e a = Some (Inr t)"
  using assms(2-5)
proof (induction us arbitrary: a)
  case Nil
  then show ?case using link_load [OF hm, of t] by (subst stailq_prev.simps) simp
next
  case (Cons u us)
  have n: "node_word m hp u 36 = (case us of [] \<Rightarrow> t | v # vs \<Rightarrow> v)" using Cons.prems(1) by (cases us) auto
  then have "node_word m hp u 36 \<noteq> e" using Cons.prems(3) by (auto split: list.splits)
  then show ?case using Cons link_load [OF hm, of u] by (subst stailq_prev.simps) simp
qed

lemma qrep_remove:
  assumes hm: "heap_mapped m hp" and q: "qrep m hp h (us @ e # vs)"
  shows "\<exists>h' m'. STAILQ_REMOVE e h m = Inr (h', m') \<and> qrep m' hp h' (us @ vs) \<and>
    links_only hp (set (us @ e # vs)) m m'"
proof (cases us rule: rev_cases)
  case Nil
  then have q: "qrep m hp h (e # vs)" using q by simp
  then have "STAILQ_FIRST h = e" by (simp add: qrep_def STAILQ_FIRST_def)
  then show ?thesis using qrep_remove_head [OF hm q] hm Nil by (auto simp: STAILQ_REMOVE_def links_only_def)
next
  case (snoc us t)
  have q': "qrep m hp h (us @ t # e # vs)" using q snoc by simp
  then have r: "qseg m hp (stqh_first h) us t" "node_word m hp t 36 = e" "e \<notin> set (us @ [t])" "\<forall>x \<in> set (us @ [t]). node_ok x"
    by (auto simp: qrep_qseg qseg_append)
  have "STAILQ_FIRST h \<noteq> e" using r(1,3) by (cases us) (auto simp: STAILQ_FIRST_def)
  moreover have "stailq_prev m e (STAILQ_FIRST h) = Some (Inr t)"
    using stailq_prev_finds [OF hm r] by (simp add: STAILQ_FIRST_def)
  ultimately show ?thesis using qrep_remove_after [OF hm q'] snoc by (auto simp: STAILQ_REMOVE_def)
qed

lemma qrep_concat:
  assumes hm: "heap_mapped m hp" and q1: "qrep m hp h1 xs" and q2: "qrep m hp h2 ys" and dj: "set xs \<inter> set ys = {}"
  shows "\<exists>h1' h2' m'. STAILQ_CONCAT h1 h2 m = Inr (h1', h2', m') \<and> qrep m' hp h1' (xs @ ys) \<and> qrep m' hp h2' [] \<and>
    heap_mapped m' hp"
proof (cases "ys = [] \<or> xs = []")
  case True
  then show ?thesis
    using q1 q2 hm qrep_empty [OF q2] qrep_init by (auto simp: STAILQ_CONCAT_def qrep_qseg STAILQ_INIT_def)
next
  case False
  then obtain us l where xs: "xs = us @ [l]" by (cases xs rule: rev_cases) auto
  have r: "qseg m hp (stqh_first h1) us l" "node_ok l" "l \<notin> set us" using q1 by (auto simp: xs qrep_qseg qseg_append)
  obtain m1 where m1: "vstore32 m (l + NEXT_OFFSET) (stqh_first h2) = Inr m1"
    "relinked hp m ((\<lambda>z. node_word m hp z 36)(l := stqh_first h2)) m1" using link_store [OF hm r(2)] by blast
  have "qseg m1 hp (stqh_first h1) us l = qseg m hp (stqh_first h1) us l"
    by (rule qseg_cong) (use m1(2) r(3) q1 xs in \<open>auto simp: relinked_def qrep_qseg\<close>)
  moreover have "qseg m1 hp (stqh_first h2) ys 0 = qseg m hp (stqh_first h2) ys 0"
    by (rule qseg_cong) (use m1(2) q2 dj xs in \<open>auto simp: relinked_def qrep_qseg\<close>)
  ultimately have "qseg m1 hp (stqh_first h1) (xs @ ys) 0"
    using q2 r m1(2) by (auto simp: xs qseg_append qrep_qseg relinked_def)
  then show ?thesis
    using m1 q1 q2 dj False xs qrep_empty [OF q2] heap_upd_frame(1) [OF hm]
    by (auto simp: STAILQ_CONCAT_def qrep_qseg relinked_def STAILQ_INIT_def)
qed

lemma qrep_swap:
  assumes "qrep m hp h1 xs" and "qrep m hp h2 ys" and "H a = head_at a h1" and "H b = head_at b h2" and "a \<noteq> b"
  shows "\<exists>h1' h2'. STAILQ_SWAP a b H = H(a := head_at a h1', b := head_at b h2') \<and> qrep m hp h1' ys \<and> qrep m hp h2' xs"
proof (intro exI conjI)
  show "qrep m hp h2 ys" "qrep m hp h1 xs" by fact+
  have l: "stqh_last h = HeadFirst" if "qrep m hp h zs" "stqh_first h = 0" for h zs
    using that qrep_empty [OF that(1)] by (simp add: qrep_def STAILQ_EMPTY_def)
  have nl: "\<exists>e. stqh_last h = NextOf e" if "qrep m hp h zs" "stqh_first h \<noteq> 0" for h zs
    using that qrep_empty [OF that(1)] by (simp add: qrep_def STAILQ_EMPTY_def)
  have c: "target_at n (stqh_last h) = (if stqh_first h = 0 then FirstFieldOf n else target_at k (stqh_last h))"
    if "qrep m hp h zs" for h zs n k using l [OF that] nl [OF that] by fastforce
  show "STAILQ_SWAP a b H = H(a := head_at a h2, b := head_at b h1)"
    using assms(3-5) c [OF assms(1), of b a] c [OF assms(2), of a b]
    by (auto simp: STAILQ_SWAP_def Let_def head_at_def fun_eq_iff)
qed

text \<open>
  What the loops need of their body: it leaves the links alone, except for those of the elements \<open>E x\<close> that it may change or
  destroy while it works on \<open>x\<close>.
\<close>

definition keeps_links :: "u32 \<Rightarrow> (u32 \<Rightarrow> u32 set) \<Rightarrow> (u32 \<Rightarrow> mmu \<Rightarrow> mmu res) \<Rightarrow> bool" where
  "keeps_links hp E body \<longleftrightarrow> (\<forall>x m m'. node_ok x \<longrightarrow> body x m = Inr m' \<longrightarrow> heap_mapped m hp \<longrightarrow>
     heap_mapped m' hp \<and> (\<forall>y. node_ok y \<longrightarrow> y \<notin> E x \<longrightarrow> node_word m' hp y 36 = node_word m hp y 36))"

fun each_elem :: "(u32 \<Rightarrow> mmu \<Rightarrow> mmu res) \<Rightarrow> u32 list \<Rightarrow> mmu \<Rightarrow> mmu res" where
  "each_elem body [] m = Inr m"
| "each_elem body (x # xs) m = kbind (body x m) (each_elem body xs)"

lemma foreach_visits:
  assumes body: "keeps_links hp (\<lambda>x. {}) body"
    and "heap_mapped m hp" and "qseg m hp a xs 0" and "\<forall>x \<in> set xs. node_ok x"
  shows "stailq_foreach body a m = Some (each_elem body xs m)"
  using assms(2-4)
proof (induction xs arbitrary: a m)
  case Nil
  then show ?case by (subst stailq_foreach.simps) simp
next
  case (Cons x xs)
  note p = Cons.prems
  show ?case
  proof (cases "body x m")
    case (Inl f)
    then show ?thesis using p node_ok_nonzero [of x] by (subst stailq_foreach.simps) simp
  next
    case (Inr m')
    have b: "heap_mapped m' hp" "\<forall>y. node_ok y \<longrightarrow> node_word m' hp y 36 = node_word m hp y 36"
      using body Inr p(1,3) by (auto simp: keeps_links_def)
    have s: "qseg m' hp (node_word m hp x 36) xs 0" using p(2,3) b qseg_cong [of xs m' hp m] by auto
    have l: "STAILQ_NEXT x m' = Inr (node_word m hp x 36)" using link_load [of m' hp x] b p(3) by simp
    show ?thesis
      using p node_ok_nonzero [of x] Inr l Cons.IH [of m' "node_word m hp x 36"] s b
      by (subst stailq_foreach.simps) simp
  qed
qed

lemma foreach_safe_visits:
  assumes body: "keeps_links hp (\<lambda>x. {x}) body"
    and "heap_mapped m hp" and "qseg m hp a xs 0" and "\<forall>x \<in> set xs. node_ok x" and "distinct xs"
  shows "stailq_foreach_safe body a m = Some (each_elem body xs m)"
  using assms(2-5)
proof (induction xs arbitrary: a m)
  case Nil
  then show ?case by (subst stailq_foreach_safe.simps) simp
next
  case (Cons x xs)
  note p = Cons.prems
  note l = link_load [OF p(1), of x]
  show ?case
  proof (cases "body x m")
    case (Inl f)
    then show ?thesis using p l node_ok_nonzero [of x] by (subst stailq_foreach_safe.simps) simp
  next
    case (Inr m')
    have b: "heap_mapped m' hp" "\<forall>y. node_ok y \<longrightarrow> y \<noteq> x \<longrightarrow> node_word m' hp y 36 = node_word m hp y 36"
      using body Inr p(1,3) by (auto simp: keeps_links_def)
    have s: "qseg m' hp (node_word m hp x 36) xs 0"
    proof (rule qseg_keep [of m])
      show "qseg m hp (node_word m hp x 36) xs 0" using p(2) by simp
      show "\<forall>y \<in> set xs. node_word m' hp y 36 = node_word m hp y 36" using p(3,4) b(2) by (metis distinct.simps(2) list.set_intros(2))
    qed
    show ?thesis
      using p node_ok_nonzero [of x] Inr l Cons.IH [of m' "node_word m hp x 36"] s b
      by (subst stailq_foreach_safe.simps) simp
  qed
qed

section \<open>Properties\<close>


text \<open>A body that overwrites the link of its element.\<close>

definition poison :: "u32 \<Rightarrow> mmu \<Rightarrow> mmu res" where
  "poison x m = vstore32 m (x + NEXT_OFFSET) 0xdeadbeef"

lemma poison_keeps: "keeps_links hp (\<lambda>x. {x}) poison"
  unfolding keeps_links_def
proof (intro allI impI)
  fix x m m' assume "node_ok x" "poison x m = Inr m'" "heap_mapped m hp"
  then show "heap_mapped m' hp \<and> (\<forall>y. node_ok y \<longrightarrow> y \<notin> {x} \<longrightarrow> node_word m' hp y 36 = node_word m hp y 36)"
    using link_store [of m hp x "0xdeadbeef"] heap_upd_frame(1) [of m hp m'] by (auto simp: poison_def relinked_def)
qed


end
