(* ===== verification/Dispatcher.thy ===== *)
theory Dispatcher
  imports Trap Sar Elf
begin

unbundle bit_operations_syntax

text \<open>
  The kernel process, \<^verbatim>\<open>kernel/msg_dispatcher.c\<close>, and the request it serves,
  \<^verbatim>\<open>include/msg/kernel.h\<close>.

  A request is the 36 bytes of \<open>struct msg_kernel\<close>: the type at offset 0, the union at offset 4
  (two words for an interrupt, a memory range and a port; 32 characters for a name).
  \<open>msg_dispatch\<close> is the body of the loop between the receive and the reply, which are
  theory \<open>Ipc\<close>: it takes the sender reported by the receive and the bytes received, and
  returns the process to reply to and the response.  Local variables are not kept in
  memory, so reading \<open>msg\<close> while the address space of the sender is loaded is not a fault.

  Shown: a request to map memory maps exactly the requested range at \<open>0x10000000\<close> in the address space of the
  sender and comes back to the address space of the kernel process with the scheduler on;
  a request for an interrupt has the handler called in the address space of the sender when
  the interrupt comes; a name request answers the id of the first process with that name.
\<close>

section \<open>Definitions\<close>

subsection \<open>Requests (msg/kernel.h)\<close>

datatype msg_kernel_type =
    MSG_REQUEST_INTERRUPT_FORWARDING
  | MSG_MAP_MEMORY
  | MSG_PORT_IN_BYTE
  | MSG_PORT_OUT_BYTE
  | MSG_FIND_PROC_BY_NAME

definition kernel_type :: "u32 \<Rightarrow> msg_kernel_type option" where
  "kernel_type v =
     (if v = 0 then Some MSG_REQUEST_INTERRUPT_FORWARDING
      else if v = 1 then Some MSG_MAP_MEMORY
      else if v = 2 then Some MSG_PORT_IN_BYTE
      else if v = 3 then Some MSG_PORT_OUT_BYTE
      else if v = 4 then Some MSG_FIND_PROC_BY_NAME
      else None)"

primrec kernel_code :: "msg_kernel_type \<Rightarrow> u32" where
  "kernel_code MSG_REQUEST_INTERRUPT_FORWARDING = 0"
| "kernel_code MSG_MAP_MEMORY = 1"
| "kernel_code MSG_PORT_IN_BYTE = 2"
| "kernel_code MSG_PORT_OUT_BYTE = 3"
| "kernel_code MSG_FIND_PROC_BY_NAME = 4"

definition SIZEOF_MSG_KERNEL :: nat where "SIZEOF_MSG_KERNEL = 36"

subsection \<open>The kernel process (msg_dispatcher.c)\<close>

definition forward_interrupt :: "u32 \<Rightarrow> u32 \<Rightarrow> nat \<Rightarrow> sys \<Rightarrow> (u32 \<times> sys) res" where
  "forward_interrupt which virt sender s =
     (let k = (sk s)\<lparr>ktab := proc_disable_scheduling (ktab (sk s))\<rparr>;
          save_curr_cr3 = get_cr3 (kmmu k);
          k = upd_mmu (set_cr3 (pdir (procs (ktab k) sender))) k in
      kbind (vm_get_phys_mapping virt (hvms (kheap k))) (\<lambda>phys.
      let k = upd_mmu (set_cr3 save_curr_cr3) k in
      kbind (irq_install_handler (sint which) virt (pdir (procs (ktab k) sender)) (kidt k)) (\<lambda>d.
      let k = k\<lparr>kidt := d\<rparr> in
        Inr (0x33cafe33, s\<lparr>sk := k\<lparr>ktab := proc_enable_scheduling (ktab k)\<rparr>\<rparr>))))"

definition map_memory :: "u32 \<Rightarrow> u32 \<Rightarrow> nat \<Rightarrow> sys \<Rightarrow> (u32 \<times> sys) res" where
  "map_memory paddr len sender s =
     (let k = (sk s)\<lparr>ktab := proc_disable_scheduling (ktab (sk s))\<rparr>;
          k = upd_mmu (set_cr3 (pdir (procs (ktab k) sender))) k in
      kbind (map_pages paddr 0x10000000 PTE_U len (hvms (kheap k))) (\<lambda>v.
      let k = upd_vms v k in
      case current_proc (ktab k) of
        None \<Rightarrow> Inl NullDeref
      | Some c \<Rightarrow>
          let k = upd_mmu (set_cr3 (pdir (procs (ktab k) c))) k in
            Inr (0x10000000, s\<lparr>sk := k\<lparr>ktab := proc_enable_scheduling (ktab k)\<rparr>\<rparr>)))"

text \<open>Access through the pointer \<open>sender\<close>, which is null for an unknown process id.\<close>

definition deref :: "nat option \<Rightarrow> (nat \<Rightarrow> 'a res) \<Rightarrow> 'a res" where
  "deref ptr f = (case ptr of None \<Rightarrow> Inl NullDeref | Some i \<Rightarrow> f i)"

definition msg_dispatch :: "u32 \<Rightarrow> u8 list \<Rightarrow> sys \<Rightarrow> ((u32 \<times> u32) \<times> sys) res" where
  "msg_dispatch sender_pid msg s =
     (let sender = proc_find_by_pid sender_pid (ktab (sk s)) in
      kbind (get32 msg 0) (\<lambda>type.
      kbind (get32 msg 4) (\<lambda>d0.
      kbind (get32 msg 8) (\<lambda>d1.
      kbind
        (case kernel_type type of
           Some MSG_REQUEST_INTERRUPT_FORWARDING \<Rightarrow> deref sender (\<lambda>i. forward_interrupt d0 d1 i s)
         | Some MSG_MAP_MEMORY \<Rightarrow> deref sender (\<lambda>i. map_memory d0 d1 i s)
         | Some MSG_PORT_IN_BYTE \<Rightarrow>
             (let (v, io) = inb (ucast d0) (kio (sk s)) in Inr (ucast v, s\<lparr>sk := (sk s)\<lparr>kio := io\<rparr>\<rparr>))
         | Some MSG_PORT_OUT_BYTE \<Rightarrow>
             Inr (1, s\<lparr>sk := (sk s)\<lparr>kio := outb (ucast d0) (ucast (d1 AND 0xff)) (kio (sk s))\<rparr>\<rparr>)
         | Some MSG_FIND_PROC_BY_NAME \<Rightarrow>
             kbind (proc_find_by_name (take MAX_PROC_NAME_LEN (drop 4 msg)) (ktab (sk s))) (\<lambda>r. Inr (r, s))
         | None \<Rightarrow>
             kbind (sys_kprintf (cstring ''# warning: unhandled message! type: %d\<newline>'') [VInt type] s) (\<lambda>s. Inr (0, s)))
        (\<lambda>(response, s).
           deref sender (\<lambda>i. Inr ((pid (procs (ktab (sk s)) i), response), s)))))))"

section \<open>Lemmas\<close>

text \<open>The address space of a process: its page directory over the memory of the machine.\<close>

definition space :: "u32 \<Rightarrow> kern \<Rightarrow> vms" where
  "space pd k = (kvms k)\<lparr>vmmu := set_cr3 pd (vmmu (kvms k))\<rparr>"

definition range_pages :: "u32 \<Rightarrow> u32 \<Rightarrow> u32 \<Rightarrow> (u32 \<times> u32) list" where
  "range_pages va pa len =
     map (\<lambda>k. (page_at (PALIGNDOWN va) k, page_at (PALIGNDOWN pa) k)) [0..<npages_of len]"

lemma kernel_type_code [simp]: "kernel_type (kernel_code ty) = Some ty"
  by (cases ty) (simp_all add: kernel_type_def)

lemma kern_split [simp]:
  "kvms (k\<lparr>ktab := t\<rparr>) = kvms k" "kvms (k\<lparr>kidt := d\<rparr>) = kvms k" "kidt (upd_vms v k) = kidt k"
  by (simp_all add: kvms_def upd_vms_def)

lemma upd_mmu_vms: "upd_mmu f k = upd_vms ((kvms k)\<lparr>vmmu := f (vmmu (kvms k))\<rparr>) k"
  by (simp add: upd_mmu_def upd_vms_def kvms_def)

lemma set_cr3_set_cr3 [simp]: "set_cr3 a (set_cr3 b m) = set_cr3 a m" "cr3 (set_cr3 a m) = a"
  "mem (set_cr3 a m) = mem m"
  by (simp_all add: set_cr3_def)

lemma set_cr3_same: "cr3 m = a \<Longrightarrow> set_cr3 a m = m"
  by (cases m) (simp add: set_cr3_def)

text \<open>Mapping never changes the page directory that is loaded.\<close>

lemma map_page_cr3 [frame]: "map_page p v f s = Inr s' \<Longrightarrow> cr3 (vmmu s') = cr3 (vmmu s)"
  unfolding map_page_def Let_def
  by (auto simp: kbind_Inr_iff cr3_vstore32 split: if_splits prod.splits)

lemma map_list_cr3 [frame]: "map_list map_flags f l s = Inr s' \<Longrightarrow> cr3 (vmmu s') = cr3 (vmmu s)"
  by (induction l arbitrary: s) (auto simp: kbind_Inr_iff map_page_cr3)

lemma range_pages_map:
  "map_pages pa va f len s = map_list map_flags f (range_pages va pa len) s"
  by (simp add: range_pages_def map_pages_list)

lemma map_memory_pages:
  assumes "current_proc (ktab (sk s)) = Some c" and "i < NPROCS"
    and "clean (space (pdir (procs (ktab (sk s)) i)) (sk s))"
    and "new_pages (range_pages 0x10000000 pa len) (space (pdir (procs (ktab (sk s)) i)) (sk s))"
    and "npages_of len \<le> room (space (pdir (procs (ktab (sk s)) i)) (sk s))"
  shows "\<exists>s'. map_memory pa len i s = Inr (0x10000000, s') \<and>
    cr3 (kmmu (sk s')) = pdir (procs (ktab (sk s)) c) \<and>
    ktab (sk s') = proc_enable_scheduling (proc_disable_scheduling (ktab (sk s))) \<and>
    clean (space (pdir (procs (ktab (sk s)) i)) (sk s')) \<and>
    page_look (space (pdir (procs (ktab (sk s)) i)) (sk s')) =
      page_look (space (pdir (procs (ktab (sk s)) i)) (sk s)) ++ map_of (range_pages 0x10000000 pa len) \<and>
    (\<forall>(w, p) \<in> set (range_pages 0x10000000 pa len). page_access True (space (pdir (procs (ktab (sk s)) i)) (sk s')) w)"
proof -
  let ?t = "ktab (sk s)" and ?pd = "pdir (procs (ktab (sk s)) i)"
  let ?v = "space ?pd (sk s)"
  have fl: "low_flags PTE_U" by (simp add: low_flags_def flag_defs)
  have "length (range_pages 0x10000000 pa len) \<le> room ?v" using assms(5) by (simp add: range_pages_def)
  from map_list_grows [OF fl assms(3,4) this] obtain v where v:
    "map_list map_flags PTE_U (range_pages 0x10000000 pa len) ?v = Inr v" "clean v"
    "page_look v = page_look ?v ++ map_of (range_pages 0x10000000 pa len)"
    "\<forall>(w, p) \<in> set (range_pages 0x10000000 pa len). page_access (PTE_U AND PTE_U \<noteq> 0) v w" by blast
  have "PTE_U AND PTE_U \<noteq> 0" by (simp add: flag_defs)
  with v(4) have ac: "\<forall>(w, p) \<in> set (range_pages 0x10000000 pa len). page_access True v w" by simp
  have c3: "cr3 (vmmu v) = ?pd" using map_list_cr3 [OF v(1)] by (simp add: space_def)
  have t: "procs (proc_disable_scheduling ?t) = procs ?t" "current_proc (proc_disable_scheduling ?t) = current_proc ?t"
    by (simp_all add: proc_disable_scheduling_def)
  let ?k = "upd_mmu (set_cr3 (pdir (procs ?t c))) (upd_vms v ((sk s)\<lparr>ktab := proc_disable_scheduling ?t\<rparr>))"
  let ?s = "s\<lparr>sk := ?k\<lparr>ktab := proc_enable_scheduling (ktab ?k)\<rparr>\<rparr>"
  have kv: "kvms ?k = v\<lparr>vmmu := set_cr3 (pdir (procs ?t c)) (vmmu v)\<rparr>" "ktab ?k = proc_disable_scheduling ?t"
    by (simp_all add: upd_mmu_vms)
  have "map_memory pa len i s = Inr (0x10000000, ?s)"
    unfolding map_memory_def Let_def range_pages_map
    using v(1) assms(1) by (simp add: upd_mmu_vms kvms_def [symmetric] space_def t)
  moreover have "space ?pd (sk ?s) = v"
    by (simp add: space_def kv set_cr3_same c3)
  ultimately show ?thesis
    using v(2,3) kv ac by (intro exI [of _ ?s]) simp
qed

text \<open>The name search: names are terminated; the first process with the name, or 0.\<close>

definition named :: "u8 list \<Rightarrow> pst \<Rightarrow> nat option" where
  "named name t = find (\<lambda>i. cstr (pname (procs t i)) = cstr name) [0..<NPROCS]"

definition names_ok :: "pst \<Rightarrow> bool" where
  "names_ok t \<longleftrightarrow> (\<forall>i < NPROCS. 0 \<in> set (pname (procs t i)))"

lemma find_name_from_first:
  assumes "\<forall>i \<in> set is. 0 \<in> set (pname (procs t i))" and "0 \<in> set name"
  shows "find_name_from is name t =
    Inr (case find (\<lambda>i. cstr (pname (procs t i)) = cstr name) is of None \<Rightarrow> 0 | Some i \<Rightarrow> pid (procs t i))"
  using assms by (induction "is") (simp_all add: streq_terminated)

lemma proc_find_by_name_first:
  "names_ok t \<Longrightarrow> 0 \<in> set name \<Longrightarrow>
    proc_find_by_name name t = Inr (case named name t of None \<Rightarrow> 0 | Some i \<Rightarrow> pid (procs t i))"
  unfolding proc_find_by_name_def named_def by (rule find_name_from_first) (auto simp: names_ok_def)

lemma typed_names_ok:
  assumes "names_typed t"
  shows "names_ok t"
proof -
  have "0 \<in> set (pname (procs t i))" for i
    using assms nth_mem [of 32 "pname (procs t i)"] by (simp add: names_typed_def)
  then show ?thesis by (simp add: names_ok_def)
qed

text \<open>A request for an interrupt.\<close>

lemma sint_small:
  fixes v :: u32
  assumes "v < 16"
  shows "sint v = uint v" and "uint v < 16"
proof -
  show u: "uint v < 16" using assms by (simp add: word_less_def)
  have "(- (2 ^ 31) :: int) \<le> uint v" by (rule order_trans [OF _ unsigned_greater_eq]) simp
  with u show "sint v = uint v" using signed_take_bit_int_eq_self [of 31 "uint v"] by (simp add: sint_uint)
qed

lemma cr3_back: "upd_mmu (set_cr3 (cr3 (kmmu k))) (upd_mmu (set_cr3 p) k) = k"
  by (simp add: upd_mmu_def set_cr3_def kmmu_def kvms_def)

lemma forward_interrupt_effect:
  assumes "vm_get_phys_mapping h (space (pdir (procs (ktab (sk s)) i)) (sk s)) = Inr phys" and "which < 16"
  shows "forward_interrupt which h i s = Inr (0x33cafe33, s\<lparr>sk := (sk s)\<lparr>kidt := (kidt (sk s))\<lparr>irq_handlers :=
      (irq_handlers (kidt (sk s)))(unat which := \<lparr>irq_fn = h, irq_pdir = pdir (procs (ktab (sk s)) i)\<rparr>)\<rparr>,
    ktab := proc_enable_scheduling (ktab (sk s))\<rparr>\<rparr>)"
proof -
  let ?k0 = "(sk s)\<lparr>ktab := proc_disable_scheduling (ktab (sk s))\<rparr>" and ?pd = "pdir (procs (ktab (sk s)) i)"
  have w: "sint which < 16" "0 \<le> sint which" "nat (sint which) = unat which"
    using sint_small [OF assms(2)] by simp_all
  have p: "procs (proc_disable_scheduling t) = procs t"
    "proc_enable_scheduling (proc_disable_scheduling t) = proc_enable_scheduling t" for t
    by (simp_all add: proc_disable_scheduling_def proc_enable_scheduling_def)
  have ph: "vm_get_phys_mapping h (hvms (kheap (upd_mmu (set_cr3 ?pd) ?k0))) = Inr phys"
    using assms(1) by (simp add: space_def kvms_def upd_mmu_def)
  have t: "ktab (upd_mmu f k) = ktab k" for f k by (simp add: upd_mmu_def)
  show ?thesis
    unfolding forward_interrupt_def Let_def get_cr3_def cr3_back
    using ph w by (simp add: t p irq_install_handler_def)
qed

text \<open>An interrupt with a handler in another address space.\<close>

lemma irq_handler_forwarded:
  assumes h: "irq_handlers (kidt (sk t)) (unat which) = \<lparr>irq_fn = h, irq_pdir = pd\<rparr>" "h \<noteq> 0" "pd \<noteq> 0"
    and w: "which < 16"
    and num: "regs_num regs t = Inr (32 + which)"
    and call: "call h regs (t\<lparr>sk := upd_mmu (set_cr3 pd) (sk t)\<rparr>) = Inr (ret, t1)"
    and num1: "regs_num regs (t1\<lparr>sk := upd_mmu (set_cr3 (cr3 (kmmu (sk t)))) (sk t1)\<rparr>) = Inr (32 + which)"
  shows "\<exists>t2. irq_handler call regs t = Inr (ret, t2) \<and> ktab (sk t2) = ktab (sk t1) \<and>
    kmmu (sk t2) = (kmmu (sk t1))\<lparr>cr3 := cr3 (kmmu (sk t))\<rparr> \<and>
    out_log (kio (sk t2)) = out_log (kio (sk t1)) @ (if which < 8 then [] else [(0xa0, 0x20)]) @ [(0x20, 0x20)]"
proof -
  have u: "unat (32 + which) = 32 + unat which" "unat which < 16"
    using w by (simp_all add: word_less_nat_alt, subst unat_add_no_wrap) (auto simp: word_less_nat_alt)
  have r: "32 + which \<ge> 32" "32 + which < 48" "32 + which \<ge> 40 \<longleftrightarrow> \<not> which < 8"
    using u by (auto simp: word_less_nat_alt word_le_nat_alt)
  let ?t2 = "t1\<lparr>sk := upd_mmu (set_cr3 (cr3 (kmmu (sk t)))) (sk t1)\<rparr>"
  have disp: "irq_dispatch call (32 + which) regs t = Inr (ret, ?t2)"
    using h call by (simp add: irq_dispatch_def Let_def get_cr3_def)
  have k: "kio (sk ?t2) = kio (sk t1)" "ktab (sk ?t2) = ktab (sk t1)" "kmmu (sk ?t2) = (kmmu (sk t1))\<lparr>cr3 := cr3 (kmmu (sk t))\<rparr>"
    by (simp_all add: upd_mmu_def kmmu_def kvms_def set_cr3_def)
  show ?thesis
    using num num1 r disp k by (auto simp: irq_handler_def Let_def outb_def kmmu_def kvms_def)
qed

section \<open>Theorems\<close>

text \<open>
  C5. Looking up a process by its name is safe.  In every state reachable by interrupts, system calls with any arguments, new processes and anything
  user programs and devices do, from one whose names are terminated strings, or from the one \<open>proc_earlyinit\<close> leaves, they still are; so the lookup of any terminated name stays within the arrays, whatever the
  processes are called, and answers with the id of the first process of that name, or 0.
\<close>

theorem name_lookup_safe:
  assumes "kreach k k'" and "0 \<in> set name"
    and "names_typed (ktab k) \<or> (\<exists>env k0. proc_earlyinit env k0 = Inr k \<and> names_typed (ktab k0))"
  shows "proc_find_by_name name (ktab k') =
    Inr (case named name (ktab k') of None \<Rightarrow> 0 | Some i \<Rightarrow> pid (procs (ktab k') i))"
proof -
  have "names_typed (ktab k')" using assms(1,3) kreach_names proc_earlyinit_names by blast
  then have "names_ok (ktab k')" by (rule typed_names_ok)
  then show ?thesis using assms(2) by (rule proc_find_by_name_first)
qed

theorem name_lookup_safe_witness:
  "\<exists>p. proc_find_by_name [0x73, 0] (ktab (demo_kern\<lparr>ktab := demo_pair\<rparr>)) = Inr p"
  using name_lookup_safe [OF kreach.start, of "[0x73, 0]" "demo_kern\<lparr>ktab := demo_pair\<rparr>"] demo_pair_inv by (simp add: tab_inv_def)

text \<open>
  C17. A request to map memory, from a process whose address space is clean and has enough free
  frames and no page at the window \<open>0x10000000\<close> yet: the kernel process answers the sender
  with the address of the window; in the sender's address space exactly the pages of the
  requested physical range have been added there, writable and open to ring 3; the kernel process is back in its own
  address space; the process table is unchanged but for the scheduler, which is on.
\<close>

theorem msg_dispatch_map_memory:
  assumes "proc_find_by_pid sender (ktab (sk s)) = Some i" and "current_proc (ktab (sk s)) = Some c"
    and "get32 msg 0 = Inr (kernel_code MSG_MAP_MEMORY)" and "get32 msg 4 = Inr pa" and "get32 msg 8 = Inr len"
    and "clean (space (pdir (procs (ktab (sk s)) i)) (sk s))"
    and "new_pages (range_pages 0x10000000 pa len) (space (pdir (procs (ktab (sk s)) i)) (sk s))"
    and "npages_of len \<le> room (space (pdir (procs (ktab (sk s)) i)) (sk s))"
  shows "\<exists>s'. msg_dispatch sender msg s = Inr ((sender, 0x10000000), s') \<and>
    cr3 (kmmu (sk s')) = pdir (procs (ktab (sk s)) c) \<and>
    ktab (sk s') = proc_enable_scheduling (ktab (sk s)) \<and>
    clean (space (pdir (procs (ktab (sk s)) i)) (sk s')) \<and>
    page_look (space (pdir (procs (ktab (sk s)) i)) (sk s')) =
      page_look (space (pdir (procs (ktab (sk s)) i)) (sk s)) ++ map_of (range_pages 0x10000000 pa len) \<and>
    (\<forall>(w, p) \<in> set (range_pages 0x10000000 pa len). page_access True (space (pdir (procs (ktab (sk s)) i)) (sk s')) w)"
proof -
  have i: "i < NPROCS" "pid (procs (ktab (sk s)) i) = sender" using find_by_pid_Some [OF assms(1)] by simp_all
  have e: "proc_enable_scheduling (proc_disable_scheduling (ktab (sk s))) = proc_enable_scheduling (ktab (sk s))"
    by (simp add: proc_enable_scheduling_def proc_disable_scheduling_def)
  obtain s' where s': "map_memory pa len i s = Inr (0x10000000, s')"
    "cr3 (kmmu (sk s')) = pdir (procs (ktab (sk s)) c)"
    "ktab (sk s') = proc_enable_scheduling (ktab (sk s))"
    "clean (space (pdir (procs (ktab (sk s)) i)) (sk s'))"
    "page_look (space (pdir (procs (ktab (sk s)) i)) (sk s')) =
      page_look (space (pdir (procs (ktab (sk s)) i)) (sk s)) ++ map_of (range_pages 0x10000000 pa len)"
    "\<forall>(w, p) \<in> set (range_pages 0x10000000 pa len). page_access True (space (pdir (procs (ktab (sk s)) i)) (sk s')) w"
    using map_memory_pages [OF assms(2) i(1) assms(6-8)] unfolding e by blast
  then have "msg_dispatch sender msg s = Inr ((sender, 0x10000000), s')"
    unfolding msg_dispatch_def using assms(1,3-5) i(2)
    by (simp add: Let_def kernel_type_def deref_def proc_enable_scheduling_def)
  with s'(2-6) show ?thesis by blast
qed

definition map_request :: "u8 list" where
  "map_request = le32 1 @ le32 0xb8000 @ le32 4000 @ replicate 24 0"

text \<open>Process 1 asks; the kernel process, 0, runs in another address space.\<close>

definition map_sys :: sys where
  "map_sys = \<lparr>sk = elf_kern\<lparr>ktab := demo_tab\<lparr>procs := (\<lambda>i. if i = 0 then demo_proc\<lparr>pid := 0, pdir := 0x9000\<rparr>
       else if i = 1 then demo_proc\<lparr>pid := 1\<rparr> else demo_proc), current_proc := Some 0\<rparr>\<rparr>,
     timer_ticks = 0, key_buffer = 0, is_pressed = (\<lambda>_. 0), svga = demo_vga, sprint_lock = False, cr2 = 0\<rparr>"

theorem msg_dispatch_map_memory_witness:
  "\<exists>s'. msg_dispatch 1 map_request map_sys = Inr ((1, 0x10000000), s') \<and> cr3 (kmmu (sk s')) = 0x9000 \<and>
     page_look (space 0 (sk s')) 0x10000000 = Some 0xb8000 \<and> page_access True (space 0 (sk s')) 0x10000000"
proof -
  have t: "proc_find_by_pid 1 (ktab (sk map_sys)) = Some 1" "current_proc (ktab (sk map_sys)) = Some 0"
    "pdir (procs (ktab (sk map_sys)) 1) = 0" "pdir (procs (ktab (sk map_sys)) 0) = 0x9000"
    by (simp_all add: map_sys_def demo_proc_def proc_find_by_pid_def NPROCS_def upt_rec)
  have sp: "space 0 (sk map_sys) = kvms elf_kern"
    by (simp add: space_def map_sys_def kvms_def elf_kern_def elf_mmu_def demo_mmu_def set_cr3_def)
  have rq: "get32 map_request 0 = Inr (kernel_code MSG_MAP_MEMORY)" "get32 map_request 4 = Inr 0xb8000"
    "get32 map_request 8 = Inr 4000"
    by (simp_all add: map_request_def get32_def le32_def)
  have rp: "range_pages 0x10000000 0xb8000 4000 = [(0x10000000, 0xb8000)]"
    by (simp add: range_pages_def npages_of_def PAGE_SIZE_def page_at_def PALIGNDOWN_eq)
  have "user_page 0x10000000" by (simp add: user_page_def page_aligned_def vm_pdir_idx_def)
  then have np: "new_pages (range_pages 0x10000000 0xb8000 4000) (kvms elf_kern)"
    by (simp add: new_pages_def rp elf_look page_aligned_def)
  have rm: "npages_of 4000 \<le> room (kvms elf_kern)" unfolding elf_frames(2) by (simp add: npages_of_def PAGE_SIZE_def)
  from msg_dispatch_map_memory [OF t(1,2) rq, unfolded t(3) sp, OF elf_clean np rm]
  show ?thesis by (auto simp: rp t(4))
qed

text \<open>
  C18. A forwarded interrupt.  A process asks the kernel process to forward one of the 16
  interrupts to a function whose address has a page table in its address space: the request
  is answered, and nothing of memory, address space and process table changes but for the
  scheduler, which is on.  Whenever that interrupt comes later, in whatever address space,
  and the function called in the address space of the process that asked returns: the
  interrupt handler returns what the function did, the interrupted address space is back and
  the interrupt is acknowledged, to both controllers if it came through the second one.
\<close>

theorem interrupt_forwarded:
  assumes "proc_find_by_pid sender (ktab (sk s)) = Some i"
    and "get32 msg 0 = Inr (kernel_code MSG_REQUEST_INTERRUPT_FORWARDING)"
    and "get32 msg 4 = Inr which" and "get32 msg 8 = Inr h"
    and "which < 16" and "h \<noteq> 0" and "pdir (procs (ktab (sk s)) i) \<noteq> 0"
    and "vm_get_phys_mapping h (space (pdir (procs (ktab (sk s)) i)) (sk s)) = Inr phys"
  shows "\<exists>s'. msg_dispatch sender msg s = Inr ((sender, 0x33cafe33), s') \<and>
    ktab (sk s') = proc_enable_scheduling (ktab (sk s)) \<and> kmmu (sk s') = kmmu (sk s) \<and>
    (\<forall>call regs t ret t1. irq_handlers (kidt (sk t)) (unat which) = irq_handlers (kidt (sk s')) (unat which) \<and>
       regs_num regs t = Inr (32 + which) \<and>
       call h regs (t\<lparr>sk := upd_mmu (set_cr3 (pdir (procs (ktab (sk s)) i))) (sk t)\<rparr>) = Inr (ret, t1) \<and>
       regs_num regs (t1\<lparr>sk := upd_mmu (set_cr3 (cr3 (kmmu (sk t)))) (sk t1)\<rparr>) = Inr (32 + which) \<longrightarrow>
       (\<exists>t2. irq_handler call regs t = Inr (ret, t2) \<and> ktab (sk t2) = ktab (sk t1) \<and>
          kmmu (sk t2) = (kmmu (sk t1))\<lparr>cr3 := cr3 (kmmu (sk t))\<rparr> \<and>
          out_log (kio (sk t2)) = out_log (kio (sk t1)) @ (if which < 8 then [] else [(0xa0, 0x20)]) @ [(0x20, 0x20)]))"
proof -
  let ?s' = "s\<lparr>sk := (sk s)\<lparr>kidt := (kidt (sk s))\<lparr>irq_handlers :=
      (irq_handlers (kidt (sk s)))(unat which := \<lparr>irq_fn = h, irq_pdir = pdir (procs (ktab (sk s)) i)\<rparr>)\<rparr>,
    ktab := proc_enable_scheduling (ktab (sk s))\<rparr>\<rparr>"
  have i: "pid (procs (ktab (sk s)) i) = sender" using find_by_pid_Some [OF assms(1)] by simp
  have "msg_dispatch sender msg s = Inr ((sender, 0x33cafe33), ?s')"
    unfolding msg_dispatch_def using assms(1-4) i forward_interrupt_effect [OF assms(8,5)]
    by (simp add: Let_def kernel_type_def deref_def proc_enable_scheduling_def)
  moreover have "irq_handlers (kidt (sk ?s')) (unat which) = \<lparr>irq_fn = h, irq_pdir = pdir (procs (ktab (sk s)) i)\<rparr>"
    "ktab (sk ?s') = proc_enable_scheduling (ktab (sk s))" "kmmu (sk ?s') = kmmu (sk s)"
    by (simp_all add: kmmu_def kvms_def)
  ultimately obtain s' where s': "msg_dispatch sender msg s = Inr ((sender, 0x33cafe33), s')"
    "irq_handlers (kidt (sk s')) (unat which) = \<lparr>irq_fn = h, irq_pdir = pdir (procs (ktab (sk s)) i)\<rparr>"
    "ktab (sk s') = proc_enable_scheduling (ktab (sk s))" "kmmu (sk s') = kmmu (sk s)"
    by blast
  note irq_handler_forwarded [OF trans [OF _ s'(2)] assms(6,7,5)]
  with s'(1,3,4) show ?thesis by (intro exI [of _ s']) simp
qed

definition fwd_request :: "u8 list" where
  "fwd_request = le32 0 @ le32 0 @ le32 0x2abc @ replicate 24 0"

text \<open>The bits below the page number of \<open>cr3\<close> are flags, so directory 8 is directory 0 with a flag.\<close>

definition fwd_sys :: sys where
  "fwd_sys = demo_sys\<lparr>sk := (sk demo_sys)\<lparr>ktab := upd_proc 0 (\<lambda>p. p\<lparr>pdir := 8\<rparr>) demo_pair,
     kheap := (kheap demo_kern)\<lparr>hvms := demo_vms\<rparr>\<rparr>\<rparr>"

lemma fwd_space: "space 8 (sk fwd_sys) = demo_vms\<lparr>vmmu := demo_mmu\<lparr>cr3 := 8\<rparr>\<rparr>"
  by (simp add: space_def fwd_sys_def kvms_def set_cr3_def demo_vms_def)

lemma fwd_walk:
  "pd_base (demo_mmu\<lparr>cr3 := 8\<rparr>) = pd_base demo_mmu" "pde_of (demo_mmu\<lparr>cr3 := 8\<rparr>) = pde_of demo_mmu"
  "pte_of (demo_mmu\<lparr>cr3 := 8\<rparr>) = pte_of demo_mmu" "pt_ok (demo_mmu\<lparr>cr3 := 8\<rparr>)"
proof -
  show b: "pd_base (demo_mmu\<lparr>cr3 := 8\<rparr>) = pd_base demo_mmu" by (simp add: pd_base_def demo_mmu_def)
  show e: "pde_of (demo_mmu\<lparr>cr3 := 8\<rparr>) = pde_of demo_mmu" by (rule ext) (simp add: pde_of_def b)
  show "pte_of (demo_mmu\<lparr>cr3 := 8\<rparr>) = pte_of demo_mmu" by (intro ext) (simp add: pte_of_def e)
  show "pt_ok (demo_mmu\<lparr>cr3 := 8\<rparr>)" 
    using demo_pt_ok unfolding pt_ok_def selfmap_def has_table_def table_of_def b e .
qed

text \<open>The interrupt comes with the registers of \<open>demo_sys\<close> in memory; the function returns them.\<close>

definition fwd_call :: hcall where
  "fwd_call _ regs s = Inr (regs, s)"

definition fwd_tick :: "sys \<Rightarrow> sys" where
  "fwd_tick s = s\<lparr>sk := upd_mmu (\<lambda>_. kmmu (sk demo_sys)) (sk s)\<rparr>"

lemma fwd_tick_num:
  "regs_num 0x2000 (fwd_tick s) = Inr 32"
  "irq_handlers (kidt (sk (fwd_tick s))) = irq_handlers (kidt (sk s))"
  "kmmu (sk (fwd_tick s)) = kmmu (sk demo_sys)" "out_log (kio (sk (fwd_tick s))) = out_log (kio (sk s))"
  using demo_sys_num(1) by (simp_all add: regs_num_def fwd_tick_def upd_mmu_def kmmu_def kvms_def)

theorem interrupt_forwarded_witness:
  "\<exists>s' t2. msg_dispatch 0 fwd_request fwd_sys = Inr ((0, 0x33cafe33), s') \<and>
     irq_handler fwd_call 0x2000 (fwd_tick s') = Inr (0x2000, t2) \<and>
     kmmu (sk t2) = kmmu (sk demo_sys) \<and> out_log (kio (sk t2)) = out_log (kio (sk s')) @ [(0x20, 0x20)]"
proof -
  have t: "proc_find_by_pid 0 (ktab (sk fwd_sys)) = Some 0" "pdir (procs (ktab (sk fwd_sys)) 0) = 8"
    by (simp_all add: fwd_sys_def demo_sys_def demo_pair_def demo_proc_def proc_find_by_pid_def NPROCS_def upt_rec
        upd_proc_def)
  have rq: "get32 fwd_request 0 = Inr (kernel_code MSG_REQUEST_INTERRUPT_FORWARDING)" "get32 fwd_request 4 = Inr 0"
    "get32 fwd_request 8 = Inr 0x2abc"
    by (simp_all add: fwd_request_def get32_def le32_def)
  have "has_table (demo_mmu\<lparr>cr3 := 8\<rparr>) (vm_pdir_idx 0x2abc)"
    using demo_has_table(1) by (simp add: has_table_def fwd_walk demo_vms_def vm_pdir_idx_def)
  then obtain phys where ph: "vm_get_phys_mapping 0x2abc (space 8 (sk fwd_sys)) = Inr phys"
    using vm_get_phys_mapping_table [of "demo_vms\<lparr>vmmu := demo_mmu\<lparr>cr3 := 8\<rparr>\<rparr>" "0x2abc"] fwd_walk(4)
    unfolding fwd_space by simp
  obtain s' where s': "msg_dispatch 0 fwd_request fwd_sys = Inr ((0, 0x33cafe33), s')" and
    irq: "\<forall>call regs t ret t1. irq_handlers (kidt (sk t)) 0 = irq_handlers (kidt (sk s')) 0 \<and>
       regs_num regs t = Inr 32 \<and> call 0x2abc regs (t\<lparr>sk := upd_mmu (set_cr3 8) (sk t)\<rparr>) = Inr (ret, t1) \<and>
       regs_num regs (t1\<lparr>sk := upd_mmu (set_cr3 (cr3 (kmmu (sk t)))) (sk t1)\<rparr>) = Inr 32 \<longrightarrow>
       (\<exists>t2. irq_handler call regs t = Inr (ret, t2) \<and> ktab (sk t2) = ktab (sk t1) \<and>
          kmmu (sk t2) = (kmmu (sk t1))\<lparr>cr3 := cr3 (kmmu (sk t))\<rparr> \<and>
          out_log (kio (sk t2)) = out_log (kio (sk t1)) @ [(0x20, 0x20)])"
    using interrupt_forwarded [OF t(1) rq, unfolded t(2), OF _ _ _ ph] by (auto simp: word_less_nat_alt)
  let ?t1 = "(fwd_tick s')\<lparr>sk := upd_mmu (set_cr3 8) (sk (fwd_tick s'))\<rparr>"
  have b: "?t1\<lparr>sk := upd_mmu (set_cr3 (cr3 (kmmu (sk (fwd_tick s'))))) (sk ?t1)\<rparr> = fwd_tick s'"
    using cr3_back [of "sk (fwd_tick s')" 8] by simp
  have "irq_handlers (kidt (sk (fwd_tick s'))) 0 = irq_handlers (kidt (sk s')) 0 \<and>
      regs_num 0x2000 (fwd_tick s') = Inr 32 \<and>
      fwd_call 0x2abc 0x2000 ?t1 = Inr (0x2000, ?t1) \<and>
      regs_num 0x2000 (?t1\<lparr>sk := upd_mmu (set_cr3 (cr3 (kmmu (sk (fwd_tick s'))))) (sk ?t1)\<rparr>) = Inr 32"
    unfolding b using fwd_tick_num by (simp add: fwd_call_def)
  from irq [THEN spec [of _ fwd_call], rule_format, OF this] obtain t2 where
    "irq_handler fwd_call 0x2000 (fwd_tick s') = Inr (0x2000, t2)"
    "kmmu (sk t2) = (kmmu (sk ?t1))\<lparr>cr3 := cr3 (kmmu (sk (fwd_tick s')))\<rparr>"
    "out_log (kio (sk t2)) = out_log (kio (sk ?t1)) @ [(0x20, 0x20)]" by blast
  moreover have "(kmmu (sk ?t1))\<lparr>cr3 := cr3 (kmmu (sk (fwd_tick s')))\<rparr> = kmmu (sk demo_sys)"
    "out_log (kio (sk ?t1)) = out_log (kio (sk s'))"
    by (simp_all add: upd_mmu_def kmmu_def kvms_def set_cr3_def fwd_tick_def)
  ultimately show ?thesis using s' by auto
qed

end
