(* ===== verification/Userland.thy ===== *)
theory Userland
  imports Dispatcher Syscall "HOL-Library.Sublist"
begin

unbundle bit_operations_syntax

text \<open>
  The programs outside the kernel: the message library \<^verbatim>\<open>lib/libipc/ipc.c\<close>, the C library
  \<^verbatim>\<open>lib/libc\<close>, the screen driver \<^verbatim>\<open>drivers/screen.c\<close>, the keyboard server
  \<^verbatim>\<open>servers/kbd.c\<close> and the shell \<^verbatim>\<open>exec/shell.c\<close>.

  Two levels.  The stubs of libipc write a \<open>struct msg_packet\<close> into memory and raise an
  interrupt with its address in eax: \<open>ipc_send_call\<close> and its siblings.  The programs above
  them are written over messages, which are lists of bytes: a client is a \<open>prog\<close>, a finite
  tree of requests with what to do with each answer; a server is its state and the body of
  its loop, a function from the bytes received to the answer.  \<open>run\<close> executes a client
  against servers.  That a message reaches the server and the answer the client, byte by
  byte, is what theory \<open>Ipc\<close> shows of the kernel.

  Shown: the screen driver refines a terminal and keeps its cursor on the screen; the
  keyboard server returns keys in the order of their interrupts, all of them when each comes while the
  server waits, and some are lost otherwise; a name is resolved to
  the process that has it; and the shell, run against the three servers, echoes what the server returns.
  The locale \<open>char_device\<close> is what the echo loop relies on.

  Interrupts of the keyboard arrive at any time: besides those the server waits for, each round of its loop has a number of
  interrupts before the wait, between the wait and the look at the scan code, and between that and the reset of the flag
  (the field \<open>warr\<close> of the world).  Local variables a function does not initialise hold what was on the stack: the fields
  \<open>stack_io\<close> and \<open>stack_kernel\<close> of \<open>user_env\<close>.
\<close>

section \<open>Definitions\<close>

subsection \<open>Message packets (libipc/ipc.c)\<close>

fun kst_words :: "u32 \<Rightarrow> u32 list \<Rightarrow> kern \<Rightarrow> kern res" where
  "kst_words a [] k = Inr k"
| "kst_words a (w # ws) k = kbind (kst a w k) (kst_words (a + 4) ws)"

text \<open>The packet at \<open>msg\<close> is built; the result is the value of eax and the interrupt raised.\<close>

definition ipc_send_call :: "u32 \<Rightarrow> u32 \<Rightarrow> u32 \<Rightarrow> u32 \<Rightarrow> u32 \<Rightarrow> u32 \<Rightarrow> kern \<Rightarrow> ((u32 \<times> nat) \<times> kern) res" where
  "ipc_send_call msg receiver send_buf send_len recv_buf recv_len k =
     kbind (kst_words msg [0, receiver, send_buf, recv_buf, send_len, recv_len, 0, 0, 0] k) (\<lambda>k.
       Inr ((msg, SYSCALL_SEND_MSG_VECTOR), k))"

definition ipc_recv_call :: "u32 \<Rightarrow> u32 \<Rightarrow> u32 \<Rightarrow> kern \<Rightarrow> ((u32 \<times> nat) \<times> kern) res" where
  "ipc_recv_call msg recv_buf recv_len k =
     kbind (kst_words msg [0, 0, 0, recv_buf, 0, recv_len, 0, 0, 0] k) (\<lambda>k.
       Inr ((msg, SYSCALL_RECV_MSG_VECTOR), k))"

text \<open>When the receive returns, the kernel has written the sender into the packet.\<close>

definition ipc_recv_result :: "u32 \<Rightarrow> kern \<Rightarrow> u32 res" where
  "ipc_recv_result msg k = kld (msg + MSG_SENDER) k"

definition ipc_reply_call :: "u32 \<Rightarrow> u32 \<Rightarrow> u32 \<Rightarrow> u32 \<Rightarrow> kern \<Rightarrow> ((u32 \<times> nat) \<times> kern) res" where
  "ipc_reply_call msg sender send_buf send_len k =
     kbind (kst_words msg [sender, 0, send_buf, 0, send_len, 0, 0, 0, 0] k) (\<lambda>k.
       Inr ((msg, SYSCALL_RPLY_MSG_VECTOR), k))"

subsection \<open>Clients\<close>

datatype 'a prog =
    Done "'a res"
  | Send u32 "u8 list" nat "u8 list \<Rightarrow> 'a prog"

primrec pbind :: "'a prog \<Rightarrow> ('a \<Rightarrow> 'b prog) \<Rightarrow> 'b prog" where
  "pbind (Done r) f = (case r of Inl e \<Rightarrow> Done (Inl e) | Inr x \<Rightarrow> f x)"
| "pbind (Send p m n c) f = Send p m n (\<lambda>r. pbind (c r) f)"

type_synonym 'w services = "u32 \<Rightarrow> u8 list \<Rightarrow> nat \<Rightarrow> 'w \<Rightarrow> (u8 list \<times> 'w) res"

primrec run :: "'w services \<Rightarrow> 'a prog \<Rightarrow> 'w \<Rightarrow> ('a \<times> 'w) res" where
  "run srv (Done r) w = kbind r (\<lambda>x. Inr (x, w))"
| "run srv (Send p m n c) w = kbind (srv p m n w) (\<lambda>(r, w). run srv (c r) w)"

subsection \<open>Names (libipc/ipc.c)\<close>

text \<open>All 32 characters are copied, whatever the length of the name.\<close>

definition find_by_name :: "u8 list \<Rightarrow> u8 list \<Rightarrow> u32 prog" where
  "find_by_name msg name =
     (if length name < MAX_PROC_NAME_LEN then Done (Inl OutOfBounds)
      else Send 0 (patch 4 (take MAX_PROC_NAME_LEN name) (patch 0 (le32 (kernel_code MSG_FIND_PROC_BY_NAME)) msg)) 4
             (\<lambda>response. Done (get32 response 0)))"

subsection \<open>The C library (lib/libc), messages for input and output (msg/io.h)\<close>

definition MSG_IO_BUFSIZE :: nat where "MSG_IO_BUFSIZE = 64"

datatype msg_io_type = MSG_GETC | MSG_PUTS | MSG_PUTC

primrec io_code :: "msg_io_type \<Rightarrow> u32" where
  "io_code MSG_GETC = 0" | "io_code MSG_PUTS = 1" | "io_code MSG_PUTC = 2"

definition io_type :: "u32 \<Rightarrow> msg_io_type option" where
  "io_type v = (if v = 0 then Some MSG_GETC else if v = 1 then Some MSG_PUTS else if v = 2 then Some MSG_PUTC else None)"

text \<open>\<open>struct msg_io\<close>: the type at offset 0, one character at 4, the buffer at 5, 72 bytes with padding.\<close>

definition IO_ONE_CHAR :: nat where "IO_ONE_CHAR = 4"
definition IO_CHARS :: nat where "IO_CHARS = 5"
definition SIZEOF_MSG_IO :: nat where "SIZEOF_MSG_IO = 72"

record user_env =
  stack_io :: "u8 list"
  stack_kernel :: "u8 list"
  kbd_literal :: "u8 list"
  screen_literal :: "u8 list"

definition getc :: "user_env \<Rightarrow> u32 prog" where
  "getc env =
     pbind (find_by_name (stack_kernel env) (kbd_literal env)) (\<lambda>kbd.
       Send kbd (patch 0 (le32 (io_code MSG_GETC)) (stack_io env)) 4 (\<lambda>r. Done (get32 r 0)))"

definition putc :: "user_env \<Rightarrow> u8 \<Rightarrow> u32 prog" where
  "putc env c =
     pbind (find_by_name (stack_kernel env) (screen_literal env)) (\<lambda>screen.
       Send screen (patch IO_ONE_CHAR [c] (patch 0 (le32 (io_code MSG_PUTC)) (stack_io env))) 4
         (\<lambda>r. Done (get32 r 0)))"

fun puts_fill :: "u8 list \<Rightarrow> nat \<Rightarrow> u8 list \<Rightarrow> u8 list res" where
  "puts_fill [] i msg = Inl OutOfBounds"
| "puts_fill (c # s) i msg =
     (if c \<noteq> 0 \<and> i < MSG_IO_BUFSIZE then puts_fill s (i + 1) (msg[IO_CHARS + i := c]) else Inr msg)"

definition user_puts :: "user_env \<Rightarrow> u8 list \<Rightarrow> u32 prog" where
  "user_puts env s =
     pbind (find_by_name (stack_kernel env) (screen_literal env)) (\<lambda>screen.
       case puts_fill s 0 (patch 0 (le32 (io_code MSG_PUTS)) (stack_io env)) of
         Inl e \<Rightarrow> Done (Inl e)
       | Inr msg \<Rightarrow> Send screen msg 4 (\<lambda>r. Done (get32 r 0)))"

subsection \<open>The screen driver (drivers/screen.c)\<close>

record scr =
  video_memory :: "u16 list"
  column :: u32
  row :: u32
  fg_color :: u32
  bg_color :: u32

definition screen_columns :: nat where "screen_columns = 80"
definition screen_rows :: nat where "screen_rows = 25"

definition scr_cell :: "nat \<Rightarrow> scr \<Rightarrow> u16 res" where
  "scr_cell i s = (if i < length (video_memory s) then Inr (video_memory s ! i) else Inl OutOfBounds)"

definition scr_set_cell :: "nat \<Rightarrow> u16 \<Rightarrow> scr \<Rightarrow> scr res" where
  "scr_set_cell i v s =
     (if i < length (video_memory s) then Inr (s\<lparr>video_memory := (video_memory s)[i := v]\<rparr>) else Inl OutOfBounds)"

definition scrollup :: "scr \<Rightarrow> scr res" where
  "scrollup s =
     kbind (kfor (screen_rows - 1) (\<lambda>y. kfor screen_columns (\<lambda>x s.
         kbind (scr_cell ((y + 1) * screen_columns + x) s) (\<lambda>v. scr_set_cell (y * screen_columns + x) v s))) s) (\<lambda>s.
       kfor screen_columns (\<lambda>x. scr_set_cell ((screen_rows - 1) * screen_columns + x) 0) s)"

text \<open>The type char is signed: a character from 128 on sets all bits of the attribute.\<close>

definition scr_char :: "u8 \<Rightarrow> scr \<Rightarrow> u16" where
  "scr_char ch s = ucast (push_bit 8 (push_bit 4 (bg_color s) OR fg_color s) OR (scast ch :: u32))"

definition put_char_at :: "u8 \<Rightarrow> u32 \<Rightarrow> u32 \<Rightarrow> scr \<Rightarrow> scr res" where
  "put_char_at ch x y s =
     (let idx = y * of_nat screen_columns + x in scr_set_cell (unat idx) (scr_char ch s) s)"

definition put_char :: "u8 \<Rightarrow> scr \<Rightarrow> scr res" where
  "put_char ch s =
     (let s = (if sint (column s) \<ge> int screen_columns \<or> ch = 0x0a
               then s\<lparr>column := 0, row := row s + 1\<rparr> else s) in
      kbind (if sint (row s) \<ge> int screen_rows
             then kbind (scrollup s) (\<lambda>s. Inr (s\<lparr>row := row s - 1\<rparr>)) else Inr s) (\<lambda>s.
      if ch = 0x0a then Inr s
      else kbind (put_char_at ch (column s) (row s) s) (\<lambda>s. Inr (s\<lparr>column := column s + 1\<rparr>))))"

definition clear :: "scr \<Rightarrow> scr res" where
  "clear = kfor screen_rows (\<lambda>y. kfor screen_columns (\<lambda>x. put_char_at 0 (of_nat x) (of_nat y)))"

text \<open>The request for the memory of the screen, and the cells found at the address answered.\<close>

definition screen_init :: "u8 list \<Rightarrow> (u32 \<Rightarrow> u16 list) \<Rightarrow> scr \<Rightarrow> scr prog" where
  "screen_init stack cells_at s =
     (let s = s\<lparr>column := 0, row := 0, fg_color := 0xb, bg_color := 0x0\<rparr> in
      Send 0 (patch 8 (le32 (of_nat (screen_columns * screen_rows * 2)))
               (patch 4 (le32 0xb8000) (patch 0 (le32 (kernel_code MSG_MAP_MEMORY)) stack))) 4
        (\<lambda>response. case get32 response 0 of
           Inl e \<Rightarrow> Done (Inl e)
         | Inr a \<Rightarrow> Done (clear (s\<lparr>video_memory := cells_at a\<rparr>))))"

text \<open>
  The loop over \<open>msg.chars\<close> looks at the byte before it checks the bound, so it reads at most
  one byte behind the buffer, which is padding of the structure.
\<close>

fun puts_loop :: "u8 list \<Rightarrow> nat \<Rightarrow> scr \<Rightarrow> scr res" where
  "puts_loop [] i s = Inl OutOfBounds"
| "puts_loop (c # cs) i s =
     (if c = 0 then Inr s
      else if i \<ge> MSG_IO_BUFSIZE then Inr s
      else kbind (put_char c s) (puts_loop cs (i + 1)))"

text \<open>One round of the loop of main; the case for a string has no break.\<close>

definition screen_serve :: "u8 list \<Rightarrow> scr \<Rightarrow> (u32 \<times> scr) res" where
  "screen_serve msg s =
     kbind (get32 msg 0) (\<lambda>ty.
     if length msg < SIZEOF_MSG_IO then Inl OutOfBounds else
     kbind (case io_type ty of
              Some MSG_PUTS \<Rightarrow>
                kbind (puts_loop (drop IO_CHARS msg) 0 s) (put_char (msg ! IO_ONE_CHAR))
            | Some MSG_PUTC \<Rightarrow> put_char (msg ! IO_ONE_CHAR) s
            | _ \<Rightarrow> Inr s) (\<lambda>s.
       Inr (0x11babe11, s)))"

subsection \<open>The keyboard server (servers/kbd.c)\<close>

text \<open>
  The table, the key codes and the polling loop are the ones of the kernel's own driver, theory
  \<open>Devices\<close>.  The mask computed by the handler is a local variable that nothing reads.
\<close>

record kbdsrv =
  last_scancode :: u8
  key_pressed :: bool
  srv_pressed :: "nat \<Rightarrow> u8"
  srv_reply :: u32

text \<open>The server's own table and polling loop; both are written as in the kernel's driver.\<close>

definition srv_layout :: "(u8 \<times> u8) list" where
  "srv_layout = layout"

definition srv_get_scancode :: "ioport \<Rightarrow> (u8 \<times> ioport) res" where
  "srv_get_scancode io = kbd_get_scancode io"

definition srv_key :: "u8 \<Rightarrow> u8 res" where
  "srv_key scancode =
     (if unat scancode < length srv_layout then Inr (fst (srv_layout ! unat scancode)) else Inl OutOfBounds)"

definition kbd_irq_handler :: "u32 \<Rightarrow> ioport \<times> kbdsrv \<Rightarrow> (u32 \<times> ioport \<times> kbdsrv) res" where
  "kbd_irq_handler regs = (\<lambda>(io, st).
     kbind (srv_get_scancode io) (\<lambda>(scancode, io).
     let st = (if scancode = KEY_LSHIFT \<or> scancode = KEY_RSHIFT
               then st\<lparr>srv_pressed := (srv_pressed st)(MASK_SHIFT := 1)\<rparr> else st);
         st = (if scancode = RELEASED KEY_LSHIFT \<or> scancode = RELEASED KEY_RSHIFT
               then st\<lparr>srv_pressed := (srv_pressed st)(MASK_SHIFT := 0)\<rparr> else st);
         st = (if scancode AND 0x80 = 0 then st\<lparr>last_scancode := scancode, key_pressed := True\<rparr> else st)
     in Inr (regs, io, st)))"

text \<open>
  The handler can run between any two instructions of the server.  Its effect is on the variables of this record alone,
  so only its place among the accesses to them matters: before \<open>_key_pressed\<close> is first tested (also while
  other processes run), in the loop that tests it, between the loop and the read of \<open>_last_scancode\<close>, between that
  read and the reset of \<open>_key_pressed\<close>.  \<open>arrivals\<close> are the numbers of interrupts in the first, the third and the
  fourth place, during one round of the server; \<open>n\<close> is the number of keyboard interrupts still to come.
\<close>

type_synonym arrivals = "nat \<times> nat \<times> nat"

fun kbd_take :: "nat \<Rightarrow> nat \<times> ioport \<times> kbdsrv \<Rightarrow> (nat \<times> ioport \<times> kbdsrv) res" where
  "kbd_take 0 (n, x) = Inr (n, x)"
| "kbd_take (Suc k) (0, x) = Inr (0, x)"
| "kbd_take (Suc k) (Suc n, x) = kbind (kbd_irq_handler 0 x) (\<lambda>(_, x). kbd_take k (n, x))"

text \<open>The server spins until an interrupt has set \<open>_key_pressed\<close>.\<close>

fun kbd_wait_key :: "nat \<Rightarrow> ioport \<times> kbdsrv \<Rightarrow> (nat \<times> ioport \<times> kbdsrv) res" where
  "kbd_wait_key 0 x = (if key_pressed (snd x) then Inr (0, x) else Inl Spins)"
| "kbd_wait_key (Suc n) x =
     (if key_pressed (snd x) then Inr (Suc n, x)
      else kbind (kbd_irq_handler 0 x) (\<lambda>(_, x). kbd_wait_key n x))"

text \<open>Any other message is answered with the value left from the last answer.\<close>

definition kbd_serve :: "u8 list \<Rightarrow> arrivals \<Rightarrow> nat \<times> ioport \<times> kbdsrv \<Rightarrow> (u32 \<times> nat \<times> ioport \<times> kbdsrv) res" where
  "kbd_serve msg = (\<lambda>(before, seen, read) x.
     kbind (kbd_take before x) (\<lambda>(n, x).
     kbind (get32 msg 0) (\<lambda>ty.
     kbind (case io_type ty of
              Some MSG_GETC \<Rightarrow>
                kbind (kbd_wait_key n x) (\<lambda>x.
                kbind (kbd_take seen x) (\<lambda>(n, io, st).
                kbind (srv_key (last_scancode st)) (\<lambda>key.
                kbind (kbd_take read (n, io, st\<lparr>srv_reply := ucast key\<rparr>)) (\<lambda>(n, io, st).
                  Inr (n, io, st\<lparr>key_pressed := False\<rparr>)))))
            | _ \<Rightarrow> Inr (n, x)) (\<lambda>(n, io, st).
       Inr (srv_reply st, n, io, st)))))"

definition kbd_request :: "u8 list \<Rightarrow> u32 \<Rightarrow> u32 prog" where
  "kbd_request stack handler =
     Send 0 (patch 8 (le32 handler) (patch 4 (le32 1)
               (patch 0 (le32 (kernel_code MSG_REQUEST_INTERRUPT_FORWARDING)) stack))) 4
       (\<lambda>response. Done (get32 response 0))"

subsection \<open>The shell (exec/shell.c)\<close>

text \<open>The shell never ends; \<open>shell env n\<close> is its run for \<open>n\<close> characters.\<close>

primrec shell_rounds :: "user_env \<Rightarrow> nat \<Rightarrow> unit prog" where
  "shell_rounds env 0 = Done (Inr ())"
| "shell_rounds env (Suc n) =
     pbind (getc env) (\<lambda>ch. pbind (putc env (ucast ch)) (\<lambda>_. shell_rounds env n))"

definition shell :: "user_env \<Rightarrow> nat \<Rightarrow> unit prog" where
  "shell env n = pbind (user_puts env (cstring ''type! '')) (\<lambda>_. shell_rounds env n)"

subsection \<open>The servers together\<close>

datatype server = Kernel_Process | Screen_Driver | Keyboard_Server

record world =
  wsys :: sys
  wscr :: scr
  wkbd :: kbdsrv
  wirqs :: nat
  warr :: "arrivals list"
  wtable :: "u32 \<Rightarrow> server option"
  wclient :: u32

definition answer :: "nat \<Rightarrow> u32 \<Rightarrow> world \<Rightarrow> (u8 list \<times> world) res" where
  "answer n v w = (if n \<le> 4 then Inr (take n (le32 v), w) else Inl OutOfBounds)"

text \<open>
  The arrivals of the next round of the keyboard server; when none are given, interrupts come only while it waits.
  A request to a process that does not exist is never answered.
\<close>

definition next_arrivals :: "arrivals list \<Rightarrow> arrivals" where
  "next_arrivals rs = (case rs of [] \<Rightarrow> (0, 0, 0) | r # _ \<Rightarrow> r)"

definition respond :: "world services" where
  "respond p msg n w =
     (case wtable w p of
        None \<Rightarrow> Inl Spins
      | Some Kernel_Process \<Rightarrow>
          kbind (msg_dispatch (wclient w) msg (wsys w)) (\<lambda>((_, r), s). answer n r (w\<lparr>wsys := s\<rparr>))
      | Some Screen_Driver \<Rightarrow>
          kbind (screen_serve msg (wscr w)) (\<lambda>(r, s). answer n r (w\<lparr>wscr := s\<rparr>))
      | Some Keyboard_Server \<Rightarrow>
          kbind (kbd_serve msg (next_arrivals (warr w)) (wirqs w, kio (sk (wsys w)), wkbd w)) (\<lambda>(r, i, io, st).
            answer n r (w\<lparr>wirqs := i, warr := tl (warr w), wkbd := st, wsys := (wsys w)\<lparr>sk := (sk (wsys w))\<lparr>kio := io\<rparr>\<rparr>\<rparr>)))"

section \<open>Lemmas\<close>

subsection \<open>Running clients\<close>

lemma run_pbind:
  "run srv (pbind p f) w = kbind (run srv p w) (\<lambda>(x, w). run srv (f x) w)"
proof (induction p arbitrary: w)
  case (Done r)
  then show ?case by (cases r) simp_all
next
  case (Send p m n c)
  then have "run srv (pbind (c r) f) = (\<lambda>w. kbind (run srv (c r) w) (\<lambda>(x, w). run srv (f x) w))" for r by blast
  then show ?case by (cases "srv p m n w") auto
qed

primrec echo :: "u32 prog \<Rightarrow> (u8 \<Rightarrow> u32 prog) \<Rightarrow> nat \<Rightarrow> unit prog" where
  "echo g p 0 = Done (Inr ())"
| "echo g p (Suc n) = pbind g (\<lambda>ch. pbind (p (ucast ch)) (\<lambda>_. echo g p n))"

lemma shell_rounds_echo: "shell_rounds env n = echo (getc env) (putc env) n"
  by (induction n) simp_all

text \<open>
  What a program needs of a terminal: characters that are still to come, and a view of what
  is shown that a written character changes in a fixed way.
\<close>

locale char_device =
  fixes srv :: "'w services" and get_prog :: "u32 prog" and put_prog :: "u8 \<Rightarrow> u32 prog"
    and ok :: "'w \<Rightarrow> bool" and keys :: "'w \<Rightarrow> u8 list" and view :: "'w \<Rightarrow> 'v" and show_char :: "'v \<Rightarrow> u8 \<Rightarrow> 'v"
  assumes get_next: "ok w \<Longrightarrow> keys w = c # cs \<Longrightarrow>
      \<exists>w'. run srv get_prog w = Inr (ucast c, w') \<and> ok w' \<and> keys w' = cs \<and> view w' = view w"
    and put_shown: "ok w \<Longrightarrow>
      \<exists>r w'. run srv (put_prog c) w = Inr (r, w') \<and> ok w' \<and> keys w' = keys w \<and> view w' = show_char (view w) c"
begin

lemma echo_shows_keys:
  assumes "ok w" and "n \<le> length (keys w)"
  shows "\<exists>w'. run srv (echo get_prog put_prog n) w = Inr ((), w') \<and> ok w' \<and> keys w' = drop n (keys w) \<and>
    view w' = foldl show_char (view w) (take n (keys w))"
  using assms
proof (induction n arbitrary: w)
  case 0
  then show ?case by simp
next
  case (Suc n)
  obtain c cs where k: "keys w = c # cs" using Suc.prems(2) by (cases "keys w") auto
  obtain w1 where w1: "run srv get_prog w = Inr (ucast c, w1)" "ok w1" "keys w1 = cs" "view w1 = view w"
    using get_next [OF Suc.prems(1) k] by blast
  have u: "(ucast (ucast c :: u32) :: u8) = c" by (rule bit_word_eqI) (simp add: bit_simps)
  obtain r w2 where w2: "run srv (put_prog c) w1 = Inr (r, w2)" "ok w2" "keys w2 = cs"
    "view w2 = show_char (view w) c"
    using put_shown [OF w1(2)] w1(3,4) by metis
  from Suc.IH [OF w2(2)] Suc.prems(2) k w2(3) obtain w3 where
    "run srv (echo get_prog put_prog n) w2 = Inr ((), w3)" "ok w3" "keys w3 = drop n cs"
    "view w3 = foldl show_char (view w2) (take n cs)" by auto
  then show ?case using w1(1) w2(1,4) u k by (auto simp: run_pbind)
qed

end

subsection \<open>The screen driver as a terminal\<close>

interpretation scs: cell_screen video_memory "\<lambda>M s. s\<lparr>video_memory := M\<rparr>" scr_cell scr_set_cell
  by unfold_locales (simp_all add: scr_cell_def scr_set_cell_def)

definition scr_color :: "scr \<Rightarrow> u32" where
  "scr_color s = push_bit 8 (push_bit 4 (bg_color s) OR fg_color s)"

definition screen_newline :: "terminal \<Rightarrow> terminal" where
  "screen_newline t =
     (if trow t = 24 then t\<lparr>grid := drop 80 (grid t) @ replicate 80 0, tcol := 0\<rparr>
      else t\<lparr>trow := trow t + 1, tcol := 0\<rparr>)"

definition screen_put :: "u32 \<Rightarrow> terminal \<Rightarrow> u8 \<Rightarrow> terminal" where
  "screen_put color t ch =
     (if ch = 0x0a then screen_newline t
      else let t = (if tcol t = 80 then screen_newline t else t) in
        t\<lparr>grid := (grid t)[trow t * 80 + tcol t := ucast (color OR (scast ch :: u32))], tcol := tcol t + 1\<rparr>)"

definition screen_of :: "scr \<Rightarrow> terminal" where
  "screen_of s = \<lparr>grid = video_memory s, trow = unat (row s), tcol = unat (column s)\<rparr>"

definition scr_ok :: "scr \<Rightarrow> bool" where
  "scr_ok s \<longleftrightarrow> length (video_memory s) = 2000 \<and> unat (row s) < 25 \<and> unat (column s) \<le> 80"

lemma sint_ge: "unat (v :: u32) < 2147483648 \<Longrightarrow> int n \<le> sint v \<longleftrightarrow> n \<le> unat v"
proof -
  assume v: "unat v < 2147483648"
  have e: "uint v = int (unat v)" by simp
  have "signed_take_bit 31 (uint v) = uint v"
    by (rule signed_take_bit_int_eq_self) (use v in \<open>simp_all add: e del: of_nat_unat\<close>)
  then have "sint v = uint v" by (simp add: sint_uint)
  then show ?thesis unfolding e by (simp del: of_nat_unat)
qed

lemma scrollup_screen:
  assumes "length (video_memory s) = 2000"
  shows "scrollup s = Inr (s\<lparr>video_memory := drop 80 (video_memory s) @ replicate 80 0\<rparr>)"
  unfolding scrollup_def using scs.scroll [OF assms, of 0]
  by (simp add: screen_columns_def screen_rows_def)

lemma screen_index:
  assumes "unat (y :: u32) < 25" and "unat (x :: u32) < 80"
  shows "unat (y * of_nat screen_columns + x) = unat y * 80 + unat x"
proof -
  have "unat (y * 80) = unat y * 80" using assms(1) by (simp add: unat_word_ariths)
  then show ?thesis using assms by (simp add: screen_columns_def unat_add_no_wrap)
qed

lemma put_char_step:
  assumes ok: "scr_ok s"
  shows "\<exists>s'. put_char ch s = Inr s' \<and> scr_ok s' \<and> scr_color s' = scr_color s \<and>
    screen_of s' = screen_put (scr_color s) (screen_of s) ch"
proof -
  have ok': "length (video_memory s) = 2000" "unat (row s) < 25" "unat (column s) \<le> 80" using ok by (auto simp: scr_ok_def)
  have col: "sint (column s) \<ge> int screen_columns \<longleftrightarrow> unat (column s) = 80"
    using ok'(3) sint_ge [of "column s" screen_columns] by (simp add: screen_columns_def)
  define nl where "nl = (unat (column s) = 80 \<or> ch = 0x0a)"
  define s1 where "s1 = (if nl then s\<lparr>column := 0, row := row s + 1\<rparr> else s)"
  have row1: "unat (row s + 1) = unat (row s) + 1" using ok'(2) by (subst unat_add_no_wrap) auto
  have r25: "sint (row s1) \<ge> int screen_rows \<longleftrightarrow> nl \<and> unat (row s) = 24"
    using ok'(2) row1 sint_ge [of "row s1" screen_rows] by (auto simp: s1_def screen_rows_def)
  define s2 where "s2 = (if nl \<and> unat (row s) = 24
    then s1\<lparr>video_memory := drop 80 (video_memory s) @ replicate 80 0, row := row s1 - 1\<rparr> else s1)"
  have M1: "length (video_memory s1) = 2000" "video_memory s1 = video_memory s" using ok'(1) by (simp_all add: s1_def)
  have sc: "(if sint (row s1) \<ge> int screen_rows
      then kbind (scrollup s1) (\<lambda>s. Inr (s\<lparr>row := row s - 1\<rparr>)) else Inr s1) = Inr s2"
    unfolding r25 using scrollup_screen [OF M1(1)] M1(2) by (simp add: s2_def)
  have s2: "scr_ok s2" "scr_color s2 = scr_color s" "unat (column s2) < 80 \<or> ch = 0x0a"
    "screen_of s2 = (if nl then screen_newline (screen_of s) else screen_of s)"
    using ok' row1 by (auto simp: scr_ok_def scr_color_def screen_of_def screen_newline_def s2_def s1_def nl_def)
  have put: "put_char ch s = (if ch = 0x0a then Inr s2
      else kbind (put_char_at ch (column s2) (row s2) s2) (\<lambda>s. Inr (s\<lparr>column := column s + 1\<rparr>)))"
    unfolding put_char_def Let_def col nl_def [symmetric] s1_def [symmetric] sc by simp
  show ?thesis
  proof (cases "ch = 0x0a")
    case True
    then show ?thesis using put s2 by (simp add: screen_put_def nl_def)
  next
    case False
    have c: "unat (column s2) < 80" "unat (row s2) < 25" "length (video_memory s2) = 2000"
      using s2 False by (auto simp: scr_ok_def)
    have cc: "unat (column s2 + 1) = unat (column s2) + 1" using c by (subst unat_add_no_wrap) auto
    let ?v = "ucast (scr_color s OR (scast ch :: u32)) :: u16"
    let ?s = "s2\<lparr>video_memory := (video_memory s2)[unat (row s2) * 80 + unat (column s2) := ?v], column := column s2 + 1\<rparr>"
    have "scr_char ch s2 = ?v" using s2(2) by (simp add: scr_char_def scr_color_def)
    then have "put_char ch s = Inr ?s"
      using put False c screen_index [OF c(2,1)] by (simp add: put_char_at_def scr_set_cell_def)
    moreover have "scr_ok ?s" "scr_color ?s = scr_color s" using c cc s2(2) by (simp_all add: scr_ok_def scr_color_def)
    moreover have "screen_of ?s = screen_put (scr_color s) (screen_of s) ch"
    proof -
      have "tcol (screen_of s) = unat (column s)" by (simp add: screen_of_def)
      then have t: "(if tcol (screen_of s) = 80 then screen_newline (screen_of s) else screen_of s) = screen_of s2"
        using s2(4) False by (simp add: nl_def)
      show ?thesis unfolding screen_put_def Let_def t using False cc by (simp add: screen_of_def)
    qed
    ultimately show ?thesis by (intro exI [of _ ?s]) simp
  qed
qed

lemma clear_screen:
  assumes "length (video_memory s) = 2000"
  shows "clear s = Inr (s\<lparr>video_memory := replicate 2000 (scr_char 0 s)\<rparr>)"
proof -
  let ?v = "scr_char 0 s"
  have cell: "put_char_at 0 (of_nat x) (of_nat y) t = scr_set_cell (y * 80 + x) ?v t"
    if "x < 80" "y < 25" "fg_color t = fg_color s" "bg_color t = bg_color s" for x y t
    using that screen_index [of "of_nat y" "of_nat x"]
    by (simp add: put_char_at_def scr_char_def unat_of_nat take_bit_eq_mod)
  let ?P = "\<lambda>t. fg_color t = fg_color s \<and> bg_color t = bg_color s"
  have keep: "?P t'" if "?P t" "scr_set_cell i v t = Inr t'" for i v t t'
    using that by (auto simp: scr_set_cell_def split: if_splits)
  have row: "kfor 80 (\<lambda>x. put_char_at 0 (of_nat x) (of_nat y)) t = kfor 80 (\<lambda>x. scr_set_cell (y * 80 + x) ?v) t"
    if "y < 25" "?P t" for y t
  proof (rule kfor_cong [where P = ?P])
    show "?P t" by fact
    show "put_char_at 0 (of_nat x) (of_nat y) u = scr_set_cell (y * 80 + x) ?v u" if "x < 80" "?P u" for x u
      using cell [of x y u] that \<open>y < 25\<close> by simp
    show "?P u'" if "?P u" "scr_set_cell (y * 80 + x) ?v u = Inr u'" for x u u' using keep that by blast
  qed
  have "kfor 25 (\<lambda>y. kfor 80 (\<lambda>x. put_char_at 0 (of_nat x) (of_nat y))) s =
      kfor 25 (\<lambda>y. kfor 80 (\<lambda>x. scr_set_cell (y * 80 + x) ?v)) s"
  proof (rule kfor_cong [where P = ?P])
    fix y t t' assume "y < 25" "?P t" "kfor 80 (\<lambda>x. scr_set_cell (y * 80 + x) ?v) t = Inr t'"
    from this(3,2) show "?P t'" by (rule kfor_keeps [where P = ?P]) (use keep in blast)
  qed (use row in auto)
  then show ?thesis using scs.fill_all [OF assms] by (simp add: clear_def screen_rows_def screen_columns_def)
qed

subsection \<open>What the screen driver does with a message\<close>

lemma get32_patch: "get32 (patch p (le32 v) bs) p = Inr v"
  by (rule get32_seg [OF seg_patch_same])

lemma get32_patch_other:
  "p + 4 \<le> off \<or> off + length ws \<le> p \<Longrightarrow> get32 (patch off ws (patch p (le32 v) bs)) p = Inr v"
  by (rule get32_seg [OF seg_patch_other [OF seg_patch_same]]) (simp add: length_le32)

lemma io_type_code [simp]: "io_type (io_code ty) = Some ty"
  by (cases ty) (simp_all add: io_type_def)

text \<open>The effect of showing a text, from any state with the cursor on the screen.\<close>

definition displays :: "scr \<Rightarrow> u8 list \<Rightarrow> scr \<Rightarrow> bool" where
  "displays s ws s' \<longleftrightarrow> scr_ok s' \<and> scr_color s' = scr_color s \<and>
     screen_of s' = foldl (screen_put (scr_color s)) (screen_of s) ws"

lemma displays_char: "scr_ok s \<Longrightarrow> \<exists>s'. put_char c s = Inr s' \<and> displays s [c] s'"
  using put_char_step by (simp add: displays_def)

lemma displays_trans: "displays s ws s1 \<Longrightarrow> displays s1 ws' s2 \<Longrightarrow> displays s (ws @ ws') s2"
  by (simp add: displays_def)

lemma displays_Nil: "scr_ok s \<Longrightarrow> displays s [] s"
  by (simp add: displays_def)

lemma puts_loop_displays:
  assumes "scr_ok s" and "i \<le> 64" and "64 - i < length cs"
  shows "\<exists>s'. puts_loop cs i s = Inr s' \<and> displays s (cstr (take (64 - i) cs)) s'"
  using assms
proof (induction cs arbitrary: i s)
  case (Cons c cs)
  show ?case
  proof (cases "c = 0 \<or> i = 64")
    case True
    then show ?thesis using displays_Nil [OF Cons.prems(1)] Cons.prems(2)
      by (cases "64 - i") (auto simp: MSG_IO_BUFSIZE_def cstr_def)
  next
    case False
    then have i: "Suc i \<le> 64" "64 - i = Suc (64 - Suc i)" using Cons.prems(2) by auto
    obtain s1 where s1: "put_char c s = Inr s1" "displays s [c] s1" using displays_char [OF Cons.prems(1)] by blast
    have "64 - Suc i < length cs" using Cons.prems(3) i by simp
    then obtain s2 where s2: "puts_loop cs (Suc i) s1 = Inr s2" "displays s1 (cstr (take (64 - Suc i) cs)) s2"
      using Cons.IH [of s1 "Suc i"] s1(2) i(1) by (auto simp: displays_def)
    have "puts_loop (c # cs) i s = Inr s2" using False s1(1) s2(1) i(1) by (simp add: MSG_IO_BUFSIZE_def)
    then show ?thesis using displays_trans [OF s1(2) s2(2)] False unfolding i(2) by (simp add: cstr_Cons)
  qed
qed simp

lemma screen_serve_putc:
  assumes "get32 msg 0 = Inr (io_code MSG_PUTC)" and "length msg = 72" and "scr_ok s"
  shows "\<exists>s'. screen_serve msg s = Inr (0x11babe11, s') \<and> displays s [msg ! 4] s'"
  using displays_char [OF assms(3), of "msg ! 4"] assms(1,2)
  by (auto simp: screen_serve_def SIZEOF_MSG_IO_def IO_ONE_CHAR_def io_type_def)

lemma screen_serve_puts:
  assumes "get32 msg 0 = Inr (io_code MSG_PUTS)" and "length msg = 72" and "scr_ok s"
  shows "\<exists>s'. screen_serve msg s = Inr (0x11babe11, s') \<and> displays s (cstr (take 64 (drop 5 msg)) @ [msg ! 4]) s'"
proof -
  obtain s1 where s1: "puts_loop (drop 5 msg) 0 s = Inr s1" "displays s (cstr (take 64 (drop 5 msg))) s1"
    using puts_loop_displays [OF assms(3), of 0 "drop 5 msg"] assms(2) by auto
  then obtain s2 where s2: "put_char (msg ! 4) s1 = Inr s2" "displays s1 [msg ! 4] s2"
    using displays_char [of s1 "msg ! 4"] by (auto simp: displays_def)
  have "screen_serve msg s = Inr (0x11babe11, s2)"
    using assms(1,2) s1(1) s2(1) by (simp add: screen_serve_def SIZEOF_MSG_IO_def IO_ONE_CHAR_def IO_CHARS_def io_type_def)
  with displays_trans [OF s1(2) s2(2)] show ?thesis by blast
qed

text \<open>The message of \<open>puts\<close>: the text is not terminated, so what was on the stack follows it.\<close>

definition puts_text :: "u8 list \<Rightarrow> u8 list \<Rightarrow> u8 list" where
  "puts_text stack s =
     (let ws = take 64 (cstr s) in ws @ cstr (take (64 - length ws) (drop (5 + length ws) stack)))"

lemma puts_fill_patch:
  assumes "0 \<in> set s" and "i \<le> 64" and "length msg = 72"
  shows "puts_fill s i msg = Inr (patch (5 + i) (take (64 - i) (cstr s)) msg)"
  using assms
proof (induction s arbitrary: i msg)
  case (Cons c s)
  have nil: "patch (5 + i) [] msg = msg" if "i \<le> 64" using Cons.prems(3) that by (simp add: patch_def)
  show ?case
  proof (cases "c = 0 \<or> i = 64")
    case True
    then show ?thesis using Cons.prems nil by (auto simp: MSG_IO_BUFSIZE_def cstr_def)
  next
    case False
    then have i: "i < 64" "64 - i = Suc (64 - Suc i)" using Cons.prems(2) by auto
    have "patch (5 + i) (c # ws) msg = patch (5 + Suc i) ws (msg[5 + i := c])" for ws
      using i(1) Cons.prems(3)
      by (intro nth_equalityI) (auto simp: length_patch nth_patch nth_list_update nth_Cons')
    then show ?thesis
      using Cons.IH [of "Suc i" "msg[5 + i := c]"] Cons.prems False i
      by (simp add: MSG_IO_BUFSIZE_def IO_CHARS_def cstr_Cons)
  qed
qed simp

subsection \<open>What the keyboard server does with a message\<close>

text \<open>The keyboard controller reports data again and again; the scan codes of the next \<open>n\<close> interrupts.\<close>

definition kbd_ready :: "ioport \<Rightarrow> bool" where
  "kbd_ready io \<longleftrightarrow> (\<forall>n. \<exists>m \<ge> n. (ucast (in_val io 0x64 m) :: u8) AND 1 \<noteq> 0)"

definition codes :: "ioport \<Rightarrow> nat \<Rightarrow> u8 list" where
  "codes io n = map (\<lambda>j. ucast (in_val io 0x60 (in_pos io 0x60 + j))) [0..<n]"

definition make_code :: "u8 \<Rightarrow> bool" where
  "make_code c \<longleftrightarrow> c AND 0x80 = 0"

definition key_of :: "u8 \<Rightarrow> u8" where
  "key_of c = fst (layout ! unat c)"

lemma kbd_wait_returns:
  assumes "(ucast (in_val io 0x64 (in_pos io 0x64 + k)) :: u8) AND 1 \<noteq> 0"
  shows "\<exists>io'. kbd_wait io = Some io' \<and> in_val io' = in_val io \<and> in_pos io' 0x60 = in_pos io 0x60"
  using assms
proof (induction k arbitrary: io)
  case 0
  then show ?case by (subst kbd_wait.simps) (simp add: inb_def inl_def)
next
  case (Suc k)
  let ?io = "io\<lparr>in_pos := (in_pos io)(0x64 := Suc (in_pos io 0x64))\<rparr>"
  show ?case
  proof (cases "(ucast (in_val io 0x64 (in_pos io 0x64)) :: u8) AND 1 = 0")
    case True
    have "kbd_wait io = kbd_wait ?io" using True by (subst kbd_wait.simps) (simp add: inb_def inl_def)
    moreover have "\<exists>io'. kbd_wait ?io = Some io' \<and> in_val io' = in_val ?io \<and> in_pos io' 0x60 = in_pos ?io 0x60"
      using Suc.prems by (intro Suc.IH) simp
    ultimately show ?thesis by simp
  next
    case False
    then show ?thesis by (subst kbd_wait.simps) (simp add: inb_def inl_def)
  qed
qed

lemma kbd_get_scancode_next:
  assumes "kbd_ready io"
  shows "\<exists>io'. kbd_get_scancode io = Inr (hd (codes io (Suc n)), io') \<and> kbd_ready io' \<and> codes io' n = tl (codes io (Suc n))"
proof -
  obtain k where "(ucast (in_val io 0x64 (in_pos io 0x64 + k)) :: u8) AND 1 \<noteq> 0"
    using assms unfolding kbd_ready_def by (metis le_Suc_ex)
  from kbd_wait_returns [OF this] obtain io1 where
    io1: "kbd_wait io = Some io1" "in_val io1 = in_val io" "in_pos io1 0x60 = in_pos io 0x60" by blast
  have "codes io1 (Suc n) = codes io (Suc n)" using io1(2,3) by (simp add: codes_def)
  moreover have "[0..<Suc n] = 0 # map Suc [0..<n]" by (simp only: upt_conv_Cons map_Suc_upt zero_less_Suc)
  ultimately show ?thesis
    using assms io1(2) by (simp add: kbd_get_scancode_def io1(1) inb_def inl_def kbd_ready_def codes_def comp_def del: upt_Suc)
qed

text \<open>The key that waits in \<open>_last_scancode\<close>, if any, and all keys pressed: that one and those still to come.\<close>

definition slot_of :: "kbdsrv \<Rightarrow> u8 list" where
  "slot_of st = (if key_pressed st then [last_scancode st] else [])"

definition pending :: "nat \<times> ioport \<times> kbdsrv \<Rightarrow> u8 list" where
  "pending = (\<lambda>(n, io, st). slot_of st @ filter make_code (codes io n))"

definition kbd_ok :: "nat \<times> ioport \<times> kbdsrv \<Rightarrow> bool" where
  "kbd_ok x \<longleftrightarrow> kbd_ready (fst (snd x)) \<and> (\<forall>c \<in> set (pending x). unat c < 60)"

text \<open>
  The keys the server delivers, in terms of the scan codes alone.  Of the keys that come before it looks, only the newest is left; it waits for
  one if there is none; what comes between the wait and the look replaces the key, what comes before the flag is reset is lost.
\<close>

definition newest :: "u8 list \<Rightarrow> u8 list" where
  "newest ks = (if ks = [] then [] else [last ks])"

fun first_key :: "u8 list \<Rightarrow> u8 list \<Rightarrow> (u8 \<times> u8 list) option" where
  "first_key (k # _) cs = Some (k, cs)"
| "first_key [] [] = None"
| "first_key [] (c # cs) = (if make_code c then Some (c, cs) else first_key [] cs)"

definition key_round :: "arrivals \<Rightarrow> u8 list \<Rightarrow> u8 list \<Rightarrow> (u8 \<times> u8 list) option" where
  "key_round = (\<lambda>(before, seen, read) ks cs.
     case first_key (newest (ks @ filter make_code (take before cs))) (drop before cs) of
       None \<Rightarrow> None
     | Some (k, cs) \<Rightarrow> Some (last (k # filter make_code (take seen cs)), drop (seen + read) cs))"

lemma first_key_split:
  "first_key ks cs = Some (k, r) \<Longrightarrow> length ks \<le> 1 \<Longrightarrow> ks @ filter make_code cs = k # filter make_code r"
  "first_key ks cs = Some (k, r) \<Longrightarrow> length r < length ks + length cs"
  "first_key ks cs = None \<Longrightarrow> ks = [] \<and> filter make_code cs = []"
  by (induction ks cs rule: first_key.induct) (auto split: if_splits)

lemma subseq_last: "ks \<noteq> [] \<Longrightarrow> subseq [last ks] ks"
  by (simp add: subseq_singleton_left)

lemma subseq_set: "subseq xs ys \<Longrightarrow> set xs \<subseteq> set ys"
  using list_emb_set [of "(=)" xs ys] by blast

lemma newest_props: "length (newest ks) \<le> 1" "length (newest ks) \<le> length ks" "subseq (newest ks) ks"
  "length ks \<le> 1 \<Longrightarrow> newest ks = ks"
proof -
  show "subseq (newest ks) ks" by (simp add: newest_def subseq_last)
  show "length ks \<le> 1 \<Longrightarrow> newest ks = ks" by (cases ks) (auto simp: newest_def)
qed (auto simp: newest_def Suc_le_eq)

lemma key_round_shorter:
  assumes "key_round r ks cs = Some (k, cs')"
  shows "length cs' < length ks + length cs"
proof -
  obtain b s d where r: "r = (b, s, d)" by (cases r)
  let ?ks = "newest (ks @ filter make_code (take b cs))"
  obtain k1 cs1 where f: "first_key ?ks (drop b cs) = Some (k1, cs1)" "cs' = drop (s + d) cs1"
    using assms by (auto simp: key_round_def r split: option.splits)
  have "length (filter make_code (take b cs)) \<le> length (take b cs)" by (rule length_filter_le)
  moreover have "length (take b cs) + length (drop b cs) = length cs" by (simp flip: length_append)
  ultimately have "length ?ks + length (drop b cs) \<le> length ks + length cs"
    using newest_props(2) [of "ks @ filter make_code (take b cs)"] unfolding length_append by linarith
  then show ?thesis using first_key_split(2) [OF f(1)] f(2) by simp
qed

function delivered_keys :: "arrivals list \<Rightarrow> u8 list \<Rightarrow> u8 list \<Rightarrow> u8 list" where
  "delivered_keys rs ks cs =
     (case key_round (next_arrivals rs) ks cs of
        None \<Rightarrow> []
      | Some (k, cs') \<Rightarrow> k # delivered_keys (tl rs) [] cs')"
  by pat_completeness auto
termination
  by (relation "measure (\<lambda>(_, ks, cs). length ks + length cs)") (auto dest: key_round_shorter)

declare delivered_keys.simps [simp del]

lemma key_round_subseq:
  assumes "key_round r ks cs = Some (k, cs')"
  shows "subseq (k # filter make_code cs') (ks @ filter make_code cs)"
proof -
  obtain b s d where r: "r = (b, s, d)" by (cases r)
  let ?ks = "newest (ks @ filter make_code (take b cs))"
  obtain k1 cs1 where f: "first_key ?ks (drop b cs) = Some (k1, cs1)"
    "k = last (k1 # filter make_code (take s cs1))" "cs' = drop (s + d) cs1"
    using assms by (auto simp: key_round_def r split: option.splits)
  have F: "filter make_code cs = filter make_code (take n cs) @ filter make_code (drop n cs)" for n and cs :: "u8 list"
    by (simp flip: filter_append)
  have "subseq [k] (k1 # filter make_code (take s cs1))" unfolding f(2) by (rule subseq_last) simp
  moreover have "filter make_code (drop s cs1) = filter make_code (take d (drop s cs1)) @ filter make_code cs'"
    using F [of "drop s cs1" d] by (simp add: f(3) add.commute)
  then have "subseq (filter make_code cs') (filter make_code (drop s cs1))" by (simp add: subseq_drop_many)
  ultimately have "subseq ([k] @ filter make_code cs')
      ((k1 # filter make_code (take s cs1)) @ filter make_code (drop s cs1))"
    by (intro list_emb_append_mono)
  also have "(k1 # filter make_code (take s cs1)) @ filter make_code (drop s cs1) = k1 # filter make_code cs1"
    using F [of cs1 s] by simp
  also have "k1 # filter make_code cs1 = ?ks @ filter make_code (drop b cs)"
    using first_key_split(1) [OF f(1) newest_props(1)] by simp
  also have "subseq \<dots> ((ks @ filter make_code (take b cs)) @ filter make_code (drop b cs))"
    by (intro list_emb_append_mono newest_props) simp
  also have "\<dots> = ks @ filter make_code cs" using F [of cs b] by simp
  finally show ?thesis by simp
qed

lemma delivered_subseq: "subseq (delivered_keys rs ks cs) (ks @ filter make_code cs)"
proof (induction rs ks cs rule: delivered_keys.induct)
  case (1 rs ks cs)
  show ?case
  proof (cases "key_round (next_arrivals rs) ks cs")
    case None
    then show ?thesis by (simp add: delivered_keys.simps [of rs ks])
  next
    case (Some p)
    obtain k cs' where p: "p = (k, cs')" by (cases p)
    have "subseq (delivered_keys (tl rs) [] cs') (filter make_code cs')" using 1 [OF Some p [symmetric]] by simp
    then have "subseq (k # delivered_keys (tl rs) [] cs') (k # filter make_code cs')" by simp
    then show ?thesis
      using key_round_subseq [OF Some [unfolded p]] subseq_order.trans Some p
      by (simp add: delivered_keys.simps [of rs ks]) blast
  qed
qed

lemma delivered_all:
  assumes "\<forall>r \<in> set rs. r = (0, 0, 0)" and "length ks \<le> 1"
  shows "delivered_keys rs ks cs = ks @ filter make_code cs"
  using assms
proof (induction rs ks cs rule: delivered_keys.induct)
  case (1 rs ks cs)
  have n: "next_arrivals rs = (0, 0, 0)" using "1.prems"(1) by (cases rs) (simp_all add: next_arrivals_def)
  have t: "\<forall>r \<in> set (tl rs). r = (0, 0, 0)" using "1.prems"(1) by (cases rs) simp_all
  have k: "key_round (0, 0, 0) ks cs = first_key ks cs"
    using newest_props(4) [OF "1.prems"(2)] by (simp add: key_round_def split: option.splits)
  show ?case
  proof (cases "first_key ks cs")
    case None
    then have "delivered_keys rs ks cs = []" by (simp add: delivered_keys.simps [of rs ks] n k)
    then show ?thesis using first_key_split(3) [OF None] by simp
  next
    case (Some p)
    obtain c cs' where p: "p = (c, cs')" by (cases p)
    have "delivered_keys (tl rs) [] cs' = filter make_code cs'" using "1.IH" [OF _ p [symmetric] t] Some n k by simp
    then show ?thesis
      using first_key_split(1) [OF Some [unfolded p] "1.prems"(2)] Some p by (simp add: delivered_keys.simps [of rs ks] n k)
  qed
qed

subsubsection \<open>The server delivers these keys\<close>

lemma kbd_irq_handler_next:
  assumes "kbd_ready io"
  shows "\<exists>io' st'. kbd_irq_handler regs (io, st) = Inr (regs, io', st') \<and> kbd_ready io' \<and>
    codes io' n = tl (codes io (Suc n)) \<and> srv_reply st' = srv_reply st \<and>
    (let c = hd (codes io (Suc n)) in
     key_pressed st' = (make_code c \<or> key_pressed st) \<and> last_scancode st' = (if make_code c then c else last_scancode st))"
  using kbd_get_scancode_next [OF assms, of n] by (auto simp: kbd_irq_handler_def srv_get_scancode_def make_code_def Let_def)

lemma kbd_irq_code:
  assumes "kbd_ready io"
  obtains c io' st' where "kbd_irq_handler 0 (io, st) = Inr (0, io', st')" and "kbd_ready io'"
    and "codes io (Suc n) = c # codes io' n" and "srv_reply st' = srv_reply st"
    and "key_pressed st' = (make_code c \<or> key_pressed st)" and "last_scancode st' = (if make_code c then c else last_scancode st)"
proof -
  obtain io' st' where s: "kbd_irq_handler 0 (io, st) = Inr (0, io', st')" "kbd_ready io'" "srv_reply st' = srv_reply st"
    "codes io' n = tl (codes io (Suc n))"
    "key_pressed st' = (make_code (hd (codes io (Suc n))) \<or> key_pressed st)"
    "last_scancode st' = (if make_code (hd (codes io (Suc n))) then hd (codes io (Suc n)) else last_scancode st)"
    using kbd_irq_handler_next [OF assms, of 0 st n] by (auto simp: Let_def)
  have "codes io (Suc n) \<noteq> []" by (simp add: codes_def)
  then have "codes io (Suc n) = hd (codes io (Suc n)) # codes io' n" unfolding s(4) by simp
  from s(1,2) this s(3,5,6) show ?thesis by (rule that)
qed

lemma kbd_take_codes:
  assumes "kbd_ready io"
  shows "\<exists>n' io' st'. kbd_take m (n, io, st) = Inr (n', io', st') \<and> kbd_ready io' \<and> srv_reply st' = srv_reply st \<and>
    codes io' n' = drop m (codes io n) \<and> last_scancode st' = last (last_scancode st # filter make_code (take m (codes io n))) \<and>
    (key_pressed st' \<longleftrightarrow> key_pressed st \<or> filter make_code (take m (codes io n)) \<noteq> [])"
  using assms
proof (induction m "(n, io, st)" arbitrary: n io st rule: kbd_take.induct)
  case (3 m n)
  obtain c io' st' where s: "kbd_irq_handler 0 (io, st) = Inr (0, io', st')" "kbd_ready io'"
    "codes io (Suc n) = c # codes io' n" "srv_reply st' = srv_reply st"
    "key_pressed st' = (make_code c \<or> key_pressed st)" "last_scancode st' = (if make_code c then c else last_scancode st)"
    using "3.prems" by (rule kbd_irq_code [where st = st and n = n])
  from "3.hyps" [OF s(1) refl s(2)] show ?case using s by auto
qed (simp_all add: codes_def)

lemma kbd_wait_key_next:
  assumes "kbd_ready io" and "first_key (slot_of st) (codes io n) = Some (c, cs)"
  shows "\<exists>n' io' st'. kbd_wait_key n (io, st) = Inr (n', io', st') \<and> kbd_ready io' \<and> key_pressed st' \<and>
    last_scancode st' = c \<and> codes io' n' = cs"
  using assms
proof (induction n arbitrary: io st)
  case 0
  then show ?case by (auto simp: slot_of_def codes_def split: if_splits)
next
  case (Suc n)
  show ?case
  proof (cases "key_pressed st")
    case True
    then show ?thesis using Suc.prems by (auto simp: slot_of_def)
  next
    case False
    obtain d io' st' where s: "kbd_irq_handler 0 (io, st) = Inr (0, io', st')" "kbd_ready io'"
      "codes io (Suc n) = d # codes io' n"
      "key_pressed st' = (make_code d \<or> key_pressed st)" "last_scancode st' = (if make_code d then d else last_scancode st)"
      using Suc.prems(1) by (rule kbd_irq_code [where st = st and n = n])
    have "first_key (slot_of st') (codes io' n) = Some (c, cs)"
      using Suc.prems(2) False s(3-5) by (simp add: slot_of_def split: if_splits)
    then show ?thesis using Suc.IH [OF s(2)] False s(1) by auto
  qed
qed

lemma kbd_serve_getc:
  assumes msg: "get32 msg 0 = Inr (io_code MSG_GETC)" and ok: "kbd_ok (n, io, st)"
    and k: "key_round r (slot_of st) (codes io n) = Some (c, cs)"
  shows "\<exists>n' io' st'. kbd_serve msg r (n, io, st) = Inr (ucast (key_of c), n', io', st') \<and> kbd_ok (n', io', st') \<and>
    slot_of st' = [] \<and> codes io' n' = cs"
proof -
  obtain b s d where r: "r = (b, s, d)" by (cases r)
  have rd: "kbd_ready io" using ok by (simp add: kbd_ok_def)
  obtain k1 cs1 where f: "first_key (newest (slot_of st @ filter make_code (take b (codes io n)))) (drop b (codes io n)) = Some (k1, cs1)"
    "c = last (k1 # filter make_code (take s cs1))" "cs = drop (s + d) cs1"
    using k by (auto simp: key_round_def r split: option.splits)
  obtain n1 io1 st1 where t1: "kbd_take b (n, io, st) = Inr (n1, io1, st1)" "kbd_ready io1"
    "codes io1 n1 = drop b (codes io n)" "last_scancode st1 = last (last_scancode st # filter make_code (take b (codes io n)))"
    "key_pressed st1 \<longleftrightarrow> key_pressed st \<or> filter make_code (take b (codes io n)) \<noteq> []"
    using kbd_take_codes [OF rd, of b n st] by blast
  have "newest (slot_of st @ filter make_code (take b (codes io n))) = slot_of st1"
    using t1(4,5) by (auto simp: newest_def slot_of_def)
  then obtain n2 io2 st2 where t2: "kbd_wait_key n1 (io1, st1) = Inr (n2, io2, st2)" "kbd_ready io2" "last_scancode st2 = k1"
    "codes io2 n2 = cs1" using kbd_wait_key_next [OF t1(2)] f(1) t1(3) by metis
  obtain n3 io3 st3 where t3: "kbd_take s (n2, io2, st2) = Inr (n3, io3, st3)" "kbd_ready io3" "codes io3 n3 = drop s cs1"
    "last_scancode st3 = c" using kbd_take_codes [OF t2(2), of s n2 st2] t2(3,4) f(2) by auto
  let ?st3 = "st3\<lparr>srv_reply := ucast (key_of c)\<rparr>"
  obtain n4 io4 st4 where t4: "kbd_take d (n3, io3, ?st3) = Inr (n4, io4, st4)" "kbd_ready io4" "codes io4 n4 = cs"
    "srv_reply st4 = ucast (key_of c)"
    using kbd_take_codes [OF t3(2), of d n3 ?st3] t3(3) f(3) by (auto simp: add.commute)
  have "set (c # filter make_code cs) \<subseteq> set (pending (n, io, st))"
    using subseq_set [OF key_round_subseq [OF k]] by (simp add: pending_def)
  then have b60: "\<forall>x \<in> set (c # filter make_code cs). unat x < 60" using ok by (auto simp: kbd_ok_def)
  then have key: "srv_key c = Inr (key_of c)" by (simp add: srv_key_def srv_layout_def key_of_def layout_def)
  have "kbd_serve msg r (n, io, st) = Inr (ucast (key_of c), n4, io4, st4\<lparr>key_pressed := False\<rparr>)"
    using msg t1(1) t2(1) t3(1,4) t4(1,4) key by (simp add: kbd_serve_def r io_type_def)
  moreover have "kbd_ok (n4, io4, st4\<lparr>key_pressed := False\<rparr>)"
    using b60 t4(2,3) by (simp add: kbd_ok_def pending_def slot_of_def)
  ultimately show ?thesis using t4(3) by (auto simp: slot_of_def)
qed

subsection \<open>The terminal made of three processes\<close>

definition lit_ok :: "u8 list \<Rightarrow> bool" where
  "lit_ok lit \<longleftrightarrow> MAX_PROC_NAME_LEN \<le> length lit \<and> 0 \<in> set (take MAX_PROC_NAME_LEN lit)"

definition env_ok :: "user_env \<Rightarrow> bool" where
  "env_ok env \<longleftrightarrow> length (stack_io env) = SIZEOF_MSG_IO \<and> length (stack_kernel env) = SIZEOF_MSG_KERNEL \<and>
     lit_ok (kbd_literal env) \<and> lit_ok (screen_literal env)"

abbreviation wtab :: "world \<Rightarrow> pst" where
  "wtab w \<equiv> ktab (sk (wsys w))"

definition kernel_ok :: "world \<Rightarrow> bool" where
  "kernel_ok w \<longleftrightarrow> names_ok (wtab w) \<and> wtable w 0 = Some Kernel_Process \<and> proc_find_by_pid (wclient w) (wtab w) \<noteq> None"

definition server_named :: "u8 list \<Rightarrow> server \<Rightarrow> world \<Rightarrow> bool" where
  "server_named lit srv w \<longleftrightarrow> (\<exists>i. named (take MAX_PROC_NAME_LEN lit) (wtab w) = Some i \<and>
     wtable w (pid (procs (wtab w) i)) = Some srv)"

definition kbd_part :: "world \<Rightarrow> nat \<times> ioport \<times> kbdsrv" where
  "kbd_part w = (wirqs w, kio (sk (wsys w)), wkbd w)"

definition world_ok :: "user_env \<Rightarrow> world \<Rightarrow> bool" where
  "world_ok env w \<longleftrightarrow> env_ok env \<and> kernel_ok w \<and> server_named (screen_literal env) Screen_Driver w \<and>
     server_named (kbd_literal env) Keyboard_Server w \<and> scr_ok (wscr w) \<and> kbd_ok (kbd_part w)"

text \<open>The characters of all keys pressed, and of those the server will deliver.\<close>

definition typed_keys :: "world \<Rightarrow> u8 list" where
  "typed_keys w = map key_of (pending (kbd_part w))"

definition world_keys :: "world \<Rightarrow> u8 list" where
  "world_keys w = map key_of (delivered_keys (warr w) (slot_of (wkbd w)) (codes (kio (sk (wsys w))) (wirqs w)))"

definition world_view :: "world \<Rightarrow> u32 \<times> terminal" where
  "world_view w = (scr_color (wscr w), screen_of (wscr w))"

definition show_char :: "u32 \<times> terminal \<Rightarrow> u8 \<Rightarrow> u32 \<times> terminal" where
  "show_char = (\<lambda>(color, t) c. (color, screen_put color t c))"

lemma foldl_show_char: "foldl show_char (color, t) cs = (color, foldl (screen_put color) t cs)"
  by (induction cs arbitrary: t) (simp_all add: show_char_def)

lemma get32_total: "p + 4 \<le> length bs \<Longrightarrow> \<exists>v. get32 bs p = Inr v"
  by (simp add: get32_def)

lemma answer_word: "answer 4 v w = Inr (le32 v, w)" "get32 (le32 v) 0 = Inr v"
proof -
  show "answer 4 v w = Inr (le32 v, w)" by (simp add: answer_def length_le32)
  show "get32 (le32 v) 0 = Inr v" by (rule get32_seg) (simp add: seg_def length_le32)
qed

lemma find_by_name_finds:
  assumes "kernel_ok w" and "lit_ok lit" and "length stack = SIZEOF_MSG_KERNEL" and "server_named lit srv w"
  shows "\<exists>p. run respond (find_by_name stack lit) w = Inr (p, w) \<and> wtable w p = Some srv"
proof -
  let ?nm = "take MAX_PROC_NAME_LEN lit"
  let ?msg = "patch 4 ?nm (patch 0 (le32 (kernel_code MSG_FIND_PROC_BY_NAME)) stack)"
  obtain i where i: "named ?nm (wtab w) = Some i" "wtable w (pid (procs (wtab w) i)) = Some srv"
    using assms(4) by (auto simp: server_named_def)
  obtain j where j: "proc_find_by_pid (wclient w) (wtab w) = Some j" using assms(1) by (auto simp: kernel_ok_def)
  have nm: "length ?nm = 32" "0 \<in> set ?nm" using assms(2) by (simp_all add: lit_ok_def MAX_PROC_NAME_LEN_def)
  have len: "length ?msg = 36" using assms(3) nm(1) by (simp add: length_patch length_le32 SIZEOF_MSG_KERNEL_def)
  have ty: "get32 ?msg 0 = Inr 4" using get32_patch_other [where p = 0 and off = 4] by simp
  have dt: "take MAX_PROC_NAME_LEN (drop 4 ?msg) = ?nm"
    using seg_take [OF seg_patch_same [where off = 4 and bs = ?nm]] nm(1) by (simp add: MAX_PROC_NAME_LEN_def)
  obtain d0 d1 where d: "get32 ?msg 4 = Inr d0" "get32 ?msg 8 = Inr d1"
    using get32_total [of 4 ?msg] get32_total [of 8 ?msg] len by auto
  have "proc_find_by_name ?nm (wtab w) = Inr (pid (procs (wtab w) i))"
    using proc_find_by_name_first [OF _ nm(2), of "wtab w"] assms(1) i(1) by (simp add: kernel_ok_def)
  then have "msg_dispatch (wclient w) ?msg (wsys w) =
      Inr ((pid (procs (wtab w) j), pid (procs (wtab w) i)), wsys w)"
    unfolding msg_dispatch_def using ty d dt j by (simp add: kernel_type_def deref_def)
  then have "respond 0 ?msg 4 w = Inr (le32 (pid (procs (wtab w) i)), w)"
    using assms(1) by (simp add: respond_def kernel_ok_def answer_word)
  then have "run respond (find_by_name stack lit) w = Inr (pid (procs (wtab w) i), w)"
    using assms(2) by (simp add: find_by_name_def lit_ok_def answer_word del: kernel_code.simps)
  with i(2) show ?thesis by blast
qed

lemma screen_answers:
  assumes "world_ok env w" and "wtable w p = Some Screen_Driver"
    and "screen_serve msg (wscr w) = Inr (r, s')" and "displays (wscr w) ws s'"
  shows "\<exists>w'. respond p msg 4 w = Inr (le32 r, w') \<and> world_ok env w' \<and> world_keys w' = world_keys w \<and>
    world_view w' = foldl show_char (world_view w) ws"
proof (intro exI conjI)
  show "respond p msg 4 w = Inr (le32 r, w\<lparr>wscr := s'\<rparr>)" using assms(2,3) by (simp add: respond_def answer_word)
  show "world_ok env (w\<lparr>wscr := s'\<rparr>)"
    using assms(1,4) by (simp add: world_ok_def kernel_ok_def server_named_def kbd_part_def displays_def)
  show "world_keys (w\<lparr>wscr := s'\<rparr>) = world_keys w" by (simp add: world_keys_def)
  show "world_view (w\<lparr>wscr := s'\<rparr>) = foldl show_char (world_view w) ws"
    using assms(4) by (simp add: world_view_def foldl_show_char displays_def)
qed

lemma putc_shows:
  assumes ok: "world_ok env w"
  shows "\<exists>w'. run respond (putc env c) w = Inr (0x11babe11, w') \<and> world_ok env w' \<and>
    world_keys w' = world_keys w \<and> world_view w' = show_char (world_view w) c"
proof -
  let ?msg = "patch 4 [c] (patch 0 (le32 (io_code MSG_PUTC)) (stack_io env))"
  have env: "length (stack_io env) = 72" "length (stack_kernel env) = SIZEOF_MSG_KERNEL" "lit_ok (screen_literal env)"
    and w: "kernel_ok w" "server_named (screen_literal env) Screen_Driver w" "scr_ok (wscr w)"
    using ok by (simp_all add: world_ok_def env_ok_def SIZEOF_MSG_IO_def)
  obtain p where p: "run respond (find_by_name (stack_kernel env) (screen_literal env)) w = Inr (p, w)"
    "wtable w p = Some Screen_Driver"
    using find_by_name_finds [OF w(1) env(3,2) w(2)] by blast
  have len: "length ?msg = 72" using env(1) by (simp add: length_patch length_le32)
  have m: "get32 ?msg 0 = Inr (io_code MSG_PUTC)" "?msg ! 4 = c"
    using get32_patch_other [where p = 0 and off = 4 and ws = "[c]"] len by (simp_all add: nth_patch)
  obtain s' where "screen_serve ?msg (wscr w) = Inr (0x11babe11, s')" "displays (wscr w) [c] s'"
    using screen_serve_putc [OF m(1) len w(3)] m(2) by auto
  from screen_answers [OF ok p(2) this] show ?thesis
    using p(1) by (auto simp: putc_def run_pbind IO_ONE_CHAR_def answer_word)
qed

lemma puts_shows:
  assumes ok: "world_ok env w" and z: "0 \<in> set str"
  shows "\<exists>w'. run respond (user_puts env str) w = Inr (0x11babe11, w') \<and> world_ok env w' \<and>
    world_keys w' = world_keys w \<and>
    world_view w' = foldl show_char (world_view w) (puts_text (stack_io env) str @ [stack_io env ! 4])"
proof -
  let ?ws = "take 64 (cstr str)"
  let ?m0 = "patch 0 (le32 (io_code MSG_PUTS)) (stack_io env)"
  let ?msg = "patch 5 ?ws ?m0"
  have env: "length (stack_io env) = 72" "length (stack_kernel env) = SIZEOF_MSG_KERNEL" "lit_ok (screen_literal env)"
    and w: "kernel_ok w" "server_named (screen_literal env) Screen_Driver w" "scr_ok (wscr w)"
    using ok by (simp_all add: world_ok_def env_ok_def SIZEOF_MSG_IO_def)
  obtain p where p: "run respond (find_by_name (stack_kernel env) (screen_literal env)) w = Inr (p, w)"
    "wtable w p = Some Screen_Driver"
    using find_by_name_finds [OF w(1) env(3,2) w(2)] by blast
  have len: "length ?m0 = 72" "length ?msg = 72" using env(1) by (simp_all add: length_patch length_le32)
  have m: "get32 ?msg 0 = Inr (io_code MSG_PUTS)" "?msg ! 4 = stack_io env ! 4"
    using get32_patch_other [where p = 0 and off = 5 and ws = ?ws] len env(1) by (simp_all add: nth_patch length_le32)
  have d: "drop 5 ?msg = ?ws @ drop (5 + length ?ws) (stack_io env)"
    using env(1) by (simp add: patch_def length_le32)
  have cstr_app: "cstr (take 64 (?ws @ zs)) = ?ws @ cstr (take (64 - length ?ws) zs)" for zs
    unfolding take_append cstr_def by (subst takeWhile_append2) (auto dest: in_set_takeD set_takeWhileD)
  have tx: "cstr (take 64 (drop 5 ?msg)) = puts_text (stack_io env) str"
    unfolding d cstr_app by (simp add: puts_text_def Let_def)
  obtain s' where "screen_serve ?msg (wscr w) = Inr (0x11babe11, s')"
    "displays (wscr w) (puts_text (stack_io env) str @ [stack_io env ! 4]) s'"
    using screen_serve_puts [OF m(1) len(2) w(3)] m(2) tx by auto
  from screen_answers [OF ok p(2) this] show ?thesis
    using p(1) puts_fill_patch [OF z _ len(1), of 0] by (auto simp: user_puts_def run_pbind answer_word)
qed

lemma getc_reads:
  assumes ok: "world_ok env w" and k: "world_keys w = c # cs"
  shows "\<exists>w'. run respond (getc env) w = Inr (ucast c, w') \<and> world_ok env w' \<and>
    world_keys w' = cs \<and> world_view w' = world_view w"
proof -
  let ?msg = "patch 0 (le32 (io_code MSG_GETC)) (stack_io env)"
  have env: "length (stack_kernel env) = SIZEOF_MSG_KERNEL" "lit_ok (kbd_literal env)"
    and w: "kernel_ok w" "server_named (kbd_literal env) Keyboard_Server w" "kbd_ok (kbd_part w)"
    using ok by (simp_all add: world_ok_def env_ok_def)
  obtain p where p: "run respond (find_by_name (stack_kernel env) (kbd_literal env)) w = Inr (p, w)"
    "wtable w p = Some Keyboard_Server"
    using find_by_name_finds [OF w(1) env(2,1) w(2)] by blast
  obtain d cs' where d: "key_round (next_arrivals (warr w)) (slot_of (wkbd w)) (codes (kio (sk (wsys w))) (wirqs w)) = Some (d, cs')"
    "key_of d = c" "map key_of (delivered_keys (tl (warr w)) [] cs') = cs"
    using k by (auto simp: world_keys_def delivered_keys.simps [of "warr w"] split: option.splits)
  have m: "get32 ?msg 0 = Inr (io_code MSG_GETC)" by (rule get32_patch)
  from kbd_serve_getc [OF m w(3) [unfolded kbd_part_def] d(1)] obtain n io st where
    y: "kbd_serve ?msg (next_arrivals (warr w)) (kbd_part w) = Inr (ucast c, n, io, st)" "kbd_ok (n, io, st)"
      "slot_of st = []" "codes io n = cs'"
    using d(2) by (auto simp: kbd_part_def)
  let ?w = "w\<lparr>wirqs := n, warr := tl (warr w), wkbd := st, wsys := (wsys w)\<lparr>sk := (sk (wsys w))\<lparr>kio := io\<rparr>\<rparr>\<rparr>"
  have "respond p ?msg 4 w = Inr (le32 (ucast c), ?w)"
    using p(2) y(1) by (simp add: respond_def kbd_part_def answer_word)
  then have "run respond (getc env) w = Inr (ucast c, ?w)"
    using p(1) by (simp add: getc_def run_pbind answer_word)
  moreover have "world_ok env ?w" using ok y(2) by (simp add: world_ok_def kernel_ok_def server_named_def kbd_part_def)
  moreover have "world_keys ?w = cs" "world_view ?w = world_view w"
    using y(3,4) d(3) by (simp_all add: world_keys_def world_view_def)
  ultimately show ?thesis by blast
qed

interpretation tty: char_device respond "getc env" "putc env" "world_ok env" world_keys world_view show_char for env
  by unfold_locales (use getc_reads putc_shows in blast)+

section \<open>Theorems\<close>

text \<open>
  C7. The shell with the kernel process, the screen driver and the keyboard server, all found by
  name, whenever the keyboard interrupts come: for any number of characters that the server will deliver, the run
  returns, and the screen shows, from the old cursor on, the prompt, the rest of the message buffer on
  the stack up to its first zero byte (the C library does not terminate the text), one
  more stale character (the driver's case for a string falls through into the one for a
  character) and then the unshifted characters of the keys delivered, in order.  These are some of the keys pressed, in the order they
  were pressed: all of them when each interrupt comes while the server waits for a key; a key that comes before the last one has
  been answered replaces it or is lost (\<open>delivered_keys\<close> says which).
\<close>

theorem shell_echoes:
  assumes "world_ok env w" and "n \<le> length (world_keys w)"
  shows "\<exists>w'. run respond (shell env n) w = Inr ((), w') \<and> world_ok env w' \<and>
    world_keys w' = drop n (world_keys w) \<and>
    screen_of (wscr w') = foldl (screen_put (scr_color (wscr w))) (screen_of (wscr w))
      (puts_text (stack_io env) (cstring ''type! '') @ [stack_io env ! 4] @ take n (world_keys w)) \<and>
    subseq (world_keys w) (typed_keys w) \<and>
    ((\<forall>r \<in> set (warr w). r = (0, 0, 0)) \<longrightarrow> world_keys w = typed_keys w)"
proof -
  have z: "0 \<in> set (cstring ''type! '')" by (simp add: cstring_def)
  let ?ws = "puts_text (stack_io env) (cstring ''type! '') @ [stack_io env ! 4]"
  obtain w1 where w1: "run respond (user_puts env (cstring ''type! '')) w = Inr (0x11babe11, w1)" "world_ok env w1"
    "world_keys w1 = world_keys w" "world_view w1 = foldl show_char (world_view w) ?ws"
    using puts_shows [OF assms(1) z] by blast
  obtain w2 where w2: "run respond (shell_rounds env n) w1 = Inr ((), w2)" "world_ok env w2"
    "world_keys w2 = drop n (world_keys w)" "world_view w2 = foldl show_char (world_view w1) (take n (world_keys w))"
    using tty.echo_shows_keys [OF w1(2), of n] assms(2) unfolding w1(3) shell_rounds_echo by blast
  have "run respond (shell env n) w = Inr ((), w2)" using w1(1) w2(1) by (simp add: shell_def run_pbind)
  moreover have "world_view w2 = foldl show_char (world_view w) (?ws @ take n (world_keys w))"
    unfolding w2(4) w1(4) by simp
  then have "screen_of (wscr w2) = foldl (screen_put (scr_color (wscr w))) (screen_of (wscr w)) (?ws @ take n (world_keys w))"
    unfolding world_view_def foldl_show_char by simp
  moreover have "subseq (world_keys w) (typed_keys w)"
    unfolding world_keys_def typed_keys_def pending_def kbd_part_def prod.case by (intro subseq_map delivered_subseq)
  moreover have "world_keys w = typed_keys w" if "\<forall>r \<in> set (warr w). r = (0, 0, 0)"
    using delivered_all [OF that, of "slot_of (wkbd w)"]
    by (simp add: world_keys_def typed_keys_def pending_def kbd_part_def slot_of_def)
  ultimately show ?thesis using w2(2,3) by (intro exI [of _ w2]) simp
qed

text \<open>
  A machine with the four processes and three keys to come, for a, r and e; the interrupt of the third one comes just after the
  server has seen the second.
\<close>

definition name32 :: "string \<Rightarrow> u8 list" where
  "name32 n = take 33 (cstring n @ replicate 33 0)"

definition demo_names :: "nat \<Rightarrow> string" where
  "demo_names i = (if i = 0 then ''kernel'' else if i = 1 then ''screen'' else if i = 2 then ''kbd''
     else if i = 3 then ''shell'' else [])"

definition demo_world :: world where
  "demo_world = \<lparr>
     wsys = map_sys\<lparr>sk := elf_kern\<lparr>
       kio := \<lparr>out_log = [], in_val = (\<lambda>p j. if p = 0x64 then 1 else if j = 0 then 0x1e else if j = 1 then 0x18 else 0x20), in_pos = (\<lambda>_. 0)\<rparr>,
       ktab := demo_tab\<lparr>procs := (\<lambda>i. demo_proc\<lparr>pid := of_nat i, pname := name32 (demo_names i)\<rparr>)\<rparr>\<rparr>\<rparr>,
     wscr = \<lparr>video_memory = replicate 2000 0, column = 0, row = 0, fg_color = 0xb, bg_color = 0\<rparr>,
     wkbd = \<lparr>last_scancode = 0, key_pressed = False, srv_pressed = (\<lambda>_. 0), srv_reply = 0\<rparr>,
     wirqs = 3, warr = [(0, 0, 0), (0, 1, 0)],
     wtable = (\<lambda>p. if p = 0 then Some Kernel_Process else if p = 1 then Some Screen_Driver
                    else if p = 2 then Some Keyboard_Server else None),
     wclient = 3\<rparr>"

definition demo_env :: user_env where
  "demo_env = \<lparr>stack_io = replicate 72 0, stack_kernel = replicate 36 0, kbd_literal = name32 ''kbd'',
     screen_literal = name32 ''screen''\<rparr>"

lemma demo_named:
  "named (take 32 (name32 ''screen'')) (wtab demo_world) = Some 1"
  "named (take 32 (name32 ''kbd'')) (wtab demo_world) = Some 2"
proof -
  have p: "procs (wtab demo_world) i = demo_proc\<lparr>pid := of_nat i, pname := name32 (demo_names i)\<rparr>" for i
    by (simp add: demo_world_def map_sys_def)
  have u: "[0..<NPROCS] = 0 # 1 # 2 # [3..<64]" by (simp add: NPROCS_def upt_conv_Cons)
  show "named (take 32 (name32 ''screen'')) (wtab demo_world) = Some 1"
    "named (take 32 (name32 ''kbd'')) (wtab demo_world) = Some 2"
    by (simp_all add: named_def p u demo_names_def name32_def cstring_def cstr_def)
qed

lemma demo_codes: "codes (kio (sk (wsys demo_world))) (wirqs demo_world) = [0x1e, 0x18, 0x20]"
proof -
  have "[0..<3] = [0, 1, 2 :: nat]" by (simp add: upt_conv_Cons)
  then show ?thesis by (simp add: codes_def demo_world_def map_sys_def)
qed

lemma demo_keys: "pending (kbd_part demo_world) = [0x1e, 0x18, 0x20]" "kbd_ok (kbd_part demo_world)"
  "delivered_keys (warr demo_world) (slot_of (wkbd demo_world)) (codes (kio (sk (wsys demo_world))) (wirqs demo_world)) = [0x1e, 0x20]"
proof -
  have s: "slot_of (wkbd demo_world) = []" "warr demo_world = [(0, 0, 0), (0, 1, 0)]"
    by (simp_all add: slot_of_def demo_world_def)
  show p: "pending (kbd_part demo_world) = [0x1e, 0x18, 0x20]"
    by (simp add: pending_def kbd_part_def demo_codes s make_code_def)
  have "kbd_ready (kio (sk (wsys demo_world)))" by (auto simp: kbd_ready_def demo_world_def map_sys_def)
  then show "kbd_ok (kbd_part demo_world)" using p by (simp add: kbd_ok_def kbd_part_def)
  show "delivered_keys (warr demo_world) (slot_of (wkbd demo_world)) (codes (kio (sk (wsys demo_world))) (wirqs demo_world)) = [0x1e, 0x20]"
    unfolding demo_codes s by (simp add: delivered_keys.simps next_arrivals_def key_round_def newest_def make_code_def)
qed

lemma demo_world_ok: "world_ok demo_env demo_world"
proof -
  have p: "procs (wtab demo_world) i = demo_proc\<lparr>pid := of_nat i, pname := name32 (demo_names i)\<rparr>" for i
    by (simp add: demo_world_def map_sys_def)
  have "0 \<in> set (name32 (demo_names i))" for i by (simp add: name32_def demo_names_def cstring_def)
  then have "names_ok (wtab demo_world)" by (simp add: names_ok_def p)
  moreover have "proc_find_by_pid 3 (wtab demo_world) \<noteq> None"
    unfolding find_by_pid_None p by (auto simp: NPROCS_def intro!: exI [of _ 3])
  moreover have "wclient demo_world = 3" "wtable demo_world 0 = Some Kernel_Process"
    "wtable demo_world 1 = Some Screen_Driver" "wtable demo_world 2 = Some Keyboard_Server"
    "scr_ok (wscr demo_world)" by (simp_all add: demo_world_def scr_ok_def)
  moreover have "env_ok demo_env"
    by (simp add: env_ok_def demo_env_def lit_ok_def MAX_PROC_NAME_LEN_def name32_def cstring_def SIZEOF_MSG_IO_def SIZEOF_MSG_KERNEL_def)
  ultimately show ?thesis
    using demo_named demo_keys(2)
    by (simp add: world_ok_def kernel_ok_def server_named_def p demo_env_def MAX_PROC_NAME_LEN_def)
qed

theorem shell_echoes_witness:
  "\<exists>w'. run respond (shell demo_env 2) demo_world = Inr ((), w') \<and> trow (screen_of (wscr w')) = 0 \<and>
     tcol (screen_of (wscr w')) = 9 \<and> world_keys demo_world = [0x61, 0x65] \<and> typed_keys demo_world = [0x61, 0x72, 0x65]"
proof -
  have k: "world_keys demo_world = [0x61, 0x65]" "typed_keys demo_world = [0x61, 0x72, 0x65]"
    by (simp_all add: world_keys_def typed_keys_def demo_keys(1,3) key_of_def layout_def)
  have s: "trow (screen_of (wscr demo_world)) = 0" "tcol (screen_of (wscr demo_world)) = 0"
    by (simp_all add: demo_world_def screen_of_def)
  have "2 \<le> length (world_keys demo_world)" by (simp add: k)
  from shell_echoes [OF demo_world_ok this] show ?thesis
    by (auto simp: k s puts_text_def demo_env_def cstring_def cstr_def screen_put_def screen_newline_def Let_def)
qed

end
