(* ===== verification/Spinlock.thy ===== *)
theory Spinlock
  imports Console
begin

text \<open>
  The lock around \<open>kprintf\<close>: the macros \<open>LOCK\<close> and \<open>UNLOCK\<close> of \<^verbatim>\<open>include/kernel/smp.h\<close> on the
  variable \<open>print_lock\<close> of \<^verbatim>\<open>kernel/print.c\<close>, and several processors that call \<open>kprintf\<close> at once.

  One attempt of \<open>LOCK\<close> is an atomic compare and swap; \<open>print_pc\<close> is where a processor is in
  \<open>kprintf\<close>, \<open>section_step\<close> the next step of one that holds the lock (the formatter into its own buffer, one
  character to the serial port or to the screen, or \<open>UNLOCK\<close>), and \<open>core_step\<close> a step of any
  processor.  The barriers of the macros have no counterpart: steps happen one after the
  other.

  Shown: no two processors are inside at once, the calls can always be completed, and the output
  is that of the calls one after the other in some order.
\<close>

section \<open>Definitions\<close>

text \<open>The format and the arguments of a call.\<close>

type_synonym print_call = "u8 list \<times> varg list"

text \<open>One round of the loop of \<open>LOCK\<close>: whether the swap succeeded, and the console after it.\<close>

definition LOCK_print_lock :: "console \<Rightarrow> bool \<times> console" where
  "LOCK_print_lock c = (if print_lock c then (False, c) else (True, c\<lparr>print_lock := True\<rparr>))"

definition UNLOCK_print_lock :: "console \<Rightarrow> console" where
  "UNLOCK_print_lock c = c\<lparr>print_lock := False\<rparr>"

datatype print_pc =
    Outside
  | At_lock print_call
  | At_format print_call
  | At_serial "u8 list" "u8 list"
  | At_screen "u8 list"
  | At_unlock

fun in_section :: "print_pc \<Rightarrow> bool" where
  "in_section Outside = False"
| "in_section (At_lock x) = False"
| "in_section _ = True"

fun section_step :: "print_pc \<Rightarrow> console \<Rightarrow> (print_pc \<times> console) res" where
  "section_step (At_format (fmt, vl)) c =
     kbind (kvformat (replicate KERNEL_MAX_PRINT_SIZE 0) fmt vl) (\<lambda>buf. Inr (At_serial buf buf, c))"
| "section_step (At_serial buf (ch # cs)) c =
     (if ch = 0 then Inr (At_screen buf, c)
      else kbind (com_putc ch (con_io c)) (\<lambda>io. Inr (At_serial buf cs, c\<lparr>con_io := io\<rparr>)))"
| "section_step (At_screen (ch # cs)) c =
     (if ch = 0 then Inr (At_unlock, c)
      else kbind (vga_putch ch (con_vga c)) (\<lambda>v. Inr (At_screen cs, c\<lparr>con_vga := v\<rparr>)))"
| "section_step At_unlock c = Inr (Outside, UNLOCK_print_lock c)"
| "section_step _ c = Inl OutOfBounds"

text \<open>The console all processors share; of each processor, where it is and the calls it has yet to make.\<close>

record printers =
  shared :: console
  pcs :: "nat \<Rightarrow> print_pc"
  pending :: "nat \<Rightarrow> print_call list"

inductive core_step :: "nat \<Rightarrow> printers \<Rightarrow> printers \<Rightarrow> bool" for p where
  call: "pcs s p = Outside \<Longrightarrow> pending s p = x # xs \<Longrightarrow>
    core_step p s (s\<lparr>pcs := (pcs s)(p := At_lock x), pending := (pending s)(p := xs)\<rparr>)"
| acquire: "pcs s p = At_lock x \<Longrightarrow> LOCK_print_lock (shared s) = (True, c) \<Longrightarrow>
    core_step p s (s\<lparr>shared := c, pcs := (pcs s)(p := At_format x)\<rparr>)"
| spin: "pcs s p = At_lock x \<Longrightarrow> LOCK_print_lock (shared s) = (False, c) \<Longrightarrow>
    core_step p s (s\<lparr>shared := c\<rparr>)"
| inside: "in_section (pcs s p) \<Longrightarrow> section_step (pcs s p) (shared s) = Inr (q, c) \<Longrightarrow>
    core_step p s (s\<lparr>shared := c, pcs := (pcs s)(p := q)\<rparr>)"

inductive cores_reach :: "printers \<Rightarrow> printers \<Rightarrow> bool" where
  start: "cores_reach s s"
| step: "cores_reach s s' \<Longrightarrow> core_step p s' s'' \<Longrightarrow> cores_reach s s''"

text \<open>The calls one after the other, each with the console to itself.\<close>

fun print_all :: "(nat \<times> print_call) list \<Rightarrow> console \<Rightarrow> console res" where
  "print_all [] c = Inr c"
| "print_all ((p, fmt, vl) # ds) c = kbind (kprintf fmt vl c) (print_all ds)"

definition calls_of :: "nat \<Rightarrow> (nat \<times> print_call) list \<Rightarrow> print_call list" where
  "calls_of p ds = map snd (filter (\<lambda>d. fst d = p) ds)"

section \<open>Lemmas\<close>

text \<open>What is left of the call of a processor inside the section.\<close>

definition screen_rest :: "u8 list \<Rightarrow> console \<Rightarrow> console res" where
  "screen_rest cs c = kbind (vga_puts cs (con_vga c)) (\<lambda>v. Inr (UNLOCK_print_lock (c\<lparr>con_vga := v\<rparr>)))"

definition serial_rest :: "u8 list \<Rightarrow> u8 list \<Rightarrow> console \<Rightarrow> console res" where
  "serial_rest buf cs c = kbind (com_puts cs (con_io c)) (\<lambda>io. screen_rest buf (c\<lparr>con_io := io\<rparr>))"

fun section_rest :: "print_pc \<Rightarrow> console \<Rightarrow> console res" where
  "section_rest (At_format (fmt, vl)) c =
     kbind (kvformat (replicate KERNEL_MAX_PRINT_SIZE 0) fmt vl) (\<lambda>buf. serial_rest buf buf c)"
| "section_rest (At_serial buf cs) c = serial_rest buf cs c"
| "section_rest (At_screen cs) c = screen_rest cs c"
| "section_rest At_unlock c = Inr (UNLOCK_print_lock c)"
| "section_rest _ c = Inl OutOfBounds"

lemma kprintf_section:
  assumes "LOCK_print_lock c = (True, c')"
  shows "kprintf fmt vl c = section_rest (At_format (fmt, vl)) c'"
  using assms
  by (auto simp: kprintf_def LOCK_print_lock_def UNLOCK_print_lock_def Let_def serial_rest_def screen_rest_def
      split: if_splits intro!: kbind_cong)

lemma section_step_rest:
  assumes "section_step q c = Inr (q', c')"
  shows "section_rest q c = (if q' = Outside then Inr c' else section_rest q' c')" and "q' = Outside \<or> in_section q'"
    and "q' \<noteq> Outside \<Longrightarrow> print_lock c' = print_lock c" and "q' = Outside \<Longrightarrow> \<not> print_lock c'"
  using assms
  by (cases "(q, c)" rule: section_step.cases;
      auto simp: kbind_Inr_iff serial_rest_def screen_rest_def UNLOCK_print_lock_def split: if_splits)+

lemma print_all_snoc: "print_all (ds @ [(p, x)]) c = kbind (print_all ds c) (kprintf (fst x) (snd x))"
proof (induction ds arbitrary: c)
  case Nil
  show ?case by (cases x, cases "kprintf (fst x) (snd x) c") simp_all
next
  case (Cons d ds)
  obtain p' fmt vl where d: "d = (p', fmt, vl)" by (cases d)
  show ?case unfolding d by (cases "kprintf fmt vl c") (simp_all add: Cons.IH)
qed

lemma calls_of_snoc: "calls_of p (ds @ [(p', x)]) = calls_of p ds @ (if p' = p then [x] else [])"
  by (simp add: calls_of_def)

fun waiting :: "print_pc \<Rightarrow> print_call list" where
  "waiting (At_lock x) = [x]"
| "waiting _ = []"

lemma in_section_waiting: "in_section q \<Longrightarrow> waiting q = []"
  by (cases q) simp_all

text \<open>
  The invariant.  The calls \<open>ds\<close> are done and leave the console \<open>c\<close>; \<open>hl\<close> is the call inside the
  section, if any.  The lock is taken exactly if there is one, and what is left of it, run
  on the console as it is now, is the whole call run on \<open>c\<close>.
\<close>

definition print_inv :: "printers \<Rightarrow> (nat \<times> print_call) list \<Rightarrow> (nat \<times> print_call) list \<Rightarrow> console \<Rightarrow> printers \<Rightarrow> bool" where
  "print_inv s0 ds hl c s \<longleftrightarrow> print_all ds (shared s0) = Inr c \<and> \<not> print_lock c \<and>
     print_lock (shared s) = (hl \<noteq> []) \<and>
     (hl = [] \<and> shared s = c \<or>
      (\<exists>p x. hl = [(p, x)] \<and> section_rest (pcs s p) (shared s) = kprintf (fst x) (snd x) c)) \<and>
     (\<forall>p. in_section (pcs s p) \<longleftrightarrow> p \<in> fst ` set hl) \<and>
     (\<forall>p. pending s0 p = calls_of p (ds @ hl) @ waiting (pcs s p) @ pending s p)"

lemma print_inv_step:
  assumes inv: "print_inv s0 ds hl c s" and step: "core_step p s s'"
  shows "\<exists>ds hl c. print_inv s0 ds hl c s'"
  using step
proof cases
  case (call x xs)
  then have "p \<notin> fst ` set hl" using inv by (metis print_inv_def in_section.simps(1))
  with call have "print_inv s0 ds hl c s'" using inv by (auto simp: print_inv_def )
  then show ?thesis by blast
next
  case (acquire x c')
  then have hl: "hl = []" "shared s = c" using inv by (auto simp: print_inv_def LOCK_print_lock_def split: if_splits)
  have "section_rest (At_format x) c' = kprintf (fst x) (snd x) c"
    using kprintf_section [of c c' "fst x" "snd x"] acquire(3) hl(2) by simp
  then have "print_inv s0 ds [(p, x)] c s'"
    using inv acquire hl by (auto simp: print_inv_def LOCK_print_lock_def calls_of_snoc split: if_splits)
  then show ?thesis by blast
next
  case (spin x c')
  then have "s' = s" by (simp add: LOCK_print_lock_def split: if_splits)
  with inv show ?thesis by blast
next
  case (inside q c')
  then have "p \<in> fst ` set hl" using inv by (simp add: print_inv_def)
  then obtain x where hl: "hl = [(p, x)]" using inv by (auto simp: print_inv_def )
  note st = section_step_rest [OF inside(3)]
  have rest: "section_rest (pcs s p) (shared s) = kprintf (fst x) (snd x) c" "print_lock (shared s)"
    using inv hl by (simp_all add: print_inv_def)
  show ?thesis
  proof (cases "q = Outside")
    case True
    then have "print_inv s0 (ds @ [(p, x)]) [] c' s'"
      using inv inside st(1,4) rest hl in_section_waiting [OF inside(2)]
      by (auto simp: print_inv_def print_all_snoc)
    then show ?thesis by blast
  next
    case False
    then have "in_section q" using st(2) by simp
    then have "print_inv s0 ds hl c s'"
      using inv inside st(1,3) rest hl False in_section_waiting [OF inside(2)] in_section_waiting [of q]
      by (auto simp: print_inv_def)
    then show ?thesis by blast
  qed
qed

lemma print_inv_reach:
  assumes "cores_reach s0 s" and "\<not> print_lock (shared s0)" and "\<forall>p. pcs s0 p = Outside"
  shows "\<exists>ds hl c. print_inv s0 ds hl c s"
  using assms
proof (induction rule: cores_reach.induct)
  case (start s)
  then have "print_inv s [] [] (shared s) s" by (simp add: print_inv_def calls_of_def)
  then show ?case by blast
next
  case (step s s' p s'')
  then show ?case using print_inv_step by blast
qed

lemma print_inv_exclusive:
  assumes "print_inv s0 ds hl c s" and "in_section (pcs s p)" and "in_section (pcs s q)"
  shows "p = q"
  using assms by (auto simp: print_inv_def)

text \<open>What the calls print, and that they do.\<close>

definition printable :: "print_call \<Rightarrow> bool" where
  "printable x \<longleftrightarrow> (\<exists>ws. render (fst x) (snd x) = Inr ws \<and> length ws < 256)"

definition text_of :: "print_call \<Rightarrow> u8 list" where
  "text_of x = (case render (fst x) (snd x) of Inr ws \<Rightarrow> cstr ws | Inl _ \<Rightarrow> [])"

definition console_ok :: "console \<Rightarrow> bool" where
  "console_ok c \<longleftrightarrow> \<not> print_lock c \<and> com_ready (con_io c) \<and> vga_ok (con_vga c)"

definition printed :: "console \<Rightarrow> u8 list \<Rightarrow> console \<Rightarrow> bool" where
  "printed c ws c' \<longleftrightarrow> out_log (con_io c') = out_log (con_io c) @ map (\<lambda>ch. (PORT, ucast ch)) ws \<and>
     vga_attr (con_vga c') = vga_attr (con_vga c) \<and>
     term_of (con_vga c') = foldl (term_put (vga_attr (con_vga c))) (term_of (con_vga c)) ws"

lemma kprintf_printed:
  assumes "console_ok c" and "printable x"
  shows "\<exists>c'. kprintf (fst x) (snd x) c = Inr c' \<and> console_ok c' \<and> printed c (text_of x) c'"
  using assms kprintf_prints [of c "fst x" "snd x"]
  by (fastforce simp: console_ok_def printable_def text_of_def printed_def)

lemma printed_trans: "printed c xs c' \<Longrightarrow> printed c' ys c'' \<Longrightarrow> printed c (xs @ ys) c''"
  by (simp add: printed_def)

lemma print_all_printed:
  assumes "console_ok c" and "\<forall>x \<in> snd ` set ds. printable x"
  shows "\<exists>c'. print_all ds c = Inr c' \<and> console_ok c' \<and> printed c (concat (map (\<lambda>d. text_of (snd d)) ds)) c'"
  using assms
proof (induction ds arbitrary: c)
  case Nil
  then show ?case by (simp add: printed_def)
next
  case (Cons d ds)
  obtain p fmt vl where d: "d = (p, fmt, vl)" by (cases d)
  obtain c1 where c1: "kprintf fmt vl c = Inr c1" "console_ok c1" "printed c (text_of (fmt, vl)) c1"
    using kprintf_printed [of c "(fmt, vl)"] Cons.prems d by auto
  obtain c2 where c2: "print_all ds c1 = Inr c2" "console_ok c2" "printed c1 (concat (map (\<lambda>d. text_of (snd d)) ds)) c2"
    using Cons.IH [OF c1(2)] Cons.prems(2) by auto
  show ?case using c1 c2 printed_trans [OF c1(3) c2(3)] by (simp add: d)
qed

lemma calls_of_set: "(p, x) \<in> set ds \<Longrightarrow> x \<in> set (calls_of p ds)"
  by (force simp: calls_of_def)

lemma print_inv_calls:
  assumes "print_inv s0 ds hl c s" and "\<forall>p. \<forall>x \<in> set (pending s0 p). printable x"
  shows "\<forall>x \<in> snd ` set (ds @ hl). printable x"
proof
  fix x
  assume "x \<in> snd ` set (ds @ hl)"
  then obtain p where "(p, x) \<in> set (ds @ hl)" by force
  then have "x \<in> set (calls_of p (ds @ hl))" by (rule calls_of_set)
  moreover have "pending s0 p = calls_of p (ds @ hl) @ waiting (pcs s p) @ pending s p"
    using assms(1) by (simp add: print_inv_def)
  ultimately show "printable x" using assms(2) by (metis Un_iff set_append)
qed

text \<open>Progress: a measure that every step but spinning lowers.\<close>

fun pc_work :: "print_pc \<Rightarrow> nat" where
  "pc_work Outside = 0"
| "pc_work (At_lock (fmt, vl)) =
     (case kvformat (replicate KERNEL_MAX_PRINT_SIZE 0) fmt vl of Inr buf \<Rightarrow> 2 * length buf + 4 | Inl _ \<Rightarrow> 1)"
| "pc_work (At_format (fmt, vl)) =
     (case kvformat (replicate KERNEL_MAX_PRINT_SIZE 0) fmt vl of Inr buf \<Rightarrow> 2 * length buf + 3 | Inl _ \<Rightarrow> 0)"
| "pc_work (At_serial buf cs) = length buf + length cs + 2"
| "pc_work (At_screen cs) = length cs + 1"
| "pc_work At_unlock = 1"

definition core_work :: "printers \<Rightarrow> nat \<Rightarrow> nat" where
  "core_work s p = pc_work (pcs s p) + sum_list (map (\<lambda>x. pc_work (At_lock x) + 1) (pending s p))"

definition finished :: "printers \<Rightarrow> bool" where
  "finished s \<longleftrightarrow> (\<forall>p. pcs s p = Outside \<and> pending s p = [])"

lemma pc_work_acquire: "pc_work (At_format x) < pc_work (At_lock x)"
  by (cases x) (auto split: sum.splits)

lemma section_step_possible:
  assumes "section_rest q c = Inr c''" and "in_section q"
  shows "\<exists>q' c'. section_step q c = Inr (q', c') \<and> pc_work q' < pc_work q"
  using assms
  by (cases "(q, c)" rule: section_step.cases;
      force simp: kbind_Inr_iff serial_rest_def screen_rest_def split: if_splits)

lemma core_progress:
  assumes inv: "print_inv s0 ds hl c s" and ok: "console_ok (shared s0)"
    and pr: "\<forall>p. \<forall>x \<in> set (pending s0 p). printable x" and nf: "\<not> finished s"
  shows "\<exists>p s'. core_step p s s' \<and> core_work s' p < core_work s p \<and> (\<forall>q. q \<noteq> p \<longrightarrow> core_work s' q = core_work s q)"
proof (cases "hl = []")
  case True
  then have free: "LOCK_print_lock (shared s) = (True, (shared s)\<lparr>print_lock := True\<rparr>)"
    using inv by (simp add: print_inv_def LOCK_print_lock_def)
  obtain p where p: "pcs s p \<noteq> Outside \<or> pending s p \<noteq> []" using nf by (auto simp: finished_def)
  have "\<not> in_section (pcs s p)" using inv True by (simp add: print_inv_def)
  with p consider x where "pcs s p = At_lock x" | x xs where "pcs s p = Outside" "pending s p = x # xs"
    by (cases "pcs s p"; cases "pending s p") auto
  then show ?thesis
  proof cases
    case 1
    with core_step.acquire [OF 1 free] show ?thesis
      using pc_work_acquire [of x] by (force simp: core_work_def simp del: pc_work.simps)
  next
    case 2
    with core_step.call [OF 2] show ?thesis by (force simp: core_work_def simp del: pc_work.simps(2))
  qed
next
  case False
  then obtain p x where hl: "hl = [(p, x)]" "section_rest (pcs s p) (shared s) = kprintf (fst x) (snd x) c"
    "in_section (pcs s p)"
    using inv by (auto simp: print_inv_def)
  have ds: "\<forall>x \<in> snd ` set (ds @ hl). printable x" by (rule print_inv_calls [OF inv pr])
  then have "console_ok c" using print_all_printed [OF ok, of ds] inv by (auto simp: print_inv_def)
  then obtain c'' where "section_rest (pcs s p) (shared s) = Inr c''"
    using kprintf_printed [of c x] ds hl by auto
  from section_step_possible [OF this hl(3)] obtain q' c' where
    st: "section_step (pcs s p) (shared s) = Inr (q', c')" "pc_work q' < pc_work (pcs s p)" by blast
  from core_step.inside [OF hl(3) st(1)] st(2) show ?thesis by (force simp: core_work_def)
qed

lemma cores_reach_trans:
  assumes "cores_reach s' s''" and "cores_reach s s'"
  shows "cores_reach s s''"
  using assms by (induction rule: cores_reach.induct) (auto intro: cores_reach.step)

lemma core_work_idle:
  assumes "print_inv s0 ds hl c s" and "pending s0 p = []"
  shows "core_work s p = 0"
proof -
  have a: "calls_of p (ds @ hl) = []" "waiting (pcs s p) = []" "pending s p = []"
    using assms by (auto simp: print_inv_def)
  have "\<not> in_section (pcs s p)"
    using a(1) assms(1) calls_of_set [of p _ "ds @ hl"] by (force simp: print_inv_def)
  then have "pcs s p = Outside" using a(2) by (cases "pcs s p") auto
  with a(3) show ?thesis by (simp add: core_work_def)
qed

lemma cores_finish:
  assumes "print_inv s0 ds hl c s" and "console_ok (shared s0)"
    and "\<forall>p. \<forall>x \<in> set (pending s0 p). printable x" and "\<forall>p \<ge> n. pending s0 p = []"
  shows "\<exists>s'. cores_reach s s' \<and> finished s'"
  using assms(1)
proof (induction "\<Sum>p<n. core_work s p" arbitrary: s ds hl c rule: less_induct)
  case less
  show ?case
  proof (cases "finished s")
    case True
    then show ?thesis using cores_reach.start by blast
  next
    case False
    from core_progress [OF less.prems assms(2,3) False] obtain p s' where
      p: "core_step p s s'" "core_work s' p < core_work s p" "\<forall>q. q \<noteq> p \<longrightarrow> core_work s' q = core_work s q" by blast
    have "p < n" using core_work_idle [OF less.prems, of p] p(2) assms(4) by (cases "p < n") auto
    then have "(\<Sum>p<n. core_work s' p) < (\<Sum>p<n. core_work s p)"
      using p(2,3) by (intro sum_strict_mono_ex1) (auto simp: le_less)
    moreover obtain ds' hl' c' where "print_inv s0 ds' hl' c' s'" using print_inv_step [OF less.prems p(1)] by blast
    ultimately obtain s'' where "cores_reach s' s''" "finished s''" using less.hyps by blast
    then show ?thesis
      using cores_reach_trans cores_reach.step [OF cores_reach.start p(1)] by blast
  qed
qed

lemma finished_printed:
  assumes "print_inv s0 ds hl c s" and "console_ok (shared s0)"
    and "\<forall>p. \<forall>x \<in> set (pending s0 p). printable x" and "finished s"
  shows "(\<forall>p. calls_of p ds = pending s0 p) \<and> printed (shared s0) (concat (map (\<lambda>d. text_of (snd d)) ds)) (shared s)"
proof -
  have ns: "\<not> in_section (pcs s p)" for p using assms(4) by (simp add: finished_def)
  then have hl: "hl = []" using assms(1) by (auto simp: print_inv_def)
  have pr: "\<forall>x \<in> snd ` set ds. printable x" using print_inv_calls [OF assms(1,3)] hl by simp
  have "print_all ds (shared s0) = Inr (shared s)" using assms(1) hl by (auto simp: print_inv_def)
  then have "printed (shared s0) (concat (map (\<lambda>d. text_of (snd d)) ds)) (shared s)"
    using print_all_printed [OF assms(2) pr] by auto
  moreover have "calls_of p ds = pending s0 p" for p
    using assms(1,4) hl by (simp add: print_inv_def finished_def)
  ultimately show ?thesis by blast
qed

section \<open>Properties\<close>

text \<open>
  C23. Several processors call \<open>kprintf\<close> at once.  From a console with its lock free, every processor
  outside \<open>kprintf\<close>, with any lists of calls whose texts fit the buffer, and for every interleaving
  of their steps: no two processors are ever between \<open>LOCK\<close> and \<open>UNLOCK\<close>; from every state reached
  the calls can all be completed, so the lock never blocks them for good; and when all are completed, the serial
  port and the screen show what the calls print one after the other, whole and in some order
  that keeps the order of each processor.
\<close>

theorem kprintf_serialised:
  assumes "cores_reach s0 s" and "console_ok (shared s0)" and "\<forall>p. pcs s0 p = Outside"
    and "\<forall>p. \<forall>x \<in> set (pending s0 p). printable x" and "\<forall>p \<ge> n. pending s0 p = []"
  shows "(\<forall>p q. in_section (pcs s p) \<and> in_section (pcs s q) \<longrightarrow> p = q) \<and>
    (\<exists>s'. cores_reach s s' \<and> finished s') \<and>
    (finished s \<longrightarrow> (\<exists>ds. (\<forall>p. calls_of p ds = pending s0 p) \<and>
       printed (shared s0) (concat (map (\<lambda>d. text_of (snd d)) ds)) (shared s)))"
proof -
  have "\<not> print_lock (shared s0)" using assms(2) by (simp add: console_ok_def)
  from print_inv_reach [OF assms(1) this assms(3)] obtain ds hl c where inv: "print_inv s0 ds hl c s" by blast
  show ?thesis
    using print_inv_exclusive [OF inv] cores_finish [OF inv assms(2,4,5)] finished_printed [OF inv assms(2,4)]
    by blast
qed

definition demo_printers :: printers where
  "demo_printers = \<lparr>shared = demo_console, pcs = (\<lambda>_. Outside),
     pending = (\<lambda>p. if p = 0 then [([0x68, 0x69, 0], [])] else if p = 1 then [([0x25, 0x63, 0], [VInt 0x79])] else [])\<rparr>"

theorem kprintf_serialised_witness:
  "\<exists>s' ds. cores_reach demo_printers s' \<and> finished s' \<and> calls_of 0 ds = [([0x68, 0x69, 0], [])] \<and>
     calls_of 1 ds = [([0x25, 0x63, 0], [VInt 0x79])] \<and>
     out_log (con_io (shared s')) = map (\<lambda>ch. (PORT, ucast ch)) (concat (map (\<lambda>d. text_of (snd d)) ds))"
proof -
  have ok: "console_ok (shared demo_printers)"
    by (auto simp: console_ok_def demo_printers_def demo_console_def demo_vga_def com_ready_def vga_ok_def)
  have out: "\<forall>p. pcs demo_printers p = Outside" by (simp add: demo_printers_def)
  have pr: "\<forall>p. \<forall>x \<in> set (pending demo_printers p). printable x"
    by (simp add: demo_printers_def printable_def render_spec_def)
  have n: "\<forall>p \<ge> 2. pending demo_printers p = []" by (simp add: demo_printers_def)
  obtain s' where s': "cores_reach demo_printers s'" "finished s'"
    using kprintf_serialised [OF cores_reach.start ok out pr n] by blast
  then obtain ds where "\<forall>p. calls_of p ds = pending demo_printers p"
    "printed (shared demo_printers) (concat (map (\<lambda>d. text_of (snd d)) ds)) (shared s')"
    using kprintf_serialised [OF s'(1) ok out pr n] by blast
  then show ?thesis
    using s' by (intro exI [of _ s'] exI [of _ ds]) (auto simp: printed_def demo_printers_def demo_console_def)
qed

end
