(* ===== verification/Spec2Isabelle.thy ===== *)
theory Spec2Isabelle
  imports Boot Queues Faults Tailq Userland Spinlock
begin

text \<open>
  Leoman, a small operating system for the i386, as a shallow embedding.

  \<^bold>\<open>The program.\<close>  A kernel of a few thousand lines of C (\<^verbatim>\<open>src/kernel\<close>) that pages memory, keeps a
  heap, a process table and a round-robin scheduler, and offers three system calls: send,
  receive and reply.  Everything else is a process that talks through messages: a process
  inside the kernel that maps memory, forwards interrupts and resolves names; a screen
  driver, a keyboard server and a shell; and a library for the messages.  A host tool packs
  the programs into the archive the kernel boots from.

  \<^bold>\<open>Style.\<close>  Machine integers are words of their width, so additions wrap as in C.  A
  fallible operation returns \<open>fault + result\<close>: a page fault, an access outside an array or
  through a null pointer, a halt, a division by zero, a busy wait that never ends (\<open>Spins\<close>).
  Components are records; an operation takes and returns its component's record.  Objects
  that C keeps at addresses the kernel also reaches through page tables (page tables
  themselves, heap blocks, message packets, queue nodes, trap frames, ELF files, the tables
  of the firmware) are bytes of physical memory behind the page walk.  Static tables and
  buffers nothing else points into are functions or lists.  Addresses the linker fixes and
  functions in assembly are parameters: \<open>link_env\<close>, \<open>handler_env\<close>, \<open>syscall_env\<close>, \<open>boot_env\<close>.

  \<^bold>\<open>Theories, in the order of the imports.\<close>
  \<^item> \<open>Prelude\<close>: faults and their sequencing, counting loops, pages and alignment, words as numbers.
  \<^item> \<open>Machine\<close> (\<^verbatim>\<open>vm.h\<close>, \<^verbatim>\<open>x86.h\<close>, \<^verbatim>\<open>mmio.c\<close>): memory, page walk, ports; the self map.
  \<^item> \<open>Pmm\<close> (\<^verbatim>\<open>pm.c\<close>): the bitmap of frames; locale \<open>frame_source\<close>.
  \<^item> \<open>Libc\<close> (string routines of \<^verbatim>\<open>kernel.c\<close> and of \<^verbatim>\<open>lib/libc\<close>).
  \<^item> \<open>Vmm\<close> (\<^verbatim>\<open>vm.c\<close>): mapping and unmapping, new page directories.
  \<^item> \<open>Aspace\<close>: address spaces as partial maps of pages; locale \<open>page_mapper\<close>.
  \<^item> \<open>Kheap\<close> (\<^verbatim>\<open>heap.c\<close>) and \<open>Stailq\<close> (\<^verbatim>\<open>queue.h\<close>): the heap of message nodes and their queues;
    locale \<open>fifo\<close>.  \<open>Tailq\<close>: the queue macros beyond those the kernel uses.
  \<^item> \<open>Segments\<close> (\<^verbatim>\<open>gdt.c\<close>, \<^verbatim>\<open>tss.c\<close>) and \<open>Interrupts\<close> (\<^verbatim>\<open>idt.c\<close>, the tables).
  \<^item> \<open>Procs\<close> (\<^verbatim>\<open>proc.c\<close>): the process table, the scheduler, new processes, and the kernel state \<open>kern\<close>.
  \<^item> \<open>Elf\<close> (\<^verbatim>\<open>elf.c\<close>, the start of programs in \<^verbatim>\<open>proc.c\<close>).
  \<^item> \<open>Syscall\<close>, \<open>Ipc\<close>, \<open>Send\<close> and \<open>Deliver\<close> (\<^verbatim>\<open>syscall.c\<close>): the system calls; receive and reply as
    complete calls; a message that is queued and fetched; a receiver that waits and is served.
  \<^item> \<open>Queues\<close>: sequences of system calls, the invariant of heap and queues, and lists as their
    specification.  \<open>Faults\<close>: system calls that go wrong.
  \<^item> \<open>Console\<close> (\<^verbatim>\<open>print.c\<close>, \<^verbatim>\<open>com.c\<close>, \<^verbatim>\<open>vga.c\<close>): formatting, serial port, screen; locale \<open>cell_screen\<close>.
    \<open>Spinlock\<close> (\<^verbatim>\<open>smp.h\<close>, \<^verbatim>\<open>print.c\<close>): \<open>kprintf\<close> on several processors, as interleaved steps.
  \<^item> \<open>Devices\<close> (\<^verbatim>\<open>timer.c\<close>, \<^verbatim>\<open>kbd.c\<close>, \<^verbatim>\<open>pci.c\<close>, error screen): the state \<open>sys\<close> of the whole machine.
  \<^item> \<open>Trap\<close> (\<^verbatim>\<open>idt.c\<close>, the dispatchers): interrupts, and the kernel as a step relation.
  \<^item> \<open>Sar\<close> (\<^verbatim>\<open>sar.c\<close>, \<^verbatim>\<open>tools/sar.c\<close>): the archive.
  \<^item> \<open>Smp\<close> (\<^verbatim>\<open>smp.c\<close>) and \<open>Boot\<close> (\<^verbatim>\<open>kernel.c\<close>): the other processors, and \<open>kmain\<close>.
  \<^item> \<open>Dispatcher\<close> (\<^verbatim>\<open>msg_dispatcher.c\<close>): the kernel process.
  \<^item> \<open>Userland\<close> (\<^verbatim>\<open>lib/libipc\<close>, \<^verbatim>\<open>lib/libc\<close>, \<^verbatim>\<open>drivers/screen.c\<close>, \<^verbatim>\<open>servers/kbd.c\<close>, \<^verbatim>\<open>exec/shell.c\<close>);
    locale \<open>char_device\<close>.

  \<^bold>\<open>What is shown.\<close>  Memory: frames are handed out once; mapping changes exactly the pages
  asked for and can be undone; the software lookup of a physical address is compared with the processor's walk in
  every case, and agrees when the page is mapped and bits 10 and 11 of its entry are clear; a new address space has the
  kernel's mappings and none of the user's; heap blocks do not overlap; queues are first in,
  first out.  Processes: the scheduler is fair and switches to the process it picks; the process
  ids given stay unique and names terminated in every reachable state, and only a reply to the sender \<open>- 1\<close> makes a process
  without an id; a program starts at its entry point with exactly its own pages, with the rights of its ring,
  in frames that are not cleared, and sees its file there when the file is mapped in place; an interrupt reaches the process that asked for it,
  in its own address space.  Messages: what each system call does to memory, queues and process states;
  a message sent is the message received, whether the receiver or the sender comes first,
  and the answer arrives where the sender asked for it; over any sequence of calls, the
  heap nodes in use are those in the queues and each is in one queue only.
  Output: the formatter equals a reference renderer, the screens refine a terminal, and what
  several processors print never mixes.
  Archives round trip from the host tool to the kernel.  The composition: the shell echoes,
  through three other processes, the keys the keyboard server delivers, which are those typed, less the ones that come before the last
  one has been answered.  Where the code does not do what it means
  to, the theorem says what it does instead (frees too much, overcommits the heap, leaves
  the memory map array, leaves the scheduler off, faults on a message across two pages, loses keys, wakes an unused slot).

  \<^bold>\<open>Bounds and fuel.\<close>  Only the search of \<open>kalloc\<close> has fuel, \<open>2 ^ 32\<close>: it changes nothing and
  visits one address per step, so a longer search is one that never ends; the theorems on
  \<open>kalloc\<close> say that it returns.  Polling loops on a device are \<open>partial_function\<close>s on the input
  stream of a port; the theorems assume only that the device becomes ready again and again.
  Endless main loops are modelled by their body and by runs of any finite number of rounds.

  \<^bold>\<open>Not modelled.\<close>  The TLB and the accessed and dirty bits; privilege checks of the page walk
  (the kernel runs in ring 0); the interrupt flag, so an interrupt is an explicit step; the
  boot loader, the entry stubs and the trampoline in assembly; console messages inside most
  kernel functions; \<^verbatim>\<open>drivers/angle.c\<close>, which only counts; the kinds of list in the vendored
  \<^verbatim>\<open>queue.h\<close> other than the tail queue of messages.  The programs of \<open>Userland\<close> exchange
  messages directly; that the kernel carries them from buffer to buffer is shown in \<open>Send\<close>
  and \<open>Deliver\<close>, for buffers within a page.
  \<open>Spinlock\<close> interleaves whole steps: the processors see one another's writes in order.
\<close>

end
